(* ===== verification/Gem5_Prelude.thy ===== *)
theory Gem5_Prelude
  imports Main "HOL-Library.Word" "HOL-Library.Monad_Syntax"
begin

unbundle bit_operations_syntax

section \<open>Shared vocabulary of the development\<close>

text \<open>
  Fixed-width integers, assertions, and the linear searches over arrays that the modelled
  C++ code is full of.  Nothing here models one particular source file: it is the part of
  the language and of the generic list and word reasoning that the component theories share.

  \<^item> \<open>uint64_t\<close>, \<open>Addr\<close> and \<open>Tick\<close> are \<open>64 word\<close>, \<open>uint32_t\<close> is \<open>32 word\<close>: addition wraps.
    Array indices and loop counters, which the code keeps below small constants, are \<open>nat\<close>.
  \<^item> A C array is a list of its length; \<open>a[i] = v\<close> is \<open>a[i := v]\<close>.  The components prove that
    the indices they use are in range.
  \<^item> \<open>assert(b)\<close> and \<open>panic\<close> abort the simulation.  A function that contains one returns
    an \<open>option\<close>; \<open>None\<close> is the abort.
  \<^item> \<open>for (i = 0; i < N; i++) if (P(a[i])) return i; return N;\<close> is \<open>find_index P a\<close>.
\<close>

type_synonym u64 = "64 word"
type_synonym u32 = "32 word"
type_synonym u8 = "8 word"

named_theorems array_simps \<open>reading and writing arrays at in-range indices\<close>

subsection \<open>Assertions\<close>

definition c_assert :: "bool \<Rightarrow> unit option" where
  "c_assert b = (if b then Some () else None)"

lemma c_assert_simps [simp]:
  "c_assert True = Some ()"
  "c_assert False = None"
  "c_assert b = Some u \<longleftrightarrow> b"
  "c_assert b = None \<longleftrightarrow> \<not> b"
  by (simp_all add: c_assert_def)

lemma bind_c_assert [simp]:
  "Option.bind (c_assert b) f = (if b then f () else None)"
  by (simp add: c_assert_def)

lemma bind_if_None [simp]:
  "Option.bind (if b then x else None) f = (if b then Option.bind x f else None)"
  by simp

subsection \<open>Linear search\<close>

fun find_index :: "('a \<Rightarrow> bool) \<Rightarrow> 'a list \<Rightarrow> nat" where
  "find_index P [] = 0"
| "find_index P (x # xs) = (if P x then 0 else Suc (find_index P xs))"

lemma find_index_le [simp]: "find_index P xs \<le> length xs"
  by (induction xs) auto

lemma find_index_less_iff: "find_index P xs < length xs \<longleftrightarrow> (\<exists>x \<in> set xs. P x)"
  by (induction xs) auto

lemma find_index_eq_length_iff: "find_index P xs = length xs \<longleftrightarrow> (\<forall>x \<in> set xs. \<not> P x)"
  by (induction xs) auto

lemma find_index_sat: "find_index P xs < length xs \<Longrightarrow> P (xs ! find_index P xs)"
  by (induction xs) auto

lemma find_index_min: "i < find_index P xs \<Longrightarrow> \<not> P (xs ! i)"
  by (induction xs arbitrary: i) (auto simp: nth_Cons split: nat.splits if_splits)

lemma find_index_eqI:
  assumes "i < length xs" and "P (xs ! i)" and "\<And>j. j < i \<Longrightarrow> \<not> P (xs ! j)"
  shows "find_index P xs = i"
proof (rule antisym)
  show "find_index P xs \<le> i"
    using assms(1,2) find_index_min [of i P xs] by (meson not_le)
  have "find_index P xs < length xs"
    using assms(1,2) by (auto simp: find_index_less_iff)
  then have "P (xs ! find_index P xs)"
    by (rule find_index_sat)
  with assms(3) show "i \<le> find_index P xs"
    by (meson not_le)
qed

lemma find_index_replicate [simp]:
  "find_index P (replicate n x) = (if P x \<and> 0 < n then 0 else n)"
  by (induction n) auto

lemma find_index_cong:
  "(\<And>x. x \<in> set xs \<Longrightarrow> P x = Q x) \<Longrightarrow> find_index P xs = find_index Q xs"
  by (induction xs) auto

subsection \<open>Array updates\<close>

lemma nth_update_eq [array_simps]: "i < length xs \<Longrightarrow> xs[i := v] ! i = v"
  by simp

lemma nth_update_neq [array_simps]: "i \<noteq> j \<Longrightarrow> xs[i := v] ! j = xs ! j"
  by simp

lemma nth_update_if: "j < length xs \<Longrightarrow> xs[i := v] ! j = (if i = j then v else xs ! j)"
  by (simp add: nth_list_update)

lemma ball_set_update:
  "(\<forall>x \<in> set xs. P x) \<Longrightarrow> P v \<Longrightarrow> \<forall>x \<in> set (xs[i := v]). P x"
  using set_update_subset_insert [of xs i v] by blast

lemma list_all_update: "list_all P xs \<Longrightarrow> P v \<Longrightarrow> list_all P (xs[i := v])"
  unfolding list_all_iff by (rule ball_set_update)

lemma list_all_nth: "list_all P xs \<Longrightarrow> i < length xs \<Longrightarrow> P (xs ! i)"
  by (simp add: list_all_length)

lemma list_all_replicate: "P x \<Longrightarrow> list_all P (replicate n x)"
  by (simp add: list_all_iff)

lemma sum_list_rotate:
  fixes xs :: "'a::comm_monoid_add list"
  shows "sum_list (rotate n xs) = sum_list xs"
proof (induction n)
  case (Suc n)
  have "sum_list (rotate1 ys) = sum_list ys" for ys :: "'a list"
    by (cases ys) (simp_all add: add.commute)
  then show ?case using Suc by simp
qed simp

subsection \<open>Words\<close>

text \<open>\<open>((uint64_t)1 << n) - 1\<close> is the mask of the low \<open>n\<close> bits, for \<open>n\<close> up to the width.\<close>

lemma push_bit_1_minus_1: "push_bit n (1 :: 'a::len word) - 1 = mask n"
  by (simp add: mask_eq_exp_minus_1 push_bit_eq_mult)

lemma and_push_bit_mask: "x AND (push_bit n (1 :: 'a::len word) - 1) = take_bit n x"
  by (simp only: push_bit_1_minus_1 take_bit_eq_mask)

lemma drop_bit_mono_eq:
  fixes x y :: "'a::len word"
  assumes "drop_bit m x = drop_bit m y" and "m \<le> n"
  shows "drop_bit n x = drop_bit n y"
proof -
  have "drop_bit n z = drop_bit (n - m) (drop_bit m z)" for z :: "'a word"
    using assms(2) by (simp add: drop_bit_drop_bit)
  then show ?thesis using assms(1) by metis
qed

lemma word_split_bits:
  fixes x :: "'a::len word"
  shows "push_bit n (drop_bit n x) OR take_bit n x = x"
  by (rule bit_word_eqI) (auto simp: bit_simps)

lemma drop_bit_combine:
  fixes x y :: "'a::len word"
  shows "drop_bit n (push_bit n (drop_bit n x) OR take_bit n y) = drop_bit n x"
  by (rule bit_word_eqI) (auto simp: bit_simps dest: bit_imp_le_length)

lemma take_bit_combine:
  fixes x y :: "'a::len word"
  shows "take_bit n (push_bit n (drop_bit n x) OR take_bit n y) = take_bit n y"
  by (rule bit_word_eqI) (auto simp: bit_simps)

lemma unat_ucast_u32_u64 [simp]: "unat (ucast (x :: u32) :: u64) = unat x"
proof -
  have "unat x < 2 ^ 64" using unsigned_less [of x, where ?'a = nat] by simp
  then show ?thesis by (simp add: unsigned_ucast_eq take_bit_nat_eq_self)
qed

lemma unat_ucast_u64_u32: "unat (ucast (x :: u64) :: u32) = unat x mod 2 ^ 32"
  by (simp add: unsigned_ucast_eq take_bit_eq_mod)

lemma unat_add_le: "unat (a + b :: 'a::len word) \<le> unat a + unat b"
  by (simp add: unat_word_ariths(1))

lemma ucast_u64_u32_le: "unat x \<le> unat (y :: u32) \<Longrightarrow> (ucast (x :: u64) :: u32) \<le> y"
  unfolding word_le_nat_alt unat_ucast_u64_u32 by (meson le_trans mod_less_eq_dividend)

end
