(* ===== verification/EIP_Format.thy ===== *)
theory EIP_Format
  imports Gem5_Prelude
begin

section \<open>EIP: latencies and compressed destinations\<close>

text \<open>
  The arithmetic core of the entangling instruction prefetcher
  (\<open>mem/cache/prefetch/eip.hh\<close>, lines 40 to 180): the wrap-around latency of a miss and the
  seven compression formats of a destination line.  A destination is stored relative to
  its source line: format \<open>f\<close> keeps the low \<open>L1I_ENTANGLED_FORMATS[f - 1]\<close> bits of the
  destination and takes the rest from the source.

  The lemmas show that the latency is the difference of the two cycle counts modulo
  \<open>2\<^sup>1\<^sup>2\<close>, that \<open>l1i_get_format_entangled\<close> picks the tightest format and never reaches its
  \<open>assert(false)\<close> on line addresses, and that compressing and extending is lossless.
\<close>

subsection \<open>Constants\<close>

definition LOG2_BLOCK_SIZE :: nat where [simp]: "LOG2_BLOCK_SIZE = 6"

definition L1I_TIME_BITS :: nat where [simp]: "L1I_TIME_BITS = 12"

definition L1I_TIME_OVERFLOW :: u64 where "L1I_TIME_OVERFLOW = push_bit L1I_TIME_BITS 1"

definition L1I_TIME_MASK :: u64 where "L1I_TIME_MASK = L1I_TIME_OVERFLOW - 1"

definition L1I_ENTANGLED_NUM_FORMATS :: nat where [simp]: "L1I_ENTANGLED_NUM_FORMATS = 6"

definition L1I_ENTANGLED_FORMATS :: "nat list" where
  "L1I_ENTANGLED_FORMATS = [58, 28, 18, 13, 10, 8, 6]"

subsection \<open>Cycles and latencies\<close>

text \<open>\<open>curTick()\<close> is the global simulated time; it is an argument of everything that reads it.\<close>

definition get_l1i_current_cycle :: "u64 \<Rightarrow> u64" where
  "get_l1i_current_cycle curTick = curTick div 500"

definition l1i_get_latency :: "u64 \<Rightarrow> u64 \<Rightarrow> u64" where
  "l1i_get_latency cycle cycle_prev =
     (let cycle_masked = cycle AND L1I_TIME_MASK;
          cycle_prev_masked = cycle_prev AND L1I_TIME_MASK
      in if cycle_prev_masked > cycle_masked
         then (cycle_masked + L1I_TIME_OVERFLOW) - cycle_prev_masked
         else cycle_masked - cycle_prev_masked)"

subsection \<open>Formats\<close>

text \<open>
  The loop runs \<open>i\<close> from \<open>L1I_ENTANGLED_NUM_FORMATS\<close> down to 1; falling out of it is
  \<open>assert(false)\<close>.
\<close>

fun l1i_get_format_loop :: "nat \<Rightarrow> u64 \<Rightarrow> u64 \<Rightarrow> nat option" where
  "l1i_get_format_loop 0 line_addr entangled_addr = None"
| "l1i_get_format_loop (Suc i) line_addr entangled_addr =
     (if drop_bit (L1I_ENTANGLED_FORMATS ! i) line_addr
         = drop_bit (L1I_ENTANGLED_FORMATS ! i) entangled_addr
      then Some (Suc i)
      else l1i_get_format_loop i line_addr entangled_addr)"

definition l1i_get_format_entangled :: "u64 \<Rightarrow> u64 \<Rightarrow> nat option" where
  "l1i_get_format_entangled line_addr entangled_addr =
     l1i_get_format_loop L1I_ENTANGLED_NUM_FORMATS line_addr entangled_addr"

definition l1i_extend_format_entangled :: "u64 \<Rightarrow> u64 \<Rightarrow> nat \<Rightarrow> u64" where
  "l1i_extend_format_entangled line_addr entangled_addr format =
     push_bit (L1I_ENTANGLED_FORMATS ! (format - 1))
       (drop_bit (L1I_ENTANGLED_FORMATS ! (format - 1)) line_addr)
     OR (entangled_addr AND (push_bit (L1I_ENTANGLED_FORMATS ! (format - 1)) 1 - 1))"

definition l1i_compress_format_entangled :: "u64 \<Rightarrow> nat \<Rightarrow> u64" where
  "l1i_compress_format_entangled entangled_addr format =
     entangled_addr AND (push_bit (L1I_ENTANGLED_FORMATS ! (format - 1)) 1 - 1)"

text \<open>
  A line address is an address without its block offset, so its top \<open>LOG2_BLOCK_SIZE\<close> bits
  are clear.  A format is one the loop can return.
\<close>

definition is_line_addr :: "u64 \<Rightarrow> bool" where
  "is_line_addr a \<longleftrightarrow> drop_bit 58 a = 0"

definition is_format :: "nat \<Rightarrow> bool" where
  "is_format f \<longleftrightarrow> 1 \<le> f \<and> f \<le> L1I_ENTANGLED_NUM_FORMATS"

subsection \<open>The latency is the elapsed time modulo \<open>2\<^sup>1\<^sup>2\<close>\<close>

lemma L1I_TIME_MASK_eq: "L1I_TIME_MASK = mask 12"
  unfolding L1I_TIME_MASK_def L1I_TIME_OVERFLOW_def L1I_TIME_BITS_def
  by (rule push_bit_1_minus_1)

lemma uint_and_TIME_MASK: "uint (x AND L1I_TIME_MASK) = uint x mod 4096"
  unfolding L1I_TIME_MASK_eq take_bit_eq_mask [symmetric]
  by (simp add: take_bit_eq_mod uint_mod)

lemma wrap_diff_mod:
  fixes a b n :: int
  assumes "0 \<le> a" "a < n" "0 \<le> b" "b < n"
  shows "(if b > a then a + n - b else a - b) = (a - b) mod n"
proof (cases "b > a")
  case True
  have "(a - b) mod n = (a - b + n) mod n" by simp
  also have "\<dots> = a - b + n" using assms True by (intro mod_pos_pos_trivial) auto
  finally show ?thesis using True by simp
next
  case False
  then show ?thesis using assms by (simp add: mod_pos_pos_trivial)
qed

lemma uint_l1i_get_latency: "uint (l1i_get_latency c p) = (uint c - uint p) mod 4096"
proof -
  have "uint (l1i_get_latency c p) =
      (if uint p mod 4096 > uint c mod 4096 then uint c mod 4096 + 4096 - uint p mod 4096
       else uint c mod 4096 - uint p mod 4096)"
    by (auto simp: l1i_get_latency_def Let_def word_less_def uint_and_TIME_MASK
        L1I_TIME_OVERFLOW_def uint_word_ariths push_bit_eq_mult)
  also have "\<dots> = (uint c mod 4096 - uint p mod 4096) mod 4096"
    by (rule wrap_diff_mod) simp_all
  finally show ?thesis by (simp only: mod_diff_eq)
qed

lemma l1i_get_latency_less: "l1i_get_latency c p < 4096"
  by (simp add: word_less_def uint_l1i_get_latency)

subsection \<open>Lossless compression\<close>

lemma formats_nth_le: "i < L1I_ENTANGLED_NUM_FORMATS \<Longrightarrow> L1I_ENTANGLED_FORMATS ! i \<le> 58"
  by (auto simp: L1I_ENTANGLED_FORMATS_def nth_Cons less_Suc_eq numeral_eq_Suc split: nat.splits)

lemma formats_antimono:
  "i \<le> j \<Longrightarrow> j < L1I_ENTANGLED_NUM_FORMATS \<Longrightarrow>
   L1I_ENTANGLED_FORMATS ! j \<le> L1I_ENTANGLED_FORMATS ! i"
  by (auto simp: L1I_ENTANGLED_FORMATS_def nth_Cons less_Suc_eq numeral_eq_Suc split: nat.splits)

lemma extend_format_alt:
  "l1i_extend_format_entangled l e f =
     push_bit (L1I_ENTANGLED_FORMATS ! (f - 1)) (drop_bit (L1I_ENTANGLED_FORMATS ! (f - 1)) l)
     OR take_bit (L1I_ENTANGLED_FORMATS ! (f - 1)) e"
  by (simp only: l1i_extend_format_entangled_def and_push_bit_mask)

lemma compress_format_alt:
  "l1i_compress_format_entangled e f = take_bit (L1I_ENTANGLED_FORMATS ! (f - 1)) e"
  by (simp only: l1i_compress_format_entangled_def and_push_bit_mask)

lemma get_format_loop_Some:
  "l1i_get_format_loop n l e = Some f \<Longrightarrow>
   1 \<le> f \<and> f \<le> n \<and>
   drop_bit (L1I_ENTANGLED_FORMATS ! (f - 1)) l = drop_bit (L1I_ENTANGLED_FORMATS ! (f - 1)) e \<and>
   (\<forall>g. f < g \<and> g \<le> n \<longrightarrow>
     drop_bit (L1I_ENTANGLED_FORMATS ! (g - 1)) l \<noteq> drop_bit (L1I_ENTANGLED_FORMATS ! (g - 1)) e)"
  by (induction n) (auto split: if_splits simp: le_Suc_eq)

lemma get_format_loop_ge:
  "1 \<le> g \<Longrightarrow> g \<le> n \<Longrightarrow>
   drop_bit (L1I_ENTANGLED_FORMATS ! (g - 1)) l = drop_bit (L1I_ENTANGLED_FORMATS ! (g - 1)) e \<Longrightarrow>
   \<exists>f. l1i_get_format_loop n l e = Some f \<and> g \<le> f"
  by (induction n) (auto simp: le_Suc_eq)

lemma get_format_is_format: "l1i_get_format_entangled l e = Some f \<Longrightarrow> is_format f"
  using get_format_loop_Some unfolding l1i_get_format_entangled_def is_format_def by blast

lemma get_format_drop:
  assumes "l1i_get_format_entangled l e = Some f" and "1 \<le> g" and "g \<le> f"
  shows "drop_bit (L1I_ENTANGLED_FORMATS ! (g - 1)) l = drop_bit (L1I_ENTANGLED_FORMATS ! (g - 1)) e"
proof (rule drop_bit_mono_eq)
  show "drop_bit (L1I_ENTANGLED_FORMATS ! (f - 1)) l = drop_bit (L1I_ENTANGLED_FORMATS ! (f - 1)) e"
    using assms(1) get_format_loop_Some unfolding l1i_get_format_entangled_def by blast
  have "is_format f" using assms(1) by (rule get_format_is_format)
  then show "L1I_ENTANGLED_FORMATS ! (f - 1) \<le> L1I_ENTANGLED_FORMATS ! (g - 1)"
    using assms(2,3) by (intro formats_antimono) (auto simp: is_format_def)
qed

lemma get_format_total:
  assumes "is_line_addr l" and "is_line_addr e"
  shows "\<exists>f. l1i_get_format_entangled l e = Some f"
proof -
  have "drop_bit (L1I_ENTANGLED_FORMATS ! (1 - 1)) l = drop_bit (L1I_ENTANGLED_FORMATS ! (1 - 1)) e"
    using assms by (simp add: is_line_addr_def L1I_ENTANGLED_FORMATS_def)
  then have "\<exists>f. l1i_get_format_loop L1I_ENTANGLED_NUM_FORMATS l e = Some f \<and> 1 \<le> f"
    by (intro get_format_loop_ge) auto
  then show ?thesis
    unfolding l1i_get_format_entangled_def by blast
qed

lemma extend_compress:
  assumes "l1i_get_format_entangled l e = Some f" and "1 \<le> g" and "g \<le> f"
  shows "l1i_extend_format_entangled l (l1i_compress_format_entangled e g) g = e"
  unfolding extend_format_alt compress_format_alt get_format_drop [OF assms]
  by (simp add: word_split_bits)

lemma get_format_extend:
  assumes "is_format f" and "is_line_addr l"
  shows "\<exists>g. l1i_get_format_entangled l (l1i_extend_format_entangled l a f) = Some g \<and> f \<le> g"
  unfolding l1i_get_format_entangled_def extend_format_alt
proof (rule get_format_loop_ge)
  show "1 \<le> f" "f \<le> L1I_ENTANGLED_NUM_FORMATS"
    using assms(1) by (simp_all only: is_format_def)
qed (simp only: drop_bit_combine)

lemma extend_is_line_addr:
  assumes "is_format f" and "is_line_addr l"
  shows "is_line_addr (l1i_extend_format_entangled l a f)"
proof -
  let ?n = "L1I_ENTANGLED_FORMATS ! (f - 1)"
  have "?n \<le> 58" using assms(1) by (intro formats_nth_le) (auto simp: is_format_def)
  have "drop_bit ?n (l1i_extend_format_entangled l a f) = drop_bit ?n l"
    by (simp only: extend_format_alt drop_bit_combine)
  then have "drop_bit 58 (l1i_extend_format_entangled l a f) = drop_bit 58 l"
    using \<open>?n \<le> 58\<close> by (rule drop_bit_mono_eq)
  then show ?thesis using assms(2) by (simp add: is_line_addr_def)
qed

lemma is_line_addr_shift: "is_line_addr (drop_bit LOG2_BLOCK_SIZE a)"
  unfolding is_line_addr_def
  by (rule bit_word_eqI) (auto simp: bit_simps dest: bit_imp_le_length)

subsection \<open>Properties\<close>

text \<open>
  The latency that \<open>get_latency\<close> computes from two cycle counters, of which the earlier one
  is stored with 12 bits only, is the elapsed time modulo \<open>2\<^sup>1\<^sup>2\<close>, whatever the counters are.
\<close>

theorem latency_is_elapsed_time:
  "uint (l1i_get_latency cycle cycle_prev) = (uint cycle - uint cycle_prev) mod 2 ^ L1I_TIME_BITS"
  by (simp add: uint_l1i_get_latency L1I_TIME_BITS_def)

text \<open>
  For two line addresses the format search does not run into its assertion, and the format
  it returns is the one with the fewest bits whose dropped high bits agree.
\<close>

theorem format_is_tightest:
  assumes "is_line_addr line_addr" and "is_line_addr entangled_addr"
  shows "\<exists>f. l1i_get_format_entangled line_addr entangled_addr = Some f \<and> is_format f \<and>
    drop_bit (L1I_ENTANGLED_FORMATS ! (f - 1)) line_addr = drop_bit (L1I_ENTANGLED_FORMATS ! (f - 1)) entangled_addr \<and>
    (\<forall>g. f < g \<and> g \<le> L1I_ENTANGLED_NUM_FORMATS \<longrightarrow>
      drop_bit (L1I_ENTANGLED_FORMATS ! (g - 1)) line_addr \<noteq> drop_bit (L1I_ENTANGLED_FORMATS ! (g - 1)) entangled_addr)"
proof -
  obtain f where f: "l1i_get_format_entangled line_addr entangled_addr = Some f"
    using get_format_total [OF assms] by blast
  then show ?thesis
    using get_format_is_format [OF f] get_format_loop_Some [OF f [unfolded l1i_get_format_entangled_def]] by blast
qed

theorem format_is_tightest_witness:
  "\<exists>f. l1i_get_format_entangled 0x12345 0x12377 = Some f \<and> is_format f \<and>
    drop_bit (L1I_ENTANGLED_FORMATS ! (f - 1)) (0x12345 :: u64) = drop_bit (L1I_ENTANGLED_FORMATS ! (f - 1)) 0x12377"
proof -
  have "is_line_addr 0x12345" "is_line_addr 0x12377" by code_simp+
  from format_is_tightest [OF this] show ?thesis by blast
qed

text \<open>
  C33: storing a destination in its own format, or in any wider one, loses nothing: extending
  the compressed destination with the high bits of the source line gives it back.
\<close>

theorem compressed_destination_roundtrip:
  assumes "l1i_get_format_entangled line_addr entangled_addr = Some f" and "1 \<le> g" and "g \<le> f"
  shows "l1i_extend_format_entangled line_addr (l1i_compress_format_entangled entangled_addr g) g = entangled_addr"
  using assms by (rule extend_compress)

theorem compressed_destination_roundtrip_witness:
  "l1i_extend_format_entangled 0x12345 (l1i_compress_format_entangled 0x12377 4) 4 = 0x12377"
proof -
  have "l1i_get_format_entangled 0x12345 0x12377 = Some 6" by code_simp
  from compressed_destination_roundtrip [OF this, of 4] show ?thesis by simp
qed

end
