(* ===== verification/Tag_Table.thy ===== *)
theory Tag_Table
  imports Gem5_Prelude
begin

section \<open>Tables of tagged entries\<close>

text \<open>
  An array whose entries carry a valid bit and a tag and which is searched linearly.  The
  timing tables of the entangling prefetcher are of this kind.
  The locale \<open>tag_table\<close> states what the code relies on for one entry type; its lemmas
  relate the searches and the three kinds of update (fill a free slot, invalidate a found
  slot, change a slot in place) to the set of tags present.
\<close>

definition tags_of :: "('e \<Rightarrow> bool) \<Rightarrow> ('e \<Rightarrow> 'k) \<Rightarrow> 'e list \<Rightarrow> 'k set" where
  "tags_of valid tag tab = {tag e | e. e \<in> set tab \<and> valid e}"

definition distinct_tags :: "('e \<Rightarrow> bool) \<Rightarrow> ('e \<Rightarrow> 'k) \<Rightarrow> 'e list \<Rightarrow> bool" where
  "distinct_tags valid tag tab \<longleftrightarrow>
     (\<forall>i < length tab. \<forall>j < length tab. valid (tab ! i) \<and> valid (tab ! j) \<and> tag (tab ! i) = tag (tab ! j)
        \<longrightarrow> i = j)"

locale tag_table =
  fixes valid :: "'e \<Rightarrow> bool"
    and tag :: "'e \<Rightarrow> 'k"
    and clear :: "'e \<Rightarrow> 'e"
  assumes valid_clear: "\<not> valid (clear e)"
begin

lemma lookup_less_iff:
  "find_index (\<lambda>e. tag e = k \<and> valid e) tab < length tab \<longleftrightarrow> k \<in> tags_of valid tag tab"
  by (auto simp: find_index_less_iff tags_of_def)

lemma lookup_sat:
  assumes "find_index (\<lambda>e. tag e = k \<and> valid e) tab < length tab"
  shows "tag (tab ! find_index (\<lambda>e. tag e = k \<and> valid e) tab) = k"
    and "valid (tab ! find_index (\<lambda>e. tag e = k \<and> valid e) tab)"
  using find_index_sat [OF assms] by simp_all

lemma free_slot_invalid:
  "find_index (\<lambda>e. \<not> valid e) tab < length tab \<Longrightarrow> \<not> valid (tab ! find_index (\<lambda>e. \<not> valid e) tab)"
  using find_index_sat [of "\<lambda>e. \<not> valid e" tab] by simp

lemma tags_of_nth: "tags_of valid tag tab = {tag (tab ! i) | i. i < length tab \<and> valid (tab ! i)}"
  by (auto simp: tags_of_def in_set_conv_nth)

lemma lookup_unique:
  assumes "distinct_tags valid tag tab" "i < length tab" "valid (tab ! i)" "tag (tab ! i) = k"
  shows "find_index (\<lambda>e. tag e = k \<and> valid e) tab = i"
proof -
  have "find_index (\<lambda>e. tag e = k \<and> valid e) tab < length tab"
    using assms(2-4) by (auto simp: find_index_less_iff intro: nth_mem)
  from this lookup_sat [OF this] show ?thesis
    using assms unfolding distinct_tags_def by metis
qed

lemma fill_tags:
  assumes "i < length tab" "\<not> valid (tab ! i)" "valid e"
  shows "tags_of valid tag (tab[i := e]) = insert (tag e) (tags_of valid tag tab)"
  using assms by (auto simp: tags_of_nth nth_list_update)

lemma fill_distinct:
  assumes "distinct_tags valid tag tab" "i < length tab" "tag e \<notin> tags_of valid tag tab"
  shows "distinct_tags valid tag (tab[i := e])"
  unfolding distinct_tags_def
proof (intro allI impI)
  fix j k
  assume j: "j < length (tab[i := e])" and k: "k < length (tab[i := e])"
    and eq: "valid (tab[i := e] ! j) \<and> valid (tab[i := e] ! k) \<and> tag (tab[i := e] ! j) = tag (tab[i := e] ! k)"
  have new: "m < length tab \<Longrightarrow> valid (tab ! m) \<Longrightarrow> tag e \<noteq> tag (tab ! m)" for m
    using assms(3) unfolding tags_of_nth by blast
  show "j = k"
  proof (cases "j = i \<or> k = i")
    case True
    then show ?thesis using j k eq new [of j] new [of k] by (metis length_list_update nth_list_update)
  next
    case False
    then have "valid (tab ! j)" "valid (tab ! k)" "tag (tab ! j) = tag (tab ! k)"
      using eq by auto
    then show ?thesis
      using j k assms(1) unfolding distinct_tags_def length_list_update by blast
  qed
qed

lemma clear_tags:
  assumes "distinct_tags valid tag tab" "i < length tab" "valid (tab ! i)"
  shows "tags_of valid tag (tab[i := clear (tab ! i)]) = tags_of valid tag tab - {tag (tab ! i)}"
  using assms unfolding distinct_tags_def
  by (auto simp: tags_of_nth nth_list_update valid_clear)

lemma clear_distinct:
  assumes "distinct_tags valid tag tab"
  shows "distinct_tags valid tag (tab[i := clear (tab ! i)])"
  using assms by (cases "i < length tab")
    (auto simp: distinct_tags_def nth_list_update valid_clear list_update_beyond)

lemma modify_same:
  assumes "valid e = valid (tab ! i)" "tag e = tag (tab ! i)"
  shows "valid (tab[i := e] ! j) = valid (tab ! j)" "tag (tab[i := e] ! j) = tag (tab ! j)"
  using assms by (cases "i < length tab"; simp add: nth_list_update list_update_beyond)+

lemma modify_tags:
  assumes "valid e = valid (tab ! i)" "tag e = tag (tab ! i)"
  shows "tags_of valid tag (tab[i := e]) = tags_of valid tag tab"
  by (simp add: tags_of_nth modify_same [OF assms])

lemma modify_distinct:
  assumes "distinct_tags valid tag tab" "valid e = valid (tab ! i)" "tag e = tag (tab ! i)"
  shows "distinct_tags valid tag (tab[i := e])"
  using assms(1) unfolding distinct_tags_def by (simp add: modify_same [OF assms(2,3)])

lemma finite_tags: "finite (tags_of valid tag tab)"
  by (simp add: tags_of_nth)

lemma card_tags:
  assumes "distinct_tags valid tag tab"
  shows "card (tags_of valid tag tab) = card {i. i < length tab \<and> valid (tab ! i)}"
proof -
  have "tags_of valid tag tab = (\<lambda>i. tag (tab ! i)) ` {i. i < length tab \<and> valid (tab ! i)}"
    unfolding tags_of_nth by blast
  moreover have "inj_on (\<lambda>i. tag (tab ! i)) {i. i < length tab \<and> valid (tab ! i)}"
    using assms unfolding distinct_tags_def by (blast intro: inj_onI)
  ultimately show ?thesis by (simp add: card_image)
qed

lemma card_tags_le: "card (tags_of valid tag tab) \<le> length tab"
proof -
  have "tags_of valid tag tab \<subseteq> tag ` set tab" by (auto simp: tags_of_def)
  then have "card (tags_of valid tag tab) \<le> card (tag ` set tab)" by (rule card_mono [rotated]) simp
  also have "\<dots> \<le> card (set tab)" by (rule card_image_le) simp
  also have "\<dots> \<le> length tab" by (rule card_length)
  finally show ?thesis .
qed

lemma free_slot_iff:
  assumes "distinct_tags valid tag tab"
  shows "find_index (\<lambda>e. \<not> valid e) tab < length tab \<longleftrightarrow> card (tags_of valid tag tab) < length tab"
proof
  assume "find_index (\<lambda>e. \<not> valid e) tab < length tab"
  then have "{i. i < length tab \<and> valid (tab ! i)} \<subset> {..<length tab}"
    using free_slot_invalid by auto
  then show "card (tags_of valid tag tab) < length tab"
    using card_tags [OF assms] by (metis card_lessThan finite_lessThan psubset_card_mono)
next
  assume lt: "card (tags_of valid tag tab) < length tab"
  have "{i. i < length tab \<and> valid (tab ! i)} \<noteq> {..<length tab}"
    using lt card_tags [OF assms] by (metis card_lessThan nat_neq_iff)
  then show "find_index (\<lambda>e. \<not> valid e) tab < length tab"
    by (auto simp: find_index_less_iff)
qed

end

lemma tags_of_none_valid: "(\<And>e. e \<in> set tab \<Longrightarrow> \<not> valid e) \<Longrightarrow> tags_of valid tag tab = {}"
  by (auto simp: tags_of_def)

lemma distinct_tags_none_valid: "(\<And>e. e \<in> set tab \<Longrightarrow> \<not> valid e) \<Longrightarrow> distinct_tags valid tag tab"
  by (auto simp: distinct_tags_def)

end
