(* ===== verification/EIP_Timing.thy ===== *)
theory EIP_Timing
  imports EIP_Format Tag_Table
begin

section \<open>EIP: the timing tables\<close>

text \<open>
  The two tables in which the prefetcher mirrors the instruction cache (\<open>eip.hh\<close>, lines 88
  to 94 and 408 to 649): the timing MSHR table holds the lines that are being fetched, with
  the cycle of the request, and the timing cache holds the lines that are present, set by
  set.  Both remember which entangled-table entry asked for the line and whether the line
  has been accessed.

  The lemmas show that the two tables refine two sets of line addresses, the outstanding
  lines and the resident lines: a request adds to the first set, a fill moves a line to the
  second one, an invalidation removes it, and an access changes neither.  The assertions
  of the code fail exactly when a table is full.
\<close>

subsection \<open>Data\<close>

definition MAX_NUM_SET :: nat where [simp]: "MAX_NUM_SET = 64"
definition MAX_NUM_WAY :: nat where "MAX_NUM_WAY = 8"
definition L1I_SET_BITS :: nat where [simp]: "L1I_SET_BITS = 6"
definition L1I_TIMING_MSHR_SIZE :: nat where "L1I_TIMING_MSHR_SIZE = 1024"
definition L1I_ET_WAYS :: nat where "L1I_ET_WAYS = 16"

text \<open>
  Both masks are written with \<open>L1I_HIST_TAG_BITS\<close> in the source, not with the narrower tag
  widths defined beside them.
\<close>

definition L1I_TIMING_MSHR_TAG_MASK :: u64 where "L1I_TIMING_MSHR_TAG_MASK = push_bit 58 1 - 1"
definition L1I_TIMING_CACHE_TAG_MASK :: u64 where "L1I_TIMING_CACHE_TAG_MASK = push_bit 58 1 - 1"

record l1i_timing_mshr_entry =
  tm_valid :: bool
  tm_tag :: u64
  tm_source_set :: u32
  tm_source_way :: u32
  tm_timestamp :: u64
  tm_accessed :: bool
  tm_pos_hist :: nat

record l1i_timing_cache_entry =
  tc_valid :: bool
  tc_tag :: u64
  tc_source_set :: u32
  tc_source_way :: u32
  tc_accessed :: bool

record l1i_timing =
  l1i_timing_mshr_table :: "l1i_timing_mshr_entry list"
  l1i_timing_cache_table :: "l1i_timing_cache_entry list list"

text \<open>The set a line maps to, \<open>line_addr % MAX_NUM_SET\<close>, and its tag within the set.\<close>

definition tc_set :: "u64 \<Rightarrow> nat" where
  "tc_set line_addr = unat line_addr mod MAX_NUM_SET"

definition tc_line_tag :: "u64 \<Rightarrow> u64" where
  "tc_line_tag line_addr = drop_bit L1I_SET_BITS line_addr AND L1I_TIMING_CACHE_TAG_MASK"

subsection \<open>Operations\<close>

text \<open>Only the valid bits are initialised: everything else is what the memory held.\<close>

definition l1i_init_timing_tables :: "l1i_timing \<Rightarrow> l1i_timing" where
  "l1i_init_timing_tables t =
     \<lparr>l1i_timing_mshr_table = map (\<lambda>e. e\<lparr>tm_valid := False\<rparr>) (l1i_timing_mshr_table t),
      l1i_timing_cache_table = map (map (\<lambda>e. e\<lparr>tc_valid := False\<rparr>)) (l1i_timing_cache_table t)\<rparr>"

definition l1i_find_timing_mshr_entry :: "l1i_timing \<Rightarrow> u64 \<Rightarrow> nat" where
  "l1i_find_timing_mshr_entry t line_addr =
     find_index (\<lambda>e. tm_tag e = line_addr AND L1I_TIMING_MSHR_TAG_MASK \<and> tm_valid e)
       (l1i_timing_mshr_table t)"

definition l1i_find_timing_cache_entry :: "l1i_timing \<Rightarrow> u64 \<Rightarrow> nat" where
  "l1i_find_timing_cache_entry t line_addr =
     find_index (\<lambda>e. tc_tag e = tc_line_tag line_addr \<and> tc_valid e)
       (l1i_timing_cache_table t ! tc_set line_addr)"

definition l1i_get_invalid_timing_mshr_entry :: "l1i_timing \<Rightarrow> nat option" where
  "l1i_get_invalid_timing_mshr_entry t = do {
     let i = find_index (\<lambda>e. \<not> tm_valid e) (l1i_timing_mshr_table t);
     c_assert (i < L1I_TIMING_MSHR_SIZE);
     Some i
   }"

definition l1i_get_invalid_timing_cache_entry :: "l1i_timing \<Rightarrow> u64 \<Rightarrow> nat option" where
  "l1i_get_invalid_timing_cache_entry t line_addr = do {
     let j = find_index (\<lambda>e. \<not> tc_valid e) (l1i_timing_cache_table t ! tc_set line_addr);
     c_assert (j < MAX_NUM_WAY);
     Some j
   }"

definition tm_update :: "l1i_timing \<Rightarrow> nat \<Rightarrow> (l1i_timing_mshr_entry \<Rightarrow> l1i_timing_mshr_entry) \<Rightarrow> l1i_timing" where
  "tm_update t i f = t\<lparr>l1i_timing_mshr_table :=
     (l1i_timing_mshr_table t)[i := f (l1i_timing_mshr_table t ! i)]\<rparr>"

definition tc_update ::
    "l1i_timing \<Rightarrow> nat \<Rightarrow> nat \<Rightarrow> (l1i_timing_cache_entry \<Rightarrow> l1i_timing_cache_entry) \<Rightarrow> l1i_timing" where
  "tc_update t i j f = t\<lparr>l1i_timing_cache_table := (l1i_timing_cache_table t)
     [i := (l1i_timing_cache_table t ! i)[j := f (l1i_timing_cache_table t ! i ! j)]]\<rparr>"

definition l1i_add_timing_entry :: "u64 \<Rightarrow> l1i_timing \<Rightarrow> u64 \<Rightarrow> u32 \<Rightarrow> u32 \<Rightarrow> l1i_timing option" where
  "l1i_add_timing_entry curTick t line_addr source_set source_way =
     (if l1i_find_timing_mshr_entry t line_addr < L1I_TIMING_MSHR_SIZE then Some t
      else if l1i_find_timing_cache_entry t line_addr < MAX_NUM_WAY then Some t
      else do {
        i \<leftarrow> l1i_get_invalid_timing_mshr_entry t;
        let l1i_current_cycle = get_l1i_current_cycle curTick;
        Some (tm_update t i (\<lambda>e. e\<lparr>
          tm_valid := True,
          tm_tag := line_addr AND L1I_TIMING_MSHR_TAG_MASK,
          tm_source_set := source_set,
          tm_source_way := source_way,
          tm_timestamp := l1i_current_cycle AND L1I_TIME_MASK,
          tm_accessed := False\<rparr>))
      })"

definition l1i_invalid_timing_mshr_entry :: "l1i_timing \<Rightarrow> u64 \<Rightarrow> l1i_timing option" where
  "l1i_invalid_timing_mshr_entry t line_addr = do {
     let index = l1i_find_timing_mshr_entry t line_addr;
     c_assert (index < L1I_TIMING_MSHR_SIZE);
     Some (tm_update t index (\<lambda>e. e\<lparr>tm_valid := False\<rparr>))
   }"

definition l1i_move_timing_entry :: "l1i_timing \<Rightarrow> u64 \<Rightarrow> l1i_timing option" where
  "l1i_move_timing_entry t line_addr = do {
     let index_mshr = l1i_find_timing_mshr_entry t line_addr;
     let s = tc_set line_addr;
     index_cache \<leftarrow> l1i_get_invalid_timing_cache_entry t line_addr;
     if index_mshr = L1I_TIMING_MSHR_SIZE then
       Some (tc_update t s index_cache (\<lambda>e. e\<lparr>
         tc_valid := True,
         tc_tag := tc_line_tag line_addr,
         tc_source_way := of_nat L1I_ET_WAYS,
         tc_accessed := True\<rparr>))
     else do {
       let m = l1i_timing_mshr_table t ! index_mshr;
       l1i_invalid_timing_mshr_entry (tc_update t s index_cache (\<lambda>e. e\<lparr>
         tc_valid := True,
         tc_tag := tc_line_tag line_addr,
         tc_source_set := tm_source_set m,
         tc_source_way := tm_source_way m,
         tc_accessed := tm_accessed m\<rparr>)) line_addr
     }
   }"

text \<open>The reference parameters \<open>source_set\<close> and \<open>source_way\<close> are results.\<close>

definition l1i_invalid_timing_cache_entry ::
    "l1i_timing \<Rightarrow> u64 \<Rightarrow> (bool \<times> u32 \<times> u32 \<times> l1i_timing) option" where
  "l1i_invalid_timing_cache_entry t line_addr = do {
     let s = tc_set line_addr;
     let way = l1i_find_timing_cache_entry t line_addr;
     c_assert (way < MAX_NUM_WAY);
     let e = l1i_timing_cache_table t ! s ! way;
     Some (tc_accessed e, tc_source_set e, tc_source_way e,
           tc_update t s way (\<lambda>e. e\<lparr>tc_valid := False\<rparr>))
   }"

definition l1i_access_timing_entry :: "l1i_timing \<Rightarrow> u64 \<Rightarrow> nat \<Rightarrow> l1i_timing" where
  "l1i_access_timing_entry t line_addr pos_hist =
     (let index = l1i_find_timing_mshr_entry t line_addr in
      if index < L1I_TIMING_MSHR_SIZE then
        (if \<not> tm_accessed (l1i_timing_mshr_table t ! index)
         then tm_update t index (\<lambda>e. e\<lparr>tm_accessed := True, tm_pos_hist := pos_hist\<rparr>)
         else t)
      else
        (let s = tc_set line_addr; way = l1i_find_timing_cache_entry t line_addr in
         if way < MAX_NUM_WAY then tc_update t s way (\<lambda>e. e\<lparr>tc_accessed := True\<rparr>) else t))"

definition l1i_different_timing_entry_src :: "l1i_timing \<Rightarrow> u64 \<Rightarrow> u32 \<Rightarrow> u32 \<Rightarrow> bool" where
  "l1i_different_timing_entry_src t line_addr source_set source_way =
     (let index = l1i_find_timing_mshr_entry t line_addr;
          m = l1i_timing_mshr_table t ! index in
      if index < L1I_TIMING_MSHR_SIZE \<and>
         (tm_source_set m \<noteq> source_set \<or> tm_source_way m \<noteq> source_way) then True
      else
        (let s = tc_set line_addr; way = l1i_find_timing_cache_entry t line_addr;
             c = l1i_timing_cache_table t ! s ! way in
         way < MAX_NUM_WAY \<and> (tc_source_set c \<noteq> source_set \<or> tc_source_way c \<noteq> source_way)))"

definition l1i_is_accessed_timing_entry :: "l1i_timing \<Rightarrow> u64 \<Rightarrow> bool" where
  "l1i_is_accessed_timing_entry t line_addr =
     (let index = l1i_find_timing_mshr_entry t line_addr in
      if index < L1I_TIMING_MSHR_SIZE then tm_accessed (l1i_timing_mshr_table t ! index)
      else
        (let s = tc_set line_addr; way = l1i_find_timing_cache_entry t line_addr in
         if way < MAX_NUM_WAY then tc_accessed (l1i_timing_cache_table t ! s ! way) else False))"

definition l1i_completed_request :: "l1i_timing \<Rightarrow> u64 \<Rightarrow> bool" where
  "l1i_completed_request t line_addr = (l1i_find_timing_cache_entry t line_addr < MAX_NUM_WAY)"

definition l1i_ongoing_request :: "l1i_timing \<Rightarrow> u64 \<Rightarrow> bool" where
  "l1i_ongoing_request t line_addr = (l1i_find_timing_mshr_entry t line_addr < L1I_TIMING_MSHR_SIZE)"

definition l1i_ongoing_accessed_request :: "l1i_timing \<Rightarrow> u64 \<Rightarrow> bool" where
  "l1i_ongoing_accessed_request t line_addr =
     (let index = l1i_find_timing_mshr_entry t line_addr in
      if index = L1I_TIMING_MSHR_SIZE then False else tm_accessed (l1i_timing_mshr_table t ! index))"

text \<open>The latency and the possibly updated \<open>pos_hist\<close>.\<close>

definition l1i_get_latency_timing_mshr :: "u64 \<Rightarrow> l1i_timing \<Rightarrow> u64 \<Rightarrow> nat \<Rightarrow> u64 \<times> nat" where
  "l1i_get_latency_timing_mshr curTick t line_addr pos_hist =
     (let index = l1i_find_timing_mshr_entry t line_addr in
      if index = L1I_TIMING_MSHR_SIZE then (0, pos_hist)
      else
        (let m = l1i_timing_mshr_table t ! index in
         if \<not> tm_accessed m then (0, pos_hist)
         else (l1i_get_latency (get_l1i_current_cycle curTick) (tm_timestamp m), tm_pos_hist m)))"

subsection \<open>The sets of lines the tables stand for\<close>

interpretation tm: tag_table tm_valid tm_tag "\<lambda>e. e\<lparr>tm_valid := False\<rparr>"
  by unfold_locales simp

interpretation tc: tag_table tc_valid tc_tag "\<lambda>e. e\<lparr>tc_valid := False\<rparr>"
  by unfold_locales simp

definition outstanding :: "l1i_timing \<Rightarrow> u64 set" where
  "outstanding t = tags_of tm_valid tm_tag (l1i_timing_mshr_table t)"

definition resident :: "l1i_timing \<Rightarrow> u64 set" where
  "resident t = {l. is_line_addr l \<and>
     tc_line_tag l \<in> tags_of tc_valid tc_tag (l1i_timing_cache_table t ! tc_set l)}"

definition timing_shape :: "l1i_timing \<Rightarrow> bool" where
  "timing_shape t \<longleftrightarrow> length (l1i_timing_mshr_table t) = L1I_TIMING_MSHR_SIZE \<and>
     length (l1i_timing_cache_table t) = MAX_NUM_SET \<and>
     (\<forall>s < MAX_NUM_SET. length (l1i_timing_cache_table t ! s) = MAX_NUM_WAY)"

definition wf_timing :: "l1i_timing \<Rightarrow> bool" where
  "wf_timing t \<longleftrightarrow> timing_shape t \<and>
     distinct_tags tm_valid tm_tag (l1i_timing_mshr_table t) \<and>
     (\<forall>s < MAX_NUM_SET. distinct_tags tc_valid tc_tag (l1i_timing_cache_table t ! s) \<and>
        (\<forall>k \<in> tags_of tc_valid tc_tag (l1i_timing_cache_table t ! s). drop_bit 52 k = 0)) \<and>
     outstanding t \<inter> resident t = {}"

lemma MAX_NUM_WAY_pos [simp]: "0 < MAX_NUM_WAY"
  by (simp add: MAX_NUM_WAY_def)

lemma tc_set_less [simp]: "tc_set l < 64"
  by (simp add: tc_set_def)

lemma tm_mask: "is_line_addr l \<Longrightarrow> l AND L1I_TIMING_MSHR_TAG_MASK = l"
  unfolding L1I_TIMING_MSHR_TAG_MASK_def and_push_bit_mask
  by (simp add: is_line_addr_def take_bit_eq_self_iff_drop_bit_eq_0)

lemma tc_line_tag_eq: "tc_line_tag l = drop_bit 6 l"
proof -
  have "take_bit 58 (drop_bit 6 l) = drop_bit 6 l" for l :: u64
    by (rule bit_word_eqI) (auto simp: bit_simps dest: bit_imp_le_length)
  then show ?thesis
    by (simp only: tc_line_tag_def L1I_TIMING_CACHE_TAG_MASK_def and_push_bit_mask L1I_SET_BITS_def)
qed

lemma tc_set_eq: "tc_set l = unat (take_bit 6 l)"
proof -
  have "unat (take_bit 6 l) = take_bit 6 (unat l)" by (rule unsigned_take_bit_eq)
  then show ?thesis by (simp add: tc_set_def take_bit_eq_mod)
qed

lemma tc_inj: "tc_set l = tc_set l' \<Longrightarrow> tc_line_tag l = tc_line_tag l' \<Longrightarrow> l = l'"
  unfolding tc_set_eq tc_line_tag_eq by (metis word_split_bits word_unat_eq_iff)

lemma tc_line_tag_small: "is_line_addr l \<Longrightarrow> drop_bit 52 (tc_line_tag l) = 0"
  by (simp add: tc_line_tag_eq is_line_addr_def)

lemma tc_surj:
  assumes "s < 64" "drop_bit 52 k = 0"
  obtains l where "is_line_addr l" "tc_set l = s" "tc_line_tag l = k"
proof
  let ?l = "push_bit 6 k OR of_nat s"
  have s: "take_bit 6 (of_nat s :: u64) = of_nat s"
    using assms(1) by (simp add: take_bit_of_nat take_bit_nat_eq_self)
  have k: "drop_bit 6 (push_bit 6 k) = k"
  proof (rule bit_word_eqI)
    fix n assume "n < LENGTH(64)"
    have "bit (drop_bit 52 k) (n - 52) = bit k n" if "52 \<le> n"
      using that by (simp add: bit_drop_bit_eq)
    with assms(2) have "\<not> bit k n" if "52 \<le> n" using that by simp
    then show "bit (drop_bit 6 (push_bit 6 k)) n = bit k n"
      using \<open>n < LENGTH(64)\<close> by (cases "52 \<le> n") (auto simp: bit_simps)
  qed
  have "drop_bit 6 ?l = drop_bit 6 (push_bit 6 k) OR drop_bit 6 (take_bit 6 (of_nat s))"
    by (simp only: s drop_bit_or)
  also have "\<dots> = k" by (simp only: k drop_bit_take_bit) simp
  finally show *: "tc_line_tag ?l = k" by (simp add: tc_line_tag_eq)
  have "take_bit 6 ?l = of_nat s"
    by (simp add: s take_bit_push_bit)
  then show "tc_set ?l = s" using assms(1) by (simp add: tc_set_eq unat_of_nat)
  have "drop_bit 58 ?l = drop_bit 52 (drop_bit 6 ?l)" by simp
  then show "is_line_addr ?l"
    using * assms(2) by (simp only: is_line_addr_def tc_line_tag_eq)
qed

subsection \<open>Updates of one entry\<close>

lemma tm_update_simps [simp]:
  "l1i_timing_cache_table (tm_update t i f) = l1i_timing_cache_table t"
  "l1i_timing_mshr_table (tm_update t i f) =
     (l1i_timing_mshr_table t)[i := f (l1i_timing_mshr_table t ! i)]"
  "resident (tm_update t i f) = resident t"
  "timing_shape (tm_update t i f) = timing_shape t"
  by (simp_all add: tm_update_def resident_def timing_shape_def)

lemma tc_update_simps [simp]:
  "l1i_timing_mshr_table (tc_update t i j f) = l1i_timing_mshr_table t"
  "outstanding (tc_update t i j f) = outstanding t"
  by (simp_all add: tc_update_def outstanding_def)

lemma tc_update_shape [simp]: "timing_shape t \<Longrightarrow> timing_shape (tc_update t i j f)"
  by (cases "i < 64") (auto simp: tc_update_def timing_shape_def nth_list_update list_update_beyond)

lemma tc_update_set:
  "timing_shape t \<Longrightarrow> s < 64 \<Longrightarrow>
   l1i_timing_cache_table (tc_update t i j f) ! s =
     (if s = i then (l1i_timing_cache_table t ! i)[j := f (l1i_timing_cache_table t ! i ! j)]
      else l1i_timing_cache_table t ! s)"
  by (simp add: tc_update_def timing_shape_def nth_list_update)

lemma shape_way: "timing_shape t \<Longrightarrow> s < 64 \<Longrightarrow> length (l1i_timing_cache_table t ! s) = MAX_NUM_WAY"
  by (simp add: timing_shape_def)

lemma shape_mshr: "timing_shape t \<Longrightarrow> length (l1i_timing_mshr_table t) = L1I_TIMING_MSHR_SIZE"
  by (simp add: timing_shape_def)

lemma wf_timing_shape: "wf_timing t \<Longrightarrow> timing_shape t"
  by (simp add: wf_timing_def)

lemma wf_timing_mshr: "wf_timing t \<Longrightarrow> distinct_tags tm_valid tm_tag (l1i_timing_mshr_table t)"
  by (simp add: wf_timing_def)

lemma wf_timing_cache:
  "wf_timing t \<Longrightarrow> s < 64 \<Longrightarrow> distinct_tags tc_valid tc_tag (l1i_timing_cache_table t ! s)"
  by (simp add: wf_timing_def)

text \<open>An update of the cache table of one set that changes its tags by \<open>F\<close> changes the resident set alike.\<close>

lemma resident_tc_insert:
  assumes "timing_shape t" "is_line_addr l"
    and "tags_of tc_valid tc_tag (l1i_timing_cache_table t' ! tc_set l) =
         insert (tc_line_tag l) (tags_of tc_valid tc_tag (l1i_timing_cache_table t ! tc_set l))"
    and "\<And>s. s < 64 \<Longrightarrow> s \<noteq> tc_set l \<Longrightarrow> l1i_timing_cache_table t' ! s = l1i_timing_cache_table t ! s"
  shows "resident t' = insert l (resident t)"
proof (rule set_eqI)
  fix x
  show "x \<in> resident t' \<longleftrightarrow> x \<in> insert l (resident t)"
    using assms(2-4) tc_inj [of x l]
    by (cases "tc_set x = tc_set l") (auto simp: resident_def)
qed

lemma resident_tc_remove:
  assumes "timing_shape t" "is_line_addr l"
    and "tags_of tc_valid tc_tag (l1i_timing_cache_table t' ! tc_set l) =
         tags_of tc_valid tc_tag (l1i_timing_cache_table t ! tc_set l) - {tc_line_tag l}"
    and "\<And>s. s < 64 \<Longrightarrow> s \<noteq> tc_set l \<Longrightarrow> l1i_timing_cache_table t' ! s = l1i_timing_cache_table t ! s"
  shows "resident t' = resident t - {l}"
proof (rule set_eqI)
  fix x
  show "x \<in> resident t' \<longleftrightarrow> x \<in> resident t - {l}"
    using assms(2-4) tc_inj [of x l]
    by (cases "tc_set x = tc_set l") (auto simp: resident_def)
qed

subsection \<open>Searches\<close>

lemma find_mshr_less_iff:
  assumes "timing_shape t" "is_line_addr l"
  shows "l1i_find_timing_mshr_entry t l < L1I_TIMING_MSHR_SIZE \<longleftrightarrow> l \<in> outstanding t"
  using tm.lookup_less_iff [of l "l1i_timing_mshr_table t"] shape_mshr [OF assms(1)]
  by (simp add: l1i_find_timing_mshr_entry_def outstanding_def tm_mask [OF assms(2)])

lemma find_cache_less_iff:
  assumes "timing_shape t" "is_line_addr l"
  shows "l1i_find_timing_cache_entry t l < MAX_NUM_WAY \<longleftrightarrow> l \<in> resident t"
  using tc.lookup_less_iff [of "tc_line_tag l" "l1i_timing_cache_table t ! tc_set l"]
    shape_way [OF assms(1) tc_set_less] assms(2)
  by (simp add: l1i_find_timing_cache_entry_def resident_def)

lemma find_mshr_le: "timing_shape t \<Longrightarrow> l1i_find_timing_mshr_entry t l \<le> L1I_TIMING_MSHR_SIZE"
  using find_index_le [of _ "l1i_timing_mshr_table t"] by (simp add: l1i_find_timing_mshr_entry_def shape_mshr)

lemma find_cache_le: "timing_shape t \<Longrightarrow> l1i_find_timing_cache_entry t l \<le> MAX_NUM_WAY"
  using find_index_le [of _ "l1i_timing_cache_table t ! tc_set l"]
  by (simp add: l1i_find_timing_cache_entry_def shape_way)

text \<open>A free way of a set, and how many lines of the set are resident.\<close>

definition set_lines :: "l1i_timing \<Rightarrow> nat \<Rightarrow> u64 set" where
  "set_lines t s = {l \<in> resident t. tc_set l = s}"

lemma card_set_lines:
  assumes "wf_timing t" "s < 64"
  shows "card (set_lines t s) = card (tags_of tc_valid tc_tag (l1i_timing_cache_table t ! s))"
proof -
  have "tc_line_tag ` set_lines t s = tags_of tc_valid tc_tag (l1i_timing_cache_table t ! s)"
  proof
    show "tags_of tc_valid tc_tag (l1i_timing_cache_table t ! s) \<subseteq> tc_line_tag ` set_lines t s"
    proof
      fix k assume k: "k \<in> tags_of tc_valid tc_tag (l1i_timing_cache_table t ! s)"
      then have "drop_bit 52 k = 0" using assms by (simp add: wf_timing_def)
      with assms(2) obtain l where "is_line_addr l" "tc_set l = s" "tc_line_tag l = k"
        by (rule tc_surj)
      with k show "k \<in> tc_line_tag ` set_lines t s"
        by (auto simp: set_lines_def resident_def)
    qed
  qed (auto simp: set_lines_def resident_def)
  moreover have "inj_on tc_line_tag (set_lines t s)"
    by (rule inj_onI) (auto simp: set_lines_def intro: tc_inj)
  ultimately show ?thesis by (metis card_image)
qed

lemma free_way_iff:
  assumes "wf_timing t"
  shows "find_index (\<lambda>e. \<not> tc_valid e) (l1i_timing_cache_table t ! tc_set l) < MAX_NUM_WAY \<longleftrightarrow>
    card (set_lines t (tc_set l)) < MAX_NUM_WAY"
  using tc.free_slot_iff [OF wf_timing_cache [OF assms tc_set_less], of l]
    card_set_lines [OF assms tc_set_less, of l] shape_way [OF wf_timing_shape [OF assms] tc_set_less]
  by simp

lemma free_mshr_iff:
  assumes "wf_timing t"
  shows "find_index (\<lambda>e. \<not> tm_valid e) (l1i_timing_mshr_table t) < L1I_TIMING_MSHR_SIZE \<longleftrightarrow>
    card (outstanding t) < L1I_TIMING_MSHR_SIZE"
  using tm.free_slot_iff [OF wf_timing_mshr [OF assms]] shape_mshr [OF wf_timing_shape [OF assms]]
  by (simp add: outstanding_def)

subsection \<open>Requests, fills, invalidations and accesses\<close>

lemma wf_timingI:
  assumes "timing_shape t" "distinct_tags tm_valid tm_tag (l1i_timing_mshr_table t)"
    and "\<And>s. s < 64 \<Longrightarrow> distinct_tags tc_valid tc_tag (l1i_timing_cache_table t ! s)"
    and "\<And>s k. s < 64 \<Longrightarrow> k \<in> tags_of tc_valid tc_tag (l1i_timing_cache_table t ! s) \<Longrightarrow> drop_bit 52 k = 0"
    and "outstanding t \<inter> resident t = {}"
  shows "wf_timing t"
  using assms by (simp add: wf_timing_def)

lemma wf_timingD:
  assumes "wf_timing t"
  shows "s < 64 \<Longrightarrow> k \<in> tags_of tc_valid tc_tag (l1i_timing_cache_table t ! s) \<Longrightarrow> drop_bit 52 k = 0"
    and "outstanding t \<inter> resident t = {}"
  using assms by (simp_all add: wf_timing_def)

lemma wf_timing_tm_update:
  assumes "wf_timing t" "distinct_tags tm_valid tm_tag (l1i_timing_mshr_table (tm_update t i f))"
    "outstanding (tm_update t i f) \<inter> resident t = {}"
  shows "wf_timing (tm_update t i f)"
  by (rule wf_timingI) (use assms wf_timing_shape [OF assms(1)] wf_timing_cache [OF assms(1)]
      wf_timingD [OF assms(1)] in simp_all)

lemma outstanding_tm_update:
  "outstanding (tm_update t i f) =
   tags_of tm_valid tm_tag ((l1i_timing_mshr_table t)[i := f (l1i_timing_mshr_table t ! i)])"
  by (simp add: outstanding_def)

lemma add_timing_entry_spec:
  assumes wf: "wf_timing t" and l: "is_line_addr l"
  shows "case l1i_add_timing_entry tick t l ss sw of
      None \<Rightarrow> l \<notin> outstanding t \<and> l \<notin> resident t \<and> card (outstanding t) = L1I_TIMING_MSHR_SIZE
    | Some t' \<Rightarrow> wf_timing t' \<and> resident t' = resident t \<and>
        outstanding t' = (if l \<in> resident t then outstanding t else insert l (outstanding t))"
proof (cases "l \<in> outstanding t \<or> l \<in> resident t")
  case True
  then have "l1i_add_timing_entry tick t l ss sw = Some t"
    using find_mshr_less_iff find_cache_less_iff wf_timing_shape [OF wf] l
    by (auto simp: l1i_add_timing_entry_def)
  then show ?thesis using wf True by (auto simp: insert_absorb)
next
  case False
  let ?tab = "l1i_timing_mshr_table t" and ?i = "find_index (\<lambda>e. \<not> tm_valid e) (l1i_timing_mshr_table t)"
  let ?f = "\<lambda>e. e\<lparr>tm_valid := True, tm_tag := l AND L1I_TIMING_MSHR_TAG_MASK, tm_source_set := ss,
    tm_source_way := sw, tm_timestamp := get_l1i_current_cycle tick AND L1I_TIME_MASK, tm_accessed := False\<rparr>"
  have eq: "l1i_add_timing_entry tick t l ss sw =
      (if ?i < L1I_TIMING_MSHR_SIZE then Some (tm_update t ?i ?f) else None)"
    using False find_mshr_less_iff find_cache_less_iff wf_timing_shape [OF wf] l
    by (simp add: l1i_add_timing_entry_def l1i_get_invalid_timing_mshr_entry_def Let_def)
  have len: "length ?tab = L1I_TIMING_MSHR_SIZE" using shape_mshr wf_timing_shape wf by blast
  show ?thesis
  proof (cases "?i < L1I_TIMING_MSHR_SIZE")
    case room: True
    have "outstanding (tm_update t ?i ?f) = insert l (outstanding t)"
      using tm.fill_tags [of ?i ?tab "?f (?tab ! ?i)"] tm.free_slot_invalid [of ?tab] room len
      by (simp add: outstanding_def tm_mask l)
    moreover have "distinct_tags tm_valid tm_tag (?tab[?i := ?f (?tab ! ?i)])"
      using tm.fill_distinct [OF wf_timing_mshr [OF wf]] room len False
      by (simp add: outstanding_def tm_mask l)
    ultimately show ?thesis
      using eq room False wf wf_timingD(2) [OF wf] by (auto intro!: wf_timing_tm_update)
  next
    case full: False
    then show ?thesis using eq False free_mshr_iff [OF wf] tm.card_tags_le [of ?tab] len
      by (simp add: outstanding_def)
  qed
qed

lemma tc_fill_spec:
  assumes wf: "wf_timing t" and l: "is_line_addr l" "l \<notin> resident t" "l \<notin> outstanding t"
    and j: "j = find_index (\<lambda>e. \<not> tc_valid e) (l1i_timing_cache_table t ! tc_set l)" "j < MAX_NUM_WAY"
    and f: "\<And>e. tc_valid (f e)" "\<And>e. tc_tag (f e) = tc_line_tag l"
  shows "wf_timing (tc_update t (tc_set l) j f)"
    and "resident (tc_update t (tc_set l) j f) = insert l (resident t)"
proof -
  let ?t = "tc_update t (tc_set l) j f" and ?tab = "l1i_timing_cache_table t ! tc_set l"
  have sh: "timing_shape t" using wf by (rule wf_timing_shape)
  have len: "length ?tab = MAX_NUM_WAY" using sh by (simp add: shape_way)
  have other: "s < 64 \<Longrightarrow> s \<noteq> tc_set l \<Longrightarrow> l1i_timing_cache_table ?t ! s = l1i_timing_cache_table t ! s" for s
    using tc_update_set [OF sh] by simp
  have own: "l1i_timing_cache_table ?t ! tc_set l = ?tab[j := f (?tab ! j)]"
    using tc_update_set [OF sh] by simp
  have tags: "tags_of tc_valid tc_tag (l1i_timing_cache_table ?t ! tc_set l) =
      insert (tc_line_tag l) (tags_of tc_valid tc_tag ?tab)"
    unfolding own using tc.fill_tags [of j ?tab "f (?tab ! j)"] tc.free_slot_invalid [of ?tab] j f len by simp
  show res: "resident ?t = insert l (resident t)"
    using sh l(1) tags other by (rule resident_tc_insert)
  show "wf_timing ?t"
  proof (rule wf_timingI)
    show "timing_shape ?t" using sh by simp
    show "distinct_tags tm_valid tm_tag (l1i_timing_mshr_table ?t)" using wf_timing_mshr [OF wf] by simp
    show "outstanding ?t \<inter> resident ?t = {}" unfolding res using wf_timingD(2) [OF wf] l(3) by auto
  next
    fix s :: nat assume s: "s < 64"
    have new: "tc_line_tag l \<notin> tags_of tc_valid tc_tag ?tab" using l(1,2) by (simp add: resident_def)
    show "distinct_tags tc_valid tc_tag (l1i_timing_cache_table ?t ! s)"
      using other [OF s] wf_timing_cache [OF wf s] tc.fill_distinct [of ?tab j "f (?tab ! j)"]
        wf_timing_cache [OF wf tc_set_less, of l] j(2) len f(2) new
      by (cases "s = tc_set l") (simp_all add: own)
    show "drop_bit 52 k = 0" if "k \<in> tags_of tc_valid tc_tag (l1i_timing_cache_table ?t ! s)" for k
      using that other [OF s] wf_timingD(1) [OF wf s] tc_line_tag_small [OF l(1)] tags
      by (cases "s = tc_set l") auto
  qed
qed

lemma tm_clear_spec:
  assumes wf: "wf_timing t" and l: "is_line_addr l" "l \<in> outstanding t"
  shows "\<exists>t'. l1i_invalid_timing_mshr_entry t l = Some t' \<and> wf_timing t' \<and>
    outstanding t' = outstanding t - {l} \<and> resident t' = resident t"
proof -
  let ?tab = "l1i_timing_mshr_table t" and ?i = "l1i_find_timing_mshr_entry t l"
  let ?t = "tm_update t ?i (\<lambda>e. e\<lparr>tm_valid := False\<rparr>)"
  have sh: "timing_shape t" using wf by (rule wf_timing_shape)
  have i: "?i < L1I_TIMING_MSHR_SIZE" using find_mshr_less_iff [OF sh l(1)] l(2) by simp
  have at: "tm_tag (?tab ! ?i) = l" "tm_valid (?tab ! ?i)"
    using tm.lookup_sat [of l ?tab] i shape_mshr [OF sh]
    by (simp_all add: l1i_find_timing_mshr_entry_def tm_mask l(1))
  have out: "outstanding ?t = outstanding t - {l}"
    using tm.clear_tags [OF wf_timing_mshr [OF wf], of ?i] i at shape_mshr [OF sh]
    by (simp add: outstanding_def)
  have "wf_timing ?t"
    using tm.clear_distinct [OF wf_timing_mshr [OF wf], of ?i] wf_timingD(2) [OF wf] out
    by (intro wf_timing_tm_update [OF wf]) auto
  then show ?thesis using i out by (simp add: l1i_invalid_timing_mshr_entry_def Let_def)
qed

lemma tm_tc_update_commute:
  "l1i_invalid_timing_mshr_entry (tc_update t s j f) l =
   map_option (\<lambda>t'. tc_update t' s j f) (l1i_invalid_timing_mshr_entry t l)"
  by (simp add: l1i_invalid_timing_mshr_entry_def l1i_find_timing_mshr_entry_def Let_def
      tm_update_def tc_update_def)

lemma invalid_mshr_cache_table:
  "l1i_invalid_timing_mshr_entry t l = Some t' \<Longrightarrow> l1i_timing_cache_table t' = l1i_timing_cache_table t"
  by (auto simp: l1i_invalid_timing_mshr_entry_def Let_def split: if_splits)

lemma move_timing_entry_spec:
  assumes wf: "wf_timing t" and l: "is_line_addr l" "l \<notin> resident t"
  shows "case l1i_move_timing_entry t l of
      None \<Rightarrow> card (set_lines t (tc_set l)) = MAX_NUM_WAY
    | Some t' \<Rightarrow> wf_timing t' \<and> outstanding t' = outstanding t - {l} \<and>
        resident t' = insert l (resident t)"
proof -
  let ?tab = "l1i_timing_cache_table t ! tc_set l"
  let ?j = "find_index (\<lambda>e. \<not> tc_valid e) ?tab"
  have sh: "timing_shape t" using wf by (rule wf_timing_shape)
  have full: "\<not> ?j < MAX_NUM_WAY \<Longrightarrow> card (set_lines t (tc_set l)) = MAX_NUM_WAY"
    using free_way_iff [OF wf, of l] card_set_lines [OF wf tc_set_less, of l] tc.card_tags_le [of ?tab]
      shape_way [OF sh tc_set_less, of l] by simp
  consider (full) "\<not> ?j < MAX_NUM_WAY" | (miss) "?j < MAX_NUM_WAY" "l \<notin> outstanding t"
    | (hit) "?j < MAX_NUM_WAY" "l \<in> outstanding t" by blast
  then show ?thesis
  proof cases
    case full
    then show ?thesis using \<open>\<not> ?j < MAX_NUM_WAY \<Longrightarrow> _\<close>
      by (simp add: l1i_move_timing_entry_def l1i_get_invalid_timing_cache_entry_def Let_def)
  next
    case miss
    then have "l1i_find_timing_mshr_entry t l = L1I_TIMING_MSHR_SIZE"
      using find_mshr_less_iff [OF sh l(1)] find_mshr_le [OF sh, of l] by simp
    then show ?thesis using miss tc_fill_spec [OF wf l miss(2) refl miss(1)]
      by (simp add: l1i_move_timing_entry_def l1i_get_invalid_timing_cache_entry_def Let_def)
  next
    case hit
    let ?m = "l1i_timing_mshr_table t ! l1i_find_timing_mshr_entry t l"
    let ?f = "\<lambda>e. e\<lparr>tc_valid := True, tc_tag := tc_line_tag l, tc_source_set := tm_source_set ?m,
      tc_source_way := tm_source_way ?m, tc_accessed := tm_accessed ?m\<rparr>"
    obtain t1 where t1: "l1i_invalid_timing_mshr_entry t l = Some t1" "wf_timing t1"
      "outstanding t1 = outstanding t - {l}" "resident t1 = resident t"
      using tm_clear_spec [OF wf l(1) hit(2)] by blast
    have "l1i_find_timing_mshr_entry t l \<noteq> L1I_TIMING_MSHR_SIZE"
      using find_mshr_less_iff [OF sh l(1)] hit(2) by simp
    then have "l1i_move_timing_entry t l = Some (tc_update t1 (tc_set l) ?j ?f)"
      using hit(1) t1(1)
      by (simp add: l1i_move_timing_entry_def l1i_get_invalid_timing_cache_entry_def Let_def
          tm_tc_update_commute)
    moreover have "wf_timing (tc_update t1 (tc_set l) ?j ?f)"
      "resident (tc_update t1 (tc_set l) ?j ?f) = insert l (resident t)"
      using tc_fill_spec [of t1 l ?j ?f] t1 hit(1) l invalid_mshr_cache_table [OF t1(1)] by simp_all
    ultimately show ?thesis using t1(3) by simp
  qed
qed

lemma tc_clear_spec:
  assumes wf: "wf_timing t" and l: "is_line_addr l" "l \<in> resident t"
  defines "t' \<equiv> tc_update t (tc_set l) (l1i_find_timing_cache_entry t l) (\<lambda>e. e\<lparr>tc_valid := False\<rparr>)"
  shows "wf_timing t'" "outstanding t' = outstanding t" "resident t' = resident t - {l}"
proof -
  let ?tab = "l1i_timing_cache_table t ! tc_set l" and ?j = "l1i_find_timing_cache_entry t l"
  have sh: "timing_shape t" using wf by (rule wf_timing_shape)
  have j: "?j < MAX_NUM_WAY" using find_cache_less_iff [OF sh l(1)] l(2) by simp
  have other: "s < 64 \<Longrightarrow> s \<noteq> tc_set l \<Longrightarrow> l1i_timing_cache_table t' ! s = l1i_timing_cache_table t ! s" for s
    using tc_update_set [OF sh] by (simp add: t'_def)
  have own: "l1i_timing_cache_table t' ! tc_set l = ?tab[?j := (?tab ! ?j)\<lparr>tc_valid := False\<rparr>]"
    using tc_update_set [OF sh] by (simp add: t'_def)
  have at: "tc_tag (?tab ! ?j) = tc_line_tag l" "tc_valid (?tab ! ?j)"
    using tc.lookup_sat [of "tc_line_tag l" ?tab] j shape_way [OF sh tc_set_less, of l]
    by (simp_all add: l1i_find_timing_cache_entry_def)
  have tags: "tags_of tc_valid tc_tag (l1i_timing_cache_table t' ! tc_set l) =
      tags_of tc_valid tc_tag ?tab - {tc_line_tag l}"
    unfolding own using tc.clear_tags [OF wf_timing_cache [OF wf tc_set_less], of ?j l] j at
      shape_way [OF sh tc_set_less, of l] by simp
  show res: "resident t' = resident t - {l}"
    using sh l(1) tags other by (rule resident_tc_remove)
  show out: "outstanding t' = outstanding t" by (simp add: t'_def)
  show "wf_timing t'"
  proof (rule wf_timingI)
    show "timing_shape t'" using sh by (simp add: t'_def)
    show "distinct_tags tm_valid tm_tag (l1i_timing_mshr_table t')" using wf_timing_mshr [OF wf] by (simp add: t'_def)
    show "outstanding t' \<inter> resident t' = {}" unfolding res out using wf_timingD(2) [OF wf] by auto
  next
    fix s :: nat assume s: "s < 64"
    show "distinct_tags tc_valid tc_tag (l1i_timing_cache_table t' ! s)"
      using other [OF s] wf_timing_cache [OF wf s] tc.clear_distinct [of ?tab ?j]
      by (cases "s = tc_set l") (simp_all add: own)
    show "drop_bit 52 k = 0" if "k \<in> tags_of tc_valid tc_tag (l1i_timing_cache_table t' ! s)" for k
      using that other [OF s] wf_timingD(1) [OF wf s] tags by (cases "s = tc_set l") auto
  qed
qed

lemma access_timing_entry_spec:
  assumes wf: "wf_timing t"
  shows "wf_timing (l1i_access_timing_entry t l p)"
    "outstanding (l1i_access_timing_entry t l p) = outstanding t"
    "resident (l1i_access_timing_entry t l p) = resident t"
proof -
  have sh: "timing_shape t" using wf by (rule wf_timing_shape)
  have tm: "wf_timing (tm_update t i (\<lambda>e. e\<lparr>tm_accessed := True, tm_pos_hist := p\<rparr>)) \<and>
      outstanding (tm_update t i (\<lambda>e. e\<lparr>tm_accessed := True, tm_pos_hist := p\<rparr>)) = outstanding t" for i
    using tm.modify_tags [of "(l1i_timing_mshr_table t ! i)\<lparr>tm_accessed := True, tm_pos_hist := p\<rparr>" "l1i_timing_mshr_table t" i]
      tm.modify_distinct [OF wf_timing_mshr [OF wf], of "(l1i_timing_mshr_table t ! i)\<lparr>tm_accessed := True, tm_pos_hist := p\<rparr>" i]
      wf_timingD(2) [OF wf]
    by (auto simp: outstanding_def intro!: wf_timing_tm_update [OF wf])
  let ?t = "tc_update t (tc_set l) (l1i_find_timing_cache_entry t l) (\<lambda>e. e\<lparr>tc_accessed := True\<rparr>)"
  have tags: "s < 64 \<Longrightarrow> tags_of tc_valid tc_tag (l1i_timing_cache_table ?t ! s) =
      tags_of tc_valid tc_tag (l1i_timing_cache_table t ! s)" for s
    by (simp add: tc_update_set [OF sh] tc.modify_tags)
  then have res: "resident ?t = resident t"
    by (simp add: resident_def)
  have tc: "wf_timing ?t"
    by (rule wf_timingI)
      (use sh wf_timing_mshr [OF wf] wf_timing_cache [OF wf] wf_timingD [OF wf] tags res in
        \<open>simp_all add: tc_update_set tc.modify_distinct\<close>)
  show "wf_timing (l1i_access_timing_entry t l p)"
    "outstanding (l1i_access_timing_entry t l p) = outstanding t"
    "resident (l1i_access_timing_entry t l p) = resident t"
    using tm tc res wf by (simp_all add: l1i_access_timing_entry_def Let_def)
qed

subsection \<open>The initial tables\<close>

lemma init_timing:
  assumes "timing_shape memory"
  shows "wf_timing (l1i_init_timing_tables memory)" "resident (l1i_init_timing_tables memory) = {}"
    "outstanding (l1i_init_timing_tables memory) = {}"
proof -
  let ?t = "l1i_init_timing_tables memory"
  have sh: "timing_shape ?t" using assms by (simp add: timing_shape_def l1i_init_timing_tables_def)
  have cache: "l1i_timing_cache_table ?t ! s = map (\<lambda>e. e\<lparr>tc_valid := False\<rparr>) (l1i_timing_cache_table memory ! s)" if "s < 64" for s
    using assms that by (simp add: timing_shape_def l1i_init_timing_tables_def)
  have tags: "tags_of tc_valid tc_tag (l1i_timing_cache_table ?t ! s) = {}"
    "distinct_tags tc_valid tc_tag (l1i_timing_cache_table ?t ! s)" if "s < 64" for s
    unfolding cache [OF that] by (rule tags_of_none_valid distinct_tags_none_valid, auto)+
  have mshr: "tags_of tm_valid tm_tag (l1i_timing_mshr_table ?t) = {}"
    "distinct_tags tm_valid tm_tag (l1i_timing_mshr_table ?t)"
    by (rule tags_of_none_valid distinct_tags_none_valid, auto simp: l1i_init_timing_tables_def)+
  show res: "resident ?t = {}" using tags(1) by (simp add: resident_def)
  show "outstanding ?t = {}" using mshr(1) by (simp add: outstanding_def)
  show "wf_timing ?t" by (rule wf_timingI [OF sh mshr(2)]) (use tags res in simp_all)
qed

text \<open>A memory of the right shape.\<close>

definition zero_memory :: l1i_timing where
  "zero_memory = \<lparr>l1i_timing_mshr_table = replicate L1I_TIMING_MSHR_SIZE
       \<lparr>tm_valid = True, tm_tag = 0, tm_source_set = 0, tm_source_way = 0, tm_timestamp = 0,
        tm_accessed = False, tm_pos_hist = 0\<rparr>,
     l1i_timing_cache_table = replicate MAX_NUM_SET (replicate MAX_NUM_WAY
       \<lparr>tc_valid = True, tc_tag = 0, tc_source_set = 0, tc_source_way = 0, tc_accessed = False\<rparr>)\<rparr>"

lemma zero_memory_shape: "timing_shape zero_memory"
  by (simp add: timing_shape_def zero_memory_def)

end
