(* ===== verification/EIP_History.thy ===== *)
theory EIP_History
  imports EIP_Format
begin

section \<open>EIP: the history buffer\<close>

text \<open>
  The ring buffer of recently fetched basic blocks (\<open>eip.hh\<close>, lines 195 to 406): looking a
  line up, recording the size of a basic block, dropping the blocks of squashed
  instructions, finding a block to merge with, and choosing the source line to entangle
  with a late miss.

  \<open>hist_list\<close> reads the ring as a list, newest entry first.  The lemmas relate every
  operation to that list: a lookup returns the newest match, a squash removes exactly the
  entries of younger instructions and loses no time, and a chosen source is old enough to
  have hidden the latency of the miss.
\<close>

subsection \<open>Data\<close>

definition L1I_HIST_TABLE_ENTRIES :: nat where [simp]: "L1I_HIST_TABLE_ENTRIES = 32"
definition L1I_HIST_TABLE_MASK :: nat where [simp]: "L1I_HIST_TABLE_MASK = 31"
definition L1I_BB_MERGE_ENTRIES :: nat where [simp]: "L1I_BB_MERGE_ENTRIES = 5"
definition L1I_HIST_TAG_BITS :: nat where [simp]: "L1I_HIST_TAG_BITS = 58"
definition L1I_HIST_TAG_MASK :: u64 where "L1I_HIST_TAG_MASK = push_bit L1I_HIST_TAG_BITS 1 - 1"
definition L1I_HIST_NUM_SEARCHES :: nat where [simp]: "L1I_HIST_NUM_SEARCHES = 24"
definition L1I_MERGE_BBSIZE_MAX_VALUE :: u32 where "L1I_MERGE_BBSIZE_MAX_VALUE = 63"

record l1i_hist_entry =
  h_tag :: u64
  h_time_diff :: u64
  h_bb_size :: u32
  h_instr_id :: u64
  h_ent_src :: u64
  h_format :: nat
  h_num_dst :: u32

record l1i_hist =
  l1i_hist_table :: "l1i_hist_entry list"
  l1i_hist_table_head :: nat
  l1i_hist_table_head_time :: u64

definition l1i_hist_entry_zero :: l1i_hist_entry where
  "l1i_hist_entry_zero = \<lparr>h_tag = 0, h_time_diff = 0, h_bb_size = 0, h_instr_id = 0,
     h_ent_src = 0, h_format = 0, h_num_dst = 0\<rparr>"

definition l1i_init_hist_table :: "u64 \<Rightarrow> l1i_hist" where
  "l1i_init_hist_table curTick =
     \<lparr>l1i_hist_table = replicate L1I_HIST_TABLE_ENTRIES l1i_hist_entry_zero,
      l1i_hist_table_head = 0,
      l1i_hist_table_head_time = get_l1i_current_cycle curTick\<rparr>"

text \<open>One step back in the ring, \<open>(i + L1I_HIST_TABLE_MASK) % L1I_HIST_TABLE_ENTRIES\<close>.\<close>

definition hist_prev :: "nat \<Rightarrow> nat" where
  "hist_prev i = (i + L1I_HIST_TABLE_MASK) mod L1I_HIST_TABLE_ENTRIES"

subsection \<open>Operations\<close>

fun l1i_find_hist_loop :: "l1i_hist_entry list \<Rightarrow> u64 \<Rightarrow> nat \<Rightarrow> nat \<Rightarrow> nat" where
  "l1i_find_hist_loop tab tag 0 i = L1I_HIST_TABLE_ENTRIES"
| "l1i_find_hist_loop tab tag (Suc n) i =
     (if h_tag (tab ! i) = tag then i else l1i_find_hist_loop tab tag n (hist_prev i))"

definition l1i_find_hist_entry :: "l1i_hist \<Rightarrow> u64 \<Rightarrow> nat" where
  "l1i_find_hist_entry h line_addr =
     l1i_find_hist_loop (l1i_hist_table h) (line_addr AND L1I_HIST_TAG_MASK)
       L1I_HIST_TABLE_ENTRIES (hist_prev (l1i_hist_table_head h))"

definition l1i_add_bb_size_hist_table :: "l1i_hist \<Rightarrow> u64 \<Rightarrow> u32 \<Rightarrow> l1i_hist option" where
  "l1i_add_bb_size_hist_table h line_addr bb_size = do {
     let index = l1i_find_hist_entry h line_addr;
     c_assert (index < L1I_HIST_TABLE_ENTRIES);
     Some (h\<lparr>l1i_hist_table := (l1i_hist_table h)
       [index := (l1i_hist_table h ! index)\<lparr>h_bb_size := bb_size AND L1I_MERGE_BBSIZE_MAX_VALUE\<rparr>]\<rparr>)
   }"

record l1i_squash_state =
  sq_table :: "l1i_hist_entry list"
  sq_last :: nat
  sq_time_to_add :: u64
  sq_found_smaller :: bool
  sq_new_head :: nat

definition l1i_squash_step :: "u64 \<Rightarrow> u64 \<Rightarrow> l1i_squash_state \<Rightarrow> l1i_squash_state" where
  "l1i_squash_step instr_id line_addr s =
     (let last = sq_last s; e = sq_table s ! last in
      if h_instr_id e > instr_id then
        (let e1 = e\<lparr>h_tag := 0\<rparr>;
             t1 = (if sq_found_smaller s then sq_time_to_add s else sq_time_to_add s + h_time_diff e1);
             e2 = (if sq_found_smaller s then e1 else e1\<lparr>h_time_diff := 0\<rparr>)
         in s\<lparr>sq_table := (sq_table s)[last := e2\<lparr>h_bb_size := 0, h_instr_id := 0, h_ent_src := 0\<rparr>],
              sq_time_to_add := t1,
              sq_last := hist_prev last\<rparr>)
      else
        (let e1 = (if h_tag e \<le> line_addr \<and> h_tag e + ucast (h_bb_size e) \<ge> line_addr
                   then e\<lparr>h_bb_size := ucast (line_addr - h_tag e)\<rparr> else e)
         in if \<not> sq_found_smaller s
            then s\<lparr>sq_table := (sq_table s)[last := e1\<lparr>h_time_diff := h_time_diff e1 + sq_time_to_add s\<rparr>],
                   sq_found_smaller := True, sq_new_head := last, sq_last := hist_prev last\<rparr>
            else s\<lparr>sq_table := (sq_table s)[last := e1], sq_last := hist_prev last\<rparr>))"

fun l1i_squash_loop :: "nat \<Rightarrow> u64 \<Rightarrow> u64 \<Rightarrow> l1i_squash_state \<Rightarrow> l1i_squash_state" where
  "l1i_squash_loop 0 instr_id line_addr s = s"
| "l1i_squash_loop (Suc n) instr_id line_addr s =
     l1i_squash_loop n instr_id line_addr (l1i_squash_step instr_id line_addr s)"

definition l1i_squash_hist_table :: "l1i_hist \<Rightarrow> u64 \<Rightarrow> u64 \<Rightarrow> l1i_hist" where
  "l1i_squash_hist_table h instr_id line_addr =
     (let last = hist_prev (l1i_hist_table_head h);
          s = l1i_squash_loop L1I_HIST_TABLE_ENTRIES instr_id line_addr
                \<lparr>sq_table = l1i_hist_table h, sq_last = last, sq_time_to_add = 0,
                 sq_found_smaller = False, sq_new_head = last\<rparr>
      in h\<lparr>l1i_hist_table := sq_table s,
           l1i_hist_table_head := (sq_new_head s + 1) mod L1I_HIST_TABLE_ENTRIES\<rparr>)"

text \<open>Falling out of the loop is \<open>assert(false)\<close>.\<close>

fun l1i_find_bb_merge_loop :: "l1i_hist_entry list \<Rightarrow> u64 \<Rightarrow> nat \<Rightarrow> nat \<Rightarrow> nat \<Rightarrow> u32 option" where
  "l1i_find_bb_merge_loop tab tag 0 count i = None"
| "l1i_find_bb_merge_loop tab tag (Suc n) count i =
     (if count \<ge> L1I_BB_MERGE_ENTRIES then Some 0
      else if tag > h_tag (tab ! i) \<and> tag - h_tag (tab ! i) \<le> ucast (h_bb_size (tab ! i))
      then Some (ucast (tag - h_tag (tab ! i)))
      else l1i_find_bb_merge_loop tab tag n (Suc count) (hist_prev i))"

definition l1i_find_bb_merge_hist_table :: "l1i_hist \<Rightarrow> u64 \<Rightarrow> u32 option" where
  "l1i_find_bb_merge_hist_table h line_addr =
     l1i_find_bb_merge_loop (l1i_hist_table h) (line_addr AND L1I_HIST_TAG_MASK)
       L1I_HIST_TABLE_ENTRIES 0 (hist_prev (l1i_hist_table_head h))"

text \<open>
  The search for a source.  Its locals \<open>best_entangled\<close>, \<open>pos_best\<close> and \<open>format_best\<close> are one
  record; the loop ends by reaching \<open>first\<close> or a \<open>break\<close>, or returns 0 from its middle.
\<close>

record l1i_src_best =
  best_entangled :: u64
  pos_best :: nat
  format_best :: nat

datatype l1i_src_exit = Src_return_0 | Src_done l1i_src_best

text \<open>
  One visit of an entry that is present and old enough: the new best, the new \<open>found\<close>, and
  whether the loop breaks.
\<close>

definition l1i_src_visit ::
    "l1i_hist_entry \<Rightarrow> nat \<Rightarrow> nat \<Rightarrow> nat \<Rightarrow> l1i_src_best \<Rightarrow> nat \<Rightarrow> l1i_src_best \<times> nat \<times> bool" where
  "l1i_src_visit e i format_i num_searched best found =
     (let new_format = (if h_num_dst e = 0 \<or> format_i < h_format e then format_i else h_format e);
          this = \<lparr>best_entangled = h_tag e, pos_best = i, format_best = new_format\<rparr>;
          best1 = (if num_searched = 1 then this else best);
          stop = (num_searched = L1I_HIST_NUM_SEARCHES)
      in if h_format e \<noteq> 0 then
           (if unat (h_num_dst e) < new_format then
              (if format_i = h_format e then (this, found, True)
               else if found < 2 then (this, 2, stop)
               else (best1, found, stop))
            else (best1, found, stop))
         else if found = 0 then (this, 1, stop)
         else (best1, found, stop))"

fun l1i_src_loop :: "l1i_hist_entry list \<Rightarrow> u64 \<Rightarrow> u64 \<Rightarrow> nat \<Rightarrow> nat \<Rightarrow> nat \<Rightarrow> u64 \<Rightarrow> nat \<Rightarrow>
    l1i_src_best \<Rightarrow> nat \<Rightarrow> l1i_src_exit option" where
  "l1i_src_loop tab tag latency first 0 i time_i num_searched best found = None"
| "l1i_src_loop tab tag latency first (Suc fuel) i time_i num_searched best found =
     (if i = first then Some (Src_done best)
      else if h_tag (tab ! i) = tag then Some Src_return_0
      else if h_tag (tab ! i) \<noteq> 0 \<and> time_i \<ge> latency then do {
        format_i \<leftarrow> l1i_get_format_entangled (h_tag (tab ! i)) tag;
        let (best', found', stop) =
          l1i_src_visit (tab ! i) i format_i (Suc num_searched) best found;
        if stop then Some (Src_done best')
        else l1i_src_loop tab tag latency first fuel (hist_prev i)
               (time_i + h_time_diff (tab ! i)) (Suc num_searched) best' found'
      }
      else l1i_src_loop tab tag latency first fuel (hist_prev i)
             (time_i + h_time_diff (tab ! i)) num_searched best found)"

definition l1i_get_src_entangled_hist_table ::
    "l1i_hist \<Rightarrow> u64 \<Rightarrow> nat \<Rightarrow> u64 \<Rightarrow> (u64 \<times> l1i_hist) option" where
  "l1i_get_src_entangled_hist_table h line_addr pos_hist latency = do {
     c_assert (pos_hist < L1I_HIST_TABLE_ENTRIES);
     let tag = line_addr AND L1I_HIST_TAG_MASK;
     c_assert (tag \<noteq> 0);
     let tab = l1i_hist_table h;
     if h_tag (tab ! pos_hist) \<noteq> tag then Some (0, h)
     else do {
       ex \<leftarrow> l1i_src_loop tab tag latency (hist_prev (l1i_hist_table_head h))
               L1I_HIST_TABLE_ENTRIES (hist_prev pos_hist) (h_time_diff (tab ! pos_hist)) 0
               \<lparr>best_entangled = 0, pos_best = 0, format_best = 0\<rparr> 0;
       case ex of
         Src_return_0 \<Rightarrow> Some (0, h)
       | Src_done b \<Rightarrow>
           if best_entangled b \<noteq> 0
           then Some (best_entangled b,
                  h\<lparr>l1i_hist_table := tab[pos_best b := (tab ! pos_best b)
                      \<lparr>h_format := format_best b, h_num_dst := h_num_dst (tab ! pos_best b) + 1\<rparr>]\<rparr>)
           else Some (0, h)
     }
   }"

subsection \<open>The ring as a list, newest entry first\<close>

definition hist_pos :: "nat \<Rightarrow> nat \<Rightarrow> nat" where
  "hist_pos i k = (i + L1I_HIST_TABLE_ENTRIES - k) mod L1I_HIST_TABLE_ENTRIES"

definition hist_list :: "l1i_hist \<Rightarrow> l1i_hist_entry list" where
  "hist_list h = map (\<lambda>k. l1i_hist_table h ! hist_pos (hist_prev (l1i_hist_table_head h)) k)
                     [0..<L1I_HIST_TABLE_ENTRIES]"

definition hist_shape :: "l1i_hist \<Rightarrow> bool" where
  "hist_shape h \<longleftrightarrow> length (l1i_hist_table h) = L1I_HIST_TABLE_ENTRIES \<and>
     l1i_hist_table_head h < L1I_HIST_TABLE_ENTRIES"

lemma hist_prev_less [simp]: "hist_prev i < 32"
  by (simp add: hist_prev_def)

lemma hist_pos_less [simp]: "hist_pos i k < 32"
  by (simp add: hist_pos_def)

lemma hist_pos_0 [simp]: "i < 32 \<Longrightarrow> hist_pos i 0 = i"
  by (simp add: hist_pos_def)

lemma hist_pos_32 [simp]: "i < 32 \<Longrightarrow> hist_pos i 32 = i"
  by (simp add: hist_pos_def)

lemma hist_prev_pos:
  assumes "k < 32"
  shows "hist_prev (hist_pos i k) = hist_pos i (Suc k)"
proof -
  have "hist_prev (hist_pos i k) = (i + 32 - k + 31) mod 32"
    by (simp add: hist_prev_def hist_pos_def mod_add_left_eq)
  also have "i + 32 - k + 31 = (i + 32 - Suc k) + 32"
    using assms by simp
  finally show ?thesis by (simp add: hist_pos_def)
qed

lemma int_hist_pos: "k \<le> 32 \<Longrightarrow> int (hist_pos i k) = (int i - int k) mod 32"
proof -
  assume "k \<le> 32"
  then have "int (hist_pos i k) = (int i - int k + 32) mod 32"
    by (simp add: hist_pos_def zmod_int of_nat_diff algebra_simps)
  then show ?thesis by simp
qed

lemma int_hist_prev: "int (hist_prev i) = (int i - 1) mod 32"
proof -
  have "int (hist_prev i) = (int i - 1 + 32) mod 32"
    by (simp add: hist_prev_def zmod_int add.commute)
  then show ?thesis by (simp only: mod_add_self2)
qed

lemma hist_pos_inj:
  assumes "j < 32" "k < 32" "hist_pos i j = hist_pos i k"
  shows "j = k"
proof -
  have "(int i - int j) mod 32 = (int i - int k) mod 32"
    using assms int_hist_pos [of j i] int_hist_pos [of k i] by simp
  then have "32 dvd int k - int j"
    by (simp add: mod_eq_dvd_iff)
  with assms(1,2) show ?thesis
    using dvd_imp_le_int [of "int k - int j" 32] by (cases "j = k") auto
qed

lemma hist_view_update:
  "k < 32 \<Longrightarrow> j < 32 \<Longrightarrow> length tab = 32 \<Longrightarrow>
   tab[hist_pos i k := v] ! hist_pos i j = (if j = k then v else tab ! hist_pos i j)"
  by (auto simp: nth_list_update dest: hist_pos_inj)

lemma hist_list_nth:
  "k < 32 \<Longrightarrow> hist_list h ! k = l1i_hist_table h ! hist_pos (hist_prev (l1i_hist_table_head h)) k"
  by (simp add: hist_list_def)

lemma length_hist_list [simp]: "length (hist_list h) = 32"
  by (simp add: hist_list_def)

lemma hist_pos_surj:
  assumes "j < 32" "i < 32"
  shows "\<exists>k<32. hist_pos i k = j"
proof -
  let ?k = "if j \<le> i then i - j else i + 32 - j"
  have "hist_pos i ?k = j" "?k < 32"
    using assms by (auto simp: hist_pos_def)
  then show ?thesis by blast
qed

lemma set_hist_list: "hist_shape h \<Longrightarrow> set (hist_list h) = set (l1i_hist_table h)"
proof
  assume h: "hist_shape h"
  then show "set (hist_list h) \<subseteq> set (l1i_hist_table h)"
    by (auto simp: hist_list_def hist_shape_def)
  show "set (l1i_hist_table h) \<subseteq> set (hist_list h)"
  proof
    fix e assume "e \<in> set (l1i_hist_table h)"
    then obtain j where j: "j < 32" "e = l1i_hist_table h ! j"
      using h by (auto simp: in_set_conv_nth hist_shape_def)
    then obtain k where "k < 32" "hist_pos (hist_prev (l1i_hist_table_head h)) k = j"
      using hist_pos_surj by (metis hist_prev_less)
    with j show "e \<in> set (hist_list h)"
      by (auto simp: hist_list_def)
  qed
qed

subsection \<open>Looking a line up\<close>

lemma l1i_find_hist_loop_eq:
  "k + n = 32 \<Longrightarrow>
   l1i_find_hist_loop tab tag n (hist_pos i k) =
     (let m = find_index (\<lambda>e. h_tag e = tag) (map (\<lambda>j. tab ! hist_pos i j) [k..<32])
      in if m < n then hist_pos i (k + m) else 32)"
proof (induction n arbitrary: k)
  case 0
  then show ?case by simp
next
  case (Suc n)
  then have "k < 32" "Suc k + n = 32" by auto
  with Suc.IH [of "Suc k"] show ?case
    by (auto simp: upt_conv_Cons [of k 32] hist_prev_pos Let_def)
qed

lemma l1i_find_hist_entry_eq:
  "l1i_find_hist_entry h line =
     (let m = find_index (\<lambda>e. h_tag e = line AND L1I_HIST_TAG_MASK) (hist_list h)
      in if m < 32 then hist_pos (hist_prev (l1i_hist_table_head h)) m else 32)"
  using l1i_find_hist_loop_eq [of 0 32 "l1i_hist_table h" "line AND L1I_HIST_TAG_MASK"
      "hist_prev (l1i_hist_table_head h)"]
  by (simp add: l1i_find_hist_entry_def hist_list_def Let_def)

lemma l1i_find_hist_entry_less_iff:
  "hist_shape h \<Longrightarrow> l1i_find_hist_entry h line < 32 \<longleftrightarrow>
     line AND L1I_HIST_TAG_MASK \<in> h_tag ` set (l1i_hist_table h)"
  using find_index_less_iff [of "\<lambda>e. h_tag e = line AND L1I_HIST_TAG_MASK" "hist_list h"]
  by (simp add: l1i_find_hist_entry_eq Let_def set_hist_list image_iff) metis

lemma l1i_find_hist_entry_tag:
  assumes "l1i_find_hist_entry h line < 32"
  shows "h_tag (l1i_hist_table h ! l1i_find_hist_entry h line) = line AND L1I_HIST_TAG_MASK"
proof -
  let ?P = "\<lambda>e. h_tag e = line AND L1I_HIST_TAG_MASK"
  have m: "find_index ?P (hist_list h) < 32"
    using assms by (auto simp: l1i_find_hist_entry_eq Let_def split: if_splits)
  then have "?P (hist_list h ! find_index ?P (hist_list h))"
    using find_index_sat [of ?P "hist_list h"] by simp
  with m show ?thesis
    by (simp add: l1i_find_hist_entry_eq Let_def hist_list_nth)
qed

lemma l1i_find_hist_entry_le: "l1i_find_hist_entry h line \<le> 32"
  by (simp add: l1i_find_hist_entry_eq Let_def less_imp_le)

subsection \<open>Squashing\<close>

text \<open>The squash as a function of the list, newest entry first.\<close>

definition squash_young :: "l1i_hist_entry \<Rightarrow> l1i_hist_entry" where
  "squash_young e = e\<lparr>h_tag := 0, h_bb_size := 0, h_instr_id := 0, h_ent_src := 0\<rparr>"

definition squash_fix :: "u64 \<Rightarrow> l1i_hist_entry \<Rightarrow> l1i_hist_entry" where
  "squash_fix line e = (if h_tag e \<le> line \<and> h_tag e + ucast (h_bb_size e) \<ge> line
     then e\<lparr>h_bb_size := ucast (line - h_tag e)\<rparr> else e)"

fun squash_list :: "u64 \<Rightarrow> u64 \<Rightarrow> bool \<Rightarrow> u64 \<Rightarrow> l1i_hist_entry list \<Rightarrow> l1i_hist_entry list" where
  "squash_list iid line found t [] = []"
| "squash_list iid line found t (e # es) =
     (if h_instr_id e > iid then
        (if found then squash_young e # squash_list iid line True t es
         else (squash_young e)\<lparr>h_time_diff := 0\<rparr> # squash_list iid line False (t + h_time_diff e) es)
      else if found then squash_fix line e # squash_list iid line True t es
      else (squash_fix line e)\<lparr>h_time_diff := h_time_diff e + t\<rparr> # squash_list iid line True t es)"

lemma length_squash_list [simp]: "length (squash_list iid line found t es) = length es"
  by (induction es arbitrary: found t) auto

lemma squash_field_simps [simp]:
  "h_tag (squash_young e) = 0" "h_instr_id (squash_young e) = 0" "h_bb_size (squash_young e) = 0"
  "h_ent_src (squash_young e) = 0" "h_time_diff (squash_young e) = h_time_diff e"
  "h_tag (squash_fix line e) = h_tag e" "h_instr_id (squash_fix line e) = h_instr_id e"
  "h_ent_src (squash_fix line e) = h_ent_src e" "h_time_diff (squash_fix line e) = h_time_diff e"
  by (simp_all add: squash_young_def squash_fix_def)

lemma squash_list_tags:
  "map h_tag (squash_list iid line found t es) =
   map (\<lambda>e. if h_instr_id e > iid then 0 else h_tag e) es"
  by (induction es arbitrary: found t) auto

lemma squash_list_young:
  "e \<in> set (squash_list iid line found t es) \<Longrightarrow> h_instr_id e \<le> iid"
  by (induction es arbitrary: found t) (auto split: if_splits)

lemma squash_list_time_found:
  "sum_list (map h_time_diff (squash_list iid line True t es)) = sum_list (map h_time_diff es)"
  by (induction es) auto

lemma squash_list_time:
  "\<exists>e \<in> set es. h_instr_id e \<le> iid \<Longrightarrow>
   sum_list (map h_time_diff (squash_list iid line False t es)) = t + sum_list (map h_time_diff es)"
proof (induction es arbitrary: t)
  case Nil
  then show ?case by simp
next
  case (Cons a es)
  show ?case
  proof (cases "h_instr_id a > iid")
    case True
    then have "\<exists>e \<in> set es. h_instr_id e \<le> iid"
      using Cons.prems by auto
    from Cons.IH [OF this, of "t + h_time_diff a"] True show ?thesis
      by (simp add: add.assoc)
  qed (simp add: squash_list_time_found ac_simps)
qed

lemma hist_entry_time_commute:
  "e\<lparr>h_tag := a, h_bb_size := b, h_instr_id := c, h_ent_src := d, h_time_diff := t\<rparr> =
   e\<lparr>h_tag := a, h_time_diff := t, h_bb_size := b, h_instr_id := c, h_ent_src := d\<rparr>"
  by (cases e) simp

lemma l1i_squash_step_table:
  fixes iid line :: u64
  assumes "sq_last s = hist_pos i k" "k < 32" "length (sq_table s) = 32"
  defines "e \<equiv> sq_table s ! hist_pos i k"
  defines "s1 \<equiv> l1i_squash_step iid line s"
  shows "sq_table s1 = (sq_table s)[hist_pos i k := hd (squash_list iid line (sq_found_smaller s)
           (sq_time_to_add s) [e])]"
    and "sq_last s1 = hist_pos i (Suc k)"
    and "sq_found_smaller s1 \<longleftrightarrow> sq_found_smaller s \<or> h_instr_id e \<le> iid"
    and "sq_time_to_add s1 = (if h_instr_id e > iid \<and> \<not> sq_found_smaller s
           then sq_time_to_add s + h_time_diff e else sq_time_to_add s)"
    and "sq_new_head s1 = (if h_instr_id e \<le> iid \<and> \<not> sq_found_smaller s then hist_pos i k else sq_new_head s)"
  using assms(1-3)
  by (auto simp: l1i_squash_step_def Let_def e_def s1_def hist_prev_pos squash_young_def
      hist_entry_time_commute squash_fix_def not_less)

lemma l1i_squash_loop_eq:
  fixes i n :: nat and iid line :: u64
  assumes "k + n = 32" "sq_last s = hist_pos i k" "length (sq_table s) = 32"
  defines "v \<equiv> \<lambda>t. map (\<lambda>j. t ! hist_pos i j)"
  defines "s' \<equiv> l1i_squash_loop n iid line s"
  defines "m \<equiv> length (takeWhile (\<lambda>e. h_instr_id e > iid) (v (sq_table s) [k..<32]))"
  shows "length (sq_table s') = 32 \<and>
    v (sq_table s') [0..<32] =
      v (sq_table s) [0..<k] @
      squash_list iid line (sq_found_smaller s) (sq_time_to_add s) (v (sq_table s) [k..<32]) \<and>
    sq_new_head s' = (if sq_found_smaller s \<or> m = n then sq_new_head s else hist_pos i (k + m))"
  using assms(1-3) unfolding v_def s'_def m_def
proof (induction n arbitrary: k s)
  case 0
  then show ?case by simp
next
  case (Suc n)
  let ?s1 = "l1i_squash_step iid line s" and ?e = "sq_table s ! hist_pos i k"
  let ?x = "hd (squash_list iid line (sq_found_smaller s) (sq_time_to_add s) [?e])"
  have k: "k < 32" "Suc k + n = 32" using Suc.prems by auto
  note step = l1i_squash_step_table [OF Suc.prems(2) k(1) Suc.prems(3), of iid line]
  have IH: "length (sq_table ?s1) = 32" "sq_last ?s1 = hist_pos i (Suc k)"
    using step Suc.prems by simp_all
  note IH = Suc.IH [OF k(2) IH(2,1)]
  have old: "map (\<lambda>j. sq_table ?s1 ! hist_pos i j) [0..<Suc k] =
      map (\<lambda>j. sq_table s ! hist_pos i j) [0..<k] @ [?x]"
    using k Suc.prems step(1) by (simp add: hist_view_update)
  have new: "map (\<lambda>j. sq_table ?s1 ! hist_pos i j) [Suc k..<32] =
      map (\<lambda>j. sq_table s ! hist_pos i j) [Suc k..<32]"
    using k Suc.prems step(1) by (simp add: hist_view_update)
  have view: "map (\<lambda>j. sq_table s ! hist_pos i j) [k..<32] =
      ?e # map (\<lambda>j. sq_table s ! hist_pos i j) [Suc k..<32]"
    using k by (simp add: upt_conv_Cons)
  have head: "map (\<lambda>j. sq_table s ! hist_pos i j) [0..<Suc k] =
      map (\<lambda>j. sq_table s ! hist_pos i j) [0..<k] @ [?e]"
    by simp
  show ?case
    using IH step(3-5) unfolding old new view
    by (auto simp: not_less)
qed

lemma hist_pos_Suc_mod:
  assumes "m < 32" "k < 32"
  shows "hist_pos (hist_prev ((hist_pos i m + 1) mod 32)) k = hist_pos i ((m + k) mod 32)"
proof -
  have "int (hist_pos (hist_prev ((hist_pos i m + 1) mod 32)) k) = (int i - int m - int k) mod 32"
    using assms by (simp add: int_hist_pos int_hist_prev zmod_int mod_simps)
  moreover have "int (hist_pos i ((m + k) mod 32)) = (int i - int m - int k) mod 32"
    by (simp add: int_hist_pos less_imp_le zmod_int mod_simps algebra_simps)
  ultimately show ?thesis by linarith
qed

lemma l1i_squash_hist_list:
  assumes "hist_shape h"
  shows "hist_list (l1i_squash_hist_table h iid line) =
    rotate (length (takeWhile (\<lambda>e. h_instr_id e > iid) (hist_list h)))
      (squash_list iid line False 0 (hist_list h))"
proof -
  let ?i = "hist_prev (l1i_hist_table_head h)" and ?tab = "l1i_hist_table h"
  let ?v = "\<lambda>t. map (\<lambda>j. t ! hist_pos ?i j) [0..<32]"
  let ?s = "l1i_squash_loop 32 iid line
    \<lparr>sq_table = ?tab, sq_last = ?i, sq_time_to_add = 0, sq_found_smaller = False, sq_new_head = ?i\<rparr>"
  let ?m = "length (takeWhile (\<lambda>e. h_instr_id e > iid) (hist_list h))"
  have L: "hist_list h = ?v ?tab"
    by (simp add: hist_list_def)
  have loop: "length (sq_table ?s) = 32" "?v (sq_table ?s) = squash_list iid line False 0 (hist_list h)"
    "sq_new_head ?s = (if ?m = 32 then ?i else hist_pos ?i ?m)"
    using l1i_squash_loop_eq [of 0 32 "\<lparr>sq_table = ?tab, sq_last = ?i, sq_time_to_add = 0,
        sq_found_smaller = False, sq_new_head = ?i\<rparr>" ?i iid line] assms
    by (simp_all add: L hist_shape_def)
  have m: "?m \<le> 32"
    using length_takeWhile_le [of _ "hist_list h"] by (metis length_hist_list)
  have pos: "hist_pos (hist_prev ((sq_new_head ?s + 1) mod 32)) k = hist_pos ?i ((?m + k) mod 32)"
    if "k < 32" for k
    using that m hist_pos_Suc_mod [of 0 k ?i] hist_pos_Suc_mod [of ?m k ?i]
    by (auto simp: loop(3) le_less)
  have h': "l1i_squash_hist_table h iid line =
      h\<lparr>l1i_hist_table := sq_table ?s, l1i_hist_table_head := (sq_new_head ?s + 1) mod 32\<rparr>"
    by (simp add: l1i_squash_hist_table_def Let_def)
  show ?thesis
  proof (rule nth_equalityI)
    fix k assume "k < length (hist_list (l1i_squash_hist_table h iid line))"
    then have "k < 32" by simp
    then have "hist_list (l1i_squash_hist_table h iid line) ! k =
        sq_table ?s ! hist_pos ?i ((?m + k) mod 32)"
      using pos by (simp only: hist_list_nth h' l1i_hist.simps) simp
    also have "\<dots> = ?v (sq_table ?s) ! ((?m + k) mod 32)"
      by simp
    finally show "hist_list (l1i_squash_hist_table h iid line) ! k =
        rotate ?m (squash_list iid line False 0 (hist_list h)) ! k"
      using \<open>k < 32\<close> by (simp only: loop(2)) (simp add: nth_rotate)
  qed simp
qed

lemma hist_shape_squash:
  assumes "hist_shape h"
  shows "hist_shape (l1i_squash_hist_table h iid line)"
proof -
  have "length (sq_table (l1i_squash_loop n iid line s)) = length (sq_table s)" for n s
    by (induction n arbitrary: s) (simp_all add: l1i_squash_step_def Let_def)
  then show ?thesis using assms
    by (simp add: hist_shape_def l1i_squash_hist_table_def Let_def)
qed

subsection \<open>Merging basic blocks\<close>

lemma l1i_find_bb_merge_loop_ge:
  "count \<ge> 5 \<Longrightarrow> 0 < n \<Longrightarrow> l1i_find_bb_merge_loop tab tag n count i = Some 0"
  by (cases n) auto

lemma l1i_find_bb_merge_loop_eq:
  "k + n = 32 \<Longrightarrow> k \<le> 5 \<Longrightarrow>
   l1i_find_bb_merge_loop tab tag n k (hist_pos i k) =
     Some (case find (\<lambda>e. tag > h_tag e \<and> tag - h_tag e \<le> ucast (h_bb_size e))
             (map (\<lambda>j. tab ! hist_pos i j) [k..<5]) of
        None \<Rightarrow> 0 | Some e \<Rightarrow> ucast (tag - h_tag e))"
proof (induction "5 - k" arbitrary: k n)
  case 0
  then show ?case by (simp add: l1i_find_bb_merge_loop_ge)
next
  case (Suc d)
  then obtain n' where n: "n = Suc n'" "Suc k + n' = 32" "k < 5" by (cases n) auto
  with Suc.hyps(1) [of "Suc k" n'] Suc.hyps(2) show ?case
    by (simp add: upt_conv_Cons [of k 5] hist_prev_pos)
qed

lemma l1i_find_bb_merge_eq:
  "l1i_find_bb_merge_hist_table h line =
     Some (case find (\<lambda>e. line AND L1I_HIST_TAG_MASK > h_tag e \<and>
                         (line AND L1I_HIST_TAG_MASK) - h_tag e \<le> ucast (h_bb_size e))
             (take L1I_BB_MERGE_ENTRIES (hist_list h)) of
        None \<Rightarrow> 0 | Some e \<Rightarrow> ucast ((line AND L1I_HIST_TAG_MASK) - h_tag e))"
  using l1i_find_bb_merge_loop_eq [of 0 32 "l1i_hist_table h" "line AND L1I_HIST_TAG_MASK"
      "hist_prev (l1i_hist_table_head h)"]
  by (simp add: l1i_find_bb_merge_hist_table_def hist_list_def take_map take_upt)

subsection \<open>Choosing a source\<close>

text \<open>
  \<open>elapsed tab p j\<close> is the time between the insertion of the entry at \<open>p\<close> and the insertion of
  the entry \<open>j\<close> steps older.  A search result is timely when it is the tag of an entry that
  is older than \<open>p\<close> by at least the latency, and is not the tag searched for.
\<close>

definition elapsed :: "l1i_hist_entry list \<Rightarrow> nat \<Rightarrow> nat \<Rightarrow> u64" where
  "elapsed tab p j = sum_list (map (\<lambda>m. h_time_diff (tab ! hist_pos p m)) [0..<j])"

definition timely :: "l1i_hist_entry list \<Rightarrow> nat \<Rightarrow> u64 \<Rightarrow> u64 \<Rightarrow> nat \<Rightarrow> l1i_src_best \<Rightarrow> bool" where
  "timely tab p tag latency k b \<longleftrightarrow> format_best b \<le> L1I_ENTANGLED_NUM_FORMATS \<and>
     (best_entangled b \<noteq> 0 \<longrightarrow>
       (\<exists>j. 1 \<le> j \<and> j < k \<and> pos_best b = hist_pos p j \<and>
            h_tag (tab ! hist_pos p j) = best_entangled b \<and>
            best_entangled b \<noteq> tag \<and> latency \<le> elapsed tab p j))"

lemma elapsed_Suc: "elapsed tab p (Suc k) = elapsed tab p k + h_time_diff (tab ! hist_pos p k)"
  by (simp add: elapsed_def)

lemma timely_mono: "timely tab p tag latency k b \<Longrightarrow> k \<le> k' \<Longrightarrow> timely tab p tag latency k' b"
  unfolding timely_def by (meson less_le_trans)

lemma l1i_src_visit_best:
  assumes "l1i_src_visit e i format_i ns best found = (best', found', stop)"
  shows "best' = best \<or>
    best_entangled best' = h_tag e \<and> pos_best best' = i \<and>
    (format_best best' = format_i \<or> format_best best' = h_format e)"
  using assms by (auto simp: l1i_src_visit_def Let_def split: if_splits)

lemma timely_visit:
  assumes "l1i_src_visit (tab ! hist_pos p k) (hist_pos p k) format_i ns best found = (best', found', stop)"
    and "timely tab p tag latency k best" and "1 \<le> k" and "latency \<le> elapsed tab p k"
    and "h_tag (tab ! hist_pos p k) \<noteq> tag"
    and "is_format format_i" and "h_format (tab ! hist_pos p k) \<le> L1I_ENTANGLED_NUM_FORMATS"
  shows "timely tab p tag latency (Suc k) best'"
  using l1i_src_visit_best [OF assms(1)]
proof
  assume "best' = best"
  then show ?thesis using assms(2) timely_mono by (metis le_SucI le_refl)
qed (use assms in \<open>auto simp: timely_def is_format_def\<close>)

definition hist_entry_ok :: "l1i_hist_entry \<Rightarrow> bool" where
  "hist_entry_ok e \<longleftrightarrow> is_line_addr (h_tag e) \<and> is_line_addr (h_ent_src e) \<and>
     h_bb_size e \<le> L1I_MERGE_BBSIZE_MAX_VALUE \<and> h_format e \<le> L1I_ENTANGLED_NUM_FORMATS"

lemma l1i_src_loop_timely:
  assumes tab: "list_all hist_entry_ok tab" "length tab = 32" and tag: "is_line_addr tag"
    and d: "d \<le> 32" "\<And>j. 1 \<le> j \<Longrightarrow> j < d \<Longrightarrow> hist_pos p j \<noteq> hist_pos p d"
  shows "\<lbrakk>1 \<le> k; k \<le> d; d - k < fuel; timely tab p tag latency k best\<rbrakk> \<Longrightarrow>
    \<exists>ex. l1i_src_loop tab tag latency (hist_pos p d) fuel (hist_pos p k) (elapsed tab p k) ns best found
           = Some ex \<and>
         (\<forall>b. ex = Src_done b \<longrightarrow> timely tab p tag latency d b)"
proof (induction fuel arbitrary: k ns best found)
  case 0
  then show ?case by simp
next
  case (Suc fuel)
  let ?e = "tab ! hist_pos p k"
  show ?case
  proof (cases "k = d")
    case True
    then show ?thesis using Suc.prems by simp
  next
    case False
    with Suc.prems d have k: "k < 32" "hist_pos p k \<noteq> hist_pos p d" "Suc k \<le> d" "d - Suc k < fuel"
      by auto
    have e: "hist_entry_ok ?e" using tab by (simp add: list_all_length)
    then obtain f where f: "l1i_get_format_entangled (h_tag ?e) tag = Some f"
      using get_format_total tag by (auto simp: hist_entry_ok_def)
    have old: "timely tab p tag latency (Suc k) best"
      using Suc.prems(4) by (rule timely_mono) simp
    obtain best' found' stop where v:
      "l1i_src_visit ?e (hist_pos p k) f (Suc ns) best found = (best', found', stop)"
      by (metis prod_cases3)
    show ?thesis
    proof (cases "h_tag ?e \<noteq> 0 \<and> latency \<le> elapsed tab p k \<and> h_tag ?e \<noteq> tag")
      case True
      then have t: "timely tab p tag latency (Suc k) best'"
        using timely_visit [OF v Suc.prems(4,1)] get_format_is_format [OF f] e
        by (simp add: hist_entry_ok_def)
      then have "timely tab p tag latency d best'"
        using k(3) by (rule timely_mono)
      then show ?thesis
        using k True f v Suc.IH [OF _ k(3,4) t] by (simp add: hist_prev_pos elapsed_Suc)
    next
      case False
      then show ?thesis
        using k Suc.IH [OF _ k(3,4) old] by (auto simp: hist_prev_pos elapsed_Suc)
    qed
  qed
qed

lemma hist_tag_mask: "x AND L1I_HIST_TAG_MASK = take_bit 58 x"
  unfolding L1I_HIST_TAG_MASK_def L1I_HIST_TAG_BITS_def by (rule and_push_bit_mask)

lemma is_line_addr_mask [simp]: "is_line_addr (x AND L1I_HIST_TAG_MASK)"
  unfolding is_line_addr_def hist_tag_mask by (simp add: drop_bit_take_bit)

lemma line_addr_mask: "is_line_addr x \<Longrightarrow> x AND L1I_HIST_TAG_MASK = x"
  unfolding is_line_addr_def hist_tag_mask by (simp add: take_bit_eq_self_iff_drop_bit_eq_0)

text \<open>Distance from a position back to another one, counted from 1 to 32.\<close>

lemma hist_pos_dist:
  assumes "p < 32" "q < 32"
  obtains d where "1 \<le> d" "d \<le> 32" "hist_pos p d = q"
    "\<And>j. 1 \<le> j \<Longrightarrow> j < d \<Longrightarrow> hist_pos p j \<noteq> hist_pos p d"
proof -
  obtain k where k: "k < 32" "hist_pos p k = q" using hist_pos_surj assms by blast
  show thesis
  proof (cases "k = 0")
    case True
    have "hist_pos p j \<noteq> hist_pos p 32" if "1 \<le> j" "j < 32" for j
      using that assms(1) hist_pos_inj [of j 0 p] by auto
    then show ?thesis using that [of 32] k True assms by simp
  next
    case False
    then show ?thesis using that [of k] k hist_pos_inj [of _ k p] by (metis One_nat_def Suc_leI less_imp_le less_trans nat_neq_iff not_gr_zero)
  qed
qed

definition wf_hist :: "l1i_hist \<Rightarrow> bool" where
  "wf_hist h \<longleftrightarrow> hist_shape h \<and> list_all hist_entry_ok (l1i_hist_table h)"

lemma l1i_get_src_timely:
  assumes h: "wf_hist h" and pos: "pos < 32" and tag: "line AND L1I_HIST_TAG_MASK \<noteq> 0"
  obtains src h' where "l1i_get_src_entangled_hist_table h line pos latency = Some (src, h')"
    "h' = h \<or> (\<exists>q f n. q < 32 \<and> f \<le> L1I_ENTANGLED_NUM_FORMATS \<and>
        h' = h\<lparr>l1i_hist_table := (l1i_hist_table h)
               [q := (l1i_hist_table h ! q)\<lparr>h_format := f, h_num_dst := n\<rparr>]\<rparr>)"
    "src \<noteq> 0 \<Longrightarrow> \<exists>j. 1 \<le> j \<and> j < 32 \<and> h_tag (l1i_hist_table h ! hist_pos pos j) = src \<and>
        src \<noteq> line AND L1I_HIST_TAG_MASK \<and> latency \<le> elapsed (l1i_hist_table h) pos j"
proof (cases "h_tag (l1i_hist_table h ! pos) = line AND L1I_HIST_TAG_MASK")
  case False
  then show thesis using pos tag by (intro that [of 0 h])
      (simp_all add: l1i_get_src_entangled_hist_table_def Let_def)
next
  case True
  let ?tab = "l1i_hist_table h" and ?tag = "line AND L1I_HIST_TAG_MASK"
  let ?first = "hist_prev (l1i_hist_table_head h)"
  let ?b0 = "\<lparr>best_entangled = 0, pos_best = 0, format_best = 0\<rparr>"
  have tab: "list_all hist_entry_ok ?tab" "length ?tab = 32"
    using h by (simp_all add: wf_hist_def hist_shape_def)
  obtain d where d: "1 \<le> d" "d \<le> 32" "hist_pos pos d = ?first"
    "\<And>j. 1 \<le> j \<Longrightarrow> j < d \<Longrightarrow> hist_pos pos j \<noteq> hist_pos pos d"
    using hist_pos_dist [OF pos, of ?first] by auto
  have start: "hist_prev pos = hist_pos pos 1" "h_time_diff (?tab ! pos) = elapsed ?tab pos 1"
    using pos hist_prev_pos [of 0 pos] by (simp_all add: elapsed_def)
  have "timely ?tab pos ?tag latency 1 ?b0" "d - 1 < 32"
    using d(1,2) by (simp_all add: timely_def)
  with d(1,2) obtain ex where ex:
    "l1i_src_loop ?tab ?tag latency ?first 32 (hist_prev pos) (h_time_diff (?tab ! pos)) 0 ?b0 0 = Some ex"
    "\<And>b. ex = Src_done b \<Longrightarrow> timely ?tab pos ?tag latency d b"
    using l1i_src_loop_timely [OF tab is_line_addr_mask [of line] d(2,4), where k = 1 and fuel = 32 and latency = latency and best = ?b0 and ns = 0 and found = 0]
    unfolding start d(3) by auto
  show thesis
  proof (cases "\<exists>b. ex = Src_done b \<and> best_entangled b \<noteq> 0")
    case True': True
    then obtain b where b: "ex = Src_done b" "best_entangled b \<noteq> 0" by blast
    from ex(2) [OF b(1)] b(2) obtain j where j: "1 \<le> j" "j < d" "pos_best b = hist_pos pos j"
      "h_tag (?tab ! hist_pos pos j) = best_entangled b" "best_entangled b \<noteq> ?tag"
      "latency \<le> elapsed ?tab pos j" "format_best b \<le> L1I_ENTANGLED_NUM_FORMATS"
      unfolding timely_def by blast
    show thesis
    proof (rule that)
      show "l1i_get_src_entangled_hist_table h line pos latency =
        Some (best_entangled b, h\<lparr>l1i_hist_table := ?tab[pos_best b := (?tab ! pos_best b)
          \<lparr>h_format := format_best b, h_num_dst := h_num_dst (?tab ! pos_best b) + 1\<rparr>]\<rparr>)"
        using pos tag True ex(1) b by (simp add: l1i_get_src_entangled_hist_table_def Let_def)
      show "h\<lparr>l1i_hist_table := ?tab[pos_best b := (?tab ! pos_best b)
          \<lparr>h_format := format_best b, h_num_dst := h_num_dst (?tab ! pos_best b) + 1\<rparr>]\<rparr> = h \<or>
        (\<exists>q f n. q < 32 \<and> f \<le> L1I_ENTANGLED_NUM_FORMATS \<and>
          h\<lparr>l1i_hist_table := ?tab[pos_best b := (?tab ! pos_best b)
          \<lparr>h_format := format_best b, h_num_dst := h_num_dst (?tab ! pos_best b) + 1\<rparr>]\<rparr> =
          h\<lparr>l1i_hist_table := ?tab[q := (?tab ! q)\<lparr>h_format := f, h_num_dst := n\<rparr>]\<rparr>)"
        using j(3,7) by (intro disjI2 exI [of _ "pos_best b"] exI [of _ "format_best b"]
            exI [of _ "h_num_dst (?tab ! pos_best b) + 1"] conjI refl) simp_all
    qed (use j(1,2,4,5,6) d(2) in \<open>auto intro!: exI [of _ j]\<close>)
  next
    case False
    then show thesis using pos tag True ex(1)
      by (intro that [of 0 h]) (auto simp: l1i_get_src_entangled_hist_table_def Let_def split: l1i_src_exit.splits)
  qed
qed

subsection \<open>The history invariant\<close>

lemma wf_hist_length [simp]: "wf_hist h \<Longrightarrow> length (l1i_hist_table h) = 32"
  by (simp add: wf_hist_def hist_shape_def)

lemma wf_hist_shape: "wf_hist h \<Longrightarrow> hist_shape h"
  by (simp add: wf_hist_def)

lemma wf_hist_nth: "wf_hist h \<Longrightarrow> i < 32 \<Longrightarrow> hist_entry_ok (l1i_hist_table h ! i)"
  using list_all_nth [of hist_entry_ok "l1i_hist_table h" i] by (simp add: wf_hist_def hist_shape_def)

lemma wf_hist_update:
  "wf_hist h \<Longrightarrow> hist_entry_ok e \<Longrightarrow> wf_hist (h\<lparr>l1i_hist_table := (l1i_hist_table h)[i := e]\<rparr>)"
  by (auto simp: wf_hist_def hist_shape_def intro: list_all_update)

lemma is_line_addr_0 [simp]: "is_line_addr 0"
  by (simp add: is_line_addr_def)

lemma wf_init_hist: "wf_hist (l1i_init_hist_table t)"
  by (simp add: wf_hist_def hist_shape_def l1i_init_hist_table_def l1i_hist_entry_zero_def
      hist_entry_ok_def list_all_replicate)

lemma bb_size_masked: "bb AND L1I_MERGE_BBSIZE_MAX_VALUE \<le> L1I_MERGE_BBSIZE_MAX_VALUE"
  by (rule word_and_le1)

lemma wf_hist_add_bb_size:
  assumes "wf_hist h" "l1i_add_bb_size_hist_table h line bb = Some h'"
  shows "wf_hist h'"
proof -
  let ?i = "l1i_find_hist_entry h line"
  have h': "?i < 32" "h' = h\<lparr>l1i_hist_table := (l1i_hist_table h)
      [?i := (l1i_hist_table h ! ?i)\<lparr>h_bb_size := bb AND L1I_MERGE_BBSIZE_MAX_VALUE\<rparr>]\<rparr>"
    using assms(2) by (simp_all add: l1i_add_bb_size_hist_table_def Let_def split: if_splits)
  show ?thesis unfolding h'(2)
    using assms(1) wf_hist_nth [OF assms(1) h'(1)] bb_size_masked
    by (intro wf_hist_update) (auto simp: hist_entry_ok_def)
qed

lemma squash_fix_bb_size:
  assumes "h_tag e \<le> line" "line \<le> h_tag e + ucast (h_bb_size e)"
  shows "(ucast (line - h_tag e) :: u32) \<le> h_bb_size e"
proof (rule ucast_u64_u32_le)
  have "unat (line - h_tag e) = unat line - unat (h_tag e)"
    using assms(1) by (simp add: unat_sub)
  moreover have "unat line \<le> unat (h_tag e) + unat (h_bb_size e)"
    using assms(2) unat_add_le [of "h_tag e" "ucast (h_bb_size e)"]
    by (simp add: word_le_nat_alt)
  ultimately show "unat (line - h_tag e) \<le> unat (h_bb_size e)" by simp
qed

lemma squash_young_ok: "hist_entry_ok e \<Longrightarrow> hist_entry_ok (squash_young e)"
  by (simp add: hist_entry_ok_def squash_young_def)

lemma squash_fix_ok: "hist_entry_ok e \<Longrightarrow> hist_entry_ok (squash_fix line e)"
  using squash_fix_bb_size [of e line]
  by (auto simp: hist_entry_ok_def squash_fix_def intro: order_trans)

lemma hist_entry_ok_time [simp]: "hist_entry_ok (e\<lparr>h_time_diff := t\<rparr>) = hist_entry_ok e"
  by (simp add: hist_entry_ok_def)

lemma squash_list_ok: "list_all hist_entry_ok es \<Longrightarrow> list_all hist_entry_ok (squash_list iid line found t es)"
  by (induction es arbitrary: found t) (simp_all add: squash_young_ok squash_fix_ok)

lemma wf_hist_squash:
  assumes "wf_hist h"
  shows "wf_hist (l1i_squash_hist_table h iid line)"
proof -
  let ?h = "l1i_squash_hist_table h iid line"
  have shape: "hist_shape h" "hist_shape ?h"
    using assms by (simp_all add: wf_hist_def hist_shape_squash)
  have "list_all hist_entry_ok (hist_list h)"
    using assms set_hist_list [OF shape(1)] by (simp add: wf_hist_def list_all_iff)
  then have "list_all hist_entry_ok (hist_list ?h)"
    unfolding l1i_squash_hist_list [OF shape(1)]
    using squash_list_ok [of "hist_list h"] by (simp add: list_all_iff)
  then show ?thesis
    using shape set_hist_list [OF shape(2)] by (simp add: wf_hist_def list_all_iff)
qed

lemma wf_hist_get_src:
  assumes "wf_hist h" "l1i_get_src_entangled_hist_table h line pos latency = Some (src, h')"
  shows "wf_hist h'" "map h_tag (l1i_hist_table h') = map h_tag (l1i_hist_table h)"
    "l1i_hist_table_head h' = l1i_hist_table_head h"
    "map h_bb_size (l1i_hist_table h') = map h_bb_size (l1i_hist_table h)"
proof -
  have pre: "pos < 32" "line AND L1I_HIST_TAG_MASK \<noteq> 0"
    using assms(2) by (simp_all add: l1i_get_src_entangled_hist_table_def Let_def split: if_splits)
  obtain src' h'' where "l1i_get_src_entangled_hist_table h line pos latency = Some (src', h'')"
    "h'' = h \<or> (\<exists>q f n. q < 32 \<and> f \<le> L1I_ENTANGLED_NUM_FORMATS \<and>
        h'' = h\<lparr>l1i_hist_table := (l1i_hist_table h)
               [q := (l1i_hist_table h ! q)\<lparr>h_format := f, h_num_dst := n\<rparr>]\<rparr>)"
    using l1i_get_src_timely [OF assms(1) pre, of latency] by metis
  then have "h' = h \<or> (\<exists>q f n. q < 32 \<and> f \<le> L1I_ENTANGLED_NUM_FORMATS \<and>
        h' = h\<lparr>l1i_hist_table := (l1i_hist_table h)
               [q := (l1i_hist_table h ! q)\<lparr>h_format := f, h_num_dst := n\<rparr>]\<rparr>)"
    using assms(2) by simp
  then show "wf_hist h'" "map h_tag (l1i_hist_table h') = map h_tag (l1i_hist_table h)"
    "l1i_hist_table_head h' = l1i_hist_table_head h"
    "map h_bb_size (l1i_hist_table h') = map h_bb_size (l1i_hist_table h)"
    using assms(1) wf_hist_nth [OF assms(1)]
    by (auto simp: map_update list_update_same_conv hist_entry_ok_def intro!: wf_hist_update)
qed

subsection \<open>Properties\<close>

text \<open>
  The lookup in the ring buffer returns the position of the newest entry for the line: the
  first match in the list that starts at the entry before the head, or \<open>L1I_HIST_TABLE_ENTRIES\<close>
  when no entry matches.
\<close>

theorem find_hist_entry_newest:
  "l1i_find_hist_entry h line_addr =
     (let m = find_index (\<lambda>e. h_tag e = line_addr AND L1I_HIST_TAG_MASK) (hist_list h)
      in if m < L1I_HIST_TABLE_ENTRIES then hist_pos (hist_prev (l1i_hist_table_head h)) m
         else L1I_HIST_TABLE_ENTRIES)"
  unfolding L1I_HIST_TABLE_ENTRIES_def by (rule l1i_find_hist_entry_eq)

text \<open>
  C28: a squash clears exactly the entries of younger instructions and keeps the tags of all
  others; the younger entries in front move behind the oldest one, so that the newest
  remaining entry is the newest one of the ring again, and the sum of the time differences of
  the ring does not change.
\<close>

theorem squash_clears_younger:
  assumes "hist_shape h" and "\<exists>e \<in> set (hist_list h). \<not> h_instr_id e > instr_id"
  shows "map h_tag (hist_list (l1i_squash_hist_table h instr_id line_addr)) =
      rotate (length (takeWhile (\<lambda>e. h_instr_id e > instr_id) (hist_list h)))
        (map (\<lambda>e. if h_instr_id e > instr_id then 0 else h_tag e) (hist_list h)) \<and>
    sum_list (map h_time_diff (hist_list (l1i_squash_hist_table h instr_id line_addr))) =
      sum_list (map h_time_diff (hist_list h))"
proof -
  have tags: "map h_tag (squash_list instr_id line_addr False 0 (hist_list h)) =
      map (\<lambda>e. if h_instr_id e > instr_id then 0 else h_tag e) (hist_list h)"
    by (rule squash_list_tags)
  have time: "sum_list (map h_time_diff (squash_list instr_id line_addr False 0 (hist_list h))) =
      sum_list (map h_time_diff (hist_list h))"
    using squash_list_time [of "hist_list h" instr_id line_addr 0] assms(2) by (simp add: not_less)
  have rot: "sum_list (map h_time_diff (rotate n xs)) = sum_list (map h_time_diff xs)" for n xs
    by (simp add: rotate_map [symmetric] sum_list_rotate)
  show ?thesis
    unfolding l1i_squash_hist_list [OF assms(1)]
    by (rule conjI) (simp only: rotate_map [symmetric] tags, simp only: rot time)
qed

text \<open>A small history: a block at line 5, and 100 cycles later one at line 9.\<close>

definition example_hist :: l1i_hist where
  "example_hist = \<lparr>l1i_hist_table = (replicate L1I_HIST_TABLE_ENTRIES l1i_hist_entry_zero)
      [0 := l1i_hist_entry_zero\<lparr>h_tag := 5, h_time_diff := 7, h_bb_size := 2, h_instr_id := 1\<rparr>,
       1 := l1i_hist_entry_zero\<lparr>h_tag := 9, h_time_diff := 100, h_instr_id := 4\<rparr>],
     l1i_hist_table_head = 2, l1i_hist_table_head_time = 107\<rparr>"

theorem squash_clears_younger_witness:
  "h_tag (hist_list example_hist ! 0) = 9 \<and> h_tag (hist_list (l1i_squash_hist_table example_hist 2 6) ! 0) = 5 \<and>
   sum_list (map h_time_diff (hist_list (l1i_squash_hist_table example_hist 2 6))) = 107"
proof -
  have "hist_shape example_hist" "\<exists>e \<in> set (hist_list example_hist). \<not> h_instr_id e > 2" by code_simp+
  note squash = squash_clears_younger [OF this, of 6]
  have "h_tag (hist_list (l1i_squash_hist_table example_hist 2 6) ! 0) =
      map h_tag (hist_list (l1i_squash_hist_table example_hist 2 6)) ! 0" by simp
  also have "\<dots> = 5" unfolding conjunct1 [OF squash] by code_simp
  finally have "h_tag (hist_list (l1i_squash_hist_table example_hist 2 6) ! 0) = 5" .
  moreover have "sum_list (map h_time_diff (hist_list example_hist)) = 107" by code_simp
  moreover have "h_tag (hist_list example_hist ! 0) = 9" by code_simp
  ultimately show ?thesis using conjunct2 [OF squash] by simp
qed

text \<open>
  The search for a block to merge with always returns (it cannot reach the assertion after
  its loop): the distance from the first of the newest five entries whose block covers the
  line, or 0 when there is none.
\<close>

theorem find_bb_merge_first:
  "l1i_find_bb_merge_hist_table h line_addr =
     Some (case find (\<lambda>e. line_addr AND L1I_HIST_TAG_MASK > h_tag e \<and>
                         (line_addr AND L1I_HIST_TAG_MASK) - h_tag e \<le> ucast (h_bb_size e))
             (take L1I_BB_MERGE_ENTRIES (hist_list h)) of
        None \<Rightarrow> 0 | Some e \<Rightarrow> ucast ((line_addr AND L1I_HIST_TAG_MASK) - h_tag e))"
  by (rule l1i_find_bb_merge_eq)

text \<open>
  C27: the search for a source to entangle with ends without an assertion failure on every
  history that satisfies the invariant, and the source it returns is timely: it is the tag of
  an entry older than the missing access by at least the latency of the miss, and it is not
  the missing line itself.
\<close>

theorem chosen_source_is_timely:
  assumes "wf_hist h" and "pos_hist < L1I_HIST_TABLE_ENTRIES" and "line_addr AND L1I_HIST_TAG_MASK \<noteq> 0"
  shows "\<exists>src h'. l1i_get_src_entangled_hist_table h line_addr pos_hist latency = Some (src, h') \<and> wf_hist h' \<and>
    (src \<noteq> 0 \<longrightarrow> (\<exists>j. 1 \<le> j \<and> j < L1I_HIST_TABLE_ENTRIES \<and>
       h_tag (l1i_hist_table h ! hist_pos pos_hist j) = src \<and> src \<noteq> line_addr AND L1I_HIST_TAG_MASK \<and>
       latency \<le> elapsed (l1i_hist_table h) pos_hist j))"
proof -
  have "pos_hist < 32" using assms(2) by simp
  from l1i_get_src_timely [OF assms(1) this assms(3), of latency] obtain src h' where
    "l1i_get_src_entangled_hist_table h line_addr pos_hist latency = Some (src, h')"
    "src \<noteq> 0 \<Longrightarrow> \<exists>j. 1 \<le> j \<and> j < 32 \<and> h_tag (l1i_hist_table h ! hist_pos pos_hist j) = src \<and>
        src \<noteq> line_addr AND L1I_HIST_TAG_MASK \<and> latency \<le> elapsed (l1i_hist_table h) pos_hist j"
    by metis
  then show ?thesis using wf_hist_get_src(1) [OF assms(1)] by (intro exI [of _ src] exI [of _ h']) simp
qed

theorem chosen_source_is_timely_witness:
  "\<exists>src h'. l1i_get_src_entangled_hist_table example_hist 9 1 60 = Some (src, h') \<and> wf_hist h' \<and>
    (src \<noteq> 0 \<longrightarrow> (\<exists>j. 1 \<le> j \<and> j < L1I_HIST_TABLE_ENTRIES \<and>
       h_tag (l1i_hist_table example_hist ! hist_pos 1 j) = src \<and> src \<noteq> 9 \<and>
       60 \<le> elapsed (l1i_hist_table example_hist) 1 j))"
proof -
  have "wf_hist example_hist" "1 < L1I_HIST_TABLE_ENTRIES" "9 AND L1I_HIST_TAG_MASK \<noteq> 0" by code_simp+
  from chosen_source_is_timely [OF this, of 60] show ?thesis
    by (simp add: hist_tag_mask)
qed

end
