(* ===== verification/EIP_Entangled.thy ===== *)
theory EIP_Entangled
  imports EIP_Timing EIP_History
begin

section \<open>EIP: the entangled table\<close>

text \<open>
  The set-associative table of sources and their destinations (\<open>eip.hh\<close>, lines 182 to 193
  and 653 to 1031).  An entry holds up to six destinations in one common compression format,
  a confidence per destination, and the size of the basic block; sets are replaced in FIFO
  order, with one attempt to keep an evicted entry in an unused way.  The last two operations
  move an entry of the history buffer into the table when it leaves the buffer.

  The lemmas give the invariant of the table (an entry in format \<open>f\<close> holds at most \<open>f\<close>
  destinations, confidences stay within two bits), show that the eviction loop ends, that a
  destination can be looked up after it has been added, and that nothing but the new
  destination appears.
\<close>

subsection \<open>Data\<close>

definition L1I_ENTANGLED_TABLE_INDEX_BITS :: nat where [simp]: "L1I_ENTANGLED_TABLE_INDEX_BITS = 8"
definition L1I_ET_SETS :: nat where "L1I_ET_SETS = 256"
definition L1I_MAX_ENTANGLED_PER_LINE :: nat where
  [simp]: "L1I_MAX_ENTANGLED_PER_LINE = L1I_ENTANGLED_NUM_FORMATS"
definition L1I_TAG_BITS :: nat where [simp]: "L1I_TAG_BITS = 10"
definition L1I_TAG_MASK :: u64 where "L1I_TAG_MASK = push_bit L1I_TAG_BITS 1 - 1"
definition L1I_CONFIDENCE_COUNTER_MAX_VALUE :: nat where [simp]: "L1I_CONFIDENCE_COUNTER_MAX_VALUE = 3"
definition L1I_CONFIDENCE_COUNTER_THRESHOLD :: nat where [simp]: "L1I_CONFIDENCE_COUNTER_THRESHOLD = 1"
definition L1I_TIME_DIFF_BITS :: nat where [simp]: "L1I_TIME_DIFF_BITS = 20"
definition L1I_TIME_DIFF_OVERFLOW :: u64 where "L1I_TIME_DIFF_OVERFLOW = push_bit L1I_TIME_DIFF_BITS 1"
definition L1I_TIME_DIFF_MASK :: u64 where "L1I_TIME_DIFF_MASK = L1I_TIME_DIFF_OVERFLOW - 1"

record l1i_entangled_entry =
  e_tag :: u64
  e_format :: nat
  e_addr :: "u64 list"
  e_conf :: "nat list"
  e_bb_size :: u32

record l1i_entangled =
  l1i_entangled_table :: "l1i_entangled_entry list list"
  l1i_entangled_fifo :: "nat list"

subsection \<open>Operations\<close>

definition l1i_hash :: "u64 \<Rightarrow> u64" where
  "l1i_hash line_addr = line_addr XOR drop_bit 2 line_addr XOR drop_bit 5 line_addr"

text \<open>The tag and the set that every operation computes from the hash of the line.\<close>

definition et_tag :: "u64 \<Rightarrow> u64" where
  "et_tag line_addr = drop_bit L1I_ENTANGLED_TABLE_INDEX_BITS (l1i_hash line_addr) AND L1I_TAG_MASK"

definition et_set :: "u64 \<Rightarrow> nat" where
  "et_set line_addr = unat (l1i_hash line_addr) mod L1I_ET_SETS"

text \<open>The entry written when the table is initialised (with tag 0) or a way is allocated.\<close>

definition l1i_new_entry :: "u64 \<Rightarrow> l1i_entangled_entry" where
  "l1i_new_entry tag = \<lparr>e_tag = tag, e_format = L1I_ENTANGLED_NUM_FORMATS,
     e_addr = replicate L1I_MAX_ENTANGLED_PER_LINE 0, e_conf = replicate L1I_MAX_ENTANGLED_PER_LINE 0,
     e_bb_size = 0\<rparr>"

definition l1i_init_entangled_table :: l1i_entangled where
  "l1i_init_entangled_table =
     \<lparr>l1i_entangled_table = replicate L1I_ET_SETS (replicate L1I_ET_WAYS (l1i_new_entry 0)),
      l1i_entangled_fifo = replicate L1I_ET_SETS 0\<rparr>"

definition l1i_get_way_entangled_table :: "l1i_entangled \<Rightarrow> u64 \<Rightarrow> nat" where
  "l1i_get_way_entangled_table t line_addr =
     find_index (\<lambda>e. e_tag e = et_tag line_addr) (l1i_entangled_table t ! et_set line_addr)"

definition et_update :: "l1i_entangled \<Rightarrow> nat \<Rightarrow> nat \<Rightarrow> l1i_entangled_entry \<Rightarrow> l1i_entangled" where
  "et_update t s way e = t\<lparr>l1i_entangled_table := (l1i_entangled_table t)
     [s := (l1i_entangled_table t ! s)[way := e]]\<rparr>"

text \<open>
  Looking for an unused way.  The loop of the source goes round the set from the way after the
  evicted one; fuel 0 stands for going round for ever, which a FIFO pointer below
  \<open>L1I_ET_WAYS\<close> excludes.
\<close>

definition l1i_dest_free :: "l1i_entangled_entry \<Rightarrow> bool" where
  "l1i_dest_free e \<longleftrightarrow> list_all (\<lambda>c. \<not> c \<ge> L1I_CONFIDENCE_COUNTER_THRESHOLD) (e_conf e)"

fun l1i_realloc_loop :: "l1i_entangled_entry list \<Rightarrow> nat \<Rightarrow> nat \<Rightarrow> nat \<Rightarrow> nat \<Rightarrow> bool \<Rightarrow> (nat \<times> bool) option" where
  "l1i_realloc_loop es way 0 i free_way free_with_size = None"
| "l1i_realloc_loop es way (Suc fuel) i free_way free_with_size =
     (if i = way then Some (free_way, free_with_size)
      else if l1i_dest_free (es ! i) then
        (if free_way = way then
           l1i_realloc_loop es way fuel ((i + 1) mod L1I_ET_WAYS) i (e_bb_size (es ! i) \<noteq> 0)
         else if free_with_size \<and> e_bb_size (es ! i) = 0 then Some (i, False)
         else l1i_realloc_loop es way fuel ((i + 1) mod L1I_ET_WAYS) free_way free_with_size)
      else l1i_realloc_loop es way fuel ((i + 1) mod L1I_ET_WAYS) free_way free_with_size)"

definition l1i_try_realocate_evicted_in_available_entangled_table ::
    "l1i_entangled \<Rightarrow> nat \<Rightarrow> l1i_entangled option" where
  "l1i_try_realocate_evicted_in_available_entangled_table t s =
     (let way = l1i_entangled_fifo t ! s; es = l1i_entangled_table t ! s;
          dest_free_way = l1i_dest_free (es ! way) in
      if dest_free_way \<and> e_bb_size (es ! way) = 0 then Some t
      else do {
        (free_way, free_with_size) \<leftarrow>
          l1i_realloc_loop es way L1I_ET_WAYS ((way + 1) mod L1I_ET_WAYS) way False;
        if free_way \<noteq> way \<and> (\<not> free_with_size \<or> (free_with_size \<and> \<not> dest_free_way))
        then Some (et_update t s free_way (es ! way))
        else Some t
      })"

text \<open>The way of a line, allocated when there is none.\<close>

definition l1i_alloc_entangled :: "l1i_entangled \<Rightarrow> u64 \<Rightarrow> (nat \<times> l1i_entangled) option" where
  "l1i_alloc_entangled t line_addr =
     (let s = et_set line_addr; way = l1i_get_way_entangled_table t line_addr in
      if way = L1I_ET_WAYS then do {
        t1 \<leftarrow> l1i_try_realocate_evicted_in_available_entangled_table t s;
        let way1 = l1i_entangled_fifo t1 ! s;
        let t2 = et_update t1 s way1 (l1i_new_entry (et_tag line_addr));
        Some (way1, t2\<lparr>l1i_entangled_fifo := (l1i_entangled_fifo t2)[s := (way1 + 1) mod L1I_ET_WAYS]\<rparr>)
      }
      else Some (way, t))"

text \<open>
  The scan of the eviction loop over one entry: the least format, the number of valid
  destinations (counting the new one), the least confidence and where it is.
\<close>

record l1i_evict_scan =
  min_format :: nat
  num_valid :: nat
  min_value :: nat
  min_pos :: nat

definition l1i_evict_visit :: "nat \<Rightarrow> nat \<Rightarrow> nat \<Rightarrow> l1i_evict_scan \<Rightarrow> l1i_evict_scan" where
  "l1i_evict_visit k conf_k format_k a =
     (let a1 = a\<lparr>num_valid := num_valid a + 1\<rparr>;
          a2 = (if format_k < min_format a1 then a1\<lparr>min_format := format_k\<rparr> else a1)
      in if conf_k < min_value a2 then a2\<lparr>min_value := conf_k, min_pos := k\<rparr> else a2)"

fun l1i_evict_scan_loop :: "u64 \<Rightarrow> nat \<Rightarrow> (u64 \<times> nat) list \<Rightarrow> nat \<Rightarrow> l1i_evict_scan \<Rightarrow> l1i_evict_scan option" where
  "l1i_evict_scan_loop line_addr format [] k a = Some a"
| "l1i_evict_scan_loop line_addr format ((addr_k, conf_k) # rest) k a =
     (if conf_k \<ge> L1I_CONFIDENCE_COUNTER_THRESHOLD then do {
        format_k \<leftarrow> l1i_get_format_entangled line_addr
                     (l1i_extend_format_entangled line_addr addr_k format);
        l1i_evict_scan_loop line_addr format rest (Suc k) (l1i_evict_visit k conf_k format_k a)
      }
      else l1i_evict_scan_loop line_addr format rest (Suc k) a)"

definition l1i_reformat :: "u64 \<Rightarrow> l1i_entangled_entry \<Rightarrow> nat \<Rightarrow> l1i_entangled_entry" where
  "l1i_reformat line_addr e new_format =
     e\<lparr>e_addr := map (\<lambda>(a, c). if c \<ge> L1I_CONFIDENCE_COUNTER_THRESHOLD
          then l1i_compress_format_entangled
                 (l1i_extend_format_entangled line_addr a (e_format e)) new_format
          else a) (zip (e_addr e) (e_conf e)),
       e_format := new_format\<rparr>"

fun l1i_evict_loop :: "nat \<Rightarrow> u64 \<Rightarrow> nat \<Rightarrow> l1i_entangled_entry \<Rightarrow> l1i_entangled_entry option" where
  "l1i_evict_loop 0 line_addr format_new e = None"
| "l1i_evict_loop (Suc fuel) line_addr format_new e = do {
     a \<leftarrow> l1i_evict_scan_loop line_addr (e_format e) (zip (e_addr e) (e_conf e)) 0
       \<lparr>min_format = format_new, num_valid = 1,
        min_value = L1I_CONFIDENCE_COUNTER_MAX_VALUE + 1, min_pos = 0\<rparr>;
     if num_valid a > min_format a
     then l1i_evict_loop fuel line_addr format_new (e\<lparr>e_conf := (e_conf e)[min_pos a := 0]\<rparr>)
     else Some (l1i_reformat line_addr e (min_format a))
   }"

text \<open>The part of \<open>l1i_add_entangled_table\<close> that works on the entry of the line.\<close>

definition l1i_add_destination :: "u64 \<Rightarrow> u64 \<Rightarrow> l1i_entangled_entry \<Rightarrow> l1i_entangled_entry option" where
  "l1i_add_destination line_addr entangled_addr e =
     (let k = find_index (\<lambda>(a, c). c \<ge> L1I_CONFIDENCE_COUNTER_THRESHOLD \<and>
                 l1i_extend_format_entangled line_addr a (e_format e) = entangled_addr)
                (zip (e_addr e) (e_conf e)) in
      if k < L1I_MAX_ENTANGLED_PER_LINE
      then Some (e\<lparr>e_conf := (e_conf e)[k := L1I_CONFIDENCE_COUNTER_MAX_VALUE]\<rparr>)
      else do {
        format_new \<leftarrow> l1i_get_format_entangled line_addr entangled_addr;
        e1 \<leftarrow> l1i_evict_loop (Suc L1I_MAX_ENTANGLED_PER_LINE) line_addr format_new e;
        let k1 = find_index (\<lambda>c. c < L1I_CONFIDENCE_COUNTER_THRESHOLD) (e_conf e1);
        if k1 < L1I_MAX_ENTANGLED_PER_LINE
        then Some (e1\<lparr>e_addr := (e_addr e1)[k1 := l1i_compress_format_entangled entangled_addr (e_format e1)],
                      e_conf := (e_conf e1)[k1 := L1I_CONFIDENCE_COUNTER_MAX_VALUE]\<rparr>)
        else Some e1
      })"

definition l1i_add_entangled_table :: "l1i_entangled \<Rightarrow> u64 \<Rightarrow> u64 \<Rightarrow> l1i_entangled option" where
  "l1i_add_entangled_table t line_addr entangled_addr = do {
     let s = et_set line_addr;
     (way, t1) \<leftarrow> l1i_alloc_entangled t line_addr;
     e \<leftarrow> l1i_add_destination line_addr entangled_addr (l1i_entangled_table t1 ! s ! way);
     Some (et_update t1 s way e)
   }"

definition l1i_add_bbsize_table :: "l1i_entangled \<Rightarrow> u64 \<Rightarrow> u32 \<Rightarrow> l1i_entangled option" where
  "l1i_add_bbsize_table t line_addr bb_size = do {
     c_assert (bb_size \<le> L1I_MERGE_BBSIZE_MAX_VALUE);
     let s = et_set line_addr;
     (way, t1) \<leftarrow> l1i_alloc_entangled t line_addr;
     let e = l1i_entangled_table t1 ! s ! way;
     Some (et_update t1 s way (e\<lparr>e_bb_size := max (e_bb_size e) bb_size\<rparr>))
   }"

text \<open>The destination (0 for none) with the set and way written to the reference parameters.\<close>

definition l1i_get_entangled_addr_entangled_table :: "l1i_entangled \<Rightarrow> u64 \<Rightarrow> nat \<Rightarrow> u64 \<times> nat \<times> nat" where
  "l1i_get_entangled_addr_entangled_table t line_addr index_k =
     (let s = et_set line_addr; way = l1i_get_way_entangled_table t line_addr;
          e = l1i_entangled_table t ! s ! way in
      if way < L1I_ET_WAYS \<and> e_conf e ! index_k \<ge> L1I_CONFIDENCE_COUNTER_THRESHOLD
      then (l1i_extend_format_entangled line_addr (e_addr e ! index_k) (e_format e), s, way)
      else (0, s, way))"

definition l1i_get_bbsize_entangled_table :: "l1i_entangled \<Rightarrow> u64 \<Rightarrow> u32" where
  "l1i_get_bbsize_entangled_table t line_addr =
     (let s = et_set line_addr; way = l1i_get_way_entangled_table t line_addr in
      if way < L1I_ET_WAYS then e_bb_size (l1i_entangled_table t ! s ! way) else 0)"

definition l1i_update_confidence :: "nat \<Rightarrow> u64 \<Rightarrow> bool \<Rightarrow> u64 \<Rightarrow> nat \<Rightarrow> nat" where
  "l1i_update_confidence format entangled_addr accessed addr_k conf_k =
     (if conf_k \<ge> L1I_CONFIDENCE_COUNTER_THRESHOLD \<and>
         l1i_compress_format_entangled addr_k format = l1i_compress_format_entangled entangled_addr format
      then
        (let c1 = (if accessed \<and> conf_k < L1I_CONFIDENCE_COUNTER_MAX_VALUE then conf_k + 1 else conf_k)
         in if \<not> accessed \<and> c1 > 0 then c1 - 1 else c1)
      else conf_k)"

definition l1i_update_confidence_entangled_table ::
    "l1i_entangled \<Rightarrow> nat \<Rightarrow> nat \<Rightarrow> u64 \<Rightarrow> bool \<Rightarrow> l1i_entangled" where
  "l1i_update_confidence_entangled_table t s way entangled_addr accessed =
     (if way < L1I_ET_WAYS then
        (let e = l1i_entangled_table t ! s ! way in
         et_update t s way (e\<lparr>e_conf :=
           map (\<lambda>(a, c). l1i_update_confidence (e_format e) entangled_addr accessed a c)
             (zip (e_addr e) (e_conf e))\<rparr>))
      else t)"


text \<open>
  An entry leaves the history buffer: its basic-block size and its entangled pair go to the
  table.  The argument is the entry at the head.
\<close>

definition l1i_move_history_head_to_entangled :: "l1i_hist \<Rightarrow> l1i_entangled \<Rightarrow> l1i_entangled option" where
  "l1i_move_history_head_to_entangled h t =
     (let e = l1i_hist_table h ! l1i_hist_table_head h in do {
        t1 \<leftarrow> (if h_bb_size e \<noteq> 0
              then l1i_add_bbsize_table t (h_tag e)
                     (max (l1i_get_bbsize_entangled_table t (h_tag e)) (h_bb_size e))
              else Some t);
        if h_ent_src e \<noteq> 0 then l1i_add_entangled_table t1 (h_ent_src e) (h_tag e) else Some t1
      })"

text \<open>One round of the loop that inserts empty entries while the time difference overflows.\<close>

definition l1i_hist_push :: "l1i_hist \<Rightarrow> l1i_hist_entry \<Rightarrow> u64 \<Rightarrow> l1i_hist" where
  "l1i_hist_push h e head_time =
     \<lparr>l1i_hist_table = (l1i_hist_table h)[l1i_hist_table_head h := e],
      l1i_hist_table_head = (l1i_hist_table_head h + 1) mod L1I_HIST_TABLE_ENTRIES,
      l1i_hist_table_head_time = head_time\<rparr>"

function l1i_add_hist_fill :: "u64 \<Rightarrow> l1i_hist \<Rightarrow> l1i_entangled \<Rightarrow> (l1i_hist \<times> l1i_entangled) option" where
  "l1i_add_hist_fill cycle h t =
     (if cycle - l1i_hist_table_head_time h \<ge> L1I_TIME_DIFF_OVERFLOW then do {
        t1 \<leftarrow> l1i_move_history_head_to_entangled h t;
        l1i_add_hist_fill cycle
          (l1i_hist_push h (l1i_hist_entry_zero\<lparr>h_time_diff := L1I_TIME_DIFF_MASK\<rparr>)
             (l1i_hist_table_head_time h + L1I_TIME_DIFF_MASK)) t1
      }
      else Some (h, t))"
  by pat_completeness auto

termination l1i_add_hist_fill
proof (relation "measure (\<lambda>(cycle, h, t). unat (cycle - l1i_hist_table_head_time h))")
  show "wf (measure (\<lambda>(cycle :: u64, h, t :: l1i_entangled). unat (cycle - l1i_hist_table_head_time h)))"
    by simp
next
  fix cycle :: u64 and h :: l1i_hist and t t1 :: l1i_entangled
  let ?d = "cycle - l1i_hist_table_head_time h"
  assume ge: "L1I_TIME_DIFF_OVERFLOW \<le> ?d"
  have "L1I_TIME_DIFF_MASK \<le> ?d"
    using ge by (rule order_trans [rotated])
      (simp add: L1I_TIME_DIFF_OVERFLOW_def L1I_TIME_DIFF_MASK_def push_bit_eq_mult)
  then have "unat (?d - L1I_TIME_DIFF_MASK) = unat ?d - unat L1I_TIME_DIFF_MASK"
    by (rule unat_sub)
  moreover have "0 < unat L1I_TIME_DIFF_MASK"
    by (simp add: L1I_TIME_DIFF_OVERFLOW_def L1I_TIME_DIFF_MASK_def push_bit_eq_mult)
  moreover have "unat L1I_TIME_DIFF_OVERFLOW \<le> unat ?d"
    using ge by (simp add: word_le_nat_alt)
  moreover have "0 < unat L1I_TIME_DIFF_OVERFLOW"
    by (simp add: L1I_TIME_DIFF_OVERFLOW_def push_bit_eq_mult)
  ultimately have "unat (?d - L1I_TIME_DIFF_MASK) < unat ?d"
    by linarith
  then show "((cycle, l1i_hist_push h (l1i_hist_entry_zero\<lparr>h_time_diff := L1I_TIME_DIFF_MASK\<rparr>)
       (l1i_hist_table_head_time h + L1I_TIME_DIFF_MASK), t1), cycle, h, t)
     \<in> measure (\<lambda>(cycle, h, t). unat (cycle - l1i_hist_table_head_time h))"
    by (simp add: l1i_hist_push_def diff_diff_eq)
qed

declare l1i_add_hist_fill.simps [simp del]

definition l1i_add_hist_table ::
    "u64 \<Rightarrow> l1i_hist \<Rightarrow> l1i_entangled \<Rightarrow> u64 \<Rightarrow> u64 \<Rightarrow> nat \<Rightarrow> u32 \<Rightarrow> (nat \<times> l1i_hist \<times> l1i_entangled) option" where
  "l1i_add_hist_table curTick h t line_addr instr_id format num_dst = do {
     let cycle = get_l1i_current_cycle curTick;
     (h1, t1) \<leftarrow> l1i_add_hist_fill cycle h t;
     t2 \<leftarrow> l1i_move_history_head_to_entangled h1 t1;
     let e = \<lparr>h_tag = line_addr AND L1I_HIST_TAG_MASK,
              h_time_diff = (cycle - l1i_hist_table_head_time h1) AND L1I_TIME_DIFF_MASK,
              h_bb_size = 0, h_instr_id = instr_id, h_ent_src = 0,
              h_format = format, h_num_dst = num_dst\<rparr>;
     Some (l1i_hist_table_head h1, l1i_hist_push h1 e cycle, t2)
   }"


subsection \<open>The invariant of an entry\<close>

definition num_conf :: "nat list \<Rightarrow> nat" where
  "num_conf cs = length (filter (\<lambda>c. 1 \<le> c) cs)"

definition ent_entry_ok :: "l1i_entangled_entry \<Rightarrow> bool" where
  "ent_entry_ok e \<longleftrightarrow> is_format (e_format e) \<and> length (e_addr e) = 6 \<and> length (e_conf e) = 6 \<and>
     list_all (\<lambda>c. c \<le> 3) (e_conf e) \<and> num_conf (e_conf e) \<le> e_format e \<and>
     e_bb_size e \<le> L1I_MERGE_BBSIZE_MAX_VALUE"

text \<open>The destinations an entry holds for a source line.\<close>

definition dest_of :: "u64 \<Rightarrow> l1i_entangled_entry \<Rightarrow> nat \<Rightarrow> u64" where
  "dest_of line_addr e k = l1i_extend_format_entangled line_addr (e_addr e ! k) (e_format e)"

definition dests :: "u64 \<Rightarrow> l1i_entangled_entry \<Rightarrow> u64 set" where
  "dests line_addr e = dest_of line_addr e ` {k. k < 6 \<and> 1 \<le> e_conf e ! k}"

lemma num_conf_card: "length cs = n \<Longrightarrow> num_conf cs = card {k. k < n \<and> 1 \<le> cs ! k}"
  by (simp add: num_conf_def length_filter_conv_card)

lemma num_conf_le: "num_conf cs \<le> length cs"
  by (simp add: num_conf_def)

lemma num_conf_mono:
  assumes "length ds = length cs" "\<And>k. k < length cs \<Longrightarrow> 1 \<le> ds ! k \<Longrightarrow> 1 \<le> cs ! k"
  shows "num_conf ds \<le> num_conf cs"
  unfolding num_conf_card [OF assms(1)] num_conf_card [OF refl]
  by (rule card_mono) (use assms in auto)

lemma num_conf_zero_less:
  assumes "i < length cs" "1 \<le> cs ! i"
  shows "num_conf (cs[i := 0]) < num_conf cs"
proof -
  have "{k. k < length cs \<and> 1 \<le> cs[i := 0] ! k} \<subset> {k. k < length cs \<and> 1 \<le> cs ! k}"
    using assms by (auto simp: nth_list_update split: if_splits)
  then show ?thesis
    unfolding num_conf_card [OF length_list_update] num_conf_card [OF refl] length_list_update
    by (rule psubset_card_mono [rotated]) simp
qed

lemma num_conf_update_le: "num_conf (cs[i := v]) \<le> Suc (num_conf cs)"
proof (cases "i < length cs")
  case True
  have "{k. k < length cs \<and> 1 \<le> cs[i := v] ! k} \<subseteq> insert i {k. k < length cs \<and> 1 \<le> cs ! k}"
    by (auto simp: nth_list_update split: if_splits)
  then have "card {k. k < length cs \<and> 1 \<le> cs[i := v] ! k}
      \<le> card (insert i {k. k < length cs \<and> 1 \<le> cs ! k})"
    by (rule card_mono [rotated]) simp
  also have "\<dots> \<le> Suc (card {k. k < length cs \<and> 1 \<le> cs ! k})"
    by (rule card_insert_le_m1) auto
  finally show ?thesis
    unfolding num_conf_card [OF length_list_update] num_conf_card [OF refl] length_list_update .
qed (simp add: list_update_beyond)

lemma num_conf_full: "length cs = n \<Longrightarrow> find_index (\<lambda>c. c < 1) cs = n \<Longrightarrow> num_conf cs = n"
  using find_index_eq_length_iff [of "\<lambda>c. c < 1" cs]
  by (auto simp: num_conf_def not_less Suc_le_eq intro!: arg_cong [where f = length] filter_True)

lemma ent_new_entry_ok: "ent_entry_ok (l1i_new_entry tag)"
  by (simp add: ent_entry_ok_def l1i_new_entry_def is_format_def num_conf_def list_all_replicate)

subsection \<open>The eviction loop ends and evicts the least confident destinations\<close>

lemma l1i_evict_visit_sel [simp]:
  "num_valid (l1i_evict_visit k c g a) = Suc (num_valid a)"
  "min_format (l1i_evict_visit k c g a) = min g (min_format a)"
  "min_value (l1i_evict_visit k c g a) = min c (min_value a)"
  "min_pos (l1i_evict_visit k c g a) = (if c < min_value a then k else min_pos a)"
  by (simp_all add: l1i_evict_visit_def Let_def)

lemma l1i_evict_scan_total:
  assumes "is_format fmt" "is_line_addr l"
  shows "\<exists>b. l1i_evict_scan_loop l fmt ps k a = Some b"
proof (induction ps arbitrary: k a)
  case (Cons p ps)
  obtain x c where p: "p = (x, c)" by (cases p)
  obtain g where "l1i_get_format_entangled l (l1i_extend_format_entangled l x fmt) = Some g"
    using get_format_extend [OF assms] by blast
  then show ?case using Cons.IH p by simp
qed simp

lemma l1i_evict_scan_num_valid:
  "l1i_evict_scan_loop l fmt ps k a = Some b \<Longrightarrow> num_valid b = num_valid a + num_conf (map snd ps)"
  by (induction l fmt ps k a rule: l1i_evict_scan_loop.induct)
    (auto simp: num_conf_def split: if_splits bind_splits)

lemma l1i_evict_scan_format:
  "l1i_evict_scan_loop l fmt ps k a = Some b \<Longrightarrow>
   min_format b \<le> min_format a \<and>
   (\<forall>(x, c) \<in> set ps. 1 \<le> c \<longrightarrow>
      (\<exists>g. l1i_get_format_entangled l (l1i_extend_format_entangled l x fmt) = Some g \<and> min_format b \<le> g)) \<and>
   (min_format b = min_format a \<or> (\<exists>(x, c) \<in> set ps. 1 \<le> c \<and>
      l1i_get_format_entangled l (l1i_extend_format_entangled l x fmt) = Some (min_format b)))"
proof (induction l fmt ps k a rule: l1i_evict_scan_loop.induct)
  case (2 l fmt x c ps k a)
  then show ?case
    by (cases "1 \<le> c") (auto split: bind_splits simp: min_def split: if_splits)
qed simp

lemma l1i_evict_scan_value:
  "l1i_evict_scan_loop l fmt ps k a = Some b \<Longrightarrow>
   min_value b \<le> min_value a \<and> (\<forall>(x, c) \<in> set ps. 1 \<le> c \<longrightarrow> min_value b \<le> c) \<and>
   (if min_value b < min_value a
    then (\<exists>j < length ps. min_pos b = k + j \<and> snd (ps ! j) = min_value b \<and> 1 \<le> min_value b)
    else min_pos b = min_pos a)"
proof (induction l fmt ps k a rule: l1i_evict_scan_loop.induct)
  case (2 l fmt x c ps k a)
  have shift: "\<exists>j < length ((x, c) # ps). min_pos b = k + j \<and> snd (((x, c) # ps) ! j) = min_value b \<and> 1 \<le> min_value b"
    if "\<exists>j < length ps. min_pos b = Suc k + j \<and> snd (ps ! j) = min_value b \<and> 1 \<le> min_value b"
    using that by (metis Suc_less_eq add_Suc add_Suc_right length_Cons nth_Cons_Suc)
  show ?case
  proof (cases "1 \<le> c")
    case False
    then show ?thesis using 2 shift by (auto split: if_splits)
  next
    case True
    then obtain g where run: "l1i_evict_scan_loop l fmt ps (Suc k) (l1i_evict_visit k c g a) = Some b"
      and g: "l1i_get_format_entangled l (l1i_extend_format_entangled l x fmt) = Some g"
      using "2.prems" by (auto split: bind_splits)
    note IH = "2.IH"(1) [OF _ g run]
    have "\<exists>j < length ((x, c) # ps). min_pos b = k + j \<and> snd (((x, c) # ps) ! j) = min_value b \<and> 1 \<le> min_value b"
      if "min_value b < min_value a"
    proof (cases "min_value b < min c (min_value a)")
      case True
      then show ?thesis using IH \<open>1 \<le> c\<close> shift by simp
    next
      case False
      then have "min_value b = c" "min_pos b = k" using IH that \<open>1 \<le> c\<close> by auto
      then show ?thesis using \<open>1 \<le> c\<close> by auto
    qed
    then show ?thesis using IH True by (auto split: if_splits)
  qed
qed simp


text \<open>
  What the loop may do to the confidences: reset some of them, none of which exceeds a
  confidence that stays.
\<close>

definition evicts :: "nat list \<Rightarrow> nat list \<Rightarrow> bool" where
  "evicts cs ds \<longleftrightarrow> length ds = length cs \<and> (\<forall>k < length cs. ds ! k = cs ! k \<or> ds ! k = 0) \<and>
     (\<forall>i < length cs. \<forall>j < length cs. ds ! i \<noteq> cs ! i \<and> 1 \<le> ds ! j \<longrightarrow> cs ! i \<le> cs ! j)"

lemma evicts_refl: "evicts cs cs"
  by (simp add: evicts_def)

lemma evicts_length: "evicts cs ds \<Longrightarrow> length ds = length cs"
  by (simp add: evicts_def)

lemma evicts_nth: "evicts cs ds \<Longrightarrow> k < length cs \<Longrightarrow> 1 \<le> ds ! k \<Longrightarrow> ds ! k = cs ! k"
  by (auto simp: evicts_def)

lemma evicts_trans:
  assumes m: "m < length cs" "\<And>k. k < length cs \<Longrightarrow> 1 \<le> cs ! k \<Longrightarrow> cs ! m \<le> cs ! k"
    and e: "evicts (cs[m := 0]) ds"
  shows "evicts cs ds"
  unfolding evicts_def
proof (intro conjI allI impI)
  note len = evicts_length [OF e, simplified]
  show "length ds = length cs" by (rule len)
  have nth: "ds ! k = cs[m := 0] ! k \<or> ds ! k = 0" if "k < length cs" for k
    using e that by (simp add: evicts_def)
  then show "ds ! k = cs ! k \<or> ds ! k = 0" if "k < length cs" for k
    using nth [OF that] m(1) by (cases "k = m") auto
  fix i j
  assume ij: "i < length cs" "j < length cs" "ds ! i \<noteq> cs ! i \<and> 1 \<le> ds ! j"
  have "j \<noteq> m" using nth [OF ij(2)] ij m(1) by auto
  then have j: "cs ! j = ds ! j" using nth [OF ij(2)] ij by auto
  show "cs ! i \<le> cs ! j"
  proof (cases "i = m")
    case True
    then show ?thesis using m(2) [OF ij(2)] ij j by simp
  next
    case False
    then have "cs[m := 0] ! i \<le> cs[m := 0] ! j"
      using e ij by (auto simp: evicts_def)
    then show ?thesis using False \<open>j \<noteq> m\<close> by simp
  qed
qed

definition format_fits :: "u64 \<Rightarrow> l1i_entangled_entry \<Rightarrow> nat \<Rightarrow> nat list \<Rightarrow> bool" where
  "format_fits l e n cs \<longleftrightarrow> (\<forall>k < 6. 1 \<le> cs ! k \<longrightarrow>
     (\<exists>g. l1i_get_format_entangled l (dest_of l e k) = Some g \<and> n \<le> g))"

lemma l1i_evict_loop_spec:
  assumes "is_format (e_format e)" "length (e_addr e) = 6" "length (e_conf e) = 6"
    "list_all (\<lambda>c. c \<le> 3) (e_conf e)" "is_line_addr l" "is_format fn" "num_conf (e_conf e) < fuel"
  shows "\<exists>cs mf. l1i_evict_loop fuel l fn e = Some (l1i_reformat l (e\<lparr>e_conf := cs\<rparr>) mf) \<and>
    evicts (e_conf e) cs \<and> is_format mf \<and> mf \<le> fn \<and> num_conf cs < mf \<and> format_fits l e mf cs \<and>
    (num_conf (e_conf e) < fn \<and> format_fits l e (Suc (num_conf (e_conf e))) (e_conf e) \<longrightarrow> cs = e_conf e)"
  using assms
proof (induction fuel arbitrary: e)
  case (Suc fuel)
  let ?ps = "zip (e_addr e) (e_conf e)"
  let ?a = "\<lparr>min_format = fn, num_valid = 1, min_value = L1I_CONFIDENCE_COUNTER_MAX_VALUE + 1, min_pos = 0\<rparr>"
  obtain b where b: "l1i_evict_scan_loop l (e_format e) ?ps 0 ?a = Some b"
    using l1i_evict_scan_total Suc.prems by blast
  have nv: "num_valid b = Suc (num_conf (e_conf e))"
    using l1i_evict_scan_num_valid [OF b] Suc.prems by simp
  have pair: "(e_addr e ! k, e_conf e ! k) \<in> set ?ps" if "k < 6" for k
    using that Suc.prems by (auto simp: set_zip)
  have fit: "format_fits l e (min_format b) (e_conf e)"
    unfolding format_fits_def dest_of_def
    using bspec [OF conjunct1 [OF conjunct2 [OF l1i_evict_scan_format [OF b]]] pair] by simp
  have mf: "min_format b \<le> fn" using l1i_evict_scan_format [OF b] by simp
  have tight: "min_format b = fn \<or> (\<exists>k < 6. 1 \<le> e_conf e ! k \<and>
      l1i_get_format_entangled l (dest_of l e k) = Some (min_format b))"
    using conjunct2 [OF conjunct2 [OF l1i_evict_scan_format [OF b]]]
  proof
    assume "\<exists>(x, c) \<in> set ?ps. 1 \<le> c \<and>
      l1i_get_format_entangled l (l1i_extend_format_entangled l x (e_format e)) = Some (min_format b)"
    then obtain k where "k < length ?ps" "1 \<le> snd (?ps ! k)"
      "l1i_get_format_entangled l (l1i_extend_format_entangled l (fst (?ps ! k)) (e_format e)) = Some (min_format b)"
      unfolding Bex_def in_set_conv_nth case_prod_unfold by blast
    then show ?thesis using Suc.prems(2,3) unfolding dest_of_def by (intro disjI2 exI [of _ k]) simp
  qed simp
  then have isf: "is_format (min_format b)"
    using Suc.prems(6) get_format_is_format by auto
  show ?case
  proof (cases "num_valid b > min_format b")
    case False
    then have "l1i_evict_loop (Suc fuel) l fn e = Some (l1i_reformat l (e\<lparr>e_conf := e_conf e\<rparr>) (min_format b))"
      using b by simp
    moreover have "num_conf (e_conf e) < min_format b" using False nv by simp
    ultimately show ?thesis using fit mf isf evicts_refl by blast
  next
    case True
    have "num_conf (e_conf e) \<ge> 1" using True nv isf by (simp add: is_format_def)
    then obtain k where k: "k < 6" "1 \<le> e_conf e ! k"
      unfolding num_conf_card [OF Suc.prems(3)] by (auto dest!: card_ge_0_finite simp: Suc_le_eq card_gt_0_iff)
    have least: "min_value b \<le> e_conf e ! j" if "j < 6" "1 \<le> e_conf e ! j" for j
      using bspec [OF conjunct1 [OF conjunct2 [OF l1i_evict_scan_value [OF b]]] pair [OF that(1)]] that(2)
      by simp
    have "min_value b < min_value ?a"
      using least [OF k] list_all_nth [OF Suc.prems(4), of k] k Suc.prems(3) by simp
    then have m: "min_pos b < 6" "e_conf e ! min_pos b = min_value b" "1 \<le> e_conf e ! min_pos b"
      using l1i_evict_scan_value [OF b] Suc.prems(2,3) by auto
    let ?cs = "(e_conf e)[min_pos b := 0]" and ?e = "e\<lparr>e_conf := (e_conf e)[min_pos b := 0]\<rparr>"
    have less: "num_conf ?cs < num_conf (e_conf e)"
      using m Suc.prems(3) by (intro num_conf_zero_less) auto
    have e1: "is_format (e_format ?e)" "length (e_addr ?e) = 6" "length (e_conf ?e) = 6"
      using Suc.prems by simp_all
    have e2: "list_all (\<lambda>c. c \<le> 3) (e_conf ?e)"
      using list_all_update [OF Suc.prems(4), of 0] by simp
    have e3: "num_conf (e_conf ?e) < fuel" using less Suc.prems(7) by simp
    obtain cs mf' where IH: "l1i_evict_loop fuel l fn ?e = Some (l1i_reformat l (?e\<lparr>e_conf := cs\<rparr>) mf')"
        "evicts (e_conf ?e) cs" "is_format mf'" "mf' \<le> fn" "num_conf cs < mf'" "format_fits l ?e mf' cs"
      using Suc.IH [OF e1 e2 Suc.prems(5,6) e3] by blast
    have "evicts (e_conf e) cs"
    proof (rule evicts_trans)
      show "min_pos b < length (e_conf e)" using m(1) Suc.prems(3) by simp
      show "e_conf e ! min_pos b \<le> e_conf e ! j" if "j < length (e_conf e)" "1 \<le> e_conf e ! j" for j
        unfolding m(2) by (rule least) (use that Suc.prems(3) in simp_all)
    qed (use IH(2) in simp)
    moreover have "format_fits l e mf' cs" using IH(6) by (simp add: format_fits_def dest_of_def)
    moreover have "\<not> (num_conf (e_conf e) < fn \<and> format_fits l e (Suc (num_conf (e_conf e))) (e_conf e))"
      using tight True nv by (auto simp: format_fits_def)
    moreover have "l1i_evict_loop (Suc fuel) l fn e = Some (l1i_reformat l (e\<lparr>e_conf := cs\<rparr>) mf')"
      using IH(1) b True by simp
    ultimately show ?thesis using IH(3-5) by blast
  qed
qed simp


subsection \<open>Adding a destination to an entry\<close>

lemma reformat_sel [simp]:
  "e_tag (l1i_reformat l e mf) = e_tag e" "e_conf (l1i_reformat l e mf) = e_conf e"
  "e_bb_size (l1i_reformat l e mf) = e_bb_size e" "e_format (l1i_reformat l e mf) = mf"
  "length (e_addr (l1i_reformat l e mf)) = min (length (e_addr e)) (length (e_conf e))"
  by (simp_all add: l1i_reformat_def)

lemma dest_of_reformat:
  assumes "length (e_addr e) = 6" "length cs = 6" "is_format mf" "format_fits l e mf cs"
    and k: "k < 6" "1 \<le> cs ! k"
  shows "dest_of l (l1i_reformat l (e\<lparr>e_conf := cs\<rparr>) mf) k = dest_of l e k"
proof -
  obtain g where "l1i_get_format_entangled l (dest_of l e k) = Some g" "mf \<le> g"
    using assms by (auto simp: format_fits_def)
  then have "l1i_extend_format_entangled l (l1i_compress_format_entangled (dest_of l e k) mf) mf = dest_of l e k"
    using assms(3) by (intro extend_compress) (auto simp: is_format_def)
  then show ?thesis
    using assms by (simp add: l1i_reformat_def dest_of_def)
qed

lemma ent_entry_okD:
  assumes "ent_entry_ok e"
  shows "is_format (e_format e)" "length (e_addr e) = 6" "length (e_conf e) = 6"
    "list_all (\<lambda>c. c \<le> 3) (e_conf e)" "num_conf (e_conf e) \<le> e_format e"
    "e_bb_size e \<le> L1I_MERGE_BBSIZE_MAX_VALUE"
  using assms by (simp_all add: ent_entry_ok_def)

lemma dests_image_eq:
  assumes "\<And>k. k < 6 \<Longrightarrow> 1 \<le> e_conf e' ! k \<Longrightarrow> k \<noteq> j \<Longrightarrow> 1 \<le> cs ! k \<and> dest_of l e' k = dest_of l e k"
    and "\<And>k. k < 6 \<Longrightarrow> 1 \<le> cs ! k \<Longrightarrow> k \<noteq> j \<Longrightarrow> 1 \<le> e_conf e' ! k"
    and "j < 6" "1 \<le> e_conf e' ! j" "dest_of l e' j = d" "1 \<le> cs ! j \<Longrightarrow> dest_of l e j = d"
  shows "dests l e' = insert d (dest_of l e ` {k. k < 6 \<and> 1 \<le> cs ! k})"
proof (intro equalityI subsetI)
  fix x assume "x \<in> dests l e'"
  then obtain k where "k < 6" "1 \<le> e_conf e' ! k" "x = dest_of l e' k" by (auto simp: dests_def)
  then show "x \<in> insert d (dest_of l e ` {k. k < 6 \<and> 1 \<le> cs ! k})"
    using assms(1,5) by (cases "k = j") auto
next
  have d: "d \<in> dests l e'" using assms(3-5) by (auto simp: dests_def)
  fix x assume "x \<in> insert d (dest_of l e ` {k. k < 6 \<and> 1 \<le> cs ! k})"
  then consider "x = d" | k where "k < 6" "1 \<le> cs ! k" "x = dest_of l e k" by blast
  then show "x \<in> dests l e'"
  proof cases
    case (2 k)
    show ?thesis
    proof (cases "k = j")
      case False
      then have "1 \<le> e_conf e' ! k" "dest_of l e' k = x" using 2 assms(1,2) by blast+
      then show ?thesis unfolding dests_def by (intro image_eqI [of _ _ k]) (use 2 in simp_all)
    qed (use 2 assms(6) d in simp)
  qed (use d in simp)
qed

text \<open>Raising the confidence of a destination that is already there.\<close>

lemma add_destination_present:
  assumes e: "ent_entry_ok e" and k: "k < 6" "1 \<le> e_conf e ! k" "dest_of l e k = d"
  shows "ent_entry_ok (e\<lparr>e_conf := (e_conf e)[k := 3]\<rparr>)"
    and "dests l (e\<lparr>e_conf := (e_conf e)[k := 3]\<rparr>) = insert d (dests l e)"
proof -
  note ok = ent_entry_okD [OF e]
  have "num_conf ((e_conf e)[k := 3]) \<le> num_conf (e_conf e)"
    using k(2) by (intro num_conf_mono) (simp, metis nth_list_update_neq)
  then show "ent_entry_ok (e\<lparr>e_conf := (e_conf e)[k := 3]\<rparr>)"
    using ok list_all_update [OF ok(4), of 3 k] by (simp add: ent_entry_ok_def)
  show "dests l (e\<lparr>e_conf := (e_conf e)[k := 3]\<rparr>) = insert d (dests l e)"
    unfolding dests_def [of l e]
    by (rule dests_image_eq [of _ k]) (use k ok in \<open>simp_all add: dest_of_def\<close>)
qed

lemma add_destination_new:
  assumes e: "ent_entry_ok e" and l: "is_line_addr l"
    and fn: "l1i_get_format_entangled l d = Some fn" and mf: "is_format mf" "mf \<le> fn"
    and cs: "evicts (e_conf e) cs" "num_conf cs < mf" "format_fits l e mf cs" and k: "k < 6" "cs ! k < 1"
  defines "e1 \<equiv> l1i_reformat l (e\<lparr>e_conf := cs\<rparr>) mf"
  defines "e2 \<equiv> e1\<lparr>e_addr := (e_addr e1)[k := l1i_compress_format_entangled d mf], e_conf := (e_conf e1)[k := 3]\<rparr>"
  shows "ent_entry_ok e2" and "dests l e2 = insert d (dest_of l e ` {k. k < 6 \<and> 1 \<le> cs ! k})"
    and "dest_of l e2 k = d"
proof -
  note ok = ent_entry_okD [OF e]
  have len: "length cs = 6" "length (e_addr e1) = 6" using evicts_length [OF cs(1)] ok by (simp_all add: e1_def)
  show d: "dest_of l e2 k = d"
    using extend_compress [OF fn] mf k len by (simp add: e2_def e1_def dest_of_def is_format_def)
  have "cs ! i \<le> 3" if "i < 6" for i
    using that cs(1) ok(3) list_all_nth [OF ok(4), of i] by (cases "1 \<le> cs ! i") (auto dest: evicts_nth)
  then have "list_all (\<lambda>c. c \<le> 3) cs" using len by (simp add: list_all_length)
  then have "list_all (\<lambda>c. c \<le> 3) (cs[k := 3])" by (rule list_all_update) simp
  moreover have "num_conf (cs[k := 3]) \<le> mf" using num_conf_update_le [of cs k 3] cs(2) by linarith
  ultimately show "ent_entry_ok e2"
    using mf len ok by (simp add: ent_entry_ok_def e2_def e1_def)
  have "dest_of l e2 i = dest_of l e i" if "i < 6" "i \<noteq> k" "1 \<le> cs ! i" for i
    using dest_of_reformat [OF ok(2) len(1) mf(1) cs(3) that(1,3)] that by (simp add: e2_def e1_def dest_of_def)
  then show "dests l e2 = insert d (dest_of l e ` {k. k < 6 \<and> 1 \<le> cs ! k})"
    using k d len by (intro dests_image_eq [of _ k]) (simp_all add: e2_def e1_def)
qed


lemma num_conf_room: "length cs = n \<Longrightarrow> num_conf cs < n \<Longrightarrow> find_index (\<lambda>c. c < 1) cs < n"
  using num_conf_full [of cs n] find_index_le [of "\<lambda>c. c < 1" cs] by (auto simp: le_less)

text \<open>
  Adding a destination never fails, keeps the invariant, makes the destination available with
  the highest confidence, and drops others only when the common format has no room for them.
\<close>

lemma l1i_add_destination_spec:
  assumes e: "ent_entry_ok e" and l: "is_line_addr l" and d: "is_line_addr d"
  shows "\<exists>e'. l1i_add_destination l d e = Some e' \<and> ent_entry_ok e' \<and> e_tag e' = e_tag e \<and>
    e_bb_size e' = e_bb_size e \<and> dests l e' \<subseteq> insert d (dests l e) \<and>
    (\<exists>k < 6. e_conf e' ! k = 3 \<and> dest_of l e' k = d) \<and>
    ((\<forall>x \<in> insert d (dests l e). \<exists>g. l1i_get_format_entangled l x = Some g \<and> num_conf (e_conf e) < g) \<longrightarrow>
       dests l e' = insert d (dests l e))"
proof -
  note ok = ent_entry_okD [OF e]
  let ?ps = "zip (e_addr e) (e_conf e)"
  let ?P = "\<lambda>(a, c). c \<ge> L1I_CONFIDENCE_COUNTER_THRESHOLD \<and> l1i_extend_format_entangled l a (e_format e) = d"
  define k where "k = find_index ?P ?ps"
  have len: "length ?ps = 6" using ok by simp
  show ?thesis
  proof (cases "k < 6")
    case True
    then have "?P (?ps ! k)" unfolding k_def by (rule find_index_sat [of ?P ?ps, unfolded len])
    then have k: "1 \<le> e_conf e ! k" "dest_of l e k = d" using True ok by (auto simp: dest_of_def)
    have "l1i_add_destination l d e = Some (e\<lparr>e_conf := (e_conf e)[k := 3]\<rparr>)"
      unfolding l1i_add_destination_def Let_def k_def [symmetric] using True by simp
    moreover have "\<exists>i < 6. (e_conf e)[k := 3] ! i = 3 \<and> dest_of l (e\<lparr>e_conf := (e_conf e)[k := 3]\<rparr>) i = d"
      using True k ok by (intro exI [of _ k]) (simp add: dest_of_def)
    ultimately show ?thesis
      using add_destination_present [OF e True k] by simp
  next
    case False
    obtain fn where fn: "l1i_get_format_entangled l d = Some fn" using get_format_total l d by blast
    have "num_conf (e_conf e) < Suc L1I_MAX_ENTANGLED_PER_LINE" using num_conf_le [of "e_conf e"] ok(3) by simp
    from l1i_evict_loop_spec [OF ok(1-4) l get_format_is_format [OF fn] this]
    obtain cs mf where ev: "l1i_evict_loop (Suc L1I_MAX_ENTANGLED_PER_LINE) l fn e = Some (l1i_reformat l (e\<lparr>e_conf := cs\<rparr>) mf)"
      and cs: "evicts (e_conf e) cs" "num_conf cs < mf" "format_fits l e mf cs" and mf: "is_format mf" "mf \<le> fn"
      and keep: "num_conf (e_conf e) < fn \<and> format_fits l e (Suc (num_conf (e_conf e))) (e_conf e) \<longrightarrow> cs = e_conf e"
      by blast
    define j where "j = find_index (\<lambda>c. c < 1) cs"
    have lcs: "length cs = 6" using evicts_length [OF cs(1)] ok by simp
    have j6: "j < 6" unfolding j_def using lcs cs(2) mf(1) by (intro num_conf_room) (auto simp: is_format_def)
    then have j: "cs ! j < 1" using find_index_sat [of "\<lambda>c. c < 1" cs] lcs by (simp add: j_def)
    define e1 where "e1 = l1i_reformat l (e\<lparr>e_conf := cs\<rparr>) mf"
    define e2 where "e2 = e1\<lparr>e_addr := (e_addr e1)[j := l1i_compress_format_entangled d mf], e_conf := (e_conf e1)[j := 3]\<rparr>"
    have "l1i_add_destination l d e = Some e2"
      unfolding l1i_add_destination_def Let_def k_def [symmetric] using False fn ev j6
      by (simp add: e2_def e1_def j_def)
    moreover note new = add_destination_new [OF e l fn mf cs j6 j, folded e1_def, folded e2_def]
    moreover have "e_tag e2 = e_tag e" "e_bb_size e2 = e_bb_size e" "e_conf e2 ! j = 3"
      using j6 lcs by (simp_all add: e2_def e1_def)
    moreover have "dest_of l e ` {k. k < 6 \<and> 1 \<le> cs ! k} \<subseteq> dests l e"
      unfolding dests_def using evicts_nth [OF cs(1)] ok(3) by (intro image_mono) auto
    moreover have "cs = e_conf e"
      if "\<forall>x \<in> insert d (dests l e). \<exists>g. l1i_get_format_entangled l x = Some g \<and> num_conf (e_conf e) < g"
    proof (rule keep [THEN mp], intro conjI)
      show "num_conf (e_conf e) < fn" using that fn by simp
      show "format_fits l e (Suc (num_conf (e_conf e))) (e_conf e)"
        using that unfolding format_fits_def dests_def by (simp add: Suc_le_eq)
    qed
    ultimately show ?thesis using j6 by (intro exI [of _ e2]) (auto simp: dests_def)
  qed
qed


subsection \<open>The invariant of the table\<close>

definition wf_ent_set :: "l1i_entangled_entry list \<Rightarrow> bool" where
  "wf_ent_set es \<longleftrightarrow> length es = L1I_ET_WAYS \<and> list_all ent_entry_ok es"

definition wf_ent :: "l1i_entangled \<Rightarrow> bool" where
  "wf_ent t \<longleftrightarrow> length (l1i_entangled_table t) = L1I_ET_SETS \<and> list_all wf_ent_set (l1i_entangled_table t) \<and>
     length (l1i_entangled_fifo t) = L1I_ET_SETS \<and> list_all (\<lambda>w. w < L1I_ET_WAYS) (l1i_entangled_fifo t)"

lemma et_set_less [simp]: "et_set l < L1I_ET_SETS"
  by (simp add: et_set_def L1I_ET_SETS_def)

lemma wf_entD:
  assumes "wf_ent t" "s < L1I_ET_SETS"
  shows "wf_ent_set (l1i_entangled_table t ! s)" "length (l1i_entangled_table t ! s) = L1I_ET_WAYS"
    "l1i_entangled_fifo t ! s < L1I_ET_WAYS"
    "w < L1I_ET_WAYS \<Longrightarrow> ent_entry_ok (l1i_entangled_table t ! s ! w)"
proof -
  show *: "wf_ent_set (l1i_entangled_table t ! s)"
    using assms by (simp add: wf_ent_def list_all_nth)
  show "length (l1i_entangled_table t ! s) = L1I_ET_WAYS"
    using * by (simp add: wf_ent_set_def)
  show "l1i_entangled_fifo t ! s < L1I_ET_WAYS"
    using assms by (auto simp: wf_ent_def dest: list_all_nth)
  show "w < L1I_ET_WAYS \<Longrightarrow> ent_entry_ok (l1i_entangled_table t ! s ! w)"
    using * by (simp add: wf_ent_set_def list_all_nth)
qed

lemma wf_ent_update:
  assumes "wf_ent t" "s < L1I_ET_SETS" "ent_entry_ok e"
  shows "wf_ent (et_update t s w e)"
proof -
  have "wf_ent_set ((l1i_entangled_table t ! s)[w := e])"
    using wf_entD(1) [OF assms(1,2)] assms(3) by (simp add: wf_ent_set_def list_all_update)
  then show ?thesis
    using assms(1) by (simp add: wf_ent_def et_update_def list_all_update)
qed

lemma wf_ent_fifo:
  "wf_ent t \<Longrightarrow> w < L1I_ET_WAYS \<Longrightarrow> wf_ent (t\<lparr>l1i_entangled_fifo := (l1i_entangled_fifo t)[s := w]\<rparr>)"
  by (simp add: wf_ent_def list_all_update)

lemma wf_init_ent: "wf_ent l1i_init_entangled_table"
  by (simp add: wf_ent_def wf_ent_set_def l1i_init_entangled_table_def list_all_replicate ent_new_entry_ok
      L1I_ET_WAYS_def)

lemma et_update_sel [simp]:
  "l1i_entangled_fifo (et_update t s w e) = l1i_entangled_fifo t"
  "length (l1i_entangled_table (et_update t s w e)) = length (l1i_entangled_table t)"
  by (simp_all add: et_update_def)

lemma et_update_nth:
  assumes "wf_ent t" "s < L1I_ET_SETS"
  shows "l1i_entangled_table (et_update t s w e) ! r =
    (if r = s then (l1i_entangled_table t ! s)[w := e] else l1i_entangled_table t ! r)"
  using assms by (simp add: et_update_def wf_ent_def)

lemma get_way_le: "wf_ent t \<Longrightarrow> l1i_get_way_entangled_table t l \<le> L1I_ET_WAYS"
  using wf_entD(2) [of t "et_set l"] find_index_le by (metis et_set_less l1i_get_way_entangled_table_def)

lemma get_way_update_same:
  assumes "wf_ent t" "w < L1I_ET_WAYS" "e_tag e = e_tag (l1i_entangled_table t ! s ! w)" "s < L1I_ET_SETS"
  shows "l1i_get_way_entangled_table (et_update t s w e) l = l1i_get_way_entangled_table t l"
proof -
  have "map e_tag ((l1i_entangled_table t ! s)[w := e]) = map e_tag (l1i_entangled_table t ! s)"
    using assms wf_entD(2) [OF assms(1,4)] by (simp add: map_update list_update_same_conv)
  moreover have "find_index (\<lambda>e. e_tag e = x) es = find_index (\<lambda>y. y = x) (map e_tag es)" for x es
    by (induction es) auto
  ultimately have "find_index (\<lambda>e. e_tag e = et_tag l) ((l1i_entangled_table t ! s)[w := e]) =
      find_index (\<lambda>e. e_tag e = et_tag l) (l1i_entangled_table t ! s)"
    by metis
  then show ?thesis
    by (simp add: l1i_get_way_entangled_table_def et_update_nth [OF assms(1,4)])
qed

lemma get_way_entry:
  assumes "wf_ent t" "l1i_get_way_entangled_table t l < L1I_ET_WAYS"
  shows "e_tag (l1i_entangled_table t ! et_set l ! l1i_get_way_entangled_table t l) = et_tag l"
  using assms find_index_sat [of "\<lambda>e. e_tag e = et_tag l" "l1i_entangled_table t ! et_set l"]
  by (simp add: l1i_get_way_entangled_table_def wf_entD(2))


subsection \<open>Allocation\<close>

text \<open>The search for an unused way goes round the set once and ends.\<close>

lemma l1i_realloc_loop_total:
  assumes "way < L1I_ET_WAYS" "fw < L1I_ET_WAYS" "1 \<le> d" "d \<le> L1I_ET_WAYS" "L1I_ET_WAYS < d + fuel"
  shows "\<exists>r b. l1i_realloc_loop es way fuel ((way + d) mod L1I_ET_WAYS) fw fs = Some (r, b) \<and> r < L1I_ET_WAYS"
  using assms(2-5)
proof (induction fuel arbitrary: d fw fs)
  case (Suc fuel)
  let ?i = "(way + d) mod L1I_ET_WAYS"
  show ?case
  proof (cases "d = L1I_ET_WAYS")
    case True
    then show ?thesis using assms(1) Suc.prems(1) by simp
  next
    case False
    have next_i: "(?i + 1) mod L1I_ET_WAYS = (way + Suc d) mod L1I_ET_WAYS"
      by (simp add: mod_Suc_eq)
    have "?i < L1I_ET_WAYS" using assms(1) by simp
    note IH = Suc.IH [where d = "Suc d", folded next_i]
    have "\<exists>r b. l1i_realloc_loop es way fuel ((?i + 1) mod L1I_ET_WAYS) f s = Some (r, b) \<and> r < L1I_ET_WAYS"
      if "f < L1I_ET_WAYS" for f s
      by (rule IH) (use that Suc.prems False in auto)
    then show ?thesis using Suc.prems(1) \<open>?i < L1I_ET_WAYS\<close> by simp blast
  qed
qed simp

lemma l1i_try_realocate_spec:
  assumes t: "wf_ent t" and s: "s < L1I_ET_SETS"
  shows "\<exists>w e. l1i_try_realocate_evicted_in_available_entangled_table t s = Some (et_update t s w e) \<and>
    w < L1I_ET_WAYS \<and> e \<in> set (l1i_entangled_table t ! s) \<and> ent_entry_ok e"
proof -
  let ?es = "l1i_entangled_table t ! s" and ?way = "l1i_entangled_fifo t ! s"
  have way: "?way < L1I_ET_WAYS" and len: "length ?es = L1I_ET_WAYS" using wf_entD t s by blast+
  have same: "t = et_update t s ?way (?es ! ?way)" by (simp add: et_update_def)
  have mem: "?es ! ?way \<in> set ?es" using way len by simp
  obtain r b where r: "l1i_realloc_loop ?es ?way L1I_ET_WAYS ((?way + 1) mod L1I_ET_WAYS) ?way False = Some (r, b)"
    "r < L1I_ET_WAYS"
    using l1i_realloc_loop_total [OF way way, of 1 L1I_ET_WAYS ?es False] by (auto simp: L1I_ET_WAYS_def)
  have "\<exists>w < L1I_ET_WAYS. l1i_try_realocate_evicted_in_available_entangled_table t s = Some (et_update t s w (?es ! ?way))"
    unfolding l1i_try_realocate_evicted_in_available_entangled_table_def Let_def r(1)
    using same way r(2) by (cases "r = ?way") (auto simp: r(1))
  then show ?thesis using mem wf_entD(4) [OF t s way] by blast
qed

lemma l1i_alloc_spec:
  assumes t: "wf_ent t"
  shows "\<exists>w t'. l1i_alloc_entangled t l = Some (w, t') \<and> wf_ent t' \<and> w < L1I_ET_WAYS \<and>
    l1i_get_way_entangled_table t' l = w \<and>
    (if l1i_get_way_entangled_table t l < L1I_ET_WAYS then t' = t
     else l1i_entangled_table t' ! et_set l ! w = l1i_new_entry (et_tag l)) \<and>
    (\<forall>s. s \<noteq> et_set l \<longrightarrow> l1i_entangled_table t' ! s = l1i_entangled_table t ! s)"
proof (cases "l1i_get_way_entangled_table t l = L1I_ET_WAYS")
  case True
  let ?s = "et_set l" and ?w = "l1i_entangled_fifo t ! et_set l" and ?new = "l1i_new_entry (et_tag l)"
  have way: "?w < L1I_ET_WAYS" and len: "length (l1i_entangled_table t ! ?s) = L1I_ET_WAYS"
    using wf_entD t et_set_less by blast+
  have absent: "e_tag e \<noteq> et_tag l" if "e \<in> set (l1i_entangled_table t ! ?s)" for e
    using True that find_index_eq_length_iff [of "\<lambda>e. e_tag e = et_tag l" "l1i_entangled_table t ! ?s"] len
    by (simp add: l1i_get_way_entangled_table_def)
  obtain v e where re: "l1i_try_realocate_evicted_in_available_entangled_table t ?s = Some (et_update t ?s v e)"
    and e: "e \<in> set (l1i_entangled_table t ! ?s)" "ent_entry_ok e" and v: "v < L1I_ET_WAYS"
    using l1i_try_realocate_spec [OF t et_set_less] by blast
  let ?t1 = "et_update t ?s v e"
  let ?t2 = "et_update ?t1 ?s ?w ?new"
  let ?t3 = "?t2\<lparr>l1i_entangled_fifo := (l1i_entangled_fifo ?t2)[?s := (?w + 1) mod L1I_ET_WAYS]\<rparr>"
  have run: "l1i_alloc_entangled t l = Some (?w, ?t3)"
    using True re by (simp add: l1i_alloc_entangled_def Let_def)
  have wf1: "wf_ent ?t1" by (rule wf_ent_update [OF t et_set_less e(2)])
  have wf2: "wf_ent ?t2" by (rule wf_ent_update [OF wf1 et_set_less ent_new_entry_ok])
  have wf3: "wf_ent ?t3" by (rule wf_ent_fifo [OF wf2]) (simp add: L1I_ET_WAYS_def)
  have set: "l1i_entangled_table ?t3 ! r =
      (if r = ?s then (l1i_entangled_table t ! ?s)[v := e, ?w := ?new] else l1i_entangled_table t ! r)" for r
    using et_update_nth [OF wf1 et_set_less] et_update_nth [OF t et_set_less] by simp
  have "e_tag x \<noteq> et_tag l" if "x \<in> set ((l1i_entangled_table t ! ?s)[v := e])" for x
    using that absent e(1) set_update_subset_insert by fastforce
  then have others: "e_tag ((l1i_entangled_table t ! ?s)[v := e] ! j) \<noteq> et_tag l" if "j < L1I_ET_WAYS" for j
    using that len by simp
  have "l1i_get_way_entangled_table ?t3 l = ?w"
    unfolding l1i_get_way_entangled_table_def set
    using others way len by (intro find_index_eqI) (auto simp: l1i_new_entry_def)
  moreover have "l1i_entangled_table ?t3 ! ?s ! ?w = ?new" using set [of ?s] way len by simp
  ultimately show ?thesis using run wf3 way set True by auto
next
  case False
  then have "l1i_get_way_entangled_table t l < L1I_ET_WAYS" using get_way_le [OF t] by (meson le_neq_implies_less)
  then show ?thesis using t by (simp add: l1i_alloc_entangled_def Let_def)
qed


subsection \<open>The operations on the table\<close>

text \<open>The destinations the table holds for a source line.\<close>

definition table_dests :: "l1i_entangled \<Rightarrow> u64 \<Rightarrow> u64 set" where
  "table_dests t l =
     (let w = l1i_get_way_entangled_table t l in
      if w < L1I_ET_WAYS then dests l (l1i_entangled_table t ! et_set l ! w) else {})"

lemma dests_new_entry [simp]: "dests l (l1i_new_entry tag) = {}"
  by (auto simp: dests_def l1i_new_entry_def)

lemma l1i_add_entangled_spec:
  assumes t: "wf_ent t" and l: "is_line_addr l" and d: "is_line_addr d"
  shows "\<exists>t'. l1i_add_entangled_table t l d = Some t' \<and> wf_ent t' \<and>
    d \<in> table_dests t' l \<and> table_dests t' l \<subseteq> insert d (table_dests t l) \<and>
    (\<exists>k < 6. l1i_get_entangled_addr_entangled_table t' l k = (d, et_set l, l1i_get_way_entangled_table t' l)) \<and>
    (\<forall>s. s \<noteq> et_set l \<longrightarrow> l1i_entangled_table t' ! s = l1i_entangled_table t ! s)"
proof -
  let ?s = "et_set l"
  obtain w t1 where al: "l1i_alloc_entangled t l = Some (w, t1)" and t1: "wf_ent t1" and w: "w < L1I_ET_WAYS"
    and way: "l1i_get_way_entangled_table t1 l = w"
    and old: "if l1i_get_way_entangled_table t l < L1I_ET_WAYS then t1 = t
       else l1i_entangled_table t1 ! ?s ! w = l1i_new_entry (et_tag l)"
    and rest: "\<forall>s. s \<noteq> ?s \<longrightarrow> l1i_entangled_table t1 ! s = l1i_entangled_table t ! s"
    using l1i_alloc_spec [OF t] by blast
  let ?e = "l1i_entangled_table t1 ! ?s ! w"
  obtain e where add: "l1i_add_destination l d ?e = Some e" and e: "ent_entry_ok e" "e_tag e = e_tag ?e"
    and sub: "dests l e \<subseteq> insert d (dests l ?e)" and hit: "\<exists>k < 6. e_conf e ! k = 3 \<and> dest_of l e k = d"
    using l1i_add_destination_spec [OF wf_entD(4) [OF t1 et_set_less w] l d] by blast
  let ?t = "et_update t1 ?s w e"
  have run: "l1i_add_entangled_table t l d = Some ?t"
    using al add by (simp add: l1i_add_entangled_table_def)
  have wf: "wf_ent ?t" by (rule wf_ent_update [OF t1 et_set_less e(1)])
  have way': "l1i_get_way_entangled_table ?t l = w"
    using get_way_update_same [OF t1 w e(2) et_set_less] way by simp
  have entry: "l1i_entangled_table ?t ! ?s ! w = e"
    using et_update_nth [OF t1 et_set_less] wf_entD(2) [OF t1 et_set_less] w by simp
  have td: "table_dests ?t l = dests l e" using way' entry w by (simp add: table_dests_def)
  obtain k where k: "k < 6" "e_conf e ! k = 3" "dest_of l e k = d" using hit by blast
  have "d \<in> dests l e" unfolding dests_def by (rule image_eqI [of _ _ k]) (use k in simp_all)
  moreover have "dests l ?e \<subseteq> table_dests t l"
    using old way by (auto simp: table_dests_def Let_def split: if_splits)
  moreover have "l1i_get_entangled_addr_entangled_table ?t l k = (d, ?s, l1i_get_way_entangled_table ?t l)"
    using k way' entry w by (simp add: l1i_get_entangled_addr_entangled_table_def dest_of_def)
  moreover have "\<forall>s. s \<noteq> ?s \<longrightarrow> l1i_entangled_table ?t ! s = l1i_entangled_table t ! s"
    using rest et_update_nth [OF t1 et_set_less] by simp
  ultimately show ?thesis using run wf td sub k(1) by blast
qed

lemma l1i_add_bbsize_spec:
  assumes t: "wf_ent t" and bb: "bb \<le> L1I_MERGE_BBSIZE_MAX_VALUE"
  shows "\<exists>t'. l1i_add_bbsize_table t l bb = Some t' \<and> wf_ent t' \<and>
    l1i_get_bbsize_entangled_table t' l = max (l1i_get_bbsize_entangled_table t l) bb \<and>
    table_dests t' l = table_dests t l"
proof -
  let ?s = "et_set l"
  obtain w t1 where al: "l1i_alloc_entangled t l = Some (w, t1)" and t1: "wf_ent t1" and w: "w < L1I_ET_WAYS"
    and way: "l1i_get_way_entangled_table t1 l = w"
    and old: "if l1i_get_way_entangled_table t l < L1I_ET_WAYS then t1 = t
       else l1i_entangled_table t1 ! ?s ! w = l1i_new_entry (et_tag l)"
    using l1i_alloc_spec [OF t] by blast
  let ?e = "l1i_entangled_table t1 ! ?s ! w"
  let ?e' = "?e\<lparr>e_bb_size := max (e_bb_size ?e) bb\<rparr>"
  let ?t = "et_update t1 ?s w ?e'"
  have run: "l1i_add_bbsize_table t l bb = Some ?t"
    using al bb by (simp add: l1i_add_bbsize_table_def Let_def)
  have "ent_entry_ok ?e'"
    using wf_entD(4) [OF t1 et_set_less w] bb by (simp add: ent_entry_ok_def)
  then have wf: "wf_ent ?t" by (rule wf_ent_update [OF t1 et_set_less])
  have way': "l1i_get_way_entangled_table ?t l = w"
    using get_way_update_same [OF t1 w _ et_set_less, of ?e'] way by simp
  have entry: "l1i_entangled_table ?t ! ?s ! w = ?e'"
    using et_update_nth [OF t1 et_set_less] wf_entD(2) [OF t1 et_set_less] w by simp
  have "l1i_get_bbsize_entangled_table t l = e_bb_size ?e" "table_dests t l = dests l ?e"
    using old way by (auto simp: l1i_get_bbsize_entangled_table_def table_dests_def Let_def l1i_new_entry_def
        dests_def split: if_splits)
  moreover have "dests l ?e' = dests l ?e" by (simp add: dests_def dest_of_def)
  ultimately show ?thesis
    using run wf way' entry w by (simp add: l1i_get_bbsize_entangled_table_def table_dests_def)
qed


subsection \<open>Confidence updates\<close>

text \<open>
  A confidence update changes nothing but confidences, and makes no invalid destination valid.
\<close>

definition entry_weaker :: "l1i_entangled_entry \<Rightarrow> l1i_entangled_entry \<Rightarrow> bool" where
  "entry_weaker e e' \<longleftrightarrow> e_tag e' = e_tag e \<and> e_format e' = e_format e \<and> e_addr e' = e_addr e \<and>
     e_bb_size e' = e_bb_size e \<and> length (e_conf e') = length (e_conf e) \<and>
     (\<forall>k < length (e_conf e). 1 \<le> e_conf e' ! k \<longrightarrow> 1 \<le> e_conf e ! k)"

definition ent_weaker :: "l1i_entangled \<Rightarrow> l1i_entangled \<Rightarrow> bool" where
  "ent_weaker t t' \<longleftrightarrow> l1i_entangled_fifo t' = l1i_entangled_fifo t \<and>
     list_all2 (list_all2 entry_weaker) (l1i_entangled_table t) (l1i_entangled_table t')"

lemma entry_weaker_refl [simp]: "entry_weaker e e"
  by (simp add: entry_weaker_def)

lemma entry_weaker_trans: "entry_weaker a b \<Longrightarrow> entry_weaker b c \<Longrightarrow> entry_weaker a c"
  by (simp add: entry_weaker_def)

lemma set_weaker_refl [simp]: "list_all2 entry_weaker es es"
  by (simp add: list_all2_refl)

lemma ent_weaker_refl [simp]: "ent_weaker t t"
  by (simp add: ent_weaker_def list_all2_refl)

lemma set_weaker_trans:
  "list_all2 entry_weaker a b \<Longrightarrow> list_all2 entry_weaker b c \<Longrightarrow> list_all2 entry_weaker a c"
  by (rule list_all2_trans [OF entry_weaker_trans])

lemma table_weaker_trans:
  "list_all2 (list_all2 entry_weaker) a b \<Longrightarrow> list_all2 (list_all2 entry_weaker) b c \<Longrightarrow>
   list_all2 (list_all2 entry_weaker) a c"
  by (rule list_all2_trans [OF set_weaker_trans])

lemma ent_weaker_trans: "ent_weaker a b \<Longrightarrow> ent_weaker b c \<Longrightarrow> ent_weaker a c"
  by (auto simp: ent_weaker_def intro: table_weaker_trans)

lemma l1i_update_confidence_valid: "1 \<le> l1i_update_confidence f d acc a c \<Longrightarrow> 1 \<le> c"
  by (auto simp: l1i_update_confidence_def Let_def split: if_splits)

lemma l1i_update_confidence_le: "c \<le> 3 \<Longrightarrow> l1i_update_confidence f d acc a c \<le> 3"
  by (auto simp: l1i_update_confidence_def Let_def split: if_splits)

lemma ent_weaker_update:
  assumes "wf_ent t" "s < L1I_ET_SETS" "w < L1I_ET_WAYS" "entry_weaker (l1i_entangled_table t ! s ! w) e"
  shows "ent_weaker t (et_update t s w e)"
proof -
  let ?es = "l1i_entangled_table t ! s"
  have "list_all2 entry_weaker (?es[w := ?es ! w]) (?es[w := e])"
    using set_weaker_refl assms(4) by (rule list_all2_update_cong)
  then have "list_all2 (list_all2 entry_weaker) ((l1i_entangled_table t)[s := ?es]) ((l1i_entangled_table t)[s := ?es[w := e]])"
    by (intro list_all2_update_cong) (simp_all add: list_all2_refl)
  then show ?thesis by (simp add: ent_weaker_def et_update_def)
qed

lemma entry_weaker_ok:
  assumes "entry_weaker e e'" "ent_entry_ok e" "list_all (\<lambda>c. c \<le> 3) (e_conf e')"
  shows "ent_entry_ok e'"
proof -
  have "num_conf (e_conf e') \<le> num_conf (e_conf e)"
    using assms(1) by (intro num_conf_mono) (simp_all add: entry_weaker_def)
  then show ?thesis using assms by (simp add: entry_weaker_def ent_entry_ok_def)
qed

lemma l1i_update_confidence_spec:
  assumes t: "wf_ent t" and s: "w < L1I_ET_WAYS \<Longrightarrow> s < L1I_ET_SETS"
  shows "wf_ent (l1i_update_confidence_entangled_table t s w d acc)"
    and "ent_weaker t (l1i_update_confidence_entangled_table t s w d acc)"
proof -
  let ?e = "l1i_entangled_table t ! s ! w"
  let ?e' = "?e\<lparr>e_conf := map (\<lambda>(a, c). l1i_update_confidence (e_format ?e) d acc a c) (zip (e_addr ?e) (e_conf ?e))\<rparr>"
  have *: "wf_ent (et_update t s w ?e') \<and> ent_weaker t (et_update t s w ?e')" if w: "w < L1I_ET_WAYS"
  proof -
    note ok = wf_entD(4) [OF t s [OF w] w] and D = ent_entry_okD [OF wf_entD(4) [OF t s [OF w] w]]
    have weak: "entry_weaker ?e ?e'"
      using D l1i_update_confidence_valid unfolding entry_weaker_def by simp
    moreover have "list_all (\<lambda>c. c \<le> 3) (e_conf ?e')"
      using D list_all_nth [OF D(4)] by (simp add: list_all_length l1i_update_confidence_le)
    ultimately have "ent_entry_ok ?e'" using ok entry_weaker_ok by blast
    then show ?thesis using wf_ent_update [OF t s [OF w]] ent_weaker_update [OF t s [OF w] w weak] by blast
  qed
  show "wf_ent (l1i_update_confidence_entangled_table t s w d acc)"
    "ent_weaker t (l1i_update_confidence_entangled_table t s w d acc)"
    using * t by (auto simp: l1i_update_confidence_entangled_table_def Let_def)
qed

lemma ent_weaker_entry:
  assumes "ent_weaker t t'" "s < length (l1i_entangled_table t)" "w < length (l1i_entangled_table t ! s)"
  shows "entry_weaker (l1i_entangled_table t ! s ! w) (l1i_entangled_table t' ! s ! w)"
  using assms unfolding ent_weaker_def by (metis list_all2_conv_all_nth)

lemma ent_weaker_get_way:
  assumes "ent_weaker t t'" "wf_ent t"
  shows "l1i_get_way_entangled_table t' l = l1i_get_way_entangled_table t l"
proof -
  have "list_all2 entry_weaker es es' \<Longrightarrow>
      find_index (\<lambda>e. e_tag e = x) es' = find_index (\<lambda>e. e_tag e = x) es" for x es es'
    by (induction rule: list_all2_induct) (auto simp: entry_weaker_def)
  moreover have "list_all2 entry_weaker (l1i_entangled_table t ! et_set l) (l1i_entangled_table t' ! et_set l)"
    using assms by (auto simp: ent_weaker_def wf_ent_def intro: list_all2_nthD)
  ultimately show ?thesis by (simp add: l1i_get_way_entangled_table_def)
qed

lemma ent_weaker_get_bbsize:
  assumes "ent_weaker t t'" "wf_ent t"
  shows "l1i_get_bbsize_entangled_table t' l = l1i_get_bbsize_entangled_table t l"
proof -
  have "entry_weaker (l1i_entangled_table t ! et_set l ! w) (l1i_entangled_table t' ! et_set l ! w)"
    if "w < L1I_ET_WAYS" for w
    using assms that wf_entD(2) [OF assms(2) et_set_less]
    by (intro ent_weaker_entry) (auto simp: wf_ent_def)
  then show ?thesis
    by (simp add: l1i_get_bbsize_entangled_table_def Let_def ent_weaker_get_way [OF assms] entry_weaker_def)
qed

lemma l1i_get_bbsize_le: "wf_ent t \<Longrightarrow> l1i_get_bbsize_entangled_table t l \<le> L1I_MERGE_BBSIZE_MAX_VALUE"
  using wf_entD(4) [OF _ et_set_less] ent_entry_okD(6)
  by (simp add: l1i_get_bbsize_entangled_table_def Let_def)


subsection \<open>Leaving the history\<close>

lemma l1i_move_history_head_spec:
  assumes h: "wf_hist h" and t: "wf_ent t"
  defines "e \<equiv> l1i_hist_table h ! l1i_hist_table_head h"
  shows "\<exists>t'. l1i_move_history_head_to_entangled h t = Some t' \<and> wf_ent t' \<and>
    (h_ent_src e \<noteq> 0 \<longrightarrow> h_tag e \<in> table_dests t' (h_ent_src e)) \<and>
    (h_bb_size e \<noteq> 0 \<and> h_ent_src e = 0 \<longrightarrow>
       l1i_get_bbsize_entangled_table t' (h_tag e) = max (l1i_get_bbsize_entangled_table t (h_tag e)) (h_bb_size e))"
proof -
  have "hist_entry_ok e"
    unfolding e_def using h by (intro wf_hist_nth) (auto simp: wf_hist_def hist_shape_def)
  then have tag: "is_line_addr (h_tag e)" and src: "is_line_addr (h_ent_src e)"
    and bb: "h_bb_size e \<le> L1I_MERGE_BBSIZE_MAX_VALUE"
    by (simp_all add: hist_entry_ok_def)
  let ?bb = "max (l1i_get_bbsize_entangled_table t (h_tag e)) (h_bb_size e)"
  have "?bb \<le> L1I_MERGE_BBSIZE_MAX_VALUE" using l1i_get_bbsize_le [OF t] bb by simp
  from l1i_add_bbsize_spec [OF t this, of "h_tag e"] obtain t1 where
    t1: "(if h_bb_size e \<noteq> 0 then l1i_add_bbsize_table t (h_tag e) ?bb else Some t) = Some t1" "wf_ent t1"
      "h_bb_size e \<noteq> 0 \<longrightarrow> l1i_get_bbsize_entangled_table t1 (h_tag e) = ?bb"
    using t by (cases "h_bb_size e = 0") (auto simp: max.left_idem)
  show ?thesis
    using t1 l1i_add_entangled_spec [OF t1(2) src tag]
    unfolding l1i_move_history_head_to_entangled_def e_def [symmetric] Let_def
    by (cases "h_ent_src e = 0") auto
qed

lemma hist_pos_prev: "i < 32 \<Longrightarrow> k < 32 \<Longrightarrow> hist_pos (hist_prev i) k = hist_pos i (Suc k)"
proof -
  assume "i < 32" "k < 32"
  then have "int (hist_pos (hist_prev i) k) = int (hist_pos i (Suc k))"
    by (simp add: int_hist_pos int_hist_prev mod_simps algebra_simps)
  then show ?thesis by simp
qed

lemma hist_prev_Suc: "i < 32 \<Longrightarrow> hist_prev ((i + 1) mod 32) = i"
  by (simp add: hist_prev_def mod_simps)

text \<open>Pushing an entry drops the oldest one.\<close>

lemma hist_list_push:
  assumes "hist_shape h"
  shows "hist_list (l1i_hist_push h e ht) = take 32 (e # hist_list h)"
proof (rule nth_equalityI)
  let ?i = "l1i_hist_table_head h"
  have i: "?i < 32" and len: "length (l1i_hist_table h) = 32" using assms by (simp_all add: hist_shape_def)
  fix k assume "k < length (hist_list (l1i_hist_push h e ht))"
  then have k: "k < 32" by simp
  have nth: "hist_list (l1i_hist_push h e ht) ! k = (l1i_hist_table h)[?i := e] ! hist_pos ?i k"
    using k i hist_prev_Suc [OF i] by (simp add: hist_list_nth l1i_hist_push_def)
  show "hist_list (l1i_hist_push h e ht) ! k = take 32 (e # hist_list h) ! k"
  proof (cases k)
    case (Suc j)
    then have "hist_pos ?i k \<noteq> ?i" using hist_pos_inj [of k 0 ?i] i k by auto
    then show ?thesis using nth Suc k hist_pos_prev [OF i, of j] by (simp add: hist_list_nth)
  qed (use nth i len in simp)
qed simp

lemma wf_hist_push: "wf_hist h \<Longrightarrow> hist_entry_ok e \<Longrightarrow> wf_hist (l1i_hist_push h e ht)"
  by (simp add: wf_hist_def hist_shape_def l1i_hist_push_def list_all_update)

lemma take_append_take: "take n (xs @ take n ys) = take n (xs @ ys)"
  by simp

lemma take_Cons_take: "take n (x # take n ys) = take n (x # ys)"
  by (cases n) simp_all

definition hist_gap :: l1i_hist_entry where
  "hist_gap = l1i_hist_entry_zero\<lparr>h_time_diff := L1I_TIME_DIFF_MASK\<rparr>"

lemma hist_gap_ok: "hist_entry_ok hist_gap"
  by (simp add: hist_gap_def hist_entry_ok_def l1i_hist_entry_zero_def)

lemma unat_TIME_DIFF: "unat L1I_TIME_DIFF_MASK = 1048575" "unat L1I_TIME_DIFF_OVERFLOW = 1048576"
  by (simp_all add: L1I_TIME_DIFF_MASK_def L1I_TIME_DIFF_OVERFLOW_def push_bit_eq_mult)

text \<open>
  The loop of \<open>l1i_add_hist_table\<close> inserts one gap entry per full time difference and leaves
  less than one; nothing of the elapsed time is lost.
\<close>

lemma l1i_add_hist_fill_spec:
  assumes "wf_hist h" "wf_ent t"
  shows "\<exists>h' t'. l1i_add_hist_fill cycle h t = Some (h', t') \<and> wf_hist h' \<and> wf_ent t' \<and>
    hist_list h' = take 32 (replicate ((unat (cycle - l1i_hist_table_head_time h) - 1) div 1048575) hist_gap @ hist_list h) \<and>
    unat (cycle - l1i_hist_table_head_time h') + (unat (cycle - l1i_hist_table_head_time h) - 1) div 1048575 * 1048575
      = unat (cycle - l1i_hist_table_head_time h) \<and>
    unat (cycle - l1i_hist_table_head_time h') \<le> 1048575"
  using assms
proof (induction cycle h t rule: l1i_add_hist_fill.induct)
  case (1 cycle h t)
  let ?d = "cycle - l1i_hist_table_head_time h"
  show ?case
  proof (cases "?d \<ge> L1I_TIME_DIFF_OVERFLOW")
    case False
    then have "unat ?d < 1048576" using unat_TIME_DIFF(2) by (simp add: word_le_nat_alt not_le)
    then show ?thesis using False "1.prems" by (subst l1i_add_hist_fill.simps) simp
  next
    case True
    let ?h = "l1i_hist_push h hist_gap (l1i_hist_table_head_time h + L1I_TIME_DIFF_MASK)"
    obtain t1 where t1: "l1i_move_history_head_to_entangled h t = Some t1" "wf_ent t1"
      using l1i_move_history_head_spec [OF "1.prems"] by blast
    have D: "unat ?d \<ge> 1048576" using True unat_TIME_DIFF(2) by (simp add: word_le_nat_alt)
    have "cycle - l1i_hist_table_head_time ?h = ?d - L1I_TIME_DIFF_MASK" by (simp add: l1i_hist_push_def)
    moreover have "L1I_TIME_DIFF_MASK \<le> ?d" using D unat_TIME_DIFF(1) by (simp add: word_le_nat_alt)
    ultimately have D': "unat (cycle - l1i_hist_table_head_time ?h) = unat ?d - 1048575"
      by (simp only: unat_sub unat_TIME_DIFF)
    have n: "(unat ?d - 1) div 1048575 = Suc ((unat ?d - 1048575 - 1) div 1048575)"
      using D by (subst le_div_geq) auto
    have run: "l1i_add_hist_fill cycle h t = l1i_add_hist_fill cycle ?h t1"
      using True t1 by (subst l1i_add_hist_fill.simps) (simp add: hist_gap_def)
    have wf: "wf_hist ?h" by (rule wf_hist_push [OF "1.prems"(1) hist_gap_ok])
    from "1.IH" [OF True t1(1), folded hist_gap_def, OF wf t1(2)] obtain h' t' where
      IH: "l1i_add_hist_fill cycle ?h t1 = Some (h', t')" "wf_hist h'" "wf_ent t'"
        "hist_list h' = take 32 (replicate ((unat ?d - 1048575 - 1) div 1048575) hist_gap @ hist_list ?h)"
        "unat (cycle - l1i_hist_table_head_time h') + (unat ?d - 1048575 - 1) div 1048575 * 1048575 = unat ?d - 1048575"
        "unat (cycle - l1i_hist_table_head_time h') \<le> 1048575"
      unfolding D' by blast
    have "hist_list h' = take 32 (replicate ((unat ?d - 1) div 1048575) hist_gap @ hist_list h)"
      unfolding IH(4) hist_list_push [OF wf_hist_shape [OF "1.prems"(1)]] take_append_take n
      by (simp only: replicate_Suc replicate_app_Cons_same append_Cons)
    moreover have "unat (cycle - l1i_hist_table_head_time h') + (unat ?d - 1) div 1048575 * 1048575 = unat ?d"
      using IH(5) D unfolding n by simp
    ultimately show ?thesis using IH(1-3,6) run by simp
  qed
qed


text \<open>The whole insertion: the new entry, behind it the gap entries, behind them the old ring.\<close>

definition hist_gaps :: "u64 \<Rightarrow> l1i_hist \<Rightarrow> nat" where
  "hist_gaps cycle h = (unat (cycle - l1i_hist_table_head_time h) - 1) div 1048575"

lemma and_TIME_DIFF_MASK: "unat x \<le> 1048575 \<Longrightarrow> x AND L1I_TIME_DIFF_MASK = x"
proof -
  assume "unat x \<le> 1048575"
  then have "take_bit 20 (unat x) = unat x" by (intro take_bit_nat_eq_self) simp
  then have "take_bit 20 x = x"
    by (metis unsigned_take_bit_eq word_unat_eq_iff)
  then show ?thesis
    unfolding L1I_TIME_DIFF_MASK_def L1I_TIME_DIFF_OVERFLOW_def L1I_TIME_DIFF_BITS_def and_push_bit_mask .
qed

lemma l1i_add_hist_spec:
  fixes curTick :: u64
  assumes h: "wf_hist h" and t: "wf_ent t" and f: "format \<le> L1I_ENTANGLED_NUM_FORMATS"
  defines "cycle \<equiv> get_l1i_current_cycle curTick"
  defines "n \<equiv> hist_gaps cycle h"
  shows "\<exists>pos h' t' d. l1i_add_hist_table curTick h t line instr_id format num_dst = Some (pos, h', t') \<and>
    wf_hist h' \<and> wf_ent t' \<and> pos < 32 \<and> h_tag (l1i_hist_table h' ! pos) = line AND L1I_HIST_TAG_MASK \<and>
    l1i_hist_table_head_time h' = cycle \<and>
    unat d + n * 1048575 = unat (cycle - l1i_hist_table_head_time h) \<and>
    hist_list h' = take 32 (\<lparr>h_tag = line AND L1I_HIST_TAG_MASK, h_time_diff = d, h_bb_size = 0,
        h_instr_id = instr_id, h_ent_src = 0, h_format = format, h_num_dst = num_dst\<rparr> #
      replicate n hist_gap @ hist_list h)"
proof -
  obtain h1 t1 where fill: "l1i_add_hist_fill cycle h t = Some (h1, t1)" and h1: "wf_hist h1" and t1: "wf_ent t1"
    and L: "hist_list h1 = take 32 (replicate n hist_gap @ hist_list h)"
    and D: "unat (cycle - l1i_hist_table_head_time h1) + n * 1048575 = unat (cycle - l1i_hist_table_head_time h)"
      "unat (cycle - l1i_hist_table_head_time h1) \<le> 1048575"
    using l1i_add_hist_fill_spec [OF h t, of cycle] unfolding n_def hist_gaps_def by blast
  obtain t2 where move: "l1i_move_history_head_to_entangled h1 t1 = Some t2" and t2: "wf_ent t2"
    using l1i_move_history_head_spec [OF h1 t1] by blast
  let ?d = "cycle - l1i_hist_table_head_time h1"
  let ?e = "\<lparr>h_tag = line AND L1I_HIST_TAG_MASK, h_time_diff = ?d, h_bb_size = 0,
        h_instr_id = instr_id, h_ent_src = 0, h_format = format, h_num_dst = num_dst\<rparr>"
  have run: "l1i_add_hist_table curTick h t line instr_id format num_dst =
      Some (l1i_hist_table_head h1, l1i_hist_push h1 ?e cycle, t2)"
    using fill move and_TIME_DIFF_MASK [OF D(2)] by (simp add: l1i_add_hist_table_def cycle_def [symmetric])
  have "hist_entry_ok ?e" using f by (simp add: hist_entry_ok_def)
  then have wf: "wf_hist (l1i_hist_push h1 ?e cycle)" by (rule wf_hist_push [OF h1])
  have head: "l1i_hist_table_head h1 < 32" "length (l1i_hist_table h1) = 32"
    using h1 by (simp_all add: wf_hist_def hist_shape_def)
  have "hist_list (l1i_hist_push h1 ?e cycle) = take 32 (?e # replicate n hist_gap @ hist_list h)"
    unfolding hist_list_push [OF wf_hist_shape [OF h1]] L by (rule take_Cons_take)
  then show ?thesis
    using run wf t2 D(1) head by (intro exI [of _ ?d] exI conjI) (auto simp: l1i_hist_push_def)
qed

subsection \<open>Properties\<close>

text \<open>
  C16: adding a pair to the table always succeeds and keeps its invariant; afterwards a lookup of
  the source finds the destination, no destination appears that was not there before or has
  just been added, and the other sets of the table do not change.
\<close>

theorem entangled_insert_lookup:
  assumes "wf_ent t" and "is_line_addr line_addr" and "is_line_addr entangled_addr"
  shows "\<exists>t'. l1i_add_entangled_table t line_addr entangled_addr = Some t' \<and> wf_ent t' \<and>
    (\<exists>k < L1I_MAX_ENTANGLED_PER_LINE. l1i_get_entangled_addr_entangled_table t' line_addr k =
       (entangled_addr, et_set line_addr, l1i_get_way_entangled_table t' line_addr)) \<and>
    table_dests t' line_addr \<subseteq> insert entangled_addr (table_dests t line_addr) \<and>
    (\<forall>s. s \<noteq> et_set line_addr \<longrightarrow> l1i_entangled_table t' ! s = l1i_entangled_table t ! s)"
  using l1i_add_entangled_spec [OF assms] by auto

theorem entangled_insert_lookup_witness:
  "\<exists>t'. l1i_add_entangled_table l1i_init_entangled_table 0x12345 0x12377 = Some t' \<and>
    (\<exists>k < L1I_MAX_ENTANGLED_PER_LINE. fst (l1i_get_entangled_addr_entangled_table t' 0x12345 k) = 0x12377)"
proof -
  have "is_line_addr 0x12345" "is_line_addr 0x12377" by code_simp+
  from entangled_insert_lookup [OF wf_init_ent this] show ?thesis by (metis fst_conv)
qed

text \<open>
  C18: the eviction loop of an insertion ends after at most seven rounds.  It leaves room for
  the new destination in a format that fits it and every destination that stays, it evicts
  none with a higher confidence than one that stays, and it evicts nothing at all when the
  destinations fit together with the new one.
\<close>

theorem eviction_least_confident:
  assumes "ent_entry_ok e" and "is_line_addr line_addr" and "is_format format_new"
  shows "\<exists>cs mf. l1i_evict_loop (Suc L1I_MAX_ENTANGLED_PER_LINE) line_addr format_new e =
      Some (l1i_reformat line_addr (e\<lparr>e_conf := cs\<rparr>) mf) \<and>
    num_conf cs < mf \<and> mf \<le> format_new \<and> format_fits line_addr e mf cs \<and> evicts (e_conf e) cs \<and>
    (num_conf (e_conf e) < format_new \<and> format_fits line_addr e (Suc (num_conf (e_conf e))) (e_conf e) \<longrightarrow>
       cs = e_conf e)"
proof -
  note ok = ent_entry_okD [OF assms(1)]
  have "num_conf (e_conf e) < Suc L1I_MAX_ENTANGLED_PER_LINE"
    using num_conf_le [of "e_conf e"] ok(3) by simp
  from l1i_evict_loop_spec [OF ok(1-4) assms(2,3) this] show ?thesis by blast
qed

text \<open>An entry with two destinations far away, which leave no room for a third one.\<close>

definition example_entry :: l1i_entangled_entry where
  "example_entry = \<lparr>e_tag = 0, e_format = 2, e_addr = [0x8000001, 0x8000002, 0, 0, 0, 0],
     e_conf = [3, 1, 0, 0, 0, 0], e_bb_size = 0\<rparr>"

theorem eviction_least_confident_witness:
  "\<exists>cs mf. l1i_evict_loop 7 0x10 2 example_entry = Some (l1i_reformat 0x10 (example_entry\<lparr>e_conf := cs\<rparr>) mf) \<and>
    num_conf cs < mf \<and> mf \<le> 2 \<and> evicts (e_conf example_entry) cs"
proof -
  have "ent_entry_ok example_entry" "is_line_addr 0x10" "is_format 2" by code_simp+
  from eviction_least_confident [OF this] show ?thesis by (simp add: numeral_eq_Suc) blast
qed

text \<open>
  Recording the size of a basic block succeeds for every size of six bits, and a lookup
  then returns the larger one of the recorded and the old size.  The destinations of the
  block stay.
\<close>

theorem bbsize_is_maximum:
  assumes "wf_ent t" and "bb_size \<le> L1I_MERGE_BBSIZE_MAX_VALUE"
  shows "\<exists>t'. l1i_add_bbsize_table t line_addr bb_size = Some t' \<and> wf_ent t' \<and>
    l1i_get_bbsize_entangled_table t' line_addr = max (l1i_get_bbsize_entangled_table t line_addr) bb_size \<and>
    table_dests t' line_addr = table_dests t line_addr"
  using assms by (rule l1i_add_bbsize_spec)

theorem bbsize_is_maximum_witness:
  "\<exists>t'. l1i_add_bbsize_table l1i_init_entangled_table 0x12345 12 = Some t' \<and>
    l1i_get_bbsize_entangled_table t' 0x12345 = max (l1i_get_bbsize_entangled_table l1i_init_entangled_table 0x12345) 12"
proof -
  have "(12 :: u32) \<le> L1I_MERGE_BBSIZE_MAX_VALUE" by code_simp
  from bbsize_is_maximum [OF wf_init_ent this, of "0x12345"] show ?thesis by blast
qed

text \<open>
  C24: inserting a line into the history buffer always ends, whatever the time since the last
  insertion: the ring then holds the new entry, behind it one gap entry for every
  \<open>2\<^sup>2\<^sup>0 - 1\<close> cycles that do not fit its time difference, and behind them the old
  entries.  The time differences of the inserted entries add up to the elapsed time, and the
  entries that leave the ring leave the entangled table in a state that satisfies its
  invariant.
\<close>

theorem hist_insert_ring:
  assumes "wf_hist h" and "wf_ent t" and "format \<le> L1I_ENTANGLED_NUM_FORMATS"
  shows "\<exists>pos h' t' d. l1i_add_hist_table curTick h t line_addr instr_id format num_dst = Some (pos, h', t') \<and>
    wf_hist h' \<and> wf_ent t' \<and> l1i_hist_table_head_time h' = get_l1i_current_cycle curTick \<and>
    unat d + hist_gaps (get_l1i_current_cycle curTick) h * 1048575 =
      unat (get_l1i_current_cycle curTick - l1i_hist_table_head_time h) \<and>
    hist_list h' = take L1I_HIST_TABLE_ENTRIES
      (\<lparr>h_tag = line_addr AND L1I_HIST_TAG_MASK, h_time_diff = d, h_bb_size = 0,
        h_instr_id = instr_id, h_ent_src = 0, h_format = format, h_num_dst = num_dst\<rparr> #
       replicate (hist_gaps (get_l1i_current_cycle curTick) h) hist_gap @ hist_list h)"
  using l1i_add_hist_spec [OF assms, of curTick line_addr instr_id num_dst]
  unfolding L1I_HIST_TABLE_ENTRIES_def by blast

theorem hist_insert_ring_witness:
  "\<exists>pos h' t'. l1i_add_hist_table 0x40000000 example_hist l1i_init_entangled_table 11 6 0 0 = Some (pos, h', t') \<and>
    wf_hist h' \<and> h_tag (hist_list h' ! 0) = 11"
proof -
  have "wf_hist example_hist" "0 \<le> L1I_ENTANGLED_NUM_FORMATS" by code_simp+
  from hist_insert_ring [OF this(1) wf_init_ent this(2), of "0x40000000" 11 6 0]
  show ?thesis by (fastforce simp: hist_tag_mask)
qed

text \<open>
  When an entry leaves the history buffer, its pair of source and destination and the size
  of its block are not lost: the pair is found in the entangled table afterwards, and the
  block has at least the size it had in the buffer.
\<close>

theorem history_head_is_moved:
  assumes "wf_hist h" and "wf_ent t" and "e = l1i_hist_table h ! l1i_hist_table_head h"
  shows "\<exists>t'. l1i_move_history_head_to_entangled h t = Some t' \<and> wf_ent t' \<and>
    (h_ent_src e \<noteq> 0 \<longrightarrow> h_tag e \<in> table_dests t' (h_ent_src e)) \<and>
    (h_bb_size e \<noteq> 0 \<and> h_ent_src e = 0 \<longrightarrow> h_bb_size e \<le> l1i_get_bbsize_entangled_table t' (h_tag e))"
  using l1i_move_history_head_spec [OF assms(1,2)] assms(3) by (auto simp: max_def split: if_splits)

theorem history_head_is_moved_witness:
  "\<exists>t'. l1i_move_history_head_to_entangled (example_hist\<lparr>l1i_hist_table_head := 0\<rparr>) l1i_init_entangled_table = Some t' \<and>
    2 \<le> l1i_get_bbsize_entangled_table t' 5"
proof -
  have wf: "wf_hist (example_hist\<lparr>l1i_hist_table_head := 0\<rparr>)"
    and e: "h_bb_size (l1i_hist_table example_hist ! 0) = 2" "h_ent_src (l1i_hist_table example_hist ! 0) = 0"
      "h_tag (l1i_hist_table example_hist ! 0) = 5" by code_simp+
  from history_head_is_moved [OF wf wf_init_ent refl] e show ?thesis by auto
qed

end
