(* ===== verification/Safe_Machine.thy ===== *)
theory Safe_Machine
  imports Gem5_Prelude
begin

section \<open>Components driven by events\<close>

text \<open>
  Many parts of the simulator are objects whose methods are called in an order the
  environment chooses: a step may abort (an assertion fails), the environment promises
  something about the calls it makes, and the object keeps an invariant.  The locales below
  hold the argument that is the same for all of them: if each single step is safe, then every
  admissible sequence of steps is, and if each step follows an abstract specification, then
  so does the sequence.
\<close>

fun run :: "('e \<Rightarrow> 's \<Rightarrow> 's option) \<Rightarrow> 'e list \<Rightarrow> 's \<Rightarrow> 's option" where
  "run step [] s = Some s"
| "run step (e # es) s = do { s1 \<leftarrow> step e s; run step es s1 }"

text \<open>The environment keeps its promise at every event, in the state the events before it led to.\<close>

fun admissible :: "('e \<Rightarrow> 's \<Rightarrow> 's option) \<Rightarrow> ('e \<Rightarrow> 's \<Rightarrow> bool) \<Rightarrow> 'e list \<Rightarrow> 's \<Rightarrow> bool" where
  "admissible step env [] s \<longleftrightarrow> True"
| "admissible step env (e # es) s \<longleftrightarrow>
     env e s \<and> (case step e s of None \<Rightarrow> True | Some s1 \<Rightarrow> admissible step env es s1)"

text \<open>Runs of an abstract specification.\<close>

inductive spec_run :: "('e \<Rightarrow> 'a \<Rightarrow> 'a \<Rightarrow> bool) \<Rightarrow> 'e list \<Rightarrow> 'a \<Rightarrow> 'a \<Rightarrow> bool" for spec where
  spec_run_Nil: "spec_run spec [] a a"
| spec_run_Cons: "spec e a b \<Longrightarrow> spec_run spec es b c \<Longrightarrow> spec_run spec (e # es) a c"

inductive_cases spec_run_ConsE: "spec_run spec (e # es) a c"

lemma run_append: "run step (es @ fs) s = do { s1 \<leftarrow> run step es s; run step fs s1 }"
  by (induction es arbitrary: s) (auto split: bind_splits)

locale safe_machine =
  fixes step :: "'e \<Rightarrow> 's \<Rightarrow> 's option" and env :: "'e \<Rightarrow> 's \<Rightarrow> bool" and inv :: "'s \<Rightarrow> bool"
  assumes progress: "inv s \<Longrightarrow> env e s \<Longrightarrow> \<exists>s'. step e s = Some s' \<and> inv s'"
begin

lemma run_safe: "inv s \<Longrightarrow> admissible step env es s \<Longrightarrow> \<exists>s'. run step es s = Some s' \<and> inv s'"
proof (induction es arbitrary: s)
  case (Cons e es)
  obtain s1 where s1: "step e s = Some s1" "inv s1" using progress Cons.prems by auto
  then show ?case using Cons.IH [OF s1(2)] Cons.prems(2) by simp
qed simp

lemma run_inv: "inv s \<Longrightarrow> admissible step env es s \<Longrightarrow> run step es s = Some s' \<Longrightarrow> inv s'"
  using run_safe by fastforce

end

locale refined_machine = safe_machine step env inv
  for step :: "'e \<Rightarrow> 's \<Rightarrow> 's option" and env :: "'e \<Rightarrow> 's \<Rightarrow> bool" and inv :: "'s \<Rightarrow> bool" +
  fixes abs :: "'s \<Rightarrow> 'a" and spec :: "'e \<Rightarrow> 'a \<Rightarrow> 'a \<Rightarrow> bool"
  assumes simulation: "inv s \<Longrightarrow> env e s \<Longrightarrow> step e s = Some s' \<Longrightarrow> spec e (abs s) (abs s')"
begin

lemma run_refines:
  "inv s \<Longrightarrow> admissible step env es s \<Longrightarrow> \<exists>s'. run step es s = Some s' \<and> inv s' \<and> spec_run spec es (abs s) (abs s')"
proof (induction es arbitrary: s)
  case (Cons e es)
  obtain s1 where s1: "step e s = Some s1" "inv s1" using progress Cons.prems by auto
  then have "spec e (abs s) (abs s1)" using simulation Cons.prems by auto
  then show ?case using Cons.IH [OF s1(2)] Cons.prems(2) s1(1) by (auto intro: spec_run_Cons)
qed (auto intro: spec_run_Nil)

end

end
