(* ===== verification/EIP.thy ===== *)
theory EIP
  imports EIP_Entangled Safe_Machine
begin

section \<open>EIP: the prefetcher\<close>

text \<open>
  The entangling instruction prefetcher itself (\<open>eip.cc\<close>): its state is the history buffer,
  the timing tables, the entangled table, the three registers that describe the current basic
  block, and the queue of prefetches that have been proposed with the table entry that
  proposed them.  The handlers are the calls of the cache: an access
  (\<open>calculatePrefetch\<close>), a squash, a fill, an invalidation, and a prefetch that has been
  issued.

  The lemmas show that every handler keeps the invariant of the whole prefetcher and that no
  assertion of the code fails, as long as the cache reports hits, fills and evictions
  consistently (\<open>eip_env\<close>).
\<close>

subsection \<open>State\<close>

record pfInMSHRQ =
  lineAddr :: u64
  sourceSet :: u32
  sourceWay :: u32

record eip =
  eip_hist :: l1i_hist
  eip_timing :: l1i_timing
  eip_ent :: l1i_entangled
  l1i_last_basic_block :: u64
  l1i_consecutive_count :: u32
  l1i_basic_block_merge_diff :: u32
  pfmq :: "pfInMSHRQ list"

text \<open>The constructor, with the uninitialised memory of the timing tables as an argument.\<close>

definition EIP_init :: "u64 \<Rightarrow> l1i_timing \<Rightarrow> eip" where
  "EIP_init curTick memory =
     \<lparr>eip_hist = l1i_init_hist_table curTick,
      eip_timing = l1i_init_timing_tables memory,
      eip_ent = l1i_init_entangled_table,
      l1i_last_basic_block = 0,
      l1i_consecutive_count = 0,
      l1i_basic_block_merge_diff = 0,
      pfmq = []\<rparr>"

subsection \<open>The queue of proposed prefetches\<close>

definition add_pfmq :: "u64 \<Rightarrow> u32 \<Rightarrow> u32 \<Rightarrow> pfInMSHRQ list \<Rightarrow> pfInMSHRQ list" where
  "add_pfmq a ss sw q = q @ [\<lparr>lineAddr = a, sourceSet = ss, sourceWay = sw\<rparr>]"

fun remove_pfmq :: "u64 \<Rightarrow> pfInMSHRQ list \<Rightarrow> pfInMSHRQ list" where
  "remove_pfmq a [] = []"
| "remove_pfmq a (p # q) = (if a = lineAddr p then q else p # remove_pfmq a q)"

definition clear_pfmq :: "pfInMSHRQ list \<Rightarrow> pfInMSHRQ list" where
  "clear_pfmq q = []"

definition getSourceSet :: "pfInMSHRQ list \<Rightarrow> u64 \<Rightarrow> u64" where
  "getSourceSet q a = (case find (\<lambda>p. a = lineAddr p) q of Some p \<Rightarrow> ucast (sourceSet p) | None \<Rightarrow> 0)"

definition getSourceWay :: "pfInMSHRQ list \<Rightarrow> u64 \<Rightarrow> u64" where
  "getSourceWay q a = (case find (\<lambda>p. a = lineAddr p) q of Some p \<Rightarrow> ucast (sourceWay p) | None \<Rightarrow> 0)"

definition prefetch_issued_to_pq :: "u64 \<Rightarrow> eip \<Rightarrow> u64 \<Rightarrow> u64 \<Rightarrow> u64 \<Rightarrow> eip option" where
  "prefetch_issued_to_pq curTick s a ss sw = do {
     t \<leftarrow> l1i_add_timing_entry curTick (eip_timing s) a (ucast ss) (ucast sw);
     Some (s\<lparr>eip_timing := t\<rparr>)
   }"

subsection \<open>Proposing prefetches\<close>

text \<open>
  What the two prefetch loops of \<open>calculatePrefetch\<close> change: the confidences of the entangled
  table, the vector of addresses with priorities, and the queue.
\<close>

record eip_pf =
  pf_ent :: l1i_entangled
  pf_addresses :: "(u64 \<times> int) list"
  pf_pfmq :: "pfInMSHRQ list"

definition eip_push :: "u64 \<Rightarrow> u32 \<Rightarrow> u32 \<Rightarrow> eip_pf \<Rightarrow> eip_pf" where
  "eip_push a ss sw p = p\<lparr>pf_addresses := pf_addresses p @ [(a, 0)], pf_pfmq := add_pfmq a ss sw (pf_pfmq p)\<rparr>"

definition eip_bb_step :: "l1i_timing \<Rightarrow> u64 \<Rightarrow> nat \<Rightarrow> eip_pf \<Rightarrow> eip_pf" where
  "eip_bb_step t addr i p =
     (let pf_addr = addr + ucast (of_nat i * push_bit LOG2_BLOCK_SIZE 1 :: u32) in
      if \<not> l1i_ongoing_request t (drop_bit LOG2_BLOCK_SIZE pf_addr)
      then eip_push pf_addr 0 (of_nat L1I_ET_WAYS) p else p)"

definition eip_bb_loop :: "l1i_timing \<Rightarrow> u64 \<Rightarrow> u32 \<Rightarrow> eip_pf \<Rightarrow> eip_pf" where
  "eip_bb_loop t addr bb_size p = fold (eip_bb_step t addr) [1..<Suc (unat bb_size)] p"

definition eip_dest_step :: "l1i_timing \<Rightarrow> u64 \<Rightarrow> nat \<Rightarrow> nat \<Rightarrow> nat \<Rightarrow> eip_pf \<Rightarrow> eip_pf option" where
  "eip_dest_step t entangled_line_addr source_set source_way i p = do {
     let pf_line_addr = entangled_line_addr + of_nat i;
     c_assert (source_way < L1I_ET_WAYS);
     let p1 = (if l1i_different_timing_entry_src t pf_line_addr (of_nat source_set) (of_nat source_way)
               then p\<lparr>pf_ent := l1i_update_confidence_entangled_table (pf_ent p)
                                  source_set source_way pf_line_addr False\<rparr>
               else p);
     Some (if \<not> l1i_ongoing_request t pf_line_addr
           then eip_push (push_bit LOG2_BLOCK_SIZE pf_line_addr) (of_nat source_set)
                  (if i = 0 then of_nat source_way else of_nat L1I_ET_WAYS) p1
           else p1)
   }"

fun eip_dest_loop :: "l1i_timing \<Rightarrow> u64 \<Rightarrow> nat \<Rightarrow> nat \<Rightarrow> nat list \<Rightarrow> eip_pf \<Rightarrow> eip_pf option" where
  "eip_dest_loop t entangled_line_addr source_set source_way [] p = Some p"
| "eip_dest_loop t entangled_line_addr source_set source_way (i # is) p = do {
     p1 \<leftarrow> eip_dest_step t entangled_line_addr source_set source_way i p;
     eip_dest_loop t entangled_line_addr source_set source_way is p1
   }"

fun eip_ent_loop :: "l1i_timing \<Rightarrow> u64 \<Rightarrow> nat list \<Rightarrow> nat \<Rightarrow> nat \<Rightarrow> u32 \<Rightarrow> eip_pf \<Rightarrow>
    (nat \<times> nat \<times> u32 \<times> eip_pf) option" where
  "eip_ent_loop t line_addr [] format num_entangled bb_size p = Some (format, num_entangled, bb_size, p)"
| "eip_ent_loop t line_addr (k # ks) format num_entangled bb_size p =
     (let (entangled_line_addr, source_set, source_way) =
            l1i_get_entangled_addr_entangled_table (pf_ent p) line_addr k in
      if entangled_line_addr \<noteq> 0 \<and> entangled_line_addr \<noteq> line_addr then do {
        format_k \<leftarrow> l1i_get_format_entangled line_addr entangled_line_addr;
        let bb_size_k = l1i_get_bbsize_entangled_table (pf_ent p) entangled_line_addr;
        p1 \<leftarrow> eip_dest_loop t entangled_line_addr source_set source_way [0..<Suc (unat bb_size_k)] p;
        eip_ent_loop t line_addr ks (if format_k < format then format_k else format)
          (num_entangled + 1) bb_size_k p1
      }
      else eip_ent_loop t line_addr ks format num_entangled bb_size p)"

subsection \<open>The handlers\<close>

text \<open>The end of a basic block: its size goes to the history, merged with an earlier block.\<close>

definition eip_close_block :: "eip \<Rightarrow> l1i_hist option" where
  "eip_close_block s =
     (let max_bb_size = l1i_get_bbsize_entangled_table (eip_ent s) (l1i_last_basic_block s) in
      if l1i_consecutive_count s \<noteq> 0 then
        (if l1i_basic_block_merge_diff s > 0
         then l1i_add_bb_size_hist_table (eip_hist s)
                (l1i_last_basic_block s - ucast (l1i_basic_block_merge_diff s))
                (l1i_consecutive_count s + l1i_basic_block_merge_diff s)
         else l1i_add_bb_size_hist_table (eip_hist s) (l1i_last_basic_block s)
                (max max_bb_size (l1i_consecutive_count s)))
      else Some (eip_hist s))"

text \<open>The request in the history buffer, and its position there.\<close>

definition eip_record :: "u64 \<Rightarrow> eip \<Rightarrow> u64 \<Rightarrow> u64 \<Rightarrow> bool \<Rightarrow> nat \<Rightarrow> nat \<Rightarrow> (nat \<times> eip) option" where
  "eip_record curTick s line_addr instr_id cache_hit format num_entangled =
     (if l1i_basic_block_merge_diff s = 0 \<and>
         (l1i_find_hist_entry (eip_hist s) line_addr = L1I_HIST_TABLE_ENTRIES \<or>
          (\<not> cache_hit \<and> \<not> l1i_ongoing_accessed_request (eip_timing s) line_addr))
      then do {
        (pos_hist, h, t) \<leftarrow> l1i_add_hist_table curTick (eip_hist s) (eip_ent s) line_addr instr_id
                              format (of_nat num_entangled);
        Some (pos_hist, s\<lparr>eip_hist := h, eip_ent := t\<rparr>)
      }
      else Some (L1I_HIST_TABLE_ENTRIES, s))"

text \<open>The part of \<open>calculatePrefetch\<close> that runs when the line starts a new basic block.\<close>

definition eip_new_block :: "u64 \<Rightarrow> eip \<Rightarrow> u64 \<Rightarrow> u64 \<Rightarrow> bool \<Rightarrow> nat \<Rightarrow> nat \<Rightarrow> (nat \<times> eip) option" where
  "eip_new_block curTick s line_addr instr_id cache_hit format num_entangled = do {
     h \<leftarrow> eip_close_block s;
     merge_diff \<leftarrow> l1i_find_bb_merge_hist_table h line_addr;
     eip_record curTick
       (s\<lparr>eip_hist := h, l1i_consecutive_count := 0, l1i_last_basic_block := line_addr,
          l1i_basic_block_merge_diff := merge_diff\<rparr>)
       line_addr instr_id cache_hit format num_entangled
   }"

definition calculatePrefetch ::
    "u64 \<Rightarrow> eip \<Rightarrow> u64 \<Rightarrow> u64 \<Rightarrow> bool \<Rightarrow> (u64 \<times> int) list \<Rightarrow> (eip \<times> (u64 \<times> int) list) option" where
  "calculatePrefetch curTick s instr_id addr cache_hit addresses = do {
     let line_addr = drop_bit LOG2_BLOCK_SIZE addr;
     let way = l1i_find_timing_cache_entry (eip_timing s) line_addr;
     c_assert (\<not> cache_hit \<longrightarrow> way = MAX_NUM_WAY);
     c_assert (cache_hit \<longrightarrow> way < MAX_NUM_WAY);
     let next_line = l1i_last_basic_block s + ucast (l1i_consecutive_count s);
     if next_line = line_addr then Some (s, addresses)
     else do {
       let consecutive = (next_line + 1 = line_addr);
       let s1 = (if consecutive then s\<lparr>l1i_consecutive_count := l1i_consecutive_count s + 1\<rparr> else s);
       let bb_size = l1i_get_bbsize_entangled_table (eip_ent s1) line_addr;
       let p = eip_bb_loop (eip_timing s1) addr bb_size
                 \<lparr>pf_ent = eip_ent s1, pf_addresses = addresses, pf_pfmq = pfmq s1\<rparr>;
       (format, num_entangled, bb_size1, p1) \<leftarrow>
         eip_ent_loop (eip_timing s1) line_addr [0..<L1I_MAX_ENTANGLED_PER_LINE]
           L1I_ENTANGLED_NUM_FORMATS 0 bb_size p;
       c_assert (format \<ge> num_entangled);
       let format1 = (if num_entangled = 0 \<and> bb_size1 = 0 then 0 else format);
       let s2 = s1\<lparr>eip_ent := pf_ent p1, pfmq := pf_pfmq p1\<rparr>;
       (pos_hist, s3) \<leftarrow>
         (if consecutive then Some (L1I_HIST_TABLE_ENTRIES, s2)
          else eip_new_block curTick s2 line_addr instr_id cache_hit format1 num_entangled);
       t \<leftarrow> (if \<not> cache_hit \<and> \<not> l1i_ongoing_request (eip_timing s3) line_addr
             then l1i_add_timing_entry curTick (eip_timing s3) line_addr 0 (of_nat L1I_ET_WAYS)
             else Some (eip_timing s3));
       Some (s3\<lparr>eip_timing := l1i_access_timing_entry t line_addr pos_hist\<rparr>, pf_addresses p1)
     }
   }"

definition notifySquash :: "eip \<Rightarrow> u64 \<Rightarrow> u64 \<Rightarrow> eip" where
  "notifySquash s ip instr_id =
     (let line_addr = drop_bit LOG2_BLOCK_SIZE ip;
          h = l1i_squash_hist_table (eip_hist s) instr_id line_addr;
          last = hist_prev (l1i_hist_table_head h);
          e = l1i_hist_table h ! last;
          s1 = (if (h_tag e \<le> line_addr \<and>
                    h_tag e + ucast (l1i_basic_block_merge_diff s) + ucast (l1i_consecutive_count s) \<ge> line_addr) \<or>
                   (h_tag e \<le> line_addr \<and> h_tag e + ucast (h_bb_size e) \<ge> line_addr)
                then s\<lparr>eip_hist := h\<lparr>l1i_hist_table := (l1i_hist_table h)[last := e\<lparr>h_bb_size := 0\<rparr>]\<rparr>,
                       l1i_last_basic_block := h_tag e,
                       l1i_consecutive_count := ucast (line_addr - h_tag e)\<rparr>
                else s\<lparr>eip_hist := h, l1i_last_basic_block := 0, l1i_consecutive_count := 0\<rparr>)
      in s1\<lparr>l1i_basic_block_merge_diff := 0\<rparr>)"

definition notifyFill :: "u64 \<Rightarrow> eip \<Rightarrow> u64 \<Rightarrow> eip option" where
  "notifyFill curTick s addr = do {
     let line_addr = drop_bit LOG2_BLOCK_SIZE addr;
     let (latency, pos_hist) =
       l1i_get_latency_timing_mshr curTick (eip_timing s) line_addr L1I_HIST_TABLE_ENTRIES;
     t \<leftarrow> l1i_move_timing_entry (eip_timing s) line_addr;
     let s1 = s\<lparr>eip_timing := t\<rparr>;
     if latency \<noteq> 0 \<and> pos_hist < L1I_HIST_TABLE_ENTRIES then do {
       (src_entangled, h) \<leftarrow> l1i_get_src_entangled_hist_table (eip_hist s1) line_addr pos_hist latency;
       if src_entangled \<noteq> 0 then do {
         c_assert (line_addr \<noteq> src_entangled);
         Some (s1\<lparr>eip_hist := h\<lparr>l1i_hist_table := (l1i_hist_table h)
                   [pos_hist := (l1i_hist_table h ! pos_hist)\<lparr>h_ent_src := src_entangled\<rparr>]\<rparr>\<rparr>)
       }
       else Some (s1\<lparr>eip_hist := h\<rparr>)
     }
     else Some s1
   }"

definition notifyInvalidate :: "eip \<Rightarrow> u64 \<Rightarrow> eip" where
  "notifyInvalidate s addr =
     (let line_addr = drop_bit LOG2_BLOCK_SIZE addr;
          st = tc_set line_addr;
          way = l1i_find_timing_cache_entry (eip_timing s) line_addr in
      if way \<noteq> MAX_NUM_WAY then
        (let t = tc_update (eip_timing s) st way (\<lambda>e. e\<lparr>tc_valid := False\<rparr>);
             e = l1i_timing_cache_table t ! st ! way in
         if unat (tc_source_way e) < L1I_ET_WAYS
         then s\<lparr>eip_timing := t,
                eip_ent := l1i_update_confidence_entangled_table (eip_ent s)
                  (unat (tc_source_set e)) (unat (tc_source_way e)) line_addr (tc_accessed e)\<rparr>
         else s\<lparr>eip_timing := t\<rparr>)
      else s)"


subsection \<open>Recorded sources\<close>

text \<open>
  A recorded source way below \<open>L1I_ET_WAYS\<close> names an entry of the entangled table, so its set
  is in range; the way \<open>L1I_ET_WAYS\<close> stands for no source.
\<close>

definition src_ok :: "u32 \<Rightarrow> u32 \<Rightarrow> bool" where
  "src_ok ss sw \<longleftrightarrow> (unat sw < L1I_ET_WAYS \<longrightarrow> unat ss < L1I_ET_SETS)"

definition mshr_src_ok :: "l1i_timing_mshr_entry \<Rightarrow> bool" where
  "mshr_src_ok e \<longleftrightarrow> (tm_valid e \<longrightarrow> src_ok (tm_source_set e) (tm_source_way e))"

definition cache_src_ok :: "l1i_timing_cache_entry \<Rightarrow> bool" where
  "cache_src_ok e \<longleftrightarrow> (tc_valid e \<longrightarrow> src_ok (tc_source_set e) (tc_source_way e))"

definition timing_src_ok :: "l1i_timing \<Rightarrow> bool" where
  "timing_src_ok t \<longleftrightarrow> list_all mshr_src_ok (l1i_timing_mshr_table t) \<and>
     list_all (list_all cache_src_ok) (l1i_timing_cache_table t)"

lemma src_ok_no_source [simp]: "src_ok ss (of_nat L1I_ET_WAYS)"
  by (simp add: src_ok_def L1I_ET_WAYS_def)

lemma timing_src_ok_tm_update:
  assumes "timing_src_ok t" "mshr_src_ok (f (l1i_timing_mshr_table t ! i))"
  shows "timing_src_ok (tm_update t i f)"
  using assms by (simp add: timing_src_ok_def list_all_update)

lemma timing_src_ok_tc_update:
  assumes "timing_src_ok t" "i < length (l1i_timing_cache_table t)"
    "cache_src_ok (f (l1i_timing_cache_table t ! i ! j))"
  shows "timing_src_ok (tc_update t i j f)"
proof -
  have "list_all cache_src_ok (l1i_timing_cache_table t ! i)"
    using assms(1,2) by (simp add: timing_src_ok_def list_all_nth)
  then show ?thesis
    using assms by (simp add: timing_src_ok_def tc_update_def list_all_update)
qed

lemma timing_src_ok_mshr:
  "timing_src_ok t \<Longrightarrow> i < length (l1i_timing_mshr_table t) \<Longrightarrow> mshr_src_ok (l1i_timing_mshr_table t ! i)"
  by (simp add: timing_src_ok_def list_all_nth)

lemma timing_src_ok_cache:
  "timing_src_ok t \<Longrightarrow> timing_shape t \<Longrightarrow> s < 64 \<Longrightarrow> j < MAX_NUM_WAY \<Longrightarrow>
   cache_src_ok (l1i_timing_cache_table t ! s ! j)"
  by (simp add: timing_src_ok_def list_all_nth timing_shape_def)

lemma timing_src_ok_add:
  assumes "timing_src_ok t" "src_ok ss sw" "l1i_add_timing_entry tick t l ss sw = Some t'"
  shows "timing_src_ok t'"
  using assms
  by (auto simp: l1i_add_timing_entry_def Let_def mshr_src_ok_def split: if_splits bind_splits
      intro!: timing_src_ok_tm_update)

lemma timing_src_ok_access:
  assumes "timing_src_ok t" "timing_shape t"
  shows "timing_src_ok (l1i_access_timing_entry t l p)"
proof -
  have "timing_src_ok (tm_update t (l1i_find_timing_mshr_entry t l) (\<lambda>e. e\<lparr>tm_accessed := True, tm_pos_hist := p\<rparr>))"
    if "l1i_find_timing_mshr_entry t l < L1I_TIMING_MSHR_SIZE"
    using timing_src_ok_mshr [OF assms(1)] that shape_mshr [OF assms(2)]
    by (intro timing_src_ok_tm_update [OF assms(1)]) (simp add: mshr_src_ok_def)
  moreover have "timing_src_ok (tc_update t (tc_set l) (l1i_find_timing_cache_entry t l) (\<lambda>e. e\<lparr>tc_accessed := True\<rparr>))"
    if "l1i_find_timing_cache_entry t l < MAX_NUM_WAY"
    using timing_src_ok_cache [OF assms tc_set_less that] assms(2)
    by (intro timing_src_ok_tc_update [OF assms(1)]) (simp_all add: cache_src_ok_def timing_shape_def)
  ultimately show ?thesis using assms(1) by (simp add: l1i_access_timing_entry_def Let_def)
qed

lemma timing_src_ok_invalid_mshr:
  "timing_src_ok t \<Longrightarrow> l1i_invalid_timing_mshr_entry t l = Some t' \<Longrightarrow> timing_src_ok t'"
  by (auto simp: l1i_invalid_timing_mshr_entry_def Let_def mshr_src_ok_def split: if_splits
      intro!: timing_src_ok_tm_update)

lemma timing_src_ok_move:
  assumes "timing_src_ok t" "timing_shape t" "is_line_addr l" "l1i_move_timing_entry t l = Some t'"
  shows "timing_src_ok t'"
proof -
  let ?i = "l1i_find_timing_mshr_entry t l" and ?j = "find_index (\<lambda>e. \<not> tc_valid e) (l1i_timing_cache_table t ! tc_set l)"
  have cell: "timing_src_ok (tc_update t (tc_set l) j f)" if "\<And>e. cache_src_ok (f e)" for j f
    using that assms(2) by (intro timing_src_ok_tc_update [OF assms(1)]) (simp_all add: timing_shape_def)
  show ?thesis
  proof (cases "?i = L1I_TIMING_MSHR_SIZE")
    case True
    then show ?thesis using assms(4) cell
      by (auto simp: l1i_move_timing_entry_def Let_def cache_src_ok_def split: bind_splits)
  next
    case False
    then have i: "?i < length (l1i_timing_mshr_table t)"
      using find_mshr_le [OF assms(2), of l] shape_mshr [OF assms(2)] by simp
    have "tm_valid (l1i_timing_mshr_table t ! ?i)"
      using find_index_sat [OF i [unfolded l1i_find_timing_mshr_entry_def]]
      by (simp add: l1i_find_timing_mshr_entry_def)
    then have "src_ok (tm_source_set (l1i_timing_mshr_table t ! ?i)) (tm_source_way (l1i_timing_mshr_table t ! ?i))"
      using timing_src_ok_mshr [OF assms(1) i] by (simp add: mshr_src_ok_def)
    then show ?thesis using False assms(4) cell
      by (auto simp: l1i_move_timing_entry_def Let_def cache_src_ok_def split: bind_splits
          intro: timing_src_ok_invalid_mshr [rotated])
  qed
qed


subsection \<open>What the prefetch loops propose\<close>

text \<open>The \<open>i\<close>-th line after a line, with line addresses wrapping at 58 bits.\<close>

definition line_plus :: "u64 \<Rightarrow> nat \<Rightarrow> u64" where
  "line_plus l i = (l + of_nat i) AND L1I_HIST_TAG_MASK"

lemma drop_push_6: "drop_bit 6 (push_bit 6 x) = x AND L1I_HIST_TAG_MASK" for x :: u64
  unfolding hist_tag_mask by (rule bit_word_eqI) (auto simp: bit_simps)

lemma drop_bit_6_add:
  fixes a b :: u64
  shows "drop_bit 6 (a + push_bit 6 b) = (drop_bit 6 a + b) AND L1I_HIST_TAG_MASK"
proof -
  have "a + push_bit 6 b = push_bit 6 (drop_bit 6 a + b) OR take_bit 6 a"
  proof -
    have "push_bit 6 (drop_bit 6 a + b) + take_bit 6 a = push_bit 6 (drop_bit 6 a) + take_bit 6 a + push_bit 6 b"
      by (simp only: push_bit_eq_mult distrib_right add.assoc add.commute add.left_commute)
    then have "a + push_bit 6 b = push_bit 6 (drop_bit 6 a + b) + take_bit 6 a"
      by (simp only: bits_ident)
    also have "\<dots> = push_bit 6 (drop_bit 6 a + b) OR take_bit 6 a"
      by (rule disjunctive_add) (auto simp: bit_simps)
    finally show ?thesis .
  qed
  then show ?thesis by (simp add: drop_push_6 drop_bit_take_bit)
qed

lemma ongoing_mask: "l1i_ongoing_request t (x AND L1I_HIST_TAG_MASK) = l1i_ongoing_request t x"
  by (simp add: l1i_ongoing_request_def l1i_find_timing_mshr_entry_def L1I_HIST_TAG_MASK_def
      L1I_TIMING_MSHR_TAG_MASK_def and.assoc)

text \<open>
  \<open>pf_ext t A p p'\<close>: from \<open>p\<close> to \<open>p'\<close> the loops only weaken confidences and append proposals,
  the same to the vector and to the queue, for lines of \<open>A\<close> that are not being fetched.
\<close>

definition pf_ext :: "l1i_timing \<Rightarrow> u64 set \<Rightarrow> eip_pf \<Rightarrow> eip_pf \<Rightarrow> bool" where
  "pf_ext t A p p' \<longleftrightarrow> wf_ent (pf_ent p') \<and> ent_weaker (pf_ent p) (pf_ent p') \<and>
     (\<exists>xs. pf_addresses p' = pf_addresses p @ map (\<lambda>q. (lineAddr q, 0)) xs \<and> pf_pfmq p' = pf_pfmq p @ xs \<and>
        (\<forall>q \<in> set xs. src_ok (sourceSet q) (sourceWay q) \<and> drop_bit LOG2_BLOCK_SIZE (lineAddr q) \<in> A \<and>
           \<not> l1i_ongoing_request t (drop_bit LOG2_BLOCK_SIZE (lineAddr q))))"

lemma pf_ext_refl: "wf_ent (pf_ent p) \<Longrightarrow> pf_ext t A p p"
  by (simp add: pf_ext_def)

lemma pf_ext_trans:
  assumes "pf_ext t A p p'" "pf_ext t A p' p''"
  shows "pf_ext t A p p''"
proof -
  obtain xs ys where "pf_addresses p' = pf_addresses p @ map (\<lambda>q. (lineAddr q, 0)) xs" "pf_pfmq p' = pf_pfmq p @ xs"
    "pf_addresses p'' = pf_addresses p' @ map (\<lambda>q. (lineAddr q, 0)) ys" "pf_pfmq p'' = pf_pfmq p' @ ys"
    "\<forall>q \<in> set xs \<union> set ys. src_ok (sourceSet q) (sourceWay q) \<and> drop_bit LOG2_BLOCK_SIZE (lineAddr q) \<in> A \<and>
           \<not> l1i_ongoing_request t (drop_bit LOG2_BLOCK_SIZE (lineAddr q))"
    using assms unfolding pf_ext_def by blast
  then show ?thesis
    using assms ent_weaker_trans unfolding pf_ext_def by (intro conjI exI [of _ "xs @ ys"]) auto
qed

lemma pf_ext_push:
  assumes "wf_ent (pf_ent p)" "src_ok ss sw" "drop_bit LOG2_BLOCK_SIZE a \<in> A"
    "\<not> l1i_ongoing_request t (drop_bit LOG2_BLOCK_SIZE a)"
  shows "pf_ext t A p (eip_push a ss sw p)"
  using assms unfolding pf_ext_def eip_push_def add_pfmq_def by (intro conjI exI) auto

lemma pf_ext_mono: "pf_ext t A p p' \<Longrightarrow> A \<subseteq> B \<Longrightarrow> pf_ext t B p p'"
  unfolding pf_ext_def by blast

lemma pf_ext_wf: "pf_ext t A p p' \<Longrightarrow> wf_ent (pf_ent p')" "pf_ext t A p p' \<Longrightarrow> ent_weaker (pf_ent p) (pf_ent p')"
  by (simp_all add: pf_ext_def)

lemma eip_push_sel [simp]: "pf_ent (eip_push a ss sw p) = pf_ent p"
  by (simp add: eip_push_def)

lemma line_plus_bb:
  assumes "i < 2 ^ 26"
  shows "drop_bit 6 (addr + ucast (of_nat i * push_bit 6 1 :: u32)) = line_plus (drop_bit 6 addr) i"
proof -
  have "unat (of_nat i * push_bit 6 1 :: u32) = i * 64"
    using assms by (simp add: push_bit_eq_mult unat_word_ariths unat_of_nat)
  moreover have "unat (of_nat (i * 64) :: u64) = i * 64"
    using assms by (subst unat_of_nat) simp
  ultimately have "ucast (of_nat i * push_bit 6 1 :: u32) = (of_nat (i * 64) :: u64)"
    by (simp only: word_unat_eq_iff unat_ucast_u32_u64)
  also have "\<dots> = push_bit 6 (of_nat i)" by (simp add: push_bit_eq_mult)
  finally show ?thesis by (simp add: drop_bit_6_add line_plus_def)
qed

lemma eip_bb_step_ext:
  assumes "wf_ent (pf_ent p)" "i < 2 ^ 26" "line_plus (drop_bit LOG2_BLOCK_SIZE addr) i \<in> A"
  shows "pf_ext t A p (eip_bb_step t addr i p)"
  using assms line_plus_bb [of i addr] pf_ext_refl
  by (auto simp: eip_bb_step_def Let_def LOG2_BLOCK_SIZE_def intro!: pf_ext_push)

lemma eip_bb_fold_ext:
  assumes "wf_ent (pf_ent p)" "\<forall>i \<in> set is. i < 2 ^ 26 \<and> line_plus (drop_bit LOG2_BLOCK_SIZE addr) i \<in> A"
  shows "pf_ext t A p (fold (eip_bb_step t addr) is p)"
  using assms
proof (induction "is" arbitrary: p)
  case Nil
  then show ?case by (simp add: pf_ext_refl)
next
  case (Cons i "is")
  have "pf_ext t A p (eip_bb_step t addr i p)" using Cons.prems by (intro eip_bb_step_ext) auto
  moreover from this have "pf_ext t A (eip_bb_step t addr i p) (fold (eip_bb_step t addr) is (eip_bb_step t addr i p))"
    using Cons.prems by (intro Cons.IH) (auto dest: pf_ext_wf)
  ultimately show ?case by (auto intro: pf_ext_trans)
qed


lemma bb_size_small: "bb \<le> L1I_MERGE_BBSIZE_MAX_VALUE \<Longrightarrow> unat bb < 64"
  by (simp add: L1I_MERGE_BBSIZE_MAX_VALUE_def word_le_nat_alt)

lemma eip_bb_loop_ext:
  assumes "wf_ent (pf_ent p)" "bb \<le> L1I_MERGE_BBSIZE_MAX_VALUE"
    "\<And>i. 1 \<le> i \<Longrightarrow> i \<le> unat bb \<Longrightarrow> line_plus (drop_bit LOG2_BLOCK_SIZE addr) i \<in> A"
  shows "pf_ext t A p (eip_bb_loop t addr bb p)"
  unfolding eip_bb_loop_def using assms bb_size_small [OF assms(2)] by (intro eip_bb_fold_ext) auto

lemma eip_dest_step_ext:
  assumes wf: "wf_ent (pf_ent p)" and s: "s < L1I_ET_SETS" and w: "w < L1I_ET_WAYS" and A: "line_plus d i \<in> A"
  shows "\<exists>p'. eip_dest_step t d s w i p = Some p' \<and> pf_ext t A p p'"
proof -
  define p1 where "p1 = (if l1i_different_timing_entry_src t (d + of_nat i) (of_nat s) (of_nat w)
      then p\<lparr>pf_ent := l1i_update_confidence_entangled_table (pf_ent p) s w (d + of_nat i) False\<rparr> else p)"
  have p1: "pf_ext t A p p1"
    using l1i_update_confidence_spec [OF wf s] pf_ext_refl [OF wf] by (simp add: p1_def pf_ext_def)
  have "unat (of_nat s :: u32) = s" "unat (of_nat w :: u32) = w"
    using s w by (simp_all add: unat_of_nat L1I_ET_SETS_def L1I_ET_WAYS_def)
  then have src: "src_ok (of_nat s) (if i = 0 then of_nat w else of_nat L1I_ET_WAYS)"
    using s by (simp add: src_ok_def)
  have line: "drop_bit LOG2_BLOCK_SIZE (push_bit LOG2_BLOCK_SIZE (d + of_nat i)) = line_plus d i"
    by (simp add: drop_push_6 line_plus_def)
  have "pf_ext t A p1 (eip_push (push_bit LOG2_BLOCK_SIZE (d + of_nat i)) (of_nat s)
      (if i = 0 then of_nat w else of_nat L1I_ET_WAYS) p1)" if "\<not> l1i_ongoing_request t (d + of_nat i)"
    using that A src pf_ext_wf(1) [OF p1] ongoing_mask
    by (intro pf_ext_push) (simp_all only: line, simp_all add: line_plus_def)
  then show ?thesis
    using w p1 pf_ext_trans [OF p1] unfolding eip_dest_step_def Let_def p1_def [symmetric] by simp
qed

lemma eip_dest_loop_ext:
  assumes "wf_ent (pf_ent p)" "s < L1I_ET_SETS" "w < L1I_ET_WAYS" "\<forall>i \<in> set is. line_plus d i \<in> A"
  shows "\<exists>p'. eip_dest_loop t d s w is p = Some p' \<and> pf_ext t A p p'"
  using assms
proof (induction "is" arbitrary: p)
  case Nil
  then show ?case by (simp add: pf_ext_refl)
next
  case (Cons i "is")
  obtain p1 where p1: "eip_dest_step t d s w i p = Some p1" "pf_ext t A p p1"
    using eip_dest_step_ext [OF Cons.prems(1-3), of d i A t] Cons.prems(4) by auto
  obtain p2 where "eip_dest_loop t d s w is p1 = Some p2" "pf_ext t A p1 p2"
    using Cons.IH [OF pf_ext_wf(1) [OF p1(2)]] Cons.prems by auto
  then show ?case using p1 pf_ext_trans [OF p1(2)] by simp
qed

text \<open>The lines of the destinations of a source, each with the size of its basic block.\<close>

definition dest_lines :: "l1i_entangled \<Rightarrow> u64 \<Rightarrow> u64 set" where
  "dest_lines t l = {line_plus d i | d i. d \<in> table_dests t l \<and> d \<noteq> l \<and>
     i \<le> unat (l1i_get_bbsize_entangled_table t d)}"

definition src_entry :: "l1i_entangled \<Rightarrow> u64 \<Rightarrow> l1i_entangled_entry" where
  "src_entry t l = l1i_entangled_table t ! et_set l ! l1i_get_way_entangled_table t l"

lemma get_entangled_addr_weaker:
  assumes weak: "ent_weaker t0 t" and wf: "wf_ent t0" and k: "k < 6"
    and get: "l1i_get_entangled_addr_entangled_table t l k = (d, s, w)" and d: "d \<noteq> 0"
  shows "s = et_set l" "w < L1I_ET_WAYS" "l1i_get_way_entangled_table t0 l < L1I_ET_WAYS"
    "1 \<le> e_conf (src_entry t0 l) ! k" "d = dest_of l (src_entry t0 l) k"
proof -
  have way: "l1i_get_way_entangled_table t l = l1i_get_way_entangled_table t0 l"
    by (rule ent_weaker_get_way [OF weak wf])
  show s: "s = et_set l" and w: "w < L1I_ET_WAYS" and w0: "l1i_get_way_entangled_table t0 l < L1I_ET_WAYS"
    using get d way by (auto simp: l1i_get_entangled_addr_entangled_table_def Let_def split: if_splits)
  have weak_e: "entry_weaker (src_entry t0 l) (l1i_entangled_table t ! et_set l ! l1i_get_way_entangled_table t0 l)"
    unfolding src_entry_def using wf w0 wf_entD(2) [OF wf et_set_less]
    by (intro ent_weaker_entry [OF weak]) (simp_all add: wf_ent_def)
  have "length (e_conf (src_entry t0 l)) = 6"
    unfolding src_entry_def by (rule ent_entry_okD(3) [OF wf_entD(4) [OF wf et_set_less w0]])
  then show "1 \<le> e_conf (src_entry t0 l) ! k" "d = dest_of l (src_entry t0 l) k"
    using get d way weak_e k
    by (auto simp: l1i_get_entangled_addr_entangled_table_def Let_def dest_of_def entry_weaker_def split: if_splits)
qed

lemma table_dests_src_entry:
  "l1i_get_way_entangled_table t l < L1I_ET_WAYS \<Longrightarrow> k < 6 \<Longrightarrow> 1 \<le> e_conf (src_entry t l) ! k \<Longrightarrow>
   dest_of l (src_entry t l) k \<in> table_dests t l"
  by (simp add: table_dests_def dests_def src_entry_def Let_def)


lemma eip_ent_loop_ext:
  assumes wf: "wf_ent t0" and l: "is_line_addr l" and A: "dest_lines t0 l \<subseteq> A"
    and "k \<le> 6" "wf_ent (pf_ent p)" "ent_weaker t0 (pf_ent p)" "f \<le> 6"
    and "l1i_get_way_entangled_table t0 l < L1I_ET_WAYS \<Longrightarrow> e_format (src_entry t0 l) \<le> f"
    and "n \<le> card {j. j < k \<and> l1i_get_way_entangled_table t0 l < L1I_ET_WAYS \<and> 1 \<le> e_conf (src_entry t0 l) ! j}"
  shows "\<exists>f' n' bb' p'. eip_ent_loop t l [k..<6] f n bb p = Some (f', n', bb', p') \<and> pf_ext t A p p' \<and>
    n' \<le> f' \<and> f' \<le> 6"
  using assms(4-)
proof (induction "6 - k" arbitrary: k f n bb p)
  case 0
  let ?w = "l1i_get_way_entangled_table t0 l"
  have "n \<le> f"
  proof (cases "?w < L1I_ET_WAYS")
    case True
    have "ent_entry_ok (src_entry t0 l)"
      unfolding src_entry_def by (rule wf_entD(4) [OF wf et_set_less True])
    then show ?thesis
      using 0 True num_conf_card [of "e_conf (src_entry t0 l)" 6] by (fastforce simp: ent_entry_ok_def)
  qed (use 0 in simp)
  then show ?case using 0 by (simp add: pf_ext_refl)
next
  case (Suc m)
  let ?w = "l1i_get_way_entangled_table t0 l" and ?e = "src_entry t0 l"
  let ?V = "\<lambda>k. {j. j < k \<and> ?w < L1I_ET_WAYS \<and> 1 \<le> e_conf ?e ! j}"
  have k: "k < 6" "[k..<6] = k # [Suc k..<6]" using Suc.hyps(2) by (simp_all add: upt_rec)
  obtain d s w where get: "l1i_get_entangled_addr_entangled_table (pf_ent p) l k = (d, s, w)"
    by (metis prod_cases3)
  show ?case
  proof (cases "d \<noteq> 0 \<and> d \<noteq> l")
    case False
    have "?V k \<subseteq> ?V (Suc k)" by auto
    then have "card (?V k) \<le> card (?V (Suc k))" by (rule card_mono [rotated]) simp
    then have "n \<le> card (?V (Suc k))" using Suc.prems(6) by (rule order_trans [rotated])
    moreover have "eip_ent_loop t l [k..<6] f n bb p = eip_ent_loop t l [Suc k..<6] f n bb p"
      using False get unfolding k(2) by auto
    moreover have "m = 6 - Suc k" "Suc k \<le> 6" using Suc.hyps(2) k(1) by simp_all
    ultimately show ?thesis
      using Suc.hyps(1) [of "Suc k" p f n bb] Suc.prems(2-5) by simp
  next
    case True
    note g = get_entangled_addr_weaker [OF Suc.prems(3) wf k(1) get conjunct1 [OF True]]
    have e: "is_format (e_format ?e)"
      unfolding src_entry_def by (rule ent_entry_okD(1) [OF wf_entD(4) [OF wf et_set_less g(3)]])
    obtain fk where fk: "l1i_get_format_entangled l d = Some fk" "e_format ?e \<le> fk"
      using get_format_extend [OF e l] by (metis g(5) dest_of_def)
    let ?bb = "l1i_get_bbsize_entangled_table (pf_ent p) d"
    have bb: "?bb = l1i_get_bbsize_entangled_table t0 d" by (rule ent_weaker_get_bbsize [OF Suc.prems(3) wf])
    have "d \<in> table_dests t0 l" using table_dests_src_entry [OF g(3) k(1) g(4)] by (simp add: g(5))
    then have lines: "\<forall>i \<in> set [0..<Suc (unat ?bb)]. line_plus d i \<in> A"
      using True A unfolding dest_lines_def bb by fastforce
    have sw: "s < L1I_ET_SETS" "w < L1I_ET_WAYS" using g(1,2) by simp_all
    obtain p1 where p1: "eip_dest_loop t d s w [0..<Suc (unat ?bb)] p = Some p1" "pf_ext t A p p1"
      using eip_dest_loop_ext [OF Suc.prems(2) sw lines] by blast
    have "?V (Suc k) = insert k (?V k)" using g(3,4) by auto
    then have num: "n + 1 \<le> card (?V (Suc k))" using Suc.prems(6) by simp
    have m: "m = 6 - Suc k" "Suc k \<le> 6" using Suc.hyps(2) k(1) by simp_all
    let ?f = "if fk < f then fk else f"
    have f: "?f \<le> 6" "e_format ?e \<le> ?f" using Suc.prems(4) Suc.prems(5) [OF g(3)] fk(2) by simp_all
    have weak: "ent_weaker t0 (pf_ent p1)" by (rule ent_weaker_trans [OF Suc.prems(3) pf_ext_wf(2) [OF p1(2)]])
    obtain f' n' bb' p' where IH: "eip_ent_loop t l [Suc k..<6] ?f (n + 1) ?bb p1 = Some (f', n', bb', p')"
      "pf_ext t A p1 p'" "n' \<le> f'" "f' \<le> 6"
      using Suc.hyps(1) [OF m pf_ext_wf(1) [OF p1(2)] weak f(1) _ num, of ?bb] f(2) by blast
    have "eip_ent_loop t l [k..<6] f n bb p = Some (f', n', bb', p')"
      using True get fk(1) p1(1) IH(1) unfolding k(2) by (simp del: upt_Suc)
    then show ?thesis using IH pf_ext_trans [OF p1(2)] by blast
  qed
qed


subsection \<open>The invariant of the prefetcher\<close>

definition hist_tags :: "l1i_hist \<Rightarrow> u64 set" where
  "hist_tags h = h_tag ` set (l1i_hist_table h)"

text \<open>
  The current basic block, or the block it was merged with, has an entry in the history,
  unless the registers say that there is no current block.
\<close>

definition block_present :: "l1i_hist \<Rightarrow> u64 \<Rightarrow> u32 \<Rightarrow> bool" where
  "block_present h last_bb merge_diff \<longleftrightarrow> (last_bb - ucast merge_diff) AND L1I_HIST_TAG_MASK \<in> hist_tags h"

definition eip_inv :: "eip \<Rightarrow> bool" where
  "eip_inv s \<longleftrightarrow> wf_hist (eip_hist s) \<and> wf_timing (eip_timing s) \<and> timing_src_ok (eip_timing s) \<and>
     wf_ent (eip_ent s) \<and> (\<forall>q \<in> set (pfmq s). src_ok (sourceSet q) (sourceWay q)) \<and>
     (l1i_last_basic_block s = 0 \<and> l1i_consecutive_count s = 0 \<or>
      block_present (eip_hist s) (l1i_last_basic_block s) (l1i_basic_block_merge_diff s))"

lemma add_bb_size_spec:
  assumes "wf_hist h" "line AND L1I_HIST_TAG_MASK \<in> hist_tags h"
  shows "\<exists>h'. l1i_add_bb_size_hist_table h line bb = Some h' \<and> wf_hist h' \<and> hist_tags h' = hist_tags h"
proof -
  let ?i = "l1i_find_hist_entry h line"
  have i: "?i < 32"
    using assms l1i_find_hist_entry_less_iff [OF wf_hist_shape] by (simp add: hist_tags_def)
  obtain h' where h': "l1i_add_bb_size_hist_table h line bb = Some h'"
    "l1i_hist_table h' = (l1i_hist_table h)[?i := (l1i_hist_table h ! ?i)\<lparr>h_bb_size := bb AND L1I_MERGE_BBSIZE_MAX_VALUE\<rparr>]"
    using i by (simp add: l1i_add_bb_size_hist_table_def Let_def)
  have "map h_tag (l1i_hist_table h') = map h_tag (l1i_hist_table h)"
    using h'(2) i wf_hist_length [OF assms(1)] by (simp add: map_update list_update_same_conv)
  then have "hist_tags h' = hist_tags h" unfolding hist_tags_def by (metis set_map)
  then show ?thesis using h'(1) wf_hist_add_bb_size [OF assms(1) h'(1)] by blast
qed

lemma eip_close_block_spec:
  assumes "wf_hist (eip_hist s)" "l1i_consecutive_count s \<noteq> 0 \<Longrightarrow>
    block_present (eip_hist s) (l1i_last_basic_block s) (l1i_basic_block_merge_diff s)"
  shows "\<exists>h. eip_close_block s = Some h \<and> wf_hist h \<and> hist_tags h = hist_tags (eip_hist s)"
  using assms add_bb_size_spec [OF assms(1)]
  by (auto simp: eip_close_block_def Let_def block_present_def word_neq_0_conv [symmetric])

lemma find_bb_merge_spec:
  assumes "wf_hist h" "is_line_addr line"
  shows "\<exists>md. l1i_find_bb_merge_hist_table h line = Some md \<and> (md \<noteq> 0 \<longrightarrow> block_present h line md)"
proof -
  let ?P = "\<lambda>e. line > h_tag e \<and> line - h_tag e \<le> ucast (h_bb_size e)"
  have eq: "l1i_find_bb_merge_hist_table h line = Some (case find ?P (take 5 (hist_list h)) of
      None \<Rightarrow> 0 | Some e \<Rightarrow> ucast (line - h_tag e))"
    unfolding l1i_find_bb_merge_eq line_addr_mask [OF assms(2)] by simp
  show ?thesis
  proof (cases "find ?P (take 5 (hist_list h))")
    case (Some e)
    then have e: "e \<in> set (take 5 (hist_list h))" "?P e"
      unfolding find_Some_iff by (metis nth_mem)+
    then have mem: "e \<in> set (l1i_hist_table h)"
      using set_hist_list [OF wf_hist_shape [OF assms(1)]] in_set_takeD by metis
    then have "hist_entry_ok e" using assms(1) by (simp add: wf_hist_def list_all_iff)
    then have tag: "h_tag e AND L1I_HIST_TAG_MASK = h_tag e" by (simp add: hist_entry_ok_def line_addr_mask)
    have "unat (line - h_tag e) \<le> unat (h_bb_size e)" using e(2) by (simp add: word_le_nat_alt)
    then have "unat (line - h_tag e) < 2 ^ 32" using unsigned_less [of "h_bb_size e", where ?'a = nat] by simp
    then have "unat (ucast (ucast (line - h_tag e) :: u32) :: u64) = unat (line - h_tag e)"
      by (simp add: unat_ucast_u64_u32)
    then have "ucast (ucast (line - h_tag e) :: u32) = line - h_tag e" by (simp only: word_unat_eq_iff)
    then have "block_present h line (ucast (line - h_tag e))"
      using mem tag by (simp add: block_present_def hist_tags_def)
    then show ?thesis using eq Some by simp
  qed (use eq in simp)
qed

lemma eip_record_spec:
  assumes h: "wf_hist (eip_hist s)" and t: "wf_ent (eip_ent s)" and line: "is_line_addr line" and f: "f \<le> 6"
    and md: "l1i_basic_block_merge_diff s \<noteq> 0 \<Longrightarrow> block_present (eip_hist s) line (l1i_basic_block_merge_diff s)"
  shows "\<exists>pos h' t'. eip_record curTick s line iid hit f n = Some (pos, s\<lparr>eip_hist := h', eip_ent := t'\<rparr>) \<and>
    wf_hist h' \<and> wf_ent t' \<and> block_present h' line (l1i_basic_block_merge_diff s)"
proof -
  let ?c = "l1i_basic_block_merge_diff s = 0 \<and> (l1i_find_hist_entry (eip_hist s) line = L1I_HIST_TABLE_ENTRIES \<or>
    (\<not> hit \<and> \<not> l1i_ongoing_accessed_request (eip_timing s) line))"
  show ?thesis
  proof (cases ?c)
    case True
    obtain pos h' t' where add: "l1i_add_hist_table curTick (eip_hist s) (eip_ent s) line iid f (of_nat n) = Some (pos, h', t')"
      and wf: "wf_hist h'" "wf_ent t'" and pos: "pos < 32" "h_tag (l1i_hist_table h' ! pos) = line AND L1I_HIST_TAG_MASK"
      using l1i_add_hist_spec [OF h t, of f curTick line iid "of_nat n"] f by auto
    have "l1i_hist_table h' ! pos \<in> set (l1i_hist_table h')" using pos(1) wf(1) by simp
    then have "block_present h' line (l1i_basic_block_merge_diff s)"
      using True pos(2) unfolding block_present_def hist_tags_def by (simp add: image_iff) metis
    moreover have "eip_record curTick s line iid hit f n = Some (pos, s\<lparr>eip_hist := h', eip_ent := t'\<rparr>)"
      unfolding eip_record_def if_P [OF True] add by simp
    ultimately show ?thesis using wf by blast
  next
    case False
    have "block_present (eip_hist s) line (l1i_basic_block_merge_diff s)"
    proof (cases "l1i_basic_block_merge_diff s = 0")
      case md0: True
      then have "l1i_find_hist_entry (eip_hist s) line < 32"
        using False l1i_find_hist_entry_le [of "eip_hist s" line] by (auto simp: le_less)
      then show ?thesis
        using md0 l1i_find_hist_entry_less_iff [OF wf_hist_shape [OF h]] by (simp add: block_present_def hist_tags_def)
    qed (use md in simp)
    moreover have "eip_record curTick s line iid hit f n =
        Some (L1I_HIST_TABLE_ENTRIES, s\<lparr>eip_hist := eip_hist s, eip_ent := eip_ent s\<rparr>)"
      unfolding eip_record_def if_not_P [OF False] by simp
    ultimately show ?thesis using h t by blast
  qed
qed


subsection \<open>An access\<close>

text \<open>The lines an access may propose.\<close>

definition proposable :: "l1i_entangled \<Rightarrow> u64 \<Rightarrow> u64 set" where
  "proposable t l = {line_plus l i | i. 1 \<le> i \<and> i \<le> unat (l1i_get_bbsize_entangled_table t l)} \<union> dest_lines t l"

definition proposals_ok :: "l1i_timing \<Rightarrow> u64 set \<Rightarrow> pfInMSHRQ list \<Rightarrow> bool" where
  "proposals_ok t A xs \<longleftrightarrow> (\<forall>q \<in> set xs. src_ok (sourceSet q) (sourceWay q) \<and>
     drop_bit LOG2_BLOCK_SIZE (lineAddr q) \<in> A - outstanding t)"

lemma ongoing_iff: "timing_shape t \<Longrightarrow> is_line_addr l \<Longrightarrow> l1i_ongoing_request t l \<longleftrightarrow> l \<in> outstanding t"
  by (simp add: l1i_ongoing_request_def find_mshr_less_iff)

text \<open>Both prefetch loops together.\<close>

lemma eip_propose_spec:
  assumes t: "wf_timing t" and e: "wf_ent e" and l: "l = drop_bit LOG2_BLOCK_SIZE addr"
  defines "bb \<equiv> l1i_get_bbsize_entangled_table e l"
  shows "\<exists>f n bb' p xs. eip_ent_loop t l [0..<L1I_MAX_ENTANGLED_PER_LINE] L1I_ENTANGLED_NUM_FORMATS 0 bb
      (eip_bb_loop t addr bb \<lparr>pf_ent = e, pf_addresses = as, pf_pfmq = q\<rparr>) = Some (f, n, bb', p) \<and>
    n \<le> f \<and> f \<le> 6 \<and> wf_ent (pf_ent p) \<and> pf_pfmq p = q @ xs \<and>
    pf_addresses p = as @ map (\<lambda>q. (lineAddr q, 0)) xs \<and> proposals_ok t (proposable e l) xs"
proof -
  let ?p0 = "\<lparr>pf_ent = e, pf_addresses = as, pf_pfmq = q\<rparr>"
  let ?p1 = "eip_bb_loop t addr bb ?p0" and ?A = "proposable e l"
  have line: "is_line_addr l" unfolding l by (rule is_line_addr_shift)
  have bb: "bb \<le> L1I_MERGE_BBSIZE_MAX_VALUE" unfolding bb_def by (rule l1i_get_bbsize_le [OF e])
  have p1: "pf_ext t ?A ?p0 ?p1"
    by (rule eip_bb_loop_ext [OF _ bb]) (use e in \<open>auto simp: proposable_def bb_def l\<close>)
  have weak: "ent_weaker e (pf_ent ?p1)" using pf_ext_wf(2) [OF p1] by simp
  have A: "dest_lines e l \<subseteq> ?A" by (simp add: proposable_def)
  have fmt: "e_format (src_entry e l) \<le> 6" if "l1i_get_way_entangled_table e l < L1I_ET_WAYS"
    using ent_entry_okD(1) [OF wf_entD(4) [OF e et_set_less that]] by (simp add: src_entry_def is_format_def)
  obtain f n bb' p where run: "eip_ent_loop t l [0..<6] 6 0 bb ?p1 = Some (f, n, bb', p)"
    and p: "pf_ext t ?A ?p1 p" "n \<le> f" "f \<le> 6"
    using eip_ent_loop_ext [OF e line A _ pf_ext_wf(1) [OF p1] weak, of 0 6 0 t bb] fmt by auto
  have "pf_ext t ?A ?p0 p" using pf_ext_trans [OF p1 p(1)] .
  then obtain xs where xs: "wf_ent (pf_ent p)" "pf_pfmq p = q @ xs" "pf_addresses p = as @ map (\<lambda>q. (lineAddr q, 0)) xs"
    "\<forall>q \<in> set xs. src_ok (sourceSet q) (sourceWay q) \<and> drop_bit LOG2_BLOCK_SIZE (lineAddr q) \<in> ?A \<and>
        \<not> l1i_ongoing_request t (drop_bit LOG2_BLOCK_SIZE (lineAddr q))"
    unfolding pf_ext_def by auto
  then have "proposals_ok t ?A xs"
    using ongoing_iff [OF wf_timing_shape [OF t] is_line_addr_shift] by (simp add: proposals_ok_def)
  then show ?thesis using run p xs by auto
qed

text \<open>The request for the line itself, if it misses, and the access.\<close>

lemma eip_request_spec:
  assumes t: "wf_timing t" "timing_src_ok t" and l: "is_line_addr l"
    and hit: "hit \<longleftrightarrow> l \<in> resident t"
    and room: "hit \<or> l \<in> outstanding t \<or> card (outstanding t) < L1I_TIMING_MSHR_SIZE"
  shows "\<exists>t'. (if \<not> hit \<and> \<not> l1i_ongoing_request t l
      then l1i_add_timing_entry curTick t l 0 (of_nat L1I_ET_WAYS) else Some t) = Some t' \<and>
    wf_timing t' \<and> timing_src_ok t' \<and> resident t' = resident t \<and>
    outstanding t' = (if hit then outstanding t else insert l (outstanding t))"
proof (cases "\<not> hit \<and> l \<notin> outstanding t")
  case True
  then obtain t' where t': "l1i_add_timing_entry curTick t l 0 (of_nat L1I_ET_WAYS) = Some t'"
    using add_timing_entry_spec [OF t(1) l, of curTick 0 "of_nat L1I_ET_WAYS"] room by (auto split: option.splits)
  then show ?thesis
    using add_timing_entry_spec [OF t(1) l, of curTick 0 "of_nat L1I_ET_WAYS"] True hit
      timing_src_ok_add [OF t(2) src_ok_no_source t'] ongoing_iff [OF wf_timing_shape [OF t(1)] l] by simp
next
  case False
  then show ?thesis using t ongoing_iff [OF wf_timing_shape [OF t(1)] l] by (auto simp: insert_absorb)
qed


lemma eip_new_block_spec:
  assumes h: "wf_hist (eip_hist s)" and t: "wf_ent (eip_ent s)" and l: "is_line_addr l" and f: "f \<le> 6"
    and b: "l1i_consecutive_count s \<noteq> 0 \<Longrightarrow>
      block_present (eip_hist s) (l1i_last_basic_block s) (l1i_basic_block_merge_diff s)"
  shows "\<exists>pos s'. eip_new_block curTick s l iid hit f n = Some (pos, s') \<and>
    eip_timing s' = eip_timing s \<and> pfmq s' = pfmq s \<and> wf_hist (eip_hist s') \<and> wf_ent (eip_ent s') \<and>
    block_present (eip_hist s') (l1i_last_basic_block s') (l1i_basic_block_merge_diff s')"
proof -
  obtain h1 where h1: "eip_close_block s = Some h1" "wf_hist h1" using eip_close_block_spec [OF h b] by blast
  obtain md where md: "l1i_find_bb_merge_hist_table h1 l = Some md" "md \<noteq> 0 \<longrightarrow> block_present h1 l md"
    using find_bb_merge_spec [OF h1(2) l] by blast
  let ?s = "s\<lparr>eip_hist := h1, l1i_consecutive_count := 0, l1i_last_basic_block := l, l1i_basic_block_merge_diff := md\<rparr>"
  obtain pos h' t' where "eip_record curTick ?s l iid hit f n = Some (pos, ?s\<lparr>eip_hist := h', eip_ent := t'\<rparr>)"
    "wf_hist h'" "wf_ent t'" "block_present h' l md"
    using eip_record_spec [of ?s l f curTick iid hit n] h1(2) t l f md(2) by auto
  then show ?thesis using h1(1) md(1) by (simp add: eip_new_block_def)
qed

lemma calculatePrefetch_spec:
  assumes inv: "eip_inv s" and l: "l = drop_bit LOG2_BLOCK_SIZE addr"
    and hit: "hit \<longleftrightarrow> l \<in> resident (eip_timing s)"
    and room: "hit \<or> l \<in> outstanding (eip_timing s) \<or> card (outstanding (eip_timing s)) < L1I_TIMING_MSHR_SIZE"
    and l1: "l \<noteq> 1"
  shows "\<exists>s' xs. calculatePrefetch curTick s iid addr hit av = Some (s', av @ map (\<lambda>q. (lineAddr q, 0)) xs) \<and>
    eip_inv s' \<and> pfmq s' = pfmq s @ xs \<and> proposals_ok (eip_timing s) (proposable (eip_ent s) l) xs \<and>
    resident (eip_timing s') = resident (eip_timing s) \<and>
    outstanding (eip_timing s') =
      (if hit \<or> l1i_last_basic_block s + ucast (l1i_consecutive_count s) = l
       then outstanding (eip_timing s) else insert l (outstanding (eip_timing s)))"
proof -
  have line: "is_line_addr l" unfolding l by (rule is_line_addr_shift)
  have wf: "wf_hist (eip_hist s)" "wf_timing (eip_timing s)" "timing_src_ok (eip_timing s)" "wf_ent (eip_ent s)"
    "\<forall>q \<in> set (pfmq s). src_ok (sourceSet q) (sourceWay q)" using inv by (simp_all add: eip_inv_def)
  note sh = wf_timing_shape [OF wf(2)]
  have way: "l1i_find_timing_cache_entry (eip_timing s) l < MAX_NUM_WAY \<longleftrightarrow> hit"
    "l1i_find_timing_cache_entry (eip_timing s) l = MAX_NUM_WAY \<longleftrightarrow> \<not> hit"
    using find_cache_less_iff [OF sh line] hit find_cache_le [OF sh, of l] by auto
  let ?next = "l1i_last_basic_block s + ucast (l1i_consecutive_count s)"
  show ?thesis
  proof (cases "?next = l")
    case True
    have "calculatePrefetch curTick s iid addr hit av = Some (s, av @ map (\<lambda>q. (lineAddr q, 0)) [])"
      unfolding calculatePrefetch_def l [symmetric] Let_def using way True by simp
    then show ?thesis using True inv by (intro exI [of _ s] exI [of _ "[]"]) (simp add: proposals_ok_def)
  next
    case False
    define s1 where "s1 = (if ?next + 1 = l then s\<lparr>l1i_consecutive_count := l1i_consecutive_count s + 1\<rparr> else s)"
    have s1: "eip_timing s1 = eip_timing s" "eip_ent s1 = eip_ent s" "pfmq s1 = pfmq s" "eip_hist s1 = eip_hist s"
      by (simp_all add: s1_def)
    obtain f n bb p xs where pf: "eip_ent_loop (eip_timing s) l [0..<L1I_MAX_ENTANGLED_PER_LINE] L1I_ENTANGLED_NUM_FORMATS 0
        (l1i_get_bbsize_entangled_table (eip_ent s) l)
        (eip_bb_loop (eip_timing s) addr (l1i_get_bbsize_entangled_table (eip_ent s) l)
          \<lparr>pf_ent = eip_ent s, pf_addresses = av, pf_pfmq = pfmq s\<rparr>) = Some (f, n, bb, p)"
      and p: "n \<le> f" "f \<le> 6" "wf_ent (pf_ent p)" "pf_pfmq p = pfmq s @ xs" "pf_addresses p = av @ map (\<lambda>q. (lineAddr q, 0)) xs"
        "proposals_ok (eip_timing s) (proposable (eip_ent s) l) xs"
      using eip_propose_spec [OF wf(2,4) l, of av "pfmq s"] by blast
    define f1 where "f1 = (if n = 0 \<and> bb = 0 then 0 else f)"
    define s2 where "s2 = s1\<lparr>eip_ent := pf_ent p, pfmq := pf_pfmq p\<rparr>"
    have block: "l1i_last_basic_block s = 0 \<and> l1i_consecutive_count s = 0 \<or>
        block_present (eip_hist s) (l1i_last_basic_block s) (l1i_basic_block_merge_diff s)"
      using inv by (simp add: eip_inv_def)
    have "\<exists>pos s3. (if ?next + 1 = l then Some (L1I_HIST_TABLE_ENTRIES, s2)
        else eip_new_block curTick s2 l iid hit f1 n) = Some (pos, s3) \<and>
        eip_timing s3 = eip_timing s \<and> pfmq s3 = pfmq s @ xs \<and> wf_hist (eip_hist s3) \<and> wf_ent (eip_ent s3) \<and>
        block_present (eip_hist s3) (l1i_last_basic_block s3) (l1i_basic_block_merge_diff s3)"
    proof (cases "?next + 1 = l")
      case True
      then have "block_present (eip_hist s) (l1i_last_basic_block s) (l1i_basic_block_merge_diff s)"
        using block l1 by auto
      then show ?thesis using True wf p(3,4) by (simp add: s2_def s1_def)
    next
      case False
      have "l1i_consecutive_count s2 \<noteq> 0 \<Longrightarrow>
          block_present (eip_hist s2) (l1i_last_basic_block s2) (l1i_basic_block_merge_diff s2)"
        using block False by (auto simp: s2_def s1_def)
      moreover have "wf_hist (eip_hist s2)" "wf_ent (eip_ent s2)" "f1 \<le> 6" "eip_timing s2 = eip_timing s"
        "pfmq s2 = pfmq s @ xs"
        using wf(1) p(2,3,4) by (simp_all add: s2_def s1 f1_def)
      ultimately show ?thesis
        using eip_new_block_spec [of s2 l f1 curTick iid hit n] line False by auto
    qed
    then obtain pos s3 where rec: "(if ?next + 1 = l then Some (L1I_HIST_TABLE_ENTRIES, s2)
        else eip_new_block curTick s2 l iid hit f1 n) = Some (pos, s3)"
      and s3: "eip_timing s3 = eip_timing s" "pfmq s3 = pfmq s @ xs" "wf_hist (eip_hist s3)" "wf_ent (eip_ent s3)"
        "block_present (eip_hist s3) (l1i_last_basic_block s3) (l1i_basic_block_merge_diff s3)" by blast
    obtain t where t: "(if \<not> hit \<and> \<not> l1i_ongoing_request (eip_timing s3) l
        then l1i_add_timing_entry curTick (eip_timing s3) l 0 (of_nat L1I_ET_WAYS) else Some (eip_timing s3)) = Some t"
      "wf_timing t" "timing_src_ok t" "resident t = resident (eip_timing s)"
      "outstanding t = (if hit then outstanding (eip_timing s) else insert l (outstanding (eip_timing s)))"
      using eip_request_spec [OF wf(2,3) line hit room, of curTick] unfolding s3(1) by blast
    let ?s = "s3\<lparr>eip_timing := l1i_access_timing_entry t l pos\<rparr>"
    have run: "calculatePrefetch curTick s iid addr hit av = Some (?s, pf_addresses p)"
    proof -
      have "c_assert (\<not> hit \<longrightarrow> l1i_find_timing_cache_entry (eip_timing s) l = MAX_NUM_WAY) = Some ()"
        "c_assert (hit \<longrightarrow> l1i_find_timing_cache_entry (eip_timing s) l < MAX_NUM_WAY) = Some ()"
        "c_assert (f \<ge> n) = Some ()"
        using way p(1) by simp_all
      then show ?thesis
        unfolding calculatePrefetch_def l [symmetric] Let_def s1_def [symmetric] s1 pf
        by (simp only: Option.bind.simps case_prod_conv if_not_P [OF False] f1_def [symmetric]
            s2_def [symmetric] rec t(1))
    qed
    have "eip_inv ?s"
      using s3 wf(5) p(6) access_timing_entry_spec(1) [OF t(2)] timing_src_ok_access [OF t(3) wf_timing_shape [OF t(2)]]
      by (auto simp: eip_inv_def proposals_ok_def)
    then show ?thesis
      using run p(5,6) s3(2) False access_timing_entry_spec(2,3) [OF t(2)] t(4,5) by auto
  qed
qed


subsection \<open>The other handlers\<close>

lemma eip_invI:
  assumes "wf_hist (eip_hist s)" "wf_timing (eip_timing s)" "timing_src_ok (eip_timing s)" "wf_ent (eip_ent s)"
    "\<forall>q \<in> set (pfmq s). src_ok (sourceSet q) (sourceWay q)"
    "l1i_last_basic_block s = 0 \<and> l1i_consecutive_count s = 0 \<or>
      block_present (eip_hist s) (l1i_last_basic_block s) (l1i_basic_block_merge_diff s)"
  shows "eip_inv s"
  using assms by (simp add: eip_inv_def)

lemma eip_invD:
  assumes "eip_inv s"
  shows "wf_hist (eip_hist s)" "wf_timing (eip_timing s)" "timing_src_ok (eip_timing s)" "wf_ent (eip_ent s)"
    "\<forall>q \<in> set (pfmq s). src_ok (sourceSet q) (sourceWay q)"
    "l1i_last_basic_block s = 0 \<and> l1i_consecutive_count s = 0 \<or>
      block_present (eip_hist s) (l1i_last_basic_block s) (l1i_basic_block_merge_diff s)"
  using assms by (simp_all add: eip_inv_def)

lemma hist_tags_eq: "map h_tag (l1i_hist_table h') = map h_tag (l1i_hist_table h) \<Longrightarrow> hist_tags h' = hist_tags h"
  unfolding hist_tags_def by (metis set_map)

lemma eip_inv_squash:
  assumes "eip_inv s" "wf_hist h" "last_bb = 0 \<and> count = 0 \<or> block_present h last_bb 0"
  shows "eip_inv (s\<lparr>eip_hist := h, l1i_last_basic_block := last_bb, l1i_consecutive_count := count,
    l1i_basic_block_merge_diff := 0\<rparr>)"
  using assms eip_invD [OF assms(1)] by (intro eip_invI) simp_all

lemma notifySquash_spec:
  assumes inv: "eip_inv s"
  shows "eip_inv (notifySquash s ip iid)" "eip_timing (notifySquash s ip iid) = eip_timing s"
    "eip_ent (notifySquash s ip iid) = eip_ent s"
proof -
  let ?l = "drop_bit LOG2_BLOCK_SIZE ip"
  let ?h = "l1i_squash_hist_table (eip_hist s) iid ?l"
  let ?i = "hist_prev (l1i_hist_table_head ?h)"
  let ?e = "l1i_hist_table ?h ! ?i"
  let ?h' = "?h\<lparr>l1i_hist_table := (l1i_hist_table ?h)[?i := ?e\<lparr>h_bb_size := 0\<rparr>]\<rparr>"
  have h: "wf_hist ?h" by (rule wf_hist_squash [OF eip_invD(1) [OF inv]])
  have e: "hist_entry_ok ?e" by (rule wf_hist_nth [OF h]) simp
  have h': "wf_hist ?h'" using e by (intro wf_hist_update [OF h]) (simp add: hist_entry_ok_def)
  have "l1i_hist_table ?h' ! ?i \<in> set (l1i_hist_table ?h')" using wf_hist_length [OF h] by (intro nth_mem) simp
  then have "h_tag (l1i_hist_table ?h' ! ?i) \<in> hist_tags ?h'" unfolding hist_tags_def by (rule imageI)
  then have "h_tag ?e \<in> hist_tags ?h'" using wf_hist_length [OF h] by simp
  then have present: "block_present ?h' (h_tag ?e) 0"
    using e by (simp add: block_present_def line_addr_mask hist_entry_ok_def)
  show "eip_inv (notifySquash s ip iid)"
    unfolding notifySquash_def Let_def if_distrib [of "l1i_basic_block_merge_diff_update _"]
    by (split if_split, intro conjI impI) (rule eip_inv_squash [OF inv]; use h h' present in simp)+
  show "eip_timing (notifySquash s ip iid) = eip_timing s" "eip_ent (notifySquash s ip iid) = eip_ent s"
    by (simp_all add: notifySquash_def Let_def)
qed

lemma notifyInvalidate_spec:
  assumes inv: "eip_inv s" and l: "l = drop_bit LOG2_BLOCK_SIZE addr"
  shows "eip_inv (notifyInvalidate s addr)"
    "resident (eip_timing (notifyInvalidate s addr)) = resident (eip_timing s) - {l}"
    "outstanding (eip_timing (notifyInvalidate s addr)) = outstanding (eip_timing s)"
proof -
  let ?t = "eip_timing s" and ?w = "l1i_find_timing_cache_entry (eip_timing s) l"
  note D = eip_invD [OF inv] and sh = wf_timing_shape [OF eip_invD(2) [OF inv]]
  have line: "is_line_addr l" unfolding l by (rule is_line_addr_shift)
  have w: "?w < MAX_NUM_WAY \<longleftrightarrow> l \<in> resident ?t" "?w \<noteq> MAX_NUM_WAY \<longleftrightarrow> l \<in> resident ?t"
    using find_cache_less_iff [OF sh line] find_cache_le [OF sh, of l] by auto
  have "eip_inv (notifyInvalidate s addr) \<and>
    resident (eip_timing (notifyInvalidate s addr)) = resident (eip_timing s) - {l} \<and>
    outstanding (eip_timing (notifyInvalidate s addr)) = outstanding (eip_timing s)"
  proof (cases "l \<in> resident ?t")
    case False
    then have "notifyInvalidate s addr = s"
      unfolding notifyInvalidate_def l [symmetric] Let_def using w by simp
    then show ?thesis using inv False by simp
  next
    case True
    let ?t' = "tc_update ?t (tc_set l) ?w (\<lambda>e. e\<lparr>tc_valid := False\<rparr>)"
    let ?e = "l1i_timing_cache_table ?t ! tc_set l ! ?w"
    note clear = tc_clear_spec [OF D(2) line True]
    have way: "?w < MAX_NUM_WAY" using True w by simp
    have len: "length (l1i_timing_cache_table ?t ! tc_set l) = MAX_NUM_WAY" by (rule shape_way [OF sh tc_set_less])
    have "tc_valid ?e"
      using find_index_sat [of "\<lambda>e. tc_tag e = tc_line_tag l \<and> tc_valid e" "l1i_timing_cache_table ?t ! tc_set l"] way len
      by (simp add: l1i_find_timing_cache_entry_def)
    then have src: "unat (tc_source_way ?e) < L1I_ET_WAYS \<Longrightarrow> unat (tc_source_set ?e) < L1I_ET_SETS"
      using timing_src_ok_cache [OF D(3) sh tc_set_less way] by (simp add: cache_src_ok_def src_ok_def)
    have cell: "l1i_timing_cache_table ?t' ! tc_set l ! ?w = ?e\<lparr>tc_valid := False\<rparr>"
      using tc_update_set [OF sh tc_set_less] way len by simp
    have ok: "timing_src_ok ?t'"
      using sh by (intro timing_src_ok_tc_update [OF D(3)]) (simp_all add: timing_shape_def cache_src_ok_def)
    have run: "notifyInvalidate s addr =
      (if unat (tc_source_way ?e) < L1I_ET_WAYS
       then s\<lparr>eip_timing := ?t', eip_ent := l1i_update_confidence_entangled_table (eip_ent s)
          (unat (tc_source_set ?e)) (unat (tc_source_way ?e)) l (tc_accessed ?e)\<rparr>
       else s\<lparr>eip_timing := ?t'\<rparr>)"
      unfolding notifyInvalidate_def l [symmetric] Let_def cell using w True by simp
    have "eip_inv (notifyInvalidate s addr)"
      unfolding run using D clear(1) ok l1i_update_confidence_spec(1) [OF D(4) src]
      by (auto intro!: eip_invI)
    moreover have "eip_timing (notifyInvalidate s addr) = ?t'" unfolding run by simp
    ultimately show ?thesis using clear(2,3) by simp
  qed
  then show "eip_inv (notifyInvalidate s addr)"
    "resident (eip_timing (notifyInvalidate s addr)) = resident (eip_timing s) - {l}"
    "outstanding (eip_timing (notifyInvalidate s addr)) = outstanding (eip_timing s)" by blast+
qed

lemma prefetch_issued_spec:
  assumes inv: "eip_inv s" and l: "is_line_addr l" and src: "src_ok (ucast ss) (ucast sw)"
    and room: "l \<in> resident (eip_timing s) \<or> l \<in> outstanding (eip_timing s) \<or>
      card (outstanding (eip_timing s)) < L1I_TIMING_MSHR_SIZE"
  shows "\<exists>s'. prefetch_issued_to_pq curTick s l ss sw = Some s' \<and> eip_inv s' \<and>
    resident (eip_timing s') = resident (eip_timing s) \<and>
    outstanding (eip_timing s') = (if l \<in> resident (eip_timing s) then outstanding (eip_timing s)
       else insert l (outstanding (eip_timing s)))"
proof -
  note D = eip_invD [OF inv]
  note add = add_timing_entry_spec [OF D(2) l, of curTick "ucast ss" "ucast sw"]
  obtain t where t: "l1i_add_timing_entry curTick (eip_timing s) l (ucast ss) (ucast sw) = Some t"
    using add room by (auto split: option.splits)
  have "eip_inv (s\<lparr>eip_timing := t\<rparr>)"
    using D add t timing_src_ok_add [OF D(3) src t] by (intro eip_invI) auto
  then show ?thesis using add t by (simp add: prefetch_issued_to_pq_def)
qed


lemma eip_entangle_spec:
  assumes h: "wf_hist h" and l: "is_line_addr l" "l \<noteq> 0" and pos: "pos < 32"
  shows "\<exists>src h'. l1i_get_src_entangled_hist_table h l pos latency = Some (src, h') \<and> src \<noteq> l \<and>
    wf_hist h' \<and> hist_tags h' = hist_tags h \<and> is_line_addr src"
proof -
  have tag: "l AND L1I_HIST_TAG_MASK = l" by (rule line_addr_mask [OF l(1)])
  obtain src h' where run: "l1i_get_src_entangled_hist_table h l pos latency = Some (src, h')"
    and src: "src \<noteq> 0 \<Longrightarrow> \<exists>j. 1 \<le> j \<and> j < 32 \<and> h_tag (l1i_hist_table h ! hist_pos pos j) = src \<and>
        src \<noteq> l AND L1I_HIST_TAG_MASK \<and> latency \<le> elapsed (l1i_hist_table h) pos j"
    using l1i_get_src_timely [OF h pos, of l latency] l(2) tag by metis
  have "is_line_addr src"
  proof (cases "src = 0")
    case False
    then obtain j where "h_tag (l1i_hist_table h ! hist_pos pos j) = src" using src by blast
    then show ?thesis using wf_hist_nth [OF h hist_pos_less, of pos j] by (simp add: hist_entry_ok_def)
  qed simp
  moreover have "src \<noteq> l" using src l(2) tag by (cases "src = 0") auto
  ultimately show ?thesis
    using run wf_hist_get_src(1) [OF h run] hist_tags_eq [OF wf_hist_get_src(2) [OF h run]] by blast
qed

lemma set_ent_src_spec:
  assumes h: "wf_hist h" and src: "is_line_addr src" and pos: "pos < 32"
  defines "h' \<equiv> h\<lparr>l1i_hist_table := (l1i_hist_table h)[pos := (l1i_hist_table h ! pos)\<lparr>h_ent_src := src\<rparr>]\<rparr>"
  shows "wf_hist h'" "hist_tags h' = hist_tags h"
proof -
  show "wf_hist h'" unfolding h'_def
    using wf_hist_nth [OF h pos] src by (intro wf_hist_update [OF h]) (simp add: hist_entry_ok_def)
  show "hist_tags h' = hist_tags h"
    using pos wf_hist_length [OF h] by (intro hist_tags_eq) (simp add: h'_def map_update list_update_same_conv)
qed

lemma notifyFill_spec:
  assumes inv: "eip_inv s" and l: "l = drop_bit LOG2_BLOCK_SIZE addr" "l \<noteq> 0"
    and new: "l \<notin> resident (eip_timing s)"
    and room: "card (set_lines (eip_timing s) (tc_set l)) < MAX_NUM_WAY"
  shows "\<exists>s'. notifyFill curTick s addr = Some s' \<and> eip_inv s' \<and>
    resident (eip_timing s') = insert l (resident (eip_timing s)) \<and>
    outstanding (eip_timing s') = outstanding (eip_timing s) - {l}"
proof -
  note D = eip_invD [OF inv]
  have line: "is_line_addr l" unfolding l(1) by (rule is_line_addr_shift)
  note move = move_timing_entry_spec [OF D(2) line new]
  obtain t where t: "l1i_move_timing_entry (eip_timing s) l = Some t" "wf_timing t"
    "outstanding t = outstanding (eip_timing s) - {l}" "resident t = insert l (resident (eip_timing s))"
    using move room by (auto split: option.splits)
  have ok: "timing_src_ok t" by (rule timing_src_ok_move [OF D(3) wf_timing_shape [OF D(2)] line t(1)])
  let ?s = "s\<lparr>eip_timing := t\<rparr>"
  have keep: "eip_inv (?s\<lparr>eip_hist := h\<rparr>)" if "wf_hist h" "hist_tags h = hist_tags (eip_hist s)" for h
    using that D t(2) ok by (intro eip_invI) (simp_all add: block_present_def)
  obtain lat pos where lat: "l1i_get_latency_timing_mshr curTick (eip_timing s) l L1I_HIST_TABLE_ENTRIES = (lat, pos)"
    by fastforce
  show ?thesis
  proof (cases "lat \<noteq> 0 \<and> pos < 32")
    case False
    then have "notifyFill curTick s addr = Some ?s"
      unfolding notifyFill_def l(1) [symmetric] Let_def lat using t(1) by auto
    moreover have "eip_inv ?s" using keep [of "eip_hist s"] D(1) by simp
    ultimately show ?thesis using t by simp
  next
    case True
    obtain src h where h: "l1i_get_src_entangled_hist_table (eip_hist s) l pos lat = Some (src, h)" "src \<noteq> l"
      "wf_hist h" "hist_tags h = hist_tags (eip_hist s)" "is_line_addr src"
      using eip_entangle_spec [OF D(1) line l(2)] True by blast
    let ?h = "if src = 0 then h
      else h\<lparr>l1i_hist_table := (l1i_hist_table h)[pos := (l1i_hist_table h ! pos)\<lparr>h_ent_src := src\<rparr>]\<rparr>"
    have "notifyFill curTick s addr = Some (?s\<lparr>eip_hist := ?h\<rparr>)"
      unfolding notifyFill_def l(1) [symmetric] Let_def lat using t(1) True h(1,2) by simp
    moreover have "eip_inv (?s\<lparr>eip_hist := ?h\<rparr>)"
      using set_ent_src_spec [OF h(3,5), of pos] True h(3,4) by (intro keep) simp_all
    ultimately show ?thesis using t by simp
  qed
qed

lemma eip_init_inv:
  assumes "timing_shape memory"
  shows "eip_inv (EIP_init curTick memory)"
proof -
  have "timing_src_ok (l1i_init_timing_tables memory)"
    by (simp add: timing_src_ok_def l1i_init_timing_tables_def list_all_iff mshr_src_ok_def cache_src_ok_def)
  then show ?thesis
    using init_timing(1) [OF assms]
    by (intro eip_invI) (simp_all add: EIP_init_def wf_init_hist wf_init_ent)
qed

subsection \<open>Sequences of calls\<close>

text \<open>The calls of the cache and of the queue of the prefetcher, in any order.\<close>

datatype eip_event =
    Access u64 u64 u64 bool
  | Squash u64 u64
  | Fill u64 u64
  | Invalidate u64
  | Issued u64 u64 u64 u64
  | Remove_pfmq u64
  | Clear_pfmq

fun eip_handle :: "eip_event \<Rightarrow> eip \<Rightarrow> eip option" where
  "eip_handle (Access curTick instr_id addr cache_hit) s =
     map_option fst (calculatePrefetch curTick s instr_id addr cache_hit [])"
| "eip_handle (Squash ip instr_id) s = Some (notifySquash s ip instr_id)"
| "eip_handle (Fill curTick addr) s = notifyFill curTick s addr"
| "eip_handle (Invalidate addr) s = Some (notifyInvalidate s addr)"
| "eip_handle (Issued curTick a ss sw) s = prefetch_issued_to_pq curTick s a ss sw"
| "eip_handle (Remove_pfmq a) s = Some (s\<lparr>pfmq := remove_pfmq a (pfmq s)\<rparr>)"
| "eip_handle Clear_pfmq s = Some (s\<lparr>pfmq := clear_pfmq (pfmq s)\<rparr>)"

text \<open>
  What the prefetcher relies on.  The cache reports a hit exactly for a line that it has filled
  and not invalidated since; it has at most \<open>L1I_TIMING_MSHR_SIZE\<close> requests outstanding; it
  fills a line only once, into a set with a free way (it has evicted a line before); it does
  not execute code in the lowest 128 bytes of the address space; the source that is handed back with an issued prefetch
  is one the prefetcher gave out.
\<close>

fun eip_env :: "eip_event \<Rightarrow> eip \<Rightarrow> bool" where
  "eip_env (Access curTick instr_id addr cache_hit) s \<longleftrightarrow>
     (let l = drop_bit LOG2_BLOCK_SIZE addr; t = eip_timing s in
      (cache_hit \<longleftrightarrow> l \<in> resident t) \<and> l \<noteq> 1 \<and>
      (cache_hit \<or> l \<in> outstanding t \<or> card (outstanding t) < L1I_TIMING_MSHR_SIZE))"
| "eip_env (Squash ip instr_id) s \<longleftrightarrow> True"
| "eip_env (Fill curTick addr) s \<longleftrightarrow>
     (let l = drop_bit LOG2_BLOCK_SIZE addr; t = eip_timing s in
      l \<noteq> 0 \<and> l \<notin> resident t \<and> card (set_lines t (tc_set l)) < MAX_NUM_WAY)"
| "eip_env (Invalidate addr) s \<longleftrightarrow> True"
| "eip_env (Issued curTick a ss sw) s \<longleftrightarrow>
     (let t = eip_timing s in
      is_line_addr a \<and> src_ok (ucast ss) (ucast sw) \<and>
      (a \<in> resident t \<or> a \<in> outstanding t \<or> card (outstanding t) < L1I_TIMING_MSHR_SIZE))"
| "eip_env (Remove_pfmq a) s \<longleftrightarrow> True"
| "eip_env Clear_pfmq s \<longleftrightarrow> True"

text \<open>
  The abstract view: the lines being fetched and the lines present, and what each call does to
  them.  A missing access may leave the first set alone, because the prefetcher ignores a
  second access to the line of the access before.
\<close>

definition eip_abs :: "eip \<Rightarrow> u64 set \<times> u64 set" where
  "eip_abs s = (outstanding (eip_timing s), resident (eip_timing s))"

fun mirror_spec :: "eip_event \<Rightarrow> u64 set \<times> u64 set \<Rightarrow> u64 set \<times> u64 set \<Rightarrow> bool" where
  "mirror_spec (Access curTick instr_id addr cache_hit) (out, res) (out', res') \<longleftrightarrow>
     res' = res \<and> (out' = out \<or> \<not> cache_hit \<and> out' = insert (drop_bit LOG2_BLOCK_SIZE addr) out)"
| "mirror_spec (Fill curTick addr) (out, res) (out', res') \<longleftrightarrow>
     out' = out - {drop_bit LOG2_BLOCK_SIZE addr} \<and> res' = insert (drop_bit LOG2_BLOCK_SIZE addr) res"
| "mirror_spec (Invalidate addr) (out, res) (out', res') \<longleftrightarrow>
     out' = out \<and> res' = res - {drop_bit LOG2_BLOCK_SIZE addr}"
| "mirror_spec (Issued curTick a ss sw) (out, res) (out', res') \<longleftrightarrow>
     res' = res \<and> out' = (if a \<in> res then out else insert a out)"
| "mirror_spec (Squash ip instr_id) a b \<longleftrightarrow> b = a"
| "mirror_spec (Remove_pfmq x) a b \<longleftrightarrow> b = a"
| "mirror_spec Clear_pfmq a b \<longleftrightarrow> b = a"

lemma set_remove_pfmq: "set (remove_pfmq a q) \<subseteq> set q"
  by (induction q) auto

lemma eip_step:
  assumes "eip_inv s" "eip_env ev s"
  shows "\<exists>s'. eip_handle ev s = Some s' \<and> eip_inv s' \<and> mirror_spec ev (eip_abs s) (eip_abs s')"
proof (cases ev)
  case (Access curTick iid addr hit)
  then show ?thesis
    using calculatePrefetch_spec [OF assms(1) refl, of hit addr curTick iid "[]"] assms(2)
    by (auto simp: Let_def eip_abs_def)
next
  case (Squash ip iid)
  then show ?thesis using notifySquash_spec [OF assms(1), of ip iid] by (simp add: eip_abs_def)
next
  case (Fill curTick addr)
  then show ?thesis
    using notifyFill_spec [OF assms(1) refl, of addr curTick] assms(2) by (auto simp: Let_def eip_abs_def)
next
  case (Invalidate addr)
  then show ?thesis using notifyInvalidate_spec [OF assms(1) refl, of addr] by (simp add: eip_abs_def)
next
  case (Issued curTick a ss sw)
  then show ?thesis
    using prefetch_issued_spec [OF assms(1), of a ss sw curTick] assms(2) by (auto simp: Let_def eip_abs_def)
next
  case (Remove_pfmq a)
  then show ?thesis
    using eip_invD [OF assms(1)] set_remove_pfmq [of a "pfmq s"] by (auto simp: eip_abs_def intro!: eip_invI)
next
  case Clear_pfmq
  then show ?thesis
    using eip_invD [OF assms(1)] by (auto simp: eip_abs_def clear_pfmq_def intro!: eip_invI)
qed

interpretation eipm: refined_machine eip_handle eip_env eip_inv eip_abs mirror_spec
proof
  show "\<exists>s'. eip_handle ev s = Some s' \<and> eip_inv s'" if "eip_inv s" "eip_env ev s" for s ev
    using eip_step that by blast
  show "mirror_spec ev (eip_abs s) (eip_abs s')"
    if "eip_inv s" "eip_env ev s" "eip_handle ev s = Some s'" for s ev s'
    using eip_step [OF that(1,2)] that(3) by auto
qed

subsection \<open>Properties\<close>


lemma EIP_init_timing [simp]: "eip_timing (EIP_init curTick memory) = l1i_init_timing_tables memory"
  by (simp add: EIP_init_def)

lemma example_event_admissible:
  "admissible eip_handle eip_env [Access 500 1 0x400000 False] (EIP_init 0 zero_memory)"
proof -
  have "drop_bit 6 (0x400000 :: u64) = 0x10000" by code_simp
  then show ?thesis
    using init_timing [OF zero_memory_shape]
    by (auto simp: Let_def L1I_TIMING_MSHR_SIZE_def split: option.splits)
qed




text \<open>
  C4: what an access proposes.  The addresses it appends all have priority 0, they are recorded
  in the same order in the queue, each with a source that is an entry of the entangled
  table or none, and each of them is a line of the current basic block or of the block of a
  recorded destination that is not being fetched already.
\<close>

theorem access_proposals:
  assumes "eip_inv s" and "cache_hit \<longleftrightarrow> drop_bit LOG2_BLOCK_SIZE addr \<in> resident (eip_timing s)"
    and "cache_hit \<or> drop_bit LOG2_BLOCK_SIZE addr \<in> outstanding (eip_timing s) \<or>
      card (outstanding (eip_timing s)) < L1I_TIMING_MSHR_SIZE"
    and "drop_bit LOG2_BLOCK_SIZE addr \<noteq> 1"
  shows "\<exists>s' xs. calculatePrefetch curTick s instr_id addr cache_hit addresses =
      Some (s', addresses @ map (\<lambda>q. (lineAddr q, 0)) xs) \<and> eip_inv s' \<and> pfmq s' = pfmq s @ xs \<and>
    (\<forall>q \<in> set xs. src_ok (sourceSet q) (sourceWay q) \<and>
       drop_bit LOG2_BLOCK_SIZE (lineAddr q) \<in>
         proposable (eip_ent s) (drop_bit LOG2_BLOCK_SIZE addr) - outstanding (eip_timing s))"
  using calculatePrefetch_spec [OF assms(1) refl assms(2-4), of curTick instr_id addresses]
  unfolding proposals_ok_def by blast

theorem access_proposals_witness:
  "\<exists>s' xs. calculatePrefetch 500 (EIP_init 0 zero_memory) 1 0x400000 False [] =
      Some (s', map (\<lambda>q. (lineAddr q, 0)) xs) \<and> eip_inv s' \<and> pfmq s' = xs"
proof -
  have "drop_bit LOG2_BLOCK_SIZE (0x400000 :: u64) = 0x10000" by code_simp
  moreover have "pfmq (EIP_init 0 zero_memory) = []" by (simp add: EIP_init_def)
  ultimately show ?thesis
    using access_proposals [OF eip_init_inv [OF zero_memory_shape, of 0], where cache_hit = False and
        addr = "0x400000" and curTick = 500 and instr_id = 1 and addresses = "[]"]
      init_timing [OF zero_memory_shape]
    by (auto simp: L1I_TIMING_MSHR_SIZE_def)
qed

end
