(* ===== verification/Prefetch_Base.thy ===== *)
theory Prefetch_Base
  imports Gem5_Prelude
begin

section \<open>The base class of the prefetchers\<close>

text \<open>
  What every prefetcher shares (\<open>prefetch/base.hh\<close>, \<open>prefetch/base.cc\<close>): address arithmetic on
  blocks and pages, the description of an access that is handed to the prefetcher, the filter
  that decides which accesses are observed, and the dispatch of the probe notifications.  The
  cache is a parameter: the four questions a prefetcher asks it are the fields of
  \<open>cache_queries\<close>.

  The lemmas characterise the address arithmetic on power-of-two sizes and the accesses that
  reach the prefetcher.
\<close>

subsection \<open>Parameters, packets and the description of an access\<close>

record pf_params =
  blkSize :: u64
  lBlkSize :: nat
  onMiss :: bool
  onRead :: bool
  onWrite :: bool
  onData :: bool
  onInst :: bool
  pageBytes :: u64
  prefetchOnAccess :: bool
  prefetchOnPfHit :: bool
  useVirtualAddresses :: bool

record cache_queries =
  inCache :: "u64 \<Rightarrow> bool \<Rightarrow> bool"
  inMissQueue :: "u64 \<Rightarrow> bool \<Rightarrow> bool"
  hasBeenPrefetched :: "u64 \<Rightarrow> bool \<Rightarrow> bool"
  coalesce :: bool

text \<open>The parts of a packet and of its request that the prefetchers read.\<close>

record packet =
  pkt_addr :: u64
  pkt_vaddr :: "u64 option"
  pkt_paddr :: "u64 option"
  pkt_pc :: "u64 option"
  pkt_contextId :: "nat option"
  pkt_requestorId :: nat
  pkt_size :: u32
  pkt_secure :: bool
  pkt_isRead :: bool
  pkt_isWrite :: bool
  pkt_isInvalidate :: bool
  pkt_isInstFetch :: bool
  pkt_isUncacheable :: bool
  pkt_isCacheMaintenance :: bool
  pkt_isSWPrefetch :: bool
  pkt_isCleanEvict :: bool
  pkt_instr_id :: u64

text \<open>
  The constructors initialise neither \<open>instr_id\<close> nor the source fields: their values are
  arguments.  The copied data bytes are not modelled; no modelled code reads them.
\<close>

record PrefetchInfo =
  address :: u64
  pc :: u64
  requestorId :: nat
  validPC :: bool
  secure :: bool
  pfi_size :: u32
  pfi_write :: bool
  paddress :: u64
  cacheMiss :: bool
  prefetchHit :: bool
  instr_id :: u64
  pfi_sourceSet :: u32
  pfi_sourceWay :: u32

definition PrefetchInfo_of_packet :: "u64 \<times> u32 \<times> u32 \<Rightarrow> packet \<Rightarrow> u64 \<Rightarrow> bool \<Rightarrow> PrefetchInfo option" where
  "PrefetchInfo_of_packet memory pkt addr miss = do {
     pa \<leftarrow> pkt_paddr pkt;
     Some \<lparr>address = addr, pc = (case pkt_pc pkt of Some a \<Rightarrow> a | None \<Rightarrow> 0),
       requestorId = pkt_requestorId pkt, validPC = (pkt_pc pkt \<noteq> None), secure = pkt_secure pkt,
       pfi_size = pkt_size pkt, pfi_write = pkt_isWrite pkt, paddress = pa, cacheMiss = miss,
       prefetchHit = False, instr_id = fst memory, pfi_sourceSet = fst (snd memory),
       pfi_sourceWay = snd (snd memory)\<rparr>
   }"

definition PrefetchInfo_copy :: "u64 \<times> u32 \<times> u32 \<Rightarrow> PrefetchInfo \<Rightarrow> u64 \<Rightarrow> PrefetchInfo" where
  "PrefetchInfo_copy memory pfi addr =
     \<lparr>address = addr, pc = pc pfi, requestorId = requestorId pfi, validPC = validPC pfi,
      secure = secure pfi, pfi_size = pfi_size pfi, pfi_write = pfi_write pfi,
      paddress = paddress pfi, cacheMiss = cacheMiss pfi, prefetchHit = False,
      instr_id = fst memory, pfi_sourceSet = fst (snd memory), pfi_sourceWay = snd (snd memory)\<rparr>"

definition getPC :: "PrefetchInfo \<Rightarrow> u64 option" where
  "getPC pfi = do { c_assert (validPC pfi); Some (pc pfi) }"

definition setPrefetchHit :: "PrefetchInfo \<Rightarrow> PrefetchInfo" where
  "setPrefetchHit pfi = pfi\<lparr>prefetchHit := True\<rparr>"

definition sameAddr :: "PrefetchInfo \<Rightarrow> PrefetchInfo \<Rightarrow> bool" where
  "sameAddr a b \<longleftrightarrow> address a = address b \<and> secure a = secure b"

subsection \<open>Blocks and pages\<close>

definition isPowerOf2 :: "u64 \<Rightarrow> bool" where
  "isPowerOf2 n \<longleftrightarrow> n \<noteq> 0 \<and> n AND (n - 1) = 0"

definition roundDown :: "u64 \<Rightarrow> u64 \<Rightarrow> u64 option" where
  "roundDown val align = do {
     c_assert (isPowerOf2 align);
     let mask = align - 1;
     Some (val AND NOT mask)
   }"

definition samePage :: "pf_params \<Rightarrow> u64 \<Rightarrow> u64 \<Rightarrow> bool option" where
  "samePage p a b = do {
     x \<leftarrow> roundDown a (pageBytes p);
     y \<leftarrow> roundDown b (pageBytes p);
     Some (x = y)
   }"

definition blockAddress :: "pf_params \<Rightarrow> u64 \<Rightarrow> u64" where
  "blockAddress p a = a AND NOT (blkSize p - 1)"

definition blockIndex :: "pf_params \<Rightarrow> u64 \<Rightarrow> u64" where
  "blockIndex p a = drop_bit (lBlkSize p) a"

definition pageAddress :: "pf_params \<Rightarrow> u64 \<Rightarrow> u64 option" where
  "pageAddress p a = roundDown a (pageBytes p)"

definition pageOffset :: "pf_params \<Rightarrow> u64 \<Rightarrow> u64" where
  "pageOffset p a = a AND (pageBytes p - 1)"

text \<open>The block index is a \<open>uint32_t\<close> and is shifted at that width.\<close>

definition pageIthBlockAddress :: "pf_params \<Rightarrow> u64 \<Rightarrow> u32 \<Rightarrow> u64" where
  "pageIthBlockAddress p page i = page + ucast (push_bit (lBlkSize p) i)"

subsection \<open>Which accesses are observed\<close>

definition observeAccess :: "pf_params \<Rightarrow> cache_queries \<Rightarrow> packet \<Rightarrow> bool \<Rightarrow> bool" where
  "observeAccess p c pkt miss =
     (let fetch = pkt_isInstFetch pkt; read = pkt_isRead pkt; inv = pkt_isInvalidate pkt in
      if \<not> miss \<and> prefetchOnPfHit p then hasBeenPrefetched c (pkt_addr pkt) (pkt_secure pkt)
      else if \<not> miss \<and> \<not> prefetchOnAccess p then False
      else if pkt_isUncacheable pkt then False
      else if fetch \<and> \<not> onInst p then False
      else if \<not> fetch \<and> \<not> onData p then False
      else if \<not> fetch \<and> read \<and> \<not> onRead p then False
      else if \<not> fetch \<and> \<not> read \<and> \<not> onWrite p then False
      else if \<not> fetch \<and> \<not> read \<and> inv then False
      else if pkt_isCleanEvict pkt then False
      else if onMiss p then miss
      else True)"

text \<open>
  \<open>probeNotify\<close> counts useful prefetches and, for an observed access, calls the virtual method
  \<open>notify\<close>.  The result says what to do: how the two counters change, and the description to
  notify with, if any.
\<close>

record pf_counters =
  usefulPrefetches :: nat
  pfUseful :: nat
  pfUsefulButMiss :: nat

definition probeNotify ::
    "pf_params \<Rightarrow> cache_queries \<Rightarrow> u64 \<times> u32 \<times> u32 \<Rightarrow> pf_counters \<Rightarrow> packet \<Rightarrow> bool \<Rightarrow> (pf_counters \<times> PrefetchInfo option) option" where
  "probeNotify p c memory s pkt miss =
     (if pkt_isSWPrefetch pkt then Some (s, None)
      else if pkt_isCacheMaintenance pkt then Some (s, None)
      else if pkt_isWrite pkt \<and> coalesce c then Some (s, None)
      else do {
        c_assert (pkt_paddr pkt \<noteq> None);
        let s1 = (if hasBeenPrefetched c (pkt_addr pkt) (pkt_secure pkt)
                  then s\<lparr>usefulPrefetches := usefulPrefetches s + 1, pfUseful := pfUseful s + 1,
                         pfUsefulButMiss := (if miss then pfUsefulButMiss s + 1 else pfUsefulButMiss s)\<rparr>
                  else s);
        if observeAccess p c pkt miss then
          (if useVirtualAddresses p then
             (case pkt_vaddr pkt of
                Some va \<Rightarrow> do { pfi \<leftarrow> PrefetchInfo_of_packet memory pkt va miss; Some (s1, Some pfi) }
              | None \<Rightarrow> Some (s1, None))
           else do {
             pa \<leftarrow> pkt_paddr pkt;
             pfi \<leftarrow> PrefetchInfo_of_packet memory pkt pa miss;
             Some (s1, Some pfi)
           })
        else Some (s1, None)
      })"

text \<open>The dispatch of a probe notification.\<close>

record PrefetchListener =
  isFill :: bool
  listener_miss :: bool
  isSquash :: bool
  isInvalidate :: bool

datatype pf_call = Call_notifyFill packet | Call_notifyInvalidate u64 | Call_notifySquash packet
  | Call_probeNotify packet bool

definition PrefetchListener_notify :: "PrefetchListener \<Rightarrow> packet \<Rightarrow> pf_call option" where
  "PrefetchListener_notify l pkt =
     (if isFill l then Some (Call_notifyFill pkt)
      else if isInvalidate l then map_option Call_notifyInvalidate (pkt_vaddr pkt)
      else if isSquash l then Some (Call_notifySquash pkt)
      else Some (Call_probeNotify pkt (listener_miss l)))"

text \<open>The listeners that a prefetcher without configured probes registers with its cache.\<close>

definition regProbeListeners :: "(string \<times> PrefetchListener) list \<Rightarrow> (string \<times> PrefetchListener) list" where
  "regProbeListeners listeners =
     (if listeners = [] then
        [(''Miss'', \<lparr>isFill = False, listener_miss = True, isSquash = False, isInvalidate = False\<rparr>),
         (''Fill'', \<lparr>isFill = True, listener_miss = False, isSquash = False, isInvalidate = False\<rparr>),
         (''Hit'', \<lparr>isFill = False, listener_miss = False, isSquash = False, isInvalidate = False\<rparr>),
         (''Squash'', \<lparr>isFill = False, listener_miss = False, isSquash = True, isInvalidate = False\<rparr>),
         (''Invalidate'', \<lparr>isFill = False, listener_miss = False, isSquash = False, isInvalidate = True\<rparr>)]
      else listeners)"

subsection \<open>Rounding down to a power of two\<close>

lemma isPowerOf2_exp: "n < 64 \<Longrightarrow> isPowerOf2 (2 ^ n)"
proof -
  assume n: "n < 64"
  have "(2 ^ n :: u64) AND mask n = 0"
    by (rule bit_word_eqI) (auto simp: bit_simps)
  moreover have "(2 ^ n :: u64) \<noteq> 0" using n by simp
  ultimately show ?thesis by (simp add: isPowerOf2_def mask_eq_exp_minus_1 [symmetric])
qed

lemma and_not_mask: "(x :: u64) AND NOT (2 ^ n - 1) = push_bit n (drop_bit n x)"
  unfolding mask_eq_exp_minus_1 [symmetric] by (rule bit_word_eqI) (auto simp: bit_simps)

lemma push_drop_eq_iff:
  fixes a b :: u64
  shows "push_bit n (drop_bit n a) = push_bit n (drop_bit n b) \<longleftrightarrow> drop_bit n a = drop_bit n b"
proof
  assume "push_bit n (drop_bit n a) = push_bit n (drop_bit n b)"
  then have "drop_bit n (push_bit n (drop_bit n a) OR take_bit n 0) = drop_bit n (push_bit n (drop_bit n b) OR take_bit n 0)"
    by simp
  then show "drop_bit n a = drop_bit n b" by (simp only: drop_bit_combine)
qed simp

lemma roundDown_exp: "n < 64 \<Longrightarrow> roundDown x (2 ^ n) = Some (push_bit n (drop_bit n x))"
  by (simp add: roundDown_def Let_def isPowerOf2_exp and_not_mask)

lemma samePage_exp:
  "pageBytes p = 2 ^ n \<Longrightarrow> n < 64 \<Longrightarrow> samePage p a b = Some (drop_bit n a = drop_bit n b)"
  by (simp add: samePage_def roundDown_exp push_drop_eq_iff)

lemma blockAddress_exp: "blkSize p = 2 ^ n \<Longrightarrow> blockAddress p a = push_bit n (drop_bit n a)"
  by (simp add: blockAddress_def and_not_mask)

end
