(* ===== verification/Queued.thy ===== *)
theory Queued
  imports Prefetch_Base Safe_Machine "HOL-Library.Multiset"
begin

section \<open>The prefetch queue\<close>

text \<open>
  The queue between a prefetcher and its cache (\<open>prefetch/queued.hh\<close>, \<open>prefetch/queued.cc\<close>):
  candidates are filtered, translated if they leave the page, and kept in a bounded queue with
  priorities until the cache asks for one.  The prefetcher proper (its \<open>calculatePrefetch\<close> and the
  hooks of EIP), the cache and the TLB are parameters.  A \<open>std::list\<close> is a list and an iterator is
  an index; a pointer to a deferred packet in the translation queue is its index there.

  The lemmas give the bound on the queue, its order for candidates of equal priority, the
  absence of duplicates, and the behaviour of the throttle.
\<close>

subsection \<open>Data\<close>

record queued_params =
  q_base :: pf_params
  queueSize :: nat
  latency :: u64
  queueSquash :: bool
  queueFilter :: bool
  cacheSnoop :: bool
  tagPrefetch :: bool
  throttleControlPct :: nat
  clockPeriod :: u64
  has_tlb :: bool

text \<open>The memory packet of a prefetch, and the request for a translation.\<close>

record pf_packet =
  pp_paddr :: u64
  pp_vaddr :: "u64 option"
  pp_size :: u64
  pp_secure :: bool
  pp_pc :: "u64 option"
  pp_sourceSet :: u32
  pp_sourceWay :: u32
  pp_instr_id :: u64

record translation_request =
  tr_vaddr :: u64
  tr_paddr :: u64
  tr_pc :: u64
  tr_contextId :: nat

record DeferredPacket =
  pfInfo :: PrefetchInfo
  dp_tick :: u64
  dp_pkt :: "pf_packet option"
  priority :: int
  translationRequest :: "translation_request option"
  ongoingTranslation :: bool

record queued =
  pfq :: "DeferredPacket list"
  pfqMissingTranslation :: "DeferredPacket list"
  issuedPrefetches :: nat
  pfIdentified :: nat
  pfBufferHit :: nat
  pfInCache :: nat
  pfRemovedDemand :: nat
  pfRemovedFull :: nat
  pfSpanPage :: nat

definition Queued_init :: queued where
  "Queued_init = \<lparr>pfq = [], pfqMissingTranslation = [], issuedPrefetches = 0, pfIdentified = 0,
     pfBufferHit = 0, pfInCache = 0, pfRemovedDemand = 0, pfRemovedFull = 0, pfSpanPage = 0\<rparr>"

definition DeferredPacket_new :: "PrefetchInfo \<Rightarrow> u64 \<Rightarrow> int \<Rightarrow> DeferredPacket" where
  "DeferredPacket_new pfi t prio = \<lparr>pfInfo = pfi, dp_tick = t, dp_pkt = None, priority = prio,
     translationRequest = None, ongoingTranslation = False\<rparr>"

definition createPkt :: "DeferredPacket \<Rightarrow> u64 \<Rightarrow> u64 \<Rightarrow> bool \<Rightarrow> u64 \<Rightarrow> DeferredPacket" where
  "createPkt dp paddr blk_size tag_prefetch t =
     dp\<lparr>dp_pkt := Some \<lparr>pp_paddr = paddr, pp_vaddr = None, pp_size = blk_size,
          pp_secure = secure (pfInfo dp),
          pp_pc = (if tag_prefetch \<and> validPC (pfInfo dp) then Some (pc (pfInfo dp)) else None),
          pp_sourceSet = 0, pp_sourceWay = 0, pp_instr_id = 0\<rparr>,
        dp_tick := t\<rparr>"

text \<open>The fields that the EIP changes add to a packet after it is created.\<close>

definition tagPkt :: "queued_params \<Rightarrow> DeferredPacket \<Rightarrow> DeferredPacket" where
  "tagPkt p dp = dp\<lparr>dp_pkt := map_option (\<lambda>k. k\<lparr>
       pp_sourceSet := pfi_sourceSet (pfInfo dp),
       pp_sourceWay := pfi_sourceWay (pfInfo dp),
       pp_instr_id := instr_id (pfInfo dp),
       pp_vaddr := (if useVirtualAddresses (q_base p) then Some (address (pfInfo dp)) else pp_vaddr k)\<rparr>)
     (dp_pkt dp)\<rparr>"

subsection \<open>The throttle\<close>

definition getMaxPermittedPrefetches :: "queued_params \<Rightarrow> nat \<Rightarrow> nat \<Rightarrow> nat \<Rightarrow> nat" where
  "getMaxPermittedPrefetches p useful issued total_pfs =
     (if total_pfs > 0 \<and> issued > 0 then
        (let throttle_pfs = (total_pfs * throttleControlPct p) div 100;
             min_pfs = (if total_pfs - throttle_pfs = 0 then 1 else total_pfs - throttle_pfs)
         in min_pfs + (total_pfs - min_pfs) * useful div issued)
      else total_pfs)"

subsection \<open>The queue\<close>

text \<open>
  \<open>addToQueue\<close>: a full queue loses the oldest packet of its last level of priority.  Then the
  new packet goes to the end, or in front of the place the scan from the end stops at.
\<close>

fun queue_level_oldest :: "DeferredPacket list \<Rightarrow> nat \<Rightarrow> nat \<Rightarrow> nat" where
  "queue_level_oldest q it 0 = it"
| "queue_level_oldest q it (Suc prev) =
     (if priority (q ! prev) = priority (q ! it) then queue_level_oldest q prev prev else it)"

fun queue_spot :: "DeferredPacket list \<Rightarrow> DeferredPacket \<Rightarrow> nat \<Rightarrow> nat" where
  "queue_spot q dpp 0 = 0"
| "queue_spot q dpp (Suc it) =
     (if it \<noteq> 0 \<and> priority dpp > priority (q ! it) then queue_spot q dpp it else it)"

definition queue_erase :: "'a list \<Rightarrow> nat \<Rightarrow> 'a list" where
  "queue_erase q i = take i q @ drop (Suc i) q"

definition queue_evict :: "queued_params \<Rightarrow> DeferredPacket list \<Rightarrow> DeferredPacket list option" where
  "queue_evict p q =
     (if length q = queueSize p then do {
        c_assert (length q \<noteq> 0);
        c_assert (length q - 1 \<noteq> 0);
        Some (queue_erase q (queue_level_oldest q (length q - 1) (length q - 1)))
      }
      else Some q)"

definition queue_place :: "DeferredPacket list \<Rightarrow> DeferredPacket \<Rightarrow> DeferredPacket list" where
  "queue_place q dpp =
     (if length q = 0 \<or> \<not> priority dpp > priority (q ! (length q - 1)) then q @ [dpp]
      else
        (let it = queue_spot q dpp (length q);
             it1 = (if it = 0 \<and> \<not> priority dpp > priority (q ! 0) then 1 else it)
         in take it1 q @ dpp # drop it1 q))"

definition addToQueue :: "queued_params \<Rightarrow> DeferredPacket list \<Rightarrow> DeferredPacket \<Rightarrow> DeferredPacket list option" where
  "addToQueue p q dpp = do { q1 \<leftarrow> queue_evict p q; Some (queue_place q1 dpp) }"

text \<open>
  \<open>alreadyInQueue\<close>: the result says whether the address is in the queue, whether the hit was
  counted, and how the queue looks afterwards.  The iterator has moved past the match when the
  loop ends.
\<close>

fun queue_bump :: "DeferredPacket list \<Rightarrow> nat \<Rightarrow> nat \<Rightarrow> DeferredPacket list" where
  "queue_bump q it 0 = q"
| "queue_bump q it (Suc prev) =
     (if priority (q ! it) > priority (q ! prev)
      then queue_bump (q[it := q ! prev, prev := q ! it]) prev prev
      else queue_bump q it prev)"

definition alreadyInQueue :: "DeferredPacket list \<Rightarrow> PrefetchInfo \<Rightarrow> int \<Rightarrow> bool \<times> bool \<times> DeferredPacket list" where
  "alreadyInQueue q pfi prio =
     (let k = find_index (\<lambda>dp. sameAddr (pfInfo dp) pfi) q;
          found = (k < length q);
          it = (if found then Suc k else length q)
      in if it \<noteq> length q then
           (if priority (q ! it) < prio
            then (found, True, queue_bump (q[it := (q ! it)\<lparr>priority := prio\<rparr>]) it it)
            else (found, True, q))
         else (found, False, q))"

definition createPrefetchRequest :: "u64 \<Rightarrow> PrefetchInfo \<Rightarrow> packet \<Rightarrow> translation_request option" where
  "createPrefetchRequest addr pfi pkt = do {
     a \<leftarrow> getPC pfi;
     ctx \<leftarrow> pkt_contextId pkt;
     Some \<lparr>tr_vaddr = addr, tr_paddr = 0, tr_pc = a, tr_contextId = ctx\<rparr>
   }"

text \<open>
  The target of a candidate: its physical address if it stays on the page, a request for a
  translation if it leaves it, or nothing if no translation is possible.
\<close>

datatype pf_target = Target_pa u64 | Target_translation translation_request | Target_none

definition insert_target :: "queued_params \<Rightarrow> packet \<Rightarrow> PrefetchInfo \<Rightarrow> pf_target option" where
  "insert_target p pkt new_pfi = do {
     orig_addr \<leftarrow> (if useVirtualAddresses (q_base p) then pkt_vaddr pkt else pkt_paddr pkt);
     let positive_stride = (address new_pfi \<ge> orig_addr);
     let stride = (if positive_stride then address new_pfi - orig_addr else orig_addr - address new_pfi);
     same \<leftarrow> samePage (q_base p) orig_addr (address new_pfi);
     if same then
       (if useVirtualAddresses (q_base p) then do {
          pa \<leftarrow> pkt_paddr pkt;
          Some (Target_pa (if positive_stride then pa + stride else pa - stride))
        }
        else Some (Target_pa (address new_pfi)))
     else if pkt_contextId pkt = None then Some Target_none
     else if useVirtualAddresses (q_base p) then do {
       tr \<leftarrow> createPrefetchRequest (address new_pfi) new_pfi pkt;
       Some (Target_translation tr)
     }
     else (case pkt_vaddr pkt of
         Some va \<Rightarrow> do {
           tr \<leftarrow> createPrefetchRequest (if positive_stride then va + stride else va - stride) new_pfi pkt;
           Some (Target_translation tr)
         }
       | None \<Rightarrow> Some Target_none)
   }"

definition count_full :: "queued_params \<Rightarrow> DeferredPacket list \<Rightarrow> queued \<Rightarrow> queued" where
  "count_full p q s = (if length q = queueSize p then s\<lparr>pfRemovedFull := pfRemovedFull s + 1\<rparr> else s)"

definition insert_queue :: "queued_params \<Rightarrow> cache_queries \<Rightarrow> u64 \<Rightarrow> queued \<Rightarrow> PrefetchInfo \<Rightarrow> int \<Rightarrow> pf_target \<Rightarrow> queued option" where
  "insert_queue p c curTick s new_pfi prio target =
     (case target of
        Target_none \<Rightarrow> Some s
      | Target_pa pa \<Rightarrow>
          (if cacheSnoop p \<and> (inCache c pa (secure new_pfi) \<or> inMissQueue c pa (secure new_pfi))
           then Some (s\<lparr>pfInCache := pfInCache s + 1\<rparr>)
           else do {
             let pf_time = curTick + clockPeriod p * latency p;
             let dpp = tagPkt p (createPkt (DeferredPacket_new new_pfi 0 prio) pa (blkSize (q_base p))
                                   (tagPrefetch p) pf_time);
             q \<leftarrow> addToQueue p (pfq s) dpp;
             Some ((count_full p (pfq s) s)\<lparr>pfq := q\<rparr>)
           })
      | Target_translation tr \<Rightarrow> do {
          let dpp = (DeferredPacket_new new_pfi 0 prio)\<lparr>translationRequest := Some tr\<rparr>;
          q \<leftarrow> addToQueue p (pfqMissingTranslation s) dpp;
          Some ((count_full p (pfqMissingTranslation s) s)\<lparr>pfqMissingTranslation := q\<rparr>)
        })"

definition count_hit :: "bool \<Rightarrow> queued \<Rightarrow> queued" where
  "count_hit b s = (if b then s\<lparr>pfBufferHit := pfBufferHit s + 1\<rparr> else s)"

definition insert_pf :: "queued_params \<Rightarrow> cache_queries \<Rightarrow> u64 \<Rightarrow> queued \<Rightarrow> packet \<Rightarrow> PrefetchInfo \<Rightarrow> int \<Rightarrow> queued option" where
  "insert_pf p c curTick s pkt new_pfi prio =
     (let (found1, hit1, q1) = (if queueFilter p then alreadyInQueue (pfq s) new_pfi prio else (False, False, pfq s));
          s1 = count_hit hit1 (s\<lparr>pfq := q1\<rparr>) in
      if found1 then Some s1
      else
        (let (found2, hit2, q2) = (if queueFilter p then alreadyInQueue (pfqMissingTranslation s1) new_pfi prio
                                   else (False, False, pfqMissingTranslation s1));
             s2 = count_hit hit2 (s1\<lparr>pfqMissingTranslation := q2\<rparr>) in
         if found2 then Some s2
         else do {
           target \<leftarrow> insert_target p pkt new_pfi;
           insert_queue p c curTick s2 new_pfi prio target
         }))"


subsection \<open>Translations\<close>

text \<open>
  The TLB may answer at once, with an address or a fault, or later through \<open>finish\<close>.
\<close>

datatype tlb_result = TLB_delayed | TLB_translated u64 | TLB_fault

definition translationComplete ::
    "queued_params \<Rightarrow> cache_queries \<Rightarrow> u64 \<Rightarrow> queued \<Rightarrow> nat \<Rightarrow> bool \<Rightarrow> queued option" where
  "translationComplete p c curTick s i failed = do {
     c_assert (i < length (pfqMissingTranslation s));
     let it = pfqMissingTranslation s ! i;
     s1 \<leftarrow> (if \<not> failed then do {
         tr \<leftarrow> translationRequest it;
         if cacheSnoop p \<and> (inCache c (tr_paddr tr) (secure (pfInfo it)) \<or> inMissQueue c (tr_paddr tr) (secure (pfInfo it)))
         then Some (s\<lparr>pfInCache := pfInCache s + 1\<rparr>)
         else do {
           let pf_time = curTick + clockPeriod p * latency p;
           let dpp = tagPkt p (createPkt it (tr_paddr tr) (blkSize (q_base p)) (tagPrefetch p) pf_time);
           q \<leftarrow> addToQueue p (pfq s) dpp;
           Some ((count_full p (pfq s) s)\<lparr>pfq := q\<rparr>)
         }
       }
       else Some s);
     Some (s1\<lparr>pfqMissingTranslation := queue_erase (pfqMissingTranslation s1) i\<rparr>)
   }"

definition finish :: "queued_params \<Rightarrow> cache_queries \<Rightarrow> u64 \<Rightarrow> queued \<Rightarrow> nat \<Rightarrow> bool \<Rightarrow> queued option" where
  "finish p c curTick s i failed = do {
     let dp = pfqMissingTranslation s ! i;
     c_assert (ongoingTranslation dp);
     translationComplete p c curTick
       (s\<lparr>pfqMissingTranslation := (pfqMissingTranslation s)[i := dp\<lparr>ongoingTranslation := False\<rparr>]\<rparr>) i failed
   }"

text \<open>The first result says whether the packet has left the translation queue.\<close>

definition startTranslation ::
    "queued_params \<Rightarrow> cache_queries \<Rightarrow> (translation_request \<Rightarrow> tlb_result) \<Rightarrow> u64 \<Rightarrow> queued \<Rightarrow> nat \<Rightarrow> (bool \<times> queued) option" where
  "startTranslation p c tlb curTick s i =
     (let dp = pfqMissingTranslation s ! i in
      case translationRequest dp of
        None \<Rightarrow> None
      | Some tr \<Rightarrow>
          (if \<not> ongoingTranslation dp then
             (let s1 = s\<lparr>pfqMissingTranslation := (pfqMissingTranslation s)[i := dp\<lparr>ongoingTranslation := True\<rparr>]\<rparr> in
              case tlb tr of
                TLB_delayed \<Rightarrow> Some (False, s1)
              | TLB_fault \<Rightarrow> map_option (Pair True) (finish p c curTick s1 i True)
              | TLB_translated pa \<Rightarrow> map_option (Pair True) (finish p c curTick
                  (s1\<lparr>pfqMissingTranslation := (pfqMissingTranslation s1)
                        [i := (pfqMissingTranslation s1 ! i)\<lparr>translationRequest := Some (tr\<lparr>tr_paddr := pa\<rparr>)\<rparr>]\<rparr>) i False))
           else Some (False, s)))"

function processMissingTranslations ::
    "queued_params \<Rightarrow> cache_queries \<Rightarrow> (translation_request \<Rightarrow> tlb_result) \<Rightarrow> u64 \<Rightarrow> nat \<Rightarrow> nat \<Rightarrow> nat \<Rightarrow> queued \<Rightarrow> queued option" where
  "processMissingTranslations p c tlb curTick max_count started it s =
     (if it < length (pfqMissingTranslation s) \<and> started < max_count then do {
        (erased, s1) \<leftarrow> startTranslation p c tlb curTick s it;
        processMissingTranslations p c tlb curTick max_count (started + 1) (if erased then it else it + 1) s1
      }
      else Some s)"
  by pat_completeness auto

termination processMissingTranslations
  by (relation "measure (\<lambda>(p, c, tlb, curTick, max_count, started, it, s). max_count - started)") auto

declare processMissingTranslations.simps [simp del]

definition getPacket ::
    "queued_params \<Rightarrow> cache_queries \<Rightarrow> (translation_request \<Rightarrow> tlb_result) \<Rightarrow> u64 \<Rightarrow> queued \<Rightarrow> (pf_packet option \<times> queued) option" where
  "getPacket p c tlb curTick s = do {
     s1 \<leftarrow> (if pfq s = [] then processMissingTranslations p c tlb curTick (queueSize p) 0 0 s else Some s);
     case pfq s1 of
       [] \<Rightarrow> Some (None, s1)
     | dp # q \<Rightarrow> do {
         let s2 = s1\<lparr>pfq := q, issuedPrefetches := issuedPrefetches s1 + 1\<rparr>;
         pkt \<leftarrow> dp_pkt dp;
         s3 \<leftarrow> processMissingTranslations p c tlb curTick (queueSize p - length q) 0 0 s2;
         Some (Some pkt, s3)
       }
   }"

definition MaxTick :: u64 where "MaxTick = 0xffffffffffffffff"

definition nextPrefetchReadyTime :: "queued \<Rightarrow> u64" where
  "nextPrefetchReadyTime s = (if pfq s = [] then MaxTick else dp_tick (hd (pfq s)))"

subsection \<open>Notification of an access\<close>

text \<open>
  The virtual methods of the prefetcher proper, on its own state: \<open>calculatePrefetch\<close>, the
  source set and way of a candidate, and \<open>clear_pfmq\<close>.
\<close>

record 'p prefetcher =
  pf_calculatePrefetch :: "'p \<Rightarrow> PrefetchInfo \<Rightarrow> ('p \<times> (u64 \<times> int) list) option"
  pf_getSourceSet :: "'p \<Rightarrow> u64 \<Rightarrow> u64"
  pf_getSourceWay :: "'p \<Rightarrow> u64 \<Rightarrow> u64"
  pf_clear_pfmq :: "'p \<Rightarrow> 'p"

definition notify_squash :: "queued_params \<Rightarrow> queued \<Rightarrow> PrefetchInfo \<Rightarrow> queued" where
  "notify_squash p s pfi =
     (if queueSquash p then
        (let hit = (\<lambda>dp. address (pfInfo dp) = blockAddress (q_base p) (address pfi) \<and> secure (pfInfo dp) = secure pfi)
         in s\<lparr>pfq := filter (\<lambda>dp. \<not> hit dp) (pfq s),
              pfRemovedDemand := pfRemovedDemand s + length (filter hit (pfq s))\<rparr>)
      else s)"

fun notify_loop ::
    "queued_params \<Rightarrow> cache_queries \<Rightarrow> 'p prefetcher \<Rightarrow> u64 \<times> u32 \<times> u32 \<Rightarrow> u64 \<Rightarrow> packet \<Rightarrow> PrefetchInfo \<Rightarrow> 'p \<Rightarrow> nat \<Rightarrow> nat \<Rightarrow>
      (u64 \<times> int) list \<Rightarrow> queued \<Rightarrow> queued option" where
  "notify_loop p c pf memory curTick pkt pfi x max_pfs num_pfs [] s = Some s"
| "notify_loop p c pf memory curTick pkt pfi x max_pfs num_pfs ((a, prio) # as) s = do {
     let addr = blockAddress (q_base p) a;
     same \<leftarrow> samePage (q_base p) addr (address pfi);
     let s1 = (if \<not> same then s\<lparr>pfSpanPage := pfSpanPage s + 1\<rparr> else s);
     if has_tlb p \<or> same then do {
       let new_pfi = (PrefetchInfo_copy memory pfi addr)
             \<lparr>pfi_sourceSet := ucast (pf_getSourceSet pf x addr), pfi_sourceWay := ucast (pf_getSourceWay pf x addr)\<rparr>;
       s2 \<leftarrow> insert_pf p c curTick (s1\<lparr>pfIdentified := pfIdentified s1 + 1\<rparr>) pkt new_pfi prio;
       if num_pfs + 1 = max_pfs then Some s2
       else notify_loop p c pf memory curTick pkt pfi x max_pfs (num_pfs + 1) as s2
     }
     else notify_loop p c pf memory curTick pkt pfi x max_pfs num_pfs as s1
   }"

definition notify ::
    "queued_params \<Rightarrow> cache_queries \<Rightarrow> 'p prefetcher \<Rightarrow> u64 \<times> u32 \<times> u32 \<Rightarrow> u64 \<Rightarrow> nat \<Rightarrow> packet \<Rightarrow> PrefetchInfo \<Rightarrow>
      'p \<times> queued \<Rightarrow> ('p \<times> queued) option" where
  "notify p c pf memory curTick useful pkt pfi = (\<lambda>(x, s). do {
     let s1 = notify_squash p s pfi;
     (x1, addresses) \<leftarrow> pf_calculatePrefetch pf x pfi;
     let max_pfs = getMaxPermittedPrefetches p useful (issuedPrefetches s1) (length addresses);
     s2 \<leftarrow> notify_loop p c pf memory curTick pkt pfi x1 max_pfs 0 addresses s1;
     Some (pf_clear_pfmq pf x1, s2)
   })"


subsection \<open>Adding to the queue\<close>

lemma mset_queue_erase: "i < length q \<Longrightarrow> mset q = add_mset (q ! i) (mset (queue_erase q i))"
  by (metis add_mset_add_single id_take_nth_drop mset.simps(2) mset_append queue_erase_def union_mset_add_mset_right)

lemma length_queue_erase: "i < length q \<Longrightarrow> length (queue_erase q i) = length q - 1"
  by (simp add: queue_erase_def)

lemma queue_level_oldest_le: "prev \<le> it \<Longrightarrow> queue_level_oldest q it prev \<le> it"
proof (induction q it prev rule: queue_level_oldest.induct)
  case (2 q it prev)
  then show ?case by (auto intro: order_trans)
qed simp

lemma queue_evict_spec:
  assumes "2 \<le> queueSize p" "length q \<le> queueSize p"
  shows "\<exists>q1. queue_evict p q = Some q1 \<and> length q1 < queueSize p \<and> mset q1 \<subseteq># mset q"
proof (cases "length q = queueSize p")
  case True
  let ?i = "queue_level_oldest q (length q - 1) (length q - 1)"
  have i: "?i < length q" using queue_level_oldest_le [of "length q - 1" "length q - 1" q] True assms(1) by simp
  have "mset (queue_erase q ?i) \<subseteq># mset q" using mset_queue_erase [OF i] by simp
  then show ?thesis using True assms(1) i by (simp add: queue_evict_def length_queue_erase)
qed (use assms(2) in \<open>simp add: queue_evict_def\<close>)

lemma mset_take_Cons_drop: "mset (take i q @ d # drop i q) = add_mset d (mset q)"
proof -
  have "mset (take i q) + mset (drop i q) = mset q" by (metis append_take_drop_id mset_append)
  then show ?thesis by simp
qed

lemma mset_queue_place: "mset (queue_place q d) = add_mset d (mset q)"
  using mset_take_Cons_drop [of "if queue_spot q d (length q) = 0 \<and> \<not> priority d > priority (q ! 0) then 1
      else queue_spot q d (length q)" q d]
  unfolding queue_place_def Let_def by (cases "length q = 0 \<or> \<not> priority d > priority (q ! (length q - 1))") auto

lemma addToQueue_spec:
  assumes "2 \<le> queueSize p" "length q \<le> queueSize p"
  shows "\<exists>q'. addToQueue p q d = Some q' \<and> length q' \<le> queueSize p \<and> d \<in> set q' \<and>
    mset q' \<subseteq># add_mset d (mset q)"
proof -
  obtain q1 where q1: "queue_evict p q = Some q1" "length q1 < queueSize p" "mset q1 \<subseteq># mset q"
    using queue_evict_spec [OF assms] by blast
  have "length (queue_place q1 d) = Suc (length q1)" by (metis mset_queue_place size_add_mset size_mset)
  moreover have "set (queue_place q1 d) = Set.insert d (set q1)" by (metis mset_queue_place set_mset_add_mset_insert set_mset_mset)
  ultimately show ?thesis using q1 by (simp add: addToQueue_def mset_queue_place)
qed

text \<open>With candidates of one priority only, the queue is first in, first out.\<close>

lemma queue_level_oldest_equal:
  assumes "\<And>i. i \<le> it \<Longrightarrow> priority (q ! i) = c" "prev \<le> it"
  shows "queue_level_oldest q it prev = (if prev = 0 then it else 0)"
  using assms by (induction q it prev rule: queue_level_oldest.induct) auto

lemma addToQueue_fifo:
  assumes "2 \<le> queueSize p" "length q \<le> queueSize p" "\<And>e. e \<in> set q \<Longrightarrow> priority e = priority d"
  shows "addToQueue p q d = Some ((if length q = queueSize p then tl q else q) @ [d])"
proof -
  have eq: "priority (q ! i) = priority d" if "i < length q" for i using assms(3) that by simp
  have full: "queue_level_oldest q (length q - 1) (length q - 1) = 0" if "length q = queueSize p"
    using queue_level_oldest_equal [of "length q - 1" q "priority d" "length q - 1"] eq that assms(1) by simp
  have "queue_evict p q = Some (if length q = queueSize p then tl q else q)"
    using full assms(1) by (auto simp: queue_evict_def queue_erase_def drop_Suc)
  moreover have "queue_place q1 d = q1 @ [d]" if "set q1 \<subseteq> set q" for q1
  proof (cases "q1 = []")
    case False
    then have "q1 ! (length q1 - 1) \<in> set q" using that by (meson diff_less length_greater_0_conv nth_mem subsetD zero_less_one)
    then show ?thesis using assms(3) by (simp add: queue_place_def)
  qed (simp add: queue_place_def)
  moreover have "set (tl q) \<subseteq> set q" by (cases q) auto
  ultimately show ?thesis by (simp add: addToQueue_def)
qed

subsection \<open>Searching the queue\<close>

definition dp_key :: "DeferredPacket \<Rightarrow> u64 \<times> bool" where
  "dp_key dp = (address (pfInfo dp), secure (pfInfo dp))"

lemma sameAddr_key: "sameAddr (pfInfo dp) pfi \<longleftrightarrow> dp_key dp = (address pfi, secure pfi)"
  by (auto simp: sameAddr_def dp_key_def)

lemma swap_nth_same:
  "i < length q \<Longrightarrow> j < length q \<Longrightarrow> mset (q[i := q ! j, j := q ! i]) = mset q"
  using mset_swap [of j q i] by simp

lemma mset_queue_bump: "prev \<le> it \<Longrightarrow> it < length q \<Longrightarrow> mset (queue_bump q it prev) = mset q"
proof (induction q it prev rule: queue_bump.induct)
  case (2 q it prev)
  then show ?case using swap_nth_same [of it q prev] by simp
qed simp

text \<open>What the filter leaves alone: addresses, packets and translation requests.\<close>

definition dp_view :: "DeferredPacket \<Rightarrow> PrefetchInfo \<times> pf_packet option \<times> translation_request option" where
  "dp_view dp = (pfInfo dp, dp_pkt dp, translationRequest dp)"

lemma alreadyInQueue_spec:
  assumes "alreadyInQueue q pfi prio = (found, hit, q')"
  shows "found \<longleftrightarrow> (address pfi, secure pfi) \<in> dp_key ` set q" and "image_mset dp_view (mset q') = image_mset dp_view (mset q)"
proof -
  let ?k = "find_index (\<lambda>dp. sameAddr (pfInfo dp) pfi) q"
  have "found \<longleftrightarrow> ?k < length q" using assms by (auto simp: alreadyInQueue_def Let_def split: if_splits)
  then show "found \<longleftrightarrow> (address pfi, secure pfi) \<in> dp_key ` set q"
    unfolding find_index_less_iff sameAddr_key image_iff by metis
  let ?q = "q[Suc ?k := (q ! Suc ?k)\<lparr>priority := prio\<rparr>]"
  have view: "map dp_view ?q = map dp_view q" if "Suc ?k < length q"
    using that by (simp add: map_update list_update_same_conv dp_view_def)
  have "q' = q \<or> Suc ?k < length q \<and> q' = queue_bump ?q (Suc ?k) (Suc ?k)"
    using assms by (auto simp: alreadyInQueue_def Let_def split: if_splits)
  then show "image_mset dp_view (mset q') = image_mset dp_view (mset q)"
  proof
    assume a: "Suc ?k < length q \<and> q' = queue_bump ?q (Suc ?k) (Suc ?k)"
    then have "mset q' = mset ?q" by (simp add: mset_queue_bump del: queue_bump.simps)
    then have "image_mset dp_view (mset q') = mset (map dp_view ?q)" by simp
    then show ?thesis using view a by (simp only: mset_map)
  qed simp
qed


subsection \<open>The invariant of the queues\<close>

definition queue_keys :: "queued \<Rightarrow> (u64 \<times> bool) multiset" where
  "queue_keys s = image_mset dp_key (mset (pfq s)) + image_mset dp_key (mset (pfqMissingTranslation s))"

definition queued_inv :: "queued_params \<Rightarrow> queued \<Rightarrow> bool" where
  "queued_inv p s \<longleftrightarrow> length (pfq s) \<le> queueSize p \<and> length (pfqMissingTranslation s) \<le> queueSize p \<and>
     (\<forall>dp \<in> set (pfq s). dp_pkt dp \<noteq> None) \<and> (\<forall>dp \<in> set (pfqMissingTranslation s). translationRequest dp \<noteq> None) \<and>
     (queueFilter p \<longrightarrow> (\<forall>k. count (queue_keys s) k \<le> 1))"

definition wf_queued_params :: "queued_params \<Rightarrow> bool" where
  "wf_queued_params p \<longleftrightarrow> 2 \<le> queueSize p \<and> (\<exists>n < 64. pageBytes (q_base p) = 2 ^ n)"

lemma count_le_1_mono: "M \<subseteq># N \<Longrightarrow> \<forall>k. count N k \<le> 1 \<Longrightarrow> \<forall>k. count M k \<le> 1"
  by (meson le_trans mset_subset_eq_count)

lemma queued_invD:
  assumes "queued_inv p s"
  shows "length (pfq s) \<le> queueSize p" "length (pfqMissingTranslation s) \<le> queueSize p"
    "dp \<in> set (pfq s) \<Longrightarrow> dp_pkt dp \<noteq> None" "dp \<in> set (pfqMissingTranslation s) \<Longrightarrow> translationRequest dp \<noteq> None"
    "queueFilter p \<Longrightarrow> count (queue_keys s) k \<le> 1"
  using assms unfolding queued_inv_def by blast+

text \<open>The invariant depends on the two lists up to their order and up to priorities and counters.\<close>

lemma image_mset_dp_key: "image_mset dp_view (mset q') = image_mset dp_view (mset q) \<Longrightarrow>
   image_mset dp_key (mset q') = image_mset dp_key (mset q)"
proof -
  assume "image_mset dp_view (mset q') = image_mset dp_view (mset q)"
  then have "image_mset (\<lambda>v. (address (fst v), secure (fst v))) (image_mset dp_view (mset q')) =
      image_mset (\<lambda>v. (address (fst v), secure (fst v))) (image_mset dp_view (mset q))" by simp
  then show ?thesis by (simp add: image_mset.compositionality comp_def dp_view_def dp_key_def [abs_def])
qed

lemma view_all:
  assumes "image_mset dp_view (mset q') = image_mset dp_view (mset q)" "\<forall>dp \<in> set q. P (dp_view dp)"
  shows "\<forall>dp \<in> set q'. P (dp_view dp)"
proof -
  have "dp_view ` set q' = dp_view ` set q" using assms(1) by (metis set_image_mset set_mset_mset)
  then show ?thesis using assms(2) by (metis imageE imageI)
qed

lemma view_length: "image_mset dp_view (mset q') = image_mset dp_view (mset q) \<Longrightarrow> length q' = length q"
  by (metis size_image_mset size_mset)

lemma queued_inv_view:
  assumes inv: "queued_inv p s"
    and q: "image_mset dp_view (mset (pfq s')) = image_mset dp_view (mset (pfq s))"
      "image_mset dp_view (mset (pfqMissingTranslation s')) = image_mset dp_view (mset (pfqMissingTranslation s))"
  shows "queued_inv p s'" "queue_keys s' = queue_keys s"
proof -
  show keys: "queue_keys s' = queue_keys s"
    using image_mset_dp_key [OF q(1)] image_mset_dp_key [OF q(2)] by (simp add: queue_keys_def)
  have "\<forall>dp \<in> set (pfq s'). fst (snd (dp_view dp)) \<noteq> None"
    by (rule view_all [OF q(1)]) (use inv in \<open>auto simp: queued_inv_def dp_view_def\<close>)
  moreover have "\<forall>dp \<in> set (pfqMissingTranslation s'). snd (snd (dp_view dp)) \<noteq> None"
    by (rule view_all [OF q(2)]) (use inv in \<open>auto simp: queued_inv_def dp_view_def\<close>)
  ultimately show "queued_inv p s'"
    using inv keys view_length [OF q(1)] view_length [OF q(2)] by (simp add: queued_inv_def dp_view_def)
qed

lemma count_hit_sel [simp]:
  "pfq (count_hit b s) = pfq s" "pfqMissingTranslation (count_hit b s) = pfqMissingTranslation s"
  by (simp_all add: count_hit_def)

lemma count_full_sel [simp]:
  "pfq (count_full p q s) = pfq s" "pfqMissingTranslation (count_full p q s) = pfqMissingTranslation s"
  by (simp_all add: count_full_def)

text \<open>Adding to either queue.\<close>

lemma queued_inv_add_pfq:
  assumes p: "wf_queued_params p" and inv: "queued_inv p s" and dpp: "dp_pkt dpp \<noteq> None"
    and new: "queueFilter p \<Longrightarrow> dp_key dpp \<notin># queue_keys s"
  shows "\<exists>q. addToQueue p (pfq s) dpp = Some q \<and> queued_inv p (s\<lparr>pfq := q\<rparr>) \<and> length q \<le> queueSize p"
proof -
  obtain q where q: "addToQueue p (pfq s) dpp = Some q" "length q \<le> queueSize p" "mset q \<subseteq># add_mset dpp (mset (pfq s))"
    using addToQueue_spec [OF _ queued_invD(1) [OF inv]] p by (auto simp: wf_queued_params_def)
  have "set q \<subseteq> Set.insert dpp (set (pfq s))" using q(3) by (metis set_mset_add_mset_insert set_mset_mono set_mset_mset)
  moreover have "\<forall>k. count (queue_keys (s\<lparr>pfq := q\<rparr>)) k \<le> 1" if "queueFilter p"
  proof (rule count_le_1_mono)
    show "queue_keys (s\<lparr>pfq := q\<rparr>) \<subseteq># add_mset (dp_key dpp) (queue_keys s)"
      using image_mset_subseteq_mono [OF q(3), of dp_key] by (simp add: queue_keys_def subset_mset.add_mono)
    show "\<forall>k. count (add_mset (dp_key dpp) (queue_keys s)) k \<le> 1"
      using new [OF that] queued_invD(5) [OF inv that] by (auto simp: not_in_iff)
  qed
  ultimately have "queued_inv p (s\<lparr>pfq := q\<rparr>)" using inv q(2) dpp by (auto simp: queued_inv_def)
  then show ?thesis using q by blast
qed

lemma queued_inv_add_missing:
  assumes p: "wf_queued_params p" and inv: "queued_inv p s" and dpp: "translationRequest dpp \<noteq> None"
    and new: "queueFilter p \<Longrightarrow> dp_key dpp \<notin># queue_keys s"
  shows "\<exists>q. addToQueue p (pfqMissingTranslation s) dpp = Some q \<and> queued_inv p (s\<lparr>pfqMissingTranslation := q\<rparr>)"
proof -
  obtain q where q: "addToQueue p (pfqMissingTranslation s) dpp = Some q" "length q \<le> queueSize p"
    "mset q \<subseteq># add_mset dpp (mset (pfqMissingTranslation s))"
    using addToQueue_spec [OF _ queued_invD(2) [OF inv]] p by (auto simp: wf_queued_params_def)
  have "set q \<subseteq> Set.insert dpp (set (pfqMissingTranslation s))" using q(3) by (metis set_mset_add_mset_insert set_mset_mono set_mset_mset)
  moreover have "\<forall>k. count (queue_keys (s\<lparr>pfqMissingTranslation := q\<rparr>)) k \<le> 1" if "queueFilter p"
  proof (rule count_le_1_mono)
    show "queue_keys (s\<lparr>pfqMissingTranslation := q\<rparr>) \<subseteq># add_mset (dp_key dpp) (queue_keys s)"
      using image_mset_subseteq_mono [OF q(3), of dp_key] by (simp add: queue_keys_def subset_mset.add_mono)
    show "\<forall>k. count (add_mset (dp_key dpp) (queue_keys s)) k \<le> 1"
      using new [OF that] queued_invD(5) [OF inv that] by (auto simp: not_in_iff)
  qed
  ultimately have "queued_inv p (s\<lparr>pfqMissingTranslation := q\<rparr>)" using inv q(2) dpp by (auto simp: queued_inv_def)
  then show ?thesis using q by blast
qed


subsection \<open>Every operation keeps the invariant\<close>

lemma dp_key_make [simp]:
  "dp_key (DeferredPacket_new pfi t prio) = (address pfi, secure pfi)"
  "dp_key (createPkt dp pa sz tg t) = dp_key dp" "dp_key (tagPkt p dp) = dp_key dp"
  "dp_key (dp\<lparr>translationRequest := tr\<rparr>) = dp_key dp" "dp_key (dp\<lparr>ongoingTranslation := b\<rparr>) = dp_key dp"
  by (simp_all add: dp_key_def DeferredPacket_new_def createPkt_def tagPkt_def)

lemma dp_pkt_make [simp]: "dp_pkt (tagPkt p (createPkt dp pa sz tg t)) \<noteq> None"
  by (simp add: createPkt_def tagPkt_def)

lemma queued_inv_counters:
  assumes "pfq s' = pfq s" "pfqMissingTranslation s' = pfqMissingTranslation s"
  shows "queued_inv p s' = queued_inv p s" "queue_keys s' = queue_keys s"
  using assms by (simp_all add: queued_inv_def queue_keys_def)

definition packet_ok :: "queued_params \<Rightarrow> packet \<Rightarrow> bool" where
  "packet_ok p pkt \<longleftrightarrow> pkt_paddr pkt \<noteq> None \<and> (useVirtualAddresses (q_base p) \<longrightarrow> pkt_vaddr pkt \<noteq> None)"

lemma insert_target_total:
  assumes "wf_queued_params p" "packet_ok p pkt" "validPC pfi"
  shows "\<exists>tgt. insert_target p pkt pfi = Some tgt"
proof -
  obtain n where n: "n < 64" "pageBytes (q_base p) = 2 ^ n" using assms(1) by (auto simp: wf_queued_params_def)
  obtain pa where pa: "pkt_paddr pkt = Some pa" using assms(2) by (auto simp: packet_ok_def)
  obtain oa where oa: "(if useVirtualAddresses (q_base p) then pkt_vaddr pkt else pkt_paddr pkt) = Some oa"
    using assms(2) by (cases "useVirtualAddresses (q_base p)") (auto simp: packet_ok_def)
  show ?thesis
  proof (cases "pkt_contextId pkt")
    case None
    then show ?thesis unfolding insert_target_def Let_def oa by (simp add: samePage_exp [OF n(2,1)] pa)
  next
    case (Some ctx)
    then have "createPrefetchRequest a pfi pkt =
        Some \<lparr>tr_vaddr = a, tr_paddr = 0, tr_pc = pc pfi, tr_contextId = ctx\<rparr>" for a
      using assms(3) by (simp add: createPrefetchRequest_def getPC_def)
    then show ?thesis
      unfolding insert_target_def Let_def oa by (simp add: samePage_exp [OF n(2,1)] pa Some split: option.split)
  qed
qed

lemma insert_queue_spec:
  assumes p: "wf_queued_params p" and inv: "queued_inv p s"
    and new: "queueFilter p \<Longrightarrow> (address pfi, secure pfi) \<notin># queue_keys s"
  shows "\<exists>s'. insert_queue p c tick s pfi prio tgt = Some s' \<and> queued_inv p s'"
proof (cases tgt)
  case (Target_pa pa)
  let ?d = "tagPkt p (createPkt (DeferredPacket_new pfi 0 prio) pa (blkSize (q_base p)) (tagPrefetch p)
      (tick + clockPeriod p * latency p))"
  obtain q where q: "addToQueue p (pfq s) ?d = Some q" "queued_inv p (s\<lparr>pfq := q\<rparr>)"
    using queued_inv_add_pfq [OF p inv, of ?d] new by auto
  then have "queued_inv p ((count_full p (pfq s) s)\<lparr>pfq := q\<rparr>)" by (simp add: count_full_def queued_inv_def queue_keys_def)
  then show ?thesis
    using Target_pa q(1) inv queued_inv_counters(1) [of "s\<lparr>pfInCache := pfInCache s + 1\<rparr>" s p] by (auto simp: insert_queue_def Let_def)
next
  case (Target_translation tr)
  let ?d = "(DeferredPacket_new pfi 0 prio)\<lparr>translationRequest := Some tr\<rparr>"
  obtain q where q: "addToQueue p (pfqMissingTranslation s) ?d = Some q" "queued_inv p (s\<lparr>pfqMissingTranslation := q\<rparr>)"
    using queued_inv_add_missing [OF p inv, of ?d] new by auto
  then have "queued_inv p ((count_full p (pfqMissingTranslation s) s)\<lparr>pfqMissingTranslation := q\<rparr>)"
    by (simp add: count_full_def queued_inv_def queue_keys_def)
  then show ?thesis using Target_translation q(1) by (auto simp: insert_queue_def Let_def)
qed (use inv in \<open>simp add: insert_queue_def\<close>)

text \<open>The two searches of the filter.\<close>

lemma filter_spec:
  assumes "(if queueFilter p then alreadyInQueue q pfi prio else (False, False, q)) = (found, hit, q')"
  shows "image_mset dp_view (mset q') = image_mset dp_view (mset q)"
    and "queueFilter p \<Longrightarrow> \<not> found \<Longrightarrow> (address pfi, secure pfi) \<notin># image_mset dp_key (mset q')"
proof -
  show view: "image_mset dp_view (mset q') = image_mset dp_view (mset q)"
    using assms alreadyInQueue_spec(2) by (auto split: if_splits)
  assume f: "queueFilter p" "\<not> found"
  then have "(address pfi, secure pfi) \<notin> dp_key ` set q" using assms alreadyInQueue_spec(1) by fastforce
  then show "(address pfi, secure pfi) \<notin># image_mset dp_key (mset q')"
    using image_mset_dp_key [OF view] by simp
qed

lemma insert_pf_spec:
  assumes p: "wf_queued_params p" and inv: "queued_inv p s" and pkt: "packet_ok p pkt" "validPC pfi"
  shows "\<exists>s'. insert_pf p c tick s pkt pfi prio = Some s' \<and> queued_inv p s'"
proof -
  obtain f1 h1 q1 where a1: "(if queueFilter p then alreadyInQueue (pfq s) pfi prio else (False, False, pfq s)) = (f1, h1, q1)"
    by (metis prod_cases3)
  let ?s1 = "count_hit h1 (s\<lparr>pfq := q1\<rparr>)"
  obtain f2 h2 q2 where a2: "(if queueFilter p then alreadyInQueue (pfqMissingTranslation ?s1) pfi prio
      else (False, False, pfqMissingTranslation ?s1)) = (f2, h2, q2)"
    by (metis prod_cases3)
  let ?s2 = "count_hit h2 (?s1\<lparr>pfqMissingTranslation := q2\<rparr>)"
  have inv1: "queued_inv p ?s1" by (rule queued_inv_view(1) [OF inv]) (use filter_spec(1) [OF a1] in simp_all)
  have inv2: "queued_inv p ?s2" by (rule queued_inv_view(1) [OF inv1]) (use filter_spec(1) [OF a2] in simp_all)
  obtain tgt where tgt: "insert_target p pkt pfi = Some tgt" using insert_target_total [OF p pkt] by blast
  have new: "(address pfi, secure pfi) \<notin># queue_keys ?s2" if "queueFilter p" "\<not> f1" "\<not> f2"
    using filter_spec(2) [OF a1 that(1,2)] filter_spec(2) [OF a2 that(1,3)] by (simp add: queue_keys_def)
  show ?thesis
    using insert_queue_spec [OF p inv2, of pfi c tick prio tgt] new inv1 inv2 tgt
    unfolding insert_pf_def a1 Let_def case_prod_conv a2 by (cases f1; cases f2) auto
qed


text \<open>A packet leaves the translation queue.\<close>

lemma queued_inv_erase:
  assumes inv: "queued_inv p s" and i: "i < length (pfqMissingTranslation s)"
  defines "s0 \<equiv> s\<lparr>pfqMissingTranslation := queue_erase (pfqMissingTranslation s) i\<rparr>"
  shows "queued_inv p s0" "queueFilter p \<Longrightarrow> dp_key (pfqMissingTranslation s ! i) \<notin># queue_keys s0"
proof -
  note m = mset_queue_erase [OF i]
  have keys: "queue_keys s = add_mset (dp_key (pfqMissingTranslation s ! i)) (queue_keys s0)"
    by (simp add: queue_keys_def s0_def m)
  have "set (queue_erase (pfqMissingTranslation s) i) \<subseteq> set (pfqMissingTranslation s)"
    by (metis m set_mset_add_mset_insert set_mset_mset subset_insertI)
  moreover have "\<forall>k. count (queue_keys s0) k \<le> 1" if "queueFilter p"
    using queued_invD(5) [OF inv that] unfolding keys by (intro count_le_1_mono [of "queue_keys s0" "queue_keys s"]) (auto simp: keys)
  ultimately show "queued_inv p s0"
    using inv length_queue_erase [OF i] unfolding queued_inv_def s0_def by auto
  show "dp_key (pfqMissingTranslation s ! i) \<notin># queue_keys s0" if "queueFilter p"
    using queued_invD(5) [OF inv that, of "dp_key (pfqMissingTranslation s ! i)"] by (simp add: keys not_in_iff)
qed

lemma translationComplete_spec:
  assumes p: "wf_queued_params p" and inv: "queued_inv p s" and i: "i < length (pfqMissingTranslation s)"
  shows "\<exists>s'. translationComplete p c tick s i failed = Some s' \<and> queued_inv p s'"
proof -
  let ?it = "pfqMissingTranslation s ! i"
  let ?s0 = "s\<lparr>pfqMissingTranslation := queue_erase (pfqMissingTranslation s) i\<rparr>"
  note inv0 = queued_inv_erase [OF inv i]
  obtain tr where tr: "translationRequest ?it = Some tr" using queued_invD(4) [OF inv nth_mem [OF i]] by auto
  let ?d = "tagPkt p (createPkt ?it (tr_paddr tr) (blkSize (q_base p)) (tagPrefetch p) (tick + clockPeriod p * latency p))"
  obtain q where q: "addToQueue p (pfq s) ?d = Some q" "queued_inv p (?s0\<lparr>pfq := q\<rparr>)"
    using queued_inv_add_pfq [OF p inv0(1), of ?d] inv0(2) by auto
  show ?thesis
  proof (cases "failed \<or> cacheSnoop p \<and> (inCache c (tr_paddr tr) (secure (pfInfo ?it)) \<or> inMissQueue c (tr_paddr tr) (secure (pfInfo ?it)))")
    case True
    then obtain s' where s': "translationComplete p c tick s i failed = Some s'" "pfq s' = pfq ?s0"
        "pfqMissingTranslation s' = pfqMissingTranslation ?s0"
      using i tr by (cases failed) (auto simp: translationComplete_def Let_def)
    then show ?thesis using inv0(1) queued_inv_counters(1) by blast
  next
    case False
    then obtain s' where s': "translationComplete p c tick s i failed = Some s'" "pfq s' = pfq (?s0\<lparr>pfq := q\<rparr>)"
        "pfqMissingTranslation s' = pfqMissingTranslation (?s0\<lparr>pfq := q\<rparr>)"
      using i tr q(1) by (auto simp: translationComplete_def Let_def count_full_def)
    then show ?thesis using q(2) queued_inv_counters(1) by blast
  qed
qed

lemma queued_inv_update_missing:
  assumes inv: "queued_inv p s" and i: "i < length (pfqMissingTranslation s)"
    and dp: "dp_key dp = dp_key (pfqMissingTranslation s ! i)" "translationRequest dp \<noteq> None"
  shows "queued_inv p (s\<lparr>pfqMissingTranslation := (pfqMissingTranslation s)[i := dp]\<rparr>)"
proof -
  have "map dp_key ((pfqMissingTranslation s)[i := dp]) = map dp_key (pfqMissingTranslation s)"
    using i dp(1) by (simp add: map_update list_update_same_conv)
  then have "image_mset dp_key (mset ((pfqMissingTranslation s)[i := dp])) = image_mset dp_key (mset (pfqMissingTranslation s))"
    by (metis mset_map)
  moreover have "\<forall>d \<in> set ((pfqMissingTranslation s)[i := dp]). translationRequest d \<noteq> None"
    using inv dp(2) unfolding queued_inv_def by (intro ball_set_update) auto
  ultimately show ?thesis using inv by (simp add: queued_inv_def queue_keys_def)
qed

lemma finish_spec:
  assumes "wf_queued_params p" "queued_inv p s" "i < length (pfqMissingTranslation s)"
    "ongoingTranslation (pfqMissingTranslation s ! i)"
  shows "\<exists>s'. finish p c tick s i failed = Some s' \<and> queued_inv p s'"
proof -
  let ?dp = "pfqMissingTranslation s ! i"
  have "translationRequest ?dp \<noteq> None" using queued_invD(4) [OF assms(2) nth_mem [OF assms(3)]] .
  then have "queued_inv p (s\<lparr>pfqMissingTranslation := (pfqMissingTranslation s)[i := ?dp\<lparr>ongoingTranslation := False\<rparr>]\<rparr>)"
    by (intro queued_inv_update_missing [OF assms(2,3)]) (simp_all add: dp_key_def)
  then show ?thesis
    using translationComplete_spec [OF assms(1)] assms(3,4) by (simp add: finish_def Let_def)
qed

lemma startTranslation_spec:
  assumes p: "wf_queued_params p" and inv: "queued_inv p s" and i: "i < length (pfqMissingTranslation s)"
  shows "\<exists>e s'. startTranslation p c tlb tick s i = Some (e, s') \<and> queued_inv p s'"
proof -
  let ?dp = "pfqMissingTranslation s ! i"
  obtain tr where tr: "translationRequest ?dp = Some tr" using queued_invD(4) [OF inv nth_mem [OF i]] by auto
  let ?m = "\<lambda>dp. s\<lparr>pfqMissingTranslation := (pfqMissingTranslation s)[i := dp]\<rparr>"
  have inv1: "queued_inv p (?m (?dp\<lparr>ongoingTranslation := True\<rparr>))"
    by (rule queued_inv_update_missing [OF inv i]) (simp_all add: tr dp_key_def)
  have inv2: "queued_inv p (?m (?dp\<lparr>ongoingTranslation := True, translationRequest := Some r\<rparr>))" for r
    by (rule queued_inv_update_missing [OF inv i]) (simp_all add: dp_key_def)
  have fin: "\<exists>s'. finish p c tick (?m d) i f = Some s' \<and> queued_inv p s'"
    if "queued_inv p (?m d)" "ongoingTranslation d" for d f
    using finish_spec [OF p that(1)] that(2) i by simp
  show ?thesis
  proof (cases "ongoingTranslation ?dp")
    case True
    then show ?thesis using tr inv by (auto simp: startTranslation_def Let_def)
  next
    case False
    show ?thesis
    proof (cases "tlb tr")
      case TLB_delayed
      then show ?thesis using tr inv1 False by (auto simp: startTranslation_def Let_def)
    next
      case TLB_fault
      then show ?thesis using tr False fin [OF inv1, of True] by (auto simp: startTranslation_def Let_def)
    next
      case (TLB_translated pa)
      then show ?thesis using tr False i fin [OF inv2, of "tr\<lparr>tr_paddr := pa\<rparr>" False]
        by (auto simp: startTranslation_def Let_def)
    qed
  qed
qed

lemma processMissingTranslations_spec:
  assumes "wf_queued_params p" "queued_inv p s"
  shows "\<exists>s'. processMissingTranslations p c tlb tick n k it s = Some s' \<and> queued_inv p s'"
  using assms(2)
proof (induction "n - k" arbitrary: k it s)
  case 0
  then show ?case by (simp add: processMissingTranslations.simps)
next
  case (Suc m)
  show ?case
  proof (cases "it < length (pfqMissingTranslation s)")
    case True
    obtain e s1 where s1: "startTranslation p c tlb tick s it = Some (e, s1)" "queued_inv p s1"
      using startTranslation_spec [OF assms(1) Suc.prems True] by blast
    have "m = n - (k + 1)" "k < n" using Suc.hyps(2) by simp_all
    then show ?thesis using Suc.hyps(1) [OF _ s1(2), of "k + 1"] s1(1) True
      by (subst processMissingTranslations.simps) simp
  next
    case False
    then show ?thesis using Suc.prems by (subst processMissingTranslations.simps) simp
  qed
qed

lemma getPacket_spec:
  assumes p: "wf_queued_params p" and inv: "queued_inv p s"
  shows "\<exists>r s'. getPacket p c tlb tick s = Some (r, s') \<and> queued_inv p s'"
proof -
  obtain s1 where s1: "(if pfq s = [] then processMissingTranslations p c tlb tick (queueSize p) 0 0 s else Some s) = Some s1"
      "queued_inv p s1"
    using processMissingTranslations_spec [OF p inv, of c tlb tick "queueSize p" 0 0] inv by (cases "pfq s = []") auto
  show ?thesis
  proof (cases "pfq s1")
    case Nil
    then show ?thesis using s1 by (simp add: getPacket_def)
  next
    case (Cons dp q)
    obtain pkt where pkt: "dp_pkt dp = Some pkt" using queued_invD(3) [OF s1(2), of dp] Cons by auto
    have "queued_inv p (s1\<lparr>pfq := q, issuedPrefetches := issuedPrefetches s1 + 1\<rparr>)"
    proof -
      have keys: "queue_keys s1 = add_mset (dp_key dp) (queue_keys (s1\<lparr>pfq := q, issuedPrefetches := issuedPrefetches s1 + 1\<rparr>))"
        by (simp add: queue_keys_def Cons)
      have "count (queue_keys (s1\<lparr>pfq := q, issuedPrefetches := issuedPrefetches s1 + 1\<rparr>)) k \<le> 1" if "queueFilter p" for k
        using queued_invD(5) [OF s1(2) that, of k] unfolding keys by (auto split: if_splits)
      then show ?thesis using s1(2) Cons unfolding queued_inv_def by auto
    qed
    from processMissingTranslations_spec [OF p this, of c tlb tick "queueSize p - length q" 0 0]
    show ?thesis using s1(1) Cons pkt by (auto simp: getPacket_def Let_def)
  qed
qed

lemma notify_squash_spec:
  assumes "queued_inv p s"
  shows "queued_inv p (notify_squash p s pfi)"
proof -
  let ?s = "notify_squash p s pfi"
  have q: "mset (pfq ?s) \<subseteq># mset (pfq s)" "length (pfq ?s) \<le> length (pfq s)"
      "pfqMissingTranslation ?s = pfqMissingTranslation s"
    by (auto simp: notify_squash_def Let_def multiset_filter_subset)
  have "queue_keys ?s \<subseteq># queue_keys s"
    using image_mset_subseteq_mono [OF q(1), of dp_key] by (simp add: queue_keys_def q(3))
  from count_le_1_mono [OF this] have "queueFilter p \<longrightarrow> (\<forall>k. count (queue_keys ?s) k \<le> 1)"
    using assms by (simp add: queued_inv_def)
  moreover have "set (pfq ?s) \<subseteq> set (pfq s)" using q(1) by (metis set_mset_mono set_mset_mset)
  ultimately show ?thesis using assms q(2,3) unfolding queued_inv_def by auto
qed

lemma validPC_copy [simp]: "validPC (PrefetchInfo_copy memory pfi a) = validPC pfi"
  by (simp add: PrefetchInfo_copy_def)

lemma notify_loop_spec:
  assumes p: "wf_queued_params p" and inv: "queued_inv p s" and pkt: "packet_ok p pkt" "validPC pfi"
  shows "\<exists>s'. notify_loop p c pf memory tick pkt pfi x mx n as s = Some s' \<and> queued_inv p s'"
  using inv
proof (induction as arbitrary: s n)
  case (Cons ap as)
  obtain a prio where ap: "ap = (a, prio)" by (cases ap)
  let ?addr = "blockAddress (q_base p) a"
  let ?new = "(PrefetchInfo_copy memory pfi ?addr)
      \<lparr>pfi_sourceSet := ucast (pf_getSourceSet pf x ?addr), pfi_sourceWay := ucast (pf_getSourceWay pf x ?addr)\<rparr>"
  obtain b where b: "samePage (q_base p) ?addr (address pfi) = Some b"
    using p samePage_exp by (fastforce simp: wf_queued_params_def)
  let ?s1 = "if \<not> b then s\<lparr>pfSpanPage := pfSpanPage s + 1\<rparr> else s"
  have inv1: "queued_inv p ?s1" "queued_inv p (?s1\<lparr>pfIdentified := pfIdentified ?s1 + 1\<rparr>)"
    using Cons.prems by (simp_all add: queued_inv_def queue_keys_def)
  have "validPC ?new" using pkt(2) by simp
  then obtain s2 where s2: "insert_pf p c tick (?s1\<lparr>pfIdentified := pfIdentified ?s1 + 1\<rparr>) pkt ?new prio = Some s2" "queued_inv p s2"
    using insert_pf_spec [OF p inv1(2) pkt(1), of ?new] by blast
  show ?case
  proof (cases "has_tlb p \<or> b")
    case True
    then show ?thesis using Cons.IH [OF s2(2), of "n + 1"] s2
      unfolding ap notify_loop.simps Let_def b Option.bind.simps by (cases "n + 1 = mx") simp_all
  next
    case False
    then show ?thesis using Cons.IH [OF inv1(1), of n] unfolding ap notify_loop.simps Let_def b Option.bind.simps by simp
  qed
qed simp

lemma notify_spec:
  assumes "wf_queued_params p" "queued_inv p s" "packet_ok p pkt" "validPC pfi"
    "pf_calculatePrefetch pf x pfi = Some (x1, as)"
  shows "\<exists>s'. notify p c pf memory tick useful pkt pfi (x, s) = Some (pf_clear_pfmq pf x1, s') \<and> queued_inv p s'"
proof -
  let ?s1 = "notify_squash p s pfi"
  obtain s2 where "notify_loop p c pf memory tick pkt pfi x1
      (getMaxPermittedPrefetches p useful (issuedPrefetches ?s1) (length as)) 0 as ?s1 = Some s2" "queued_inv p s2"
    using notify_loop_spec [OF assms(1) notify_squash_spec [OF assms(2)] assms(3,4), where pf = pf and x = x1] by blast
  then show ?thesis using assms(5) by (simp add: notify_def Let_def)
qed

lemma Queued_init_inv: "queued_inv p Queued_init"
  by (simp add: queued_inv_def Queued_init_def queue_keys_def)


subsection \<open>What the queue hands back\<close>

text \<open>
  The source that a prefetcher gives with a candidate reaches the packet of the candidate: a
  predicate on sources that holds for every candidate holds for every packet in the queues.
\<close>

definition sourced :: "(u32 \<Rightarrow> u32 \<Rightarrow> bool) \<Rightarrow> DeferredPacket \<Rightarrow> bool" where
  "sourced ok dp \<longleftrightarrow> ok (pfi_sourceSet (pfInfo dp)) (pfi_sourceWay (pfInfo dp)) \<and>
     (case dp_pkt dp of None \<Rightarrow> True | Some k \<Rightarrow> ok (pp_sourceSet k) (pp_sourceWay k))"

definition all_sourced :: "(u32 \<Rightarrow> u32 \<Rightarrow> bool) \<Rightarrow> queued \<Rightarrow> bool" where
  "all_sourced ok s \<longleftrightarrow> (\<forall>dp \<in> set (pfq s) \<union> set (pfqMissingTranslation s). sourced ok dp)"

lemma sourced_make [simp]:
  "sourced ok (DeferredPacket_new pfi t prio) \<longleftrightarrow> ok (pfi_sourceSet pfi) (pfi_sourceWay pfi)"
  "sourced ok (dp\<lparr>translationRequest := tr\<rparr>) \<longleftrightarrow> sourced ok dp"
  "sourced ok (dp\<lparr>ongoingTranslation := b\<rparr>) \<longleftrightarrow> sourced ok dp"
  "sourced ok (tagPkt p (createPkt dp pa sz tg t)) \<longleftrightarrow> ok (pfi_sourceSet (pfInfo dp)) (pfi_sourceWay (pfInfo dp))"
  by (simp_all add: sourced_def DeferredPacket_new_def createPkt_def tagPkt_def)

lemma sourcedD: "sourced ok dp \<Longrightarrow> ok (pfi_sourceSet (pfInfo dp)) (pfi_sourceWay (pfInfo dp))"
  by (simp add: sourced_def)

lemma set_queue_erase: "set (queue_erase q i) \<subseteq> set q"
  unfolding queue_erase_def by (auto dest: in_set_takeD in_set_dropD)

lemma set_addToQueue: "addToQueue p q d = Some q' \<Longrightarrow> set q' \<subseteq> Set.insert d (set q)"
proof -
  assume "addToQueue p q d = Some q'"
  then obtain q1 where q1: "queue_evict p q = Some q1" "q' = queue_place q1 d" by (auto simp: addToQueue_def split: bind_splits)
  have "set q1 \<subseteq> set q"
    using q1(1) set_queue_erase [of q] by (auto simp: queue_evict_def c_assert_def split: if_splits)
  moreover have "set q' = Set.insert d (set q1)"
    using mset_queue_place [of q1 d] q1(2) by (metis set_mset_add_mset_insert set_mset_mset)
  ultimately show ?thesis by blast
qed

lemma all_sourced_view:
  assumes "all_sourced ok s" "image_mset dp_view (mset (pfq s')) = image_mset dp_view (mset (pfq s))"
    "image_mset dp_view (mset (pfqMissingTranslation s')) = image_mset dp_view (mset (pfqMissingTranslation s))"
  shows "all_sourced ok s'"
proof -
  let ?P = "\<lambda>v. ok (pfi_sourceSet (fst v)) (pfi_sourceWay (fst v)) \<and>
     (case fst (snd v) of None \<Rightarrow> True | Some k \<Rightarrow> ok (pp_sourceSet k) (pp_sourceWay k))"
  have eq: "sourced ok dp \<longleftrightarrow> ?P (dp_view dp)" for dp by (simp add: sourced_def dp_view_def)
  have q: "\<forall>dp \<in> set (pfq s). ?P (dp_view dp)" "\<forall>dp \<in> set (pfqMissingTranslation s). ?P (dp_view dp)"
    using assms(1) unfolding all_sourced_def eq by blast+
  have "\<forall>dp \<in> set (pfq s'). ?P (dp_view dp)" by (rule view_all [OF assms(2) q(1)])
  moreover have "\<forall>dp \<in> set (pfqMissingTranslation s'). ?P (dp_view dp)" by (rule view_all [OF assms(3) q(2)])
  ultimately show ?thesis unfolding all_sourced_def eq by blast
qed

lemma all_sourced_counters:
  "pfq s' = pfq s \<Longrightarrow> pfqMissingTranslation s' = pfqMissingTranslation s \<Longrightarrow> all_sourced ok s' = all_sourced ok s"
  by (simp add: all_sourced_def)

lemma insert_queue_sourced:
  assumes "insert_queue p c tick s pfi prio tgt = Some s'" "all_sourced ok s" "ok (pfi_sourceSet pfi) (pfi_sourceWay pfi)"
  shows "all_sourced ok s'"
proof (cases tgt)
  case (Target_pa pa)
  show ?thesis
  proof (cases "cacheSnoop p \<and> (inCache c pa (secure pfi) \<or> inMissQueue c pa (secure pfi))")
    case True
    then have "s' = s\<lparr>pfInCache := pfInCache s + 1\<rparr>" using assms(1) Target_pa by (simp add: insert_queue_def)
    then show ?thesis using assms(2) by (simp add: all_sourced_def)
  next
    case False
    let ?d = "tagPkt p (createPkt (DeferredPacket_new pfi 0 prio) pa (blkSize (q_base p)) (tagPrefetch p) (tick + clockPeriod p * latency p))"
    obtain q where q: "addToQueue p (pfq s) ?d = Some q" "s' = (count_full p (pfq s) s)\<lparr>pfq := q\<rparr>"
      using assms(1) Target_pa False by (auto simp: insert_queue_def Let_def split: bind_splits)
    have "sourced ok ?d" using assms(3) by (simp add: DeferredPacket_new_def)
    then show ?thesis using set_addToQueue [OF q(1)] assms(2) q(2) unfolding all_sourced_def by auto
  qed
next
  case (Target_translation tr)
  let ?d = "(DeferredPacket_new pfi 0 prio)\<lparr>translationRequest := Some tr\<rparr>"
  obtain q where q: "addToQueue p (pfqMissingTranslation s) ?d = Some q"
      "s' = (count_full p (pfqMissingTranslation s) s)\<lparr>pfqMissingTranslation := q\<rparr>"
    using assms(1) Target_translation by (auto simp: insert_queue_def Let_def split: bind_splits)
  have "sourced ok ?d" using assms(3) by simp
  then show ?thesis using set_addToQueue [OF q(1)] assms(2) q(2) unfolding all_sourced_def by auto
qed (use assms in \<open>simp add: insert_queue_def\<close>)

lemma insert_pf_sourced:
  assumes "insert_pf p c tick s pkt pfi prio = Some s'" "all_sourced ok s" "ok (pfi_sourceSet pfi) (pfi_sourceWay pfi)"
  shows "all_sourced ok s'"
proof -
  obtain f1 h1 q1 where a1: "(if queueFilter p then alreadyInQueue (pfq s) pfi prio else (False, False, pfq s)) = (f1, h1, q1)"
    by (metis prod_cases3)
  let ?s1 = "count_hit h1 (s\<lparr>pfq := q1\<rparr>)"
  obtain f2 h2 q2 where a2: "(if queueFilter p then alreadyInQueue (pfqMissingTranslation ?s1) pfi prio
      else (False, False, pfqMissingTranslation ?s1)) = (f2, h2, q2)"
    by (metis prod_cases3)
  let ?s2 = "count_hit h2 (?s1\<lparr>pfqMissingTranslation := q2\<rparr>)"
  have s1: "all_sourced ok ?s1" by (rule all_sourced_view [OF assms(2)]) (use filter_spec(1) [OF a1] in simp_all)
  have s2: "all_sourced ok ?s2" by (rule all_sourced_view [OF s1]) (use filter_spec(1) [OF a2] in simp_all)
  have "s' = ?s1 \<or> s' = ?s2 \<or> (\<exists>tgt. insert_queue p c tick ?s2 pfi prio tgt = Some s')"
    using assms(1) unfolding insert_pf_def a1 Let_def case_prod_conv a2 by (auto split: if_splits bind_splits)
  then show ?thesis using s1 s2 insert_queue_sourced [OF _ s2 assms(3)] by blast
qed

lemma translationComplete_sourced:
  assumes "translationComplete p c tick s i failed = Some s'" "all_sourced ok s"
  shows "all_sourced ok s'"
proof -
  have i: "i < length (pfqMissingTranslation s)" using assms(1) by (auto simp: translationComplete_def c_assert_def split: if_splits)
  let ?it = "pfqMissingTranslation s ! i"
  have it: "ok (pfi_sourceSet (pfInfo ?it)) (pfi_sourceWay (pfInfo ?it))"
    using assms(2) i by (intro sourcedD [of ok ?it]) (simp add: all_sourced_def)
  have erase: "all_sourced ok (s1\<lparr>pfqMissingTranslation := queue_erase (pfqMissingTranslation s1) i\<rparr>)"
    if "all_sourced ok s1" for s1
    using that set_queue_erase [of "pfqMissingTranslation s1" i] by (auto simp: all_sourced_def)
  obtain s1 where s1: "s' = s1\<lparr>pfqMissingTranslation := queue_erase (pfqMissingTranslation s1) i\<rparr>"
      "(if \<not> failed then translationRequest ?it \<bind> (\<lambda>tr.
          if cacheSnoop p \<and> (inCache c (tr_paddr tr) (secure (pfInfo ?it)) \<or> inMissQueue c (tr_paddr tr) (secure (pfInfo ?it)))
          then Some (s\<lparr>pfInCache := pfInCache s + 1\<rparr>)
          else addToQueue p (pfq s) (tagPkt p (createPkt ?it (tr_paddr tr) (blkSize (q_base p)) (tagPrefetch p)
            (tick + clockPeriod p * latency p))) \<bind> (\<lambda>q. Some ((count_full p (pfq s) s)\<lparr>pfq := q\<rparr>)))
        else Some s) = Some s1"
    using assms(1) unfolding translationComplete_def Let_def Option.bind_eq_Some_conv [of "c_assert _"]
    by (fastforce simp: Option.bind_eq_Some_conv [of "if _ then _ else _"] simp del: if_split)
  have "s1 = s \<or> s1 = s\<lparr>pfInCache := pfInCache s + 1\<rparr> \<or>
       (\<exists>pa q. addToQueue p (pfq s) (tagPkt p (createPkt ?it pa (blkSize (q_base p)) (tagPrefetch p)
            (tick + clockPeriod p * latency p))) = Some q \<and> s1 = (count_full p (pfq s) s)\<lparr>pfq := q\<rparr>)"
    using s1(2) by (auto split: bind_splits if_splits)
  then have "all_sourced ok s1"
  proof (elim disjE exE conjE)
    fix pa q
    let ?d = "tagPkt p (createPkt ?it pa (blkSize (q_base p)) (tagPrefetch p) (tick + clockPeriod p * latency p))"
    assume q: "addToQueue p (pfq s) ?d = Some q" "s1 = (count_full p (pfq s) s)\<lparr>pfq := q\<rparr>"
    have "sourced ok ?d" using it by simp
    then show ?thesis using set_addToQueue [OF q(1)] assms(2) q(2) unfolding all_sourced_def by auto
  qed (use assms(2) in \<open>simp_all add: all_sourced_def\<close>)
  then show ?thesis using erase s1(1) by simp
qed

lemma all_sourced_update:
  assumes "all_sourced ok s" "i < length (pfqMissingTranslation s) \<Longrightarrow> sourced ok d"
  shows "all_sourced ok (s\<lparr>pfqMissingTranslation := (pfqMissingTranslation s)[i := d]\<rparr>)"
  using assms set_update_subset_insert [of "pfqMissingTranslation s" i d]
  by (cases "i < length (pfqMissingTranslation s)") (auto simp: all_sourced_def list_update_beyond)

lemma finish_sourced:
  assumes "finish p c tick s i failed = Some s'" "all_sourced ok s"
  shows "all_sourced ok s'"
proof (rule translationComplete_sourced)
  let ?s = "s\<lparr>pfqMissingTranslation := (pfqMissingTranslation s)[i := (pfqMissingTranslation s ! i)\<lparr>ongoingTranslation := False\<rparr>]\<rparr>"
  show "translationComplete p c tick ?s i failed = Some s'"
    using assms(1) by (auto simp: finish_def Let_def c_assert_def split: if_splits)
  show "all_sourced ok ?s" using assms(2) by (intro all_sourced_update) (auto simp: all_sourced_def)
qed

lemma startTranslation_sourced:
  assumes "startTranslation p c tlb tick s i = Some (e, s')" "all_sourced ok s" "i < length (pfqMissingTranslation s)"
  shows "all_sourced ok s'"
proof -
  let ?dp = "pfqMissingTranslation s ! i"
  let ?m = "\<lambda>dp. s\<lparr>pfqMissingTranslation := (pfqMissingTranslation s)[i := dp]\<rparr>"
  have dp: "sourced ok ?dp" using assms(2,3) by (simp add: all_sourced_def)
  have m: "all_sourced ok (?m (?dp\<lparr>ongoingTranslation := True\<rparr>))"
      "all_sourced ok (?m (?dp\<lparr>ongoingTranslation := True, translationRequest := Some r\<rparr>))" for r
    using dp by (intro all_sourced_update [OF assms(2)]; simp)+
  have "s' = s \<or> s' = ?m (?dp\<lparr>ongoingTranslation := True\<rparr>) \<or>
      finish p c tick (?m (?dp\<lparr>ongoingTranslation := True\<rparr>)) i True = Some s' \<or>
      (\<exists>r. finish p c tick (?m (?dp\<lparr>ongoingTranslation := True, translationRequest := Some r\<rparr>)) i False = Some s')"
    using assms(1,3) unfolding startTranslation_def Let_def by (fastforce split: option.splits if_splits tlb_result.splits)
  then show ?thesis using assms(2) m finish_sourced by blast
qed

lemma processMissingTranslations_sourced:
  "processMissingTranslations p c tlb tick n k it s = Some s' \<Longrightarrow> all_sourced ok s \<Longrightarrow> all_sourced ok s'"
proof (induction p c tlb tick n k it s rule: processMissingTranslations.induct)
  case (1 p c tlb tick n k it s)
  show ?case
  proof (cases "it < length (pfqMissingTranslation s) \<and> k < n")
    case True
    then obtain e s1 where s1: "startTranslation p c tlb tick s it = Some (e, s1)"
        "processMissingTranslations p c tlb tick n (k + 1) (if e then it else it + 1) s1 = Some s'"
      using "1.prems"(1) unfolding processMissingTranslations.simps [of p c tlb tick n k it s] by (auto split: bind_splits)
    show ?thesis using "1.IH" [OF True s1(1) refl s1(2)] startTranslation_sourced [OF s1(1) "1.prems"(2)] True by blast
  next
    case False
    then show ?thesis
      using "1.prems" unfolding processMissingTranslations.simps [of p c tlb tick n k it s] by (simp split: if_splits)
  qed
qed

lemma getPacket_sourced:
  assumes "getPacket p c tlb tick s = Some (r, s')" "all_sourced ok s"
  shows "all_sourced ok s'" "r = Some k \<Longrightarrow> ok (pp_sourceSet k) (pp_sourceWay k)"
proof -
  obtain s1 where s1: "(if pfq s = [] then processMissingTranslations p c tlb tick (queueSize p) 0 0 s else Some s) = Some s1"
    using assms(1) by (auto simp: getPacket_def split: bind_splits)
  have ok: "all_sourced ok s1"
    using s1 assms(2) processMissingTranslations_sourced by (cases "pfq s = []") auto
  have "all_sourced ok s' \<and> (\<forall>k. r = Some k \<longrightarrow> ok (pp_sourceSet k) (pp_sourceWay k))"
  proof (cases "pfq s1")
    case Nil
    then show ?thesis using assms(1) s1 ok by (simp add: getPacket_def)
  next
    case (Cons dp q)
    let ?s2 = "s1\<lparr>pfq := q, issuedPrefetches := issuedPrefetches s1 + 1\<rparr>"
    obtain k where k: "dp_pkt dp = Some k" "r = Some k"
        "processMissingTranslations p c tlb tick (queueSize p - length q) 0 0 ?s2 = Some s'"
      using assms(1) s1 Cons by (auto simp: getPacket_def Let_def split: bind_splits)
    have "all_sourced ok ?s2" "sourced ok dp" using ok Cons by (auto simp: all_sourced_def)
    then show ?thesis using processMissingTranslations_sourced [OF k(3)] k by (simp add: sourced_def)
  qed
  then show "all_sourced ok s'" "r = Some k \<Longrightarrow> ok (pp_sourceSet k) (pp_sourceWay k)" by blast+
qed

lemma notify_loop_sourced:
  assumes "notify_loop p c pf memory tick pkt pfi x mx n as s = Some s'" "all_sourced ok s"
    "\<And>a. ok (ucast (pf_getSourceSet pf x a)) (ucast (pf_getSourceWay pf x a))"
  shows "all_sourced ok s'"
  using assms(1,2)
proof (induction as arbitrary: s n)
  case (Cons ap as)
  obtain a prio where ap: "ap = (a, prio)" by (cases ap)
  let ?addr = "blockAddress (q_base p) a"
  let ?new = "(PrefetchInfo_copy memory pfi ?addr)
      \<lparr>pfi_sourceSet := ucast (pf_getSourceSet pf x ?addr), pfi_sourceWay := ucast (pf_getSourceWay pf x ?addr)\<rparr>"
  obtain b where b: "samePage (q_base p) ?addr (address pfi) = Some b"
    using Cons.prems(1) unfolding ap by (auto simp: Let_def split: bind_splits)
  let ?s1 = "if \<not> b then s\<lparr>pfSpanPage := pfSpanPage s + 1\<rparr> else s"
  have s1: "all_sourced ok ?s1" "all_sourced ok (?s1\<lparr>pfIdentified := pfIdentified ?s1 + 1\<rparr>)"
    using Cons.prems(2) by (simp_all add: all_sourced_def)
  have new: "ok (pfi_sourceSet ?new) (pfi_sourceWay ?new)" using assms(3) by simp
  show ?case
  proof (cases "has_tlb p \<or> b")
    case True
    then obtain s2 where s2: "insert_pf p c tick (?s1\<lparr>pfIdentified := pfIdentified ?s1 + 1\<rparr>) pkt ?new prio = Some s2"
        "(if n + 1 = mx then Some s2 else notify_loop p c pf memory tick pkt pfi x mx (n + 1) as s2) = Some s'"
      using Cons.prems(1) unfolding ap notify_loop.simps Let_def b Option.bind.simps by (auto split: bind_splits)
    then show ?thesis using Cons.IH insert_pf_sourced [OF s2(1) s1(2) new] by (auto split: if_splits)
  next
    case False
    then show ?thesis
      using Cons.prems(1) Cons.IH [OF _ s1(1), of n] unfolding ap notify_loop.simps Let_def b Option.bind.simps by simp
  qed
qed simp


subsection \<open>The queue with a prefetcher\<close>

text \<open>
  The calls the queue answers: an access, the cache asking for a packet, and the late answer of
  the TLB for a packet of the translation queue.
\<close>

datatype queued_event =
    Q_notify cache_queries "u64 \<times> u32 \<times> u32" u64 nat packet PrefetchInfo
  | Q_getPacket cache_queries "translation_request \<Rightarrow> tlb_result" u64
  | Q_finish cache_queries u64 nat "u64 option"

definition late_answer :: "queued_params \<Rightarrow> cache_queries \<Rightarrow> u64 \<Rightarrow> queued \<Rightarrow> nat \<Rightarrow> u64 option \<Rightarrow> queued option" where
  "late_answer p c curTick s i res =
     (case res of
        None \<Rightarrow> finish p c curTick s i True
      | Some pa \<Rightarrow>
          (let dp = pfqMissingTranslation s ! i in
           finish p c curTick
             (s\<lparr>pfqMissingTranslation := (pfqMissingTranslation s)
                  [i := dp\<lparr>translationRequest := map_option (\<lambda>tr. tr\<lparr>tr_paddr := pa\<rparr>) (translationRequest dp)\<rparr>]\<rparr>) i False))"

fun queued_handle :: "queued_params \<Rightarrow> (u64 \<Rightarrow> 'p prefetcher) \<Rightarrow> queued_event \<Rightarrow> 'p \<times> queued \<Rightarrow> ('p \<times> queued) option" where
  "queued_handle p pf (Q_notify c memory curTick useful pkt pfi) xs = notify p c (pf curTick) memory curTick useful pkt pfi xs"
| "queued_handle p pf (Q_getPacket c tlb curTick) (x, s) = map_option (\<lambda>(r, s1). (x, s1)) (getPacket p c tlb curTick s)"
| "queued_handle p pf (Q_finish c curTick i res) (x, s) = map_option (Pair x) (late_answer p c curTick s i res)"

fun queued_env :: "queued_params \<Rightarrow> (u64 \<Rightarrow> 'p \<Rightarrow> PrefetchInfo \<Rightarrow> bool) \<Rightarrow> queued_event \<Rightarrow> 'p \<times> queued \<Rightarrow> bool" where
  "queued_env p accepts (Q_notify c memory curTick useful pkt pfi) (x, s) \<longleftrightarrow>
     packet_ok p pkt \<and> validPC pfi \<and> accepts curTick x pfi"
| "queued_env p accepts (Q_getPacket c tlb curTick) (x, s) \<longleftrightarrow> True"
| "queued_env p accepts (Q_finish c curTick i res) (x, s) \<longleftrightarrow>
     i < length (pfqMissingTranslation s) \<and> ongoingTranslation (pfqMissingTranslation s ! i)"

lemma late_answer_spec:
  assumes "wf_queued_params p" "queued_inv p s" "i < length (pfqMissingTranslation s)"
    "ongoingTranslation (pfqMissingTranslation s ! i)" "all_sourced ok s"
  shows "\<exists>s'. late_answer p c tick s i res = Some s' \<and> queued_inv p s' \<and> all_sourced ok s'"
proof (cases res)
  case None
  then show ?thesis
    using finish_spec [OF assms(1-4), of c tick True] finish_sourced [OF _ assms(5)] by (auto simp: late_answer_def)
next
  case (Some pa)
  let ?dp = "pfqMissingTranslation s ! i"
  let ?d = "?dp\<lparr>translationRequest := map_option (\<lambda>tr. tr\<lparr>tr_paddr := pa\<rparr>) (translationRequest ?dp)\<rparr>"
  let ?s = "s\<lparr>pfqMissingTranslation := (pfqMissingTranslation s)[i := ?d]\<rparr>"
  have "translationRequest ?dp \<noteq> None" using queued_invD(4) [OF assms(2) nth_mem [OF assms(3)]] .
  then have inv: "queued_inv p ?s" by (intro queued_inv_update_missing [OF assms(2,3)]) auto
  have src: "all_sourced ok ?s"
    using assms(3,5) by (intro all_sourced_update [OF assms(5)]) (simp add: all_sourced_def)
  have "\<exists>s'. finish p c tick ?s i False = Some s' \<and> queued_inv p s'"
    using assms(3,4) by (intro finish_spec [OF assms(1) inv]) simp_all
  then show ?thesis using finish_sourced [OF _ src] Some by (auto simp: late_answer_def Let_def)
qed

text \<open>
  What the queue relies on in a prefetcher: for the accesses it accepts it computes candidates
  and keeps its invariant, forgetting the sources keeps it, and the sources it gives for an
  address satisfy \<open>ok\<close>.
\<close>

locale queued_client =
  fixes p :: queued_params and pf :: "u64 \<Rightarrow> 'p prefetcher" and accepts :: "u64 \<Rightarrow> 'p \<Rightarrow> PrefetchInfo \<Rightarrow> bool"
    and pinv :: "'p \<Rightarrow> bool" and ok :: "u32 \<Rightarrow> u32 \<Rightarrow> bool"
  assumes calc: "pinv x \<Longrightarrow> accepts t x pfi \<Longrightarrow> \<exists>x1 as. pf_calculatePrefetch (pf t) x pfi = Some (x1, as) \<and> pinv x1"
    and clear: "pinv x \<Longrightarrow> pinv (pf_clear_pfmq (pf t) x)"
    and sources: "pinv x \<Longrightarrow> ok (ucast (pf_getSourceSet (pf t) x a)) (ucast (pf_getSourceWay (pf t) x a))"
begin

lemma notify_step:
  assumes "wf_queued_params p" "pinv x" "queued_inv p s" "all_sourced ok s" "packet_ok p pkt" "validPC pfi" "accepts t x pfi"
  shows "\<exists>x' s'. notify p c (pf t) memory t useful pkt pfi (x, s) = Some (x', s') \<and> pinv x' \<and>
    queued_inv p s' \<and> all_sourced ok s'"
proof -
  obtain x1 as where x1: "pf_calculatePrefetch (pf t) x pfi = Some (x1, as)" "pinv x1" using calc assms(2,7) by blast
  obtain s' where s': "notify p c (pf t) memory t useful pkt pfi (x, s) = Some (pf_clear_pfmq (pf t) x1, s')" "queued_inv p s'"
    using notify_spec [OF assms(1,3,5,6) x1(1)] by blast
  have "all_sourced ok (notify_squash p s pfi)"
    using assms(4) by (auto simp: notify_squash_def all_sourced_def Let_def)
  moreover obtain mx where "notify_loop p c (pf t) memory t pkt pfi x1 mx 0 as (notify_squash p s pfi) = Some s'"
    using s'(1) x1(1) by (auto simp: notify_def Let_def split: bind_splits)
  ultimately have "all_sourced ok s'" using notify_loop_sourced sources [OF x1(2)] by metis
  then show ?thesis using s' clear [OF x1(2)] by blast
qed

end

sublocale queued_client \<subseteq> qm: safe_machine "queued_handle p pf" "queued_env p accepts"
  "\<lambda>(x, s). wf_queued_params p \<and> pinv x \<and> queued_inv p s \<and> all_sourced ok s"
proof
  fix xs ev
  assume inv: "case xs of (x, s) \<Rightarrow> wf_queued_params p \<and> pinv x \<and> queued_inv p s \<and> all_sourced ok s"
    and env: "queued_env p accepts ev xs"
  obtain x s where xs: "xs = (x, s)" by (cases xs)
  have i: "wf_queued_params p" "pinv x" "queued_inv p s" "all_sourced ok s" using inv xs by auto
  show "\<exists>s'. queued_handle p pf ev xs = Some s' \<and>
      (case s' of (x, s) \<Rightarrow> wf_queued_params p \<and> pinv x \<and> queued_inv p s \<and> all_sourced ok s)"
  proof (cases ev)
    case (Q_notify c memory t useful pkt pfi)
    then show ?thesis using notify_step [OF i, of pkt pfi t c memory useful] env i(1) xs by auto
  next
    case (Q_getPacket c tlb t)
    then show ?thesis
      using getPacket_spec [OF i(1,3), of c tlb t] getPacket_sourced(1) [OF _ i(4)] i(1,2) xs by fastforce
  next
    case (Q_finish c t k res)
    then show ?thesis using late_answer_spec [OF i(1,3) _ _ i(4), of k c t res] env i(1,2) xs by auto
  qed
qed

subsection \<open>Properties\<close>

definition example_params :: queued_params where
  "example_params = \<lparr>
     q_base = \<lparr>blkSize = 64, lBlkSize = 6, onMiss = False, onRead = True, onWrite = True, onData = True, onInst = True,
       pageBytes = 4096, prefetchOnAccess = False, prefetchOnPfHit = False, useVirtualAddresses = True\<rparr>,
     queueSize = 2, latency = 1, queueSquash = True, queueFilter = True, cacheSnoop = False, tagPrefetch = True,
     throttleControlPct = 0, clockPeriod = 500, has_tlb = True\<rparr>"

definition example_packet :: packet where
  "example_packet = \<lparr>pkt_addr = 0x1000, pkt_vaddr = Some 0x400000, pkt_paddr = Some 0x1000, pkt_pc = Some 0x400000,
     pkt_contextId = Some 0, pkt_requestorId = 0, pkt_size = 64, pkt_secure = False, pkt_isRead = True, pkt_isWrite = False,
     pkt_isInvalidate = False, pkt_isInstFetch = True, pkt_isUncacheable = False, pkt_isCacheMaintenance = False,
     pkt_isSWPrefetch = False, pkt_isCleanEvict = False, pkt_instr_id = 1\<rparr>"

definition example_info :: "u64 \<Rightarrow> PrefetchInfo" where
  "example_info a = \<lparr>address = a, pc = 0x400000, requestorId = 0, validPC = True, secure = False, pfi_size = 64,
     pfi_write = False, paddress = 0x1000, cacheMiss = True, prefetchHit = False, instr_id = 1, pfi_sourceSet = 0, pfi_sourceWay = 0\<rparr>"

definition example_cache :: cache_queries where
  "example_cache = \<lparr>inCache = (\<lambda>a b. False), inMissQueue = (\<lambda>a b. False), hasBeenPrefetched = (\<lambda>a b. False), coalesce = False\<rparr>"

lemma example_params_wf: "wf_queued_params example_params"
  unfolding wf_queued_params_def by (auto simp: example_params_def intro!: exI [of _ 12])

lemma example_packet_ok: "packet_ok example_params example_packet"
  by (simp add: packet_ok_def example_params_def example_packet_def)



text \<open>
  C19: with candidates of one priority, as EIP proposes them, the queue is first in, first out,
  and a full queue drops its oldest entry.
\<close>

theorem equal_priorities_fifo:
  assumes "2 \<le> queueSize p" "length q \<le> queueSize p" "\<forall>e \<in> set q. priority e = priority d"
  shows "addToQueue p q d = Some ((if length q = queueSize p then tl q else q) @ [d])"
  using addToQueue_fifo [OF assms(1,2)] assms(3) by blast

theorem equal_priorities_fifo_witness:
  "addToQueue example_params
     [DeferredPacket_new (example_info 0x40) 1 0, DeferredPacket_new (example_info 0x80) 2 0] (DeferredPacket_new (example_info 0xc0) 3 0) =
   Some [DeferredPacket_new (example_info 0x80) 2 0, DeferredPacket_new (example_info 0xc0) 3 0]"
  using equal_priorities_fifo [of example_params
      "[DeferredPacket_new (example_info 0x40) 1 0, DeferredPacket_new (example_info 0x80) 2 0]" "DeferredPacket_new (example_info 0xc0) 3 0"]
  by (simp add: example_params_def DeferredPacket_new_def)


text \<open>
  a demand access to a line removes every queued prefetch of that line and no other, and
  counts how many it removed.
\<close>

lemma demand_squashes_prefetches:
  assumes "queueSquash p"
  shows "pfq (notify_squash p s pfi) = [dp \<leftarrow> pfq s. dp_key dp \<noteq> (blockAddress (q_base p) (address pfi), secure pfi)] \<and>
    pfRemovedDemand (notify_squash p s pfi) = pfRemovedDemand s + (length (pfq s) - length (pfq (notify_squash p s pfi))) \<and>
    pfqMissingTranslation (notify_squash p s pfi) = pfqMissingTranslation s"
proof -
  define hit where "hit = (\<lambda>dp :: DeferredPacket. address (pfInfo dp) = blockAddress (q_base p) (address pfi) \<and> secure (pfInfo dp) = secure pfi)"
  have "length (pfq s) - length (filter (\<lambda>dp. \<not> hit dp) (pfq s)) = length (filter hit (pfq s))"
    using sum_length_filter_compl [of hit "pfq s"] by linarith
  moreover have "dp_key dp \<noteq> (blockAddress (q_base p) (address pfi), secure pfi) \<longleftrightarrow> \<not> hit dp" for dp
    by (auto simp: hit_def dp_key_def)
  ultimately show ?thesis using assms unfolding notify_squash_def hit_def [symmetric] Let_def by simp
qed

text \<open>
  The throttle lets through at least one candidate and at most all of them, and all of them
  when every prefetch so far was useful.
\<close>

theorem throttle_bounds:
  assumes "0 < n" "throttleControlPct p \<le> 100" "useful \<le> issued"
  shows "1 \<le> getMaxPermittedPrefetches p useful issued n \<and> getMaxPermittedPrefetches p useful issued n \<le> n \<and>
    getMaxPermittedPrefetches p issued issued n = n"
proof -
  define t where "t = n * throttleControlPct p div 100"
  define m where "m = (if n - t = 0 then 1 else n - t)"
  have m: "1 \<le> m" "m \<le> n" using assms(1) by (auto simp: m_def)
  have "(n - m) * useful div issued \<le> n - m" if "0 < issued"
    using assms(3) that by (metis div_le_mono mult_le_mono2 nonzero_mult_div_cancel_right not_less_zero)
  then have "m + (n - m) * useful div issued \<le> n" if "0 < issued" using m(2) that by fastforce
  then show ?thesis using m assms(1) unfolding getMaxPermittedPrefetches_def Let_def t_def [symmetric] m_def [symmetric]
    by (cases "issued = 0") auto
qed

theorem throttle_bounds_witness:
  "1 \<le> getMaxPermittedPrefetches (example_params\<lparr>throttleControlPct := 50\<rparr>) 3 10 4 \<and>
   getMaxPermittedPrefetches (example_params\<lparr>throttleControlPct := 50\<rparr>) 3 10 4 \<le> 4"
  using throttle_bounds [of 4 "example_params\<lparr>throttleControlPct := 50\<rparr>" 3 10] by simp

end
