(* ===== verification/EIP_System.thy ===== *)
theory EIP_System
  imports EIP Queued
begin

section \<open>EIP behind its queue\<close>

text \<open>
  The entangling prefetcher as the cache sees it: its \<open>calculatePrefetch\<close> runs inside the queue
  of \<open>prefetch/queued.cc\<close>, and the cache takes packets from the queue in
  \<open>BaseCache::getNextQueueEntry\<close> (\<open>mem/cache/base.cc\<close>), where it also reports an issued prefetch
  back to EIP with the source the packet carries.

  EIP meets the contract of the queue (locale \<open>queued_client\<close>), so the assumption on handed back
  sources that its own safety rests on is discharged here.
\<close>

definition eip_prefetcher :: "u64 \<Rightarrow> eip prefetcher" where
  "eip_prefetcher curTick = \<lparr>
     pf_calculatePrefetch = (\<lambda>x pfi. calculatePrefetch curTick x (instr_id pfi) (address pfi) (\<not> cacheMiss pfi) []),
     pf_getSourceSet = (\<lambda>x. getSourceSet (pfmq x)),
     pf_getSourceWay = (\<lambda>x. getSourceWay (pfmq x)),
     pf_clear_pfmq = (\<lambda>x. x\<lparr>pfmq := clear_pfmq (pfmq x)\<rparr>)\<rparr>"

definition eip_accepts :: "u64 \<Rightarrow> eip \<Rightarrow> PrefetchInfo \<Rightarrow> bool" where
  "eip_accepts curTick x pfi \<longleftrightarrow> eip_env (Access curTick (instr_id pfi) (address pfi) (\<not> cacheMiss pfi)) x"

text \<open>
  The last part of \<open>getNextQueueEntry\<close>, when no miss and no write is pending.  The write buffer
  and the condition that a prefetch may be made are arguments.
\<close>

datatype pf_outcome = No_packet | Dropped_in_cache | Dropped_in_MSHR | Dropped_in_write_buffer | Packet_issued pf_packet

definition getBlockAddr :: "u64 \<Rightarrow> u64 \<Rightarrow> u64" where
  "getBlockAddr addr blk_size = addr AND NOT (blk_size - 1)"

definition next_prefetch ::
    "queued_params \<Rightarrow> cache_queries \<Rightarrow> (u64 \<Rightarrow> bool \<Rightarrow> bool) \<Rightarrow> bool \<Rightarrow> (translation_request \<Rightarrow> tlb_result) \<Rightarrow> u64 \<Rightarrow>
      eip \<times> queued \<Rightarrow> (pf_outcome \<times> eip \<times> queued) option" where
  "next_prefetch p c inWriteBuffer canPrefetch tlb curTick = (\<lambda>(x, s).
     if canPrefetch then do {
       (r, s1) \<leftarrow> getPacket p c tlb curTick s;
       case r of
         None \<Rightarrow> Some (No_packet, x, s1)
       | Some pkt \<Rightarrow>
           (let pf_addr = getBlockAddr (pp_paddr pkt) (blkSize (q_base p)) in
            if inCache c pf_addr (pp_secure pkt) then Some (Dropped_in_cache, x, s1)
            else if inMissQueue c pf_addr (pp_secure pkt) then Some (Dropped_in_MSHR, x, s1)
            else if inWriteBuffer pf_addr (pp_secure pkt) then Some (Dropped_in_write_buffer, x, s1)
            else do {
              x1 \<leftarrow> (case pp_vaddr pkt of
                  None \<Rightarrow> Some x
                | Some va \<Rightarrow> prefetch_issued_to_pq curTick x (drop_bit 6 va) (ucast (pp_sourceSet pkt)) (ucast (pp_sourceWay pkt)));
              Some (Packet_issued pkt, x1, s1)
            })
     }
     else Some (No_packet, x, s))"

subsection \<open>EIP meets the contract of the queue\<close>

lemma ucast_u32_u64 [simp]: "ucast (ucast (w :: u32) :: u64) = w"
  by (rule bit_word_eqI) (auto simp: bit_simps)

lemma getSource_ok:
  assumes "\<forall>q \<in> set qs. src_ok (sourceSet q) (sourceWay q)"
  shows "src_ok (ucast (getSourceSet qs a)) (ucast (getSourceWay qs a))"
proof (cases "find (\<lambda>q. a = lineAddr q) qs")
  case None
  then show ?thesis by (simp add: getSourceSet_def getSourceWay_def src_ok_def L1I_ET_SETS_def)
next
  case (Some q)
  then have "q \<in> set qs" by (auto simp: find_Some_iff)
  then show ?thesis using Some assms by (simp add: getSourceSet_def getSourceWay_def)
qed

interpretation eipq: queued_client p eip_prefetcher eip_accepts eip_inv src_ok for p
proof
  fix x t pfi
  assume "eip_inv x" "eip_accepts t x pfi"
  then show "\<exists>x1 as. pf_calculatePrefetch (eip_prefetcher t) x pfi = Some (x1, as) \<and> eip_inv x1"
    using calculatePrefetch_spec [OF _ refl, of x "\<not> cacheMiss pfi" "address pfi" t "instr_id pfi" "[]"]
    by (auto simp: eip_prefetcher_def eip_accepts_def Let_def)
next
  fix x t
  assume "eip_inv x"
  then show "eip_inv (pf_clear_pfmq (eip_prefetcher t) x)"
    by (simp add: eip_prefetcher_def eip_inv_def clear_pfmq_def)
next
  fix x t a
  assume "eip_inv x"
  then show "src_ok (ucast (pf_getSourceSet (eip_prefetcher t) x a)) (ucast (pf_getSourceWay (eip_prefetcher t) x a))"
    using getSource_ok [OF eip_invD(5)] by (simp add: eip_prefetcher_def)
qed

subsection \<open>The system\<close>

datatype sys_event =
    Sys_queue queued_event
  | Sys_prefetch cache_queries "u64 \<Rightarrow> bool \<Rightarrow> bool" bool "translation_request \<Rightarrow> tlb_result" u64
  | Sys_squash u64 u64
  | Sys_fill u64 u64
  | Sys_invalidate u64

fun sys_handle :: "queued_params \<Rightarrow> sys_event \<Rightarrow> eip \<times> queued \<Rightarrow> (eip \<times> queued) option" where
  "sys_handle p (Sys_queue ev) xs = queued_handle p eip_prefetcher ev xs"
| "sys_handle p (Sys_prefetch c wb can tlb curTick) xs = map_option snd (next_prefetch p c wb can tlb curTick xs)"
| "sys_handle p (Sys_squash ip iid) (x, s) = Some (notifySquash x ip iid, s)"
| "sys_handle p (Sys_fill curTick addr) (x, s) = map_option (\<lambda>x1. (x1, s)) (notifyFill curTick x addr)"
| "sys_handle p (Sys_invalidate addr) (x, s) = Some (notifyInvalidate x addr, s)"

text \<open>
  The cache makes a prefetch only while it has a free MSHR, and fills a line as EIP expects it.
  Nothing is assumed about the sources of prefetches.
\<close>

fun sys_env :: "queued_params \<Rightarrow> sys_event \<Rightarrow> eip \<times> queued \<Rightarrow> bool" where
  "sys_env p (Sys_queue ev) xs \<longleftrightarrow> queued_env p eip_accepts ev xs"
| "sys_env p (Sys_prefetch c wb can tlb curTick) (x, s) \<longleftrightarrow> (can \<longrightarrow> card (outstanding (eip_timing x)) < L1I_TIMING_MSHR_SIZE)"
| "sys_env p (Sys_squash ip iid) (x, s) \<longleftrightarrow> True"
| "sys_env p (Sys_fill curTick addr) (x, s) \<longleftrightarrow> eip_env (Fill curTick addr) x"
| "sys_env p (Sys_invalidate addr) (x, s) \<longleftrightarrow> True"

definition sys_inv :: "queued_params \<Rightarrow> eip \<times> queued \<Rightarrow> bool" where
  "sys_inv p = (\<lambda>(x, s). wf_queued_params p \<and> eip_inv x \<and> queued_inv p s \<and> all_sourced src_ok s)"

lemma next_prefetch_spec:
  assumes "wf_queued_params p" "eip_inv x" "queued_inv p s" "all_sourced src_ok s"
    "can \<Longrightarrow> card (outstanding (eip_timing x)) < L1I_TIMING_MSHR_SIZE"
  shows "\<exists>r x' s'. next_prefetch p c wb can tlb t (x, s) = Some (r, x', s') \<and> sys_inv p (x', s')"
proof (cases can)
  case True
  obtain r s1 where g: "getPacket p c tlb t s = Some (r, s1)" "queued_inv p s1" using getPacket_spec [OF assms(1,3)] by blast
  note src = getPacket_sourced [OF g(1) assms(4)]
  have inv: "sys_inv p (x', s1)" if "eip_inv x'" for x' using that assms(1) g(2) src(1) by (simp add: sys_inv_def)
  show ?thesis
  proof (cases r)
    case None
    then show ?thesis using True g(1) inv [OF assms(2)] by (simp add: next_prefetch_def)
  next
    case (Some k)
    have "\<exists>x1. (case pp_vaddr k of None \<Rightarrow> Some x
        | Some va \<Rightarrow> prefetch_issued_to_pq t x (drop_bit 6 va) (ucast (pp_sourceSet k)) (ucast (pp_sourceWay k))) = Some x1 \<and> eip_inv x1"
    proof (cases "pp_vaddr k")
      case (Some va)
      have "is_line_addr (drop_bit 6 va)" using is_line_addr_shift [of va] by simp
      moreover have "src_ok (ucast (ucast (pp_sourceSet k) :: u64)) (ucast (ucast (pp_sourceWay k) :: u64))"
        using src(2) [OF \<open>r = Some k\<close>] by simp
      ultimately show ?thesis using prefetch_issued_spec [OF assms(2)] assms(5) [OF True] Some by fastforce
    qed (use assms(2) in simp)
    then obtain x1 where "(case pp_vaddr k of None \<Rightarrow> Some x
        | Some va \<Rightarrow> prefetch_issued_to_pq t x (drop_bit 6 va) (ucast (pp_sourceSet k)) (ucast (pp_sourceWay k))) = Some x1" "eip_inv x1"
      by blast
    then show ?thesis
      using True g(1) inv [OF assms(2)] inv [of x1] Some unfolding next_prefetch_def by (simp add: Let_def)
  qed
qed (use assms in \<open>simp add: next_prefetch_def sys_inv_def\<close>)

lemma sys_step:
  assumes "sys_inv p xs" "sys_env p ev xs"
  shows "\<exists>xs'. sys_handle p ev xs = Some xs' \<and> sys_inv p xs'"
proof -
  obtain x s where xs: "xs = (x, s)" by (cases xs)
  have i: "wf_queued_params p" "eip_inv x" "queued_inv p s" "all_sourced src_ok s" using assms(1) xs by (auto simp: sys_inv_def)
  show ?thesis
  proof (cases ev)
    case (Sys_queue qev)
    then show ?thesis using eipq.qm.progress [of p xs qev] assms by (auto simp: sys_inv_def)
  next
    case (Sys_prefetch c wb can tlb t)
    then show ?thesis using next_prefetch_spec [OF i, of can c wb tlb t] assms(2) xs by auto
  next
    case (Sys_squash ip iid)
    then show ?thesis using eip_step [OF i(2), of "Squash ip iid"] i xs by (auto simp: sys_inv_def)
  next
    case (Sys_fill t a)
    then show ?thesis using eip_step [OF i(2), of "Fill t a"] assms(2) i xs by (auto simp: sys_inv_def)
  next
    case (Sys_invalidate a)
    then show ?thesis using eip_step [OF i(2), of "Invalidate a"] i xs by (auto simp: sys_inv_def)
  qed
qed

interpretation sysm: safe_machine "sys_handle p" "sys_env p" "sys_inv p" for p
  by unfold_locales (rule sys_step)

subsection \<open>Properties\<close>



end
