(* ===== verification/Prefetch_Multi.thy ===== *)
theory Prefetch_Multi
  imports Queued
begin

section \<open>Tagged prefetching and several prefetchers in one cache\<close>

text \<open>
  The tagged prefetcher (\<open>prefetch/tagged.cc\<close>) proposes the next blocks after an access; it is a
  second client of the queue, through the same locale as EIP.  A cache with several prefetchers
  sees them as one (\<open>prefetch/multi.cc\<close>): it is ready when one of them is, and a packet is taken from
  the first one that is ready.
\<close>

subsection \<open>The tagged prefetcher\<close>

text \<open>The product of the distance and the block size has 32 bits without a sign.\<close>

definition Tagged_calculatePrefetch :: "pf_params \<Rightarrow> nat \<Rightarrow> PrefetchInfo \<Rightarrow> (u64 \<times> int) list" where
  "Tagged_calculatePrefetch bp degree pfi =
     (let blkAddr = blockAddress bp (address pfi)
      in map (\<lambda>d. (blkAddr + ucast (of_nat d * ucast (blkSize bp) :: u32), 0)) [1..<degree + 1])"

text \<open>The tagged prefetcher has no state, and the sources of its packets are the default of the base class.\<close>

definition tagged_prefetcher :: "queued_params \<Rightarrow> nat \<Rightarrow> unit prefetcher" where
  "tagged_prefetcher p degree = \<lparr>
     pf_calculatePrefetch = (\<lambda>x pfi. Some (x, Tagged_calculatePrefetch (q_base p) degree pfi)),
     pf_getSourceSet = (\<lambda>x a. 0), pf_getSourceWay = (\<lambda>x a. 0), pf_clear_pfmq = (\<lambda>x. x)\<rparr>"

interpretation taggedq: queued_client p "\<lambda>t. tagged_prefetcher p degree" "\<lambda>t x pfi. True" "\<lambda>x. True" "\<lambda>s w. s = 0 \<and> w = 0" for p degree
  by unfold_locales (simp_all add: tagged_prefetcher_def)

text \<open>A queue fed by the tagged prefetcher never aborts, whatever the cache calls.\<close>

lemma tagged_never_aborts:
  assumes "wf_queued_params p"
    and "admissible (queued_handle p (\<lambda>t. tagged_prefetcher p degree)) (queued_env p (\<lambda>t x pfi. True)) evs ((), Queued_init)"
  shows "\<exists>x s. run (queued_handle p (\<lambda>t. tagged_prefetcher p degree)) evs ((), Queued_init) = Some (x, s) \<and> queued_inv p s"
proof -
  have "queued_inv p Queued_init" by (simp add: queued_inv_def Queued_init_def queue_keys_def)
  moreover have "all_sourced (\<lambda>s w. s = 0 \<and> w = 0) Queued_init" by (simp add: all_sourced_def Queued_init_def)
  ultimately show ?thesis using taggedq.qm.run_safe [OF _ assms(2)] assms(1) by auto
qed

subsection \<open>Several prefetchers\<close>

fun Multi_nextPrefetchReadyTime :: "(queued_params \<times> queued) list \<Rightarrow> u64" where
  "Multi_nextPrefetchReadyTime [] = MaxTick"
| "Multi_nextPrefetchReadyTime ((p, s) # qs) = min (nextPrefetchReadyTime s) (Multi_nextPrefetchReadyTime qs)"

fun Multi_getPacket :: "cache_queries \<Rightarrow> (translation_request \<Rightarrow> tlb_result) \<Rightarrow> u64 \<Rightarrow> (queued_params \<times> queued) list \<Rightarrow>
    (pf_packet option \<times> (queued_params \<times> queued) list) option" where
  "Multi_getPacket c tlb curTick [] = Some (None, [])"
| "Multi_getPacket c tlb curTick ((p, s) # qs) =
     (if nextPrefetchReadyTime s \<le> curTick then do {
        (pkt, s1) \<leftarrow> getPacket p c tlb curTick s;
        c_assert (\<not> pkt = None);
        Some (pkt, (p, s1) # qs) }
      else do {
        (pkt, qs1) \<leftarrow> Multi_getPacket c tlb curTick qs;
        Some (pkt, (p, s) # qs1) })"

definition multi_inv :: "(queued_params \<times> queued) list \<Rightarrow> bool" where
  "multi_inv qs \<longleftrightarrow> list_all (\<lambda>(p, s). wf_queued_params p \<and> queued_inv p s) qs"

lemma ready_queue: "nextPrefetchReadyTime s \<le> t \<Longrightarrow> t < MaxTick \<Longrightarrow> pfq s \<noteq> []"
  by (auto simp: nextPrefetchReadyTime_def)

lemma ready_packet:
  assumes "wf_queued_params p" "queued_inv p s" "pfq s \<noteq> []"
  shows "\<exists>s'. getPacket p c tlb t s = Some (dp_pkt (hd (pfq s)), s') \<and> dp_pkt (hd (pfq s)) \<noteq> None \<and> queued_inv p s'"
proof -
  obtain dp q where q: "pfq s = dp # q" using assms(3) by (cases "pfq s") auto
  obtain r s' where g: "getPacket p c tlb t s = Some (r, s')" "queued_inv p s'" using getPacket_spec [OF assms(1,2)] by blast
  have "dp_pkt dp \<noteq> None" using queued_invD(3) [OF assms(2), of dp] q by auto
  then show ?thesis using g q by (auto simp: getPacket_def split: bind_splits)
qed

text \<open>
  C32: the cache may rely on the ready time of several prefetchers.  Before the end of time, taking a packet never
  panics, keeps all queues in order, and gives a packet exactly if the common ready time has
  come; it is then the one at the head of the first queue that is ready.
\<close>

theorem multi_ready_has_packet:
  assumes "multi_inv qs" "curTick < MaxTick"
  shows "\<exists>pkt qs'. Multi_getPacket c tlb curTick qs = Some (pkt, qs') \<and> multi_inv qs' \<and> map fst qs' = map fst qs \<and>
    (pkt \<noteq> None \<longleftrightarrow> Multi_nextPrefetchReadyTime qs \<le> curTick) \<and>
    pkt = (case filter (\<lambda>(p, s). nextPrefetchReadyTime s \<le> curTick) qs of [] \<Rightarrow> None | (p, s) # _ \<Rightarrow> dp_pkt (hd (pfq s)))"
  using assms
proof (induction qs)
  case Nil
  then show ?case by (simp add: multi_inv_def)
next
  case (Cons x qs)
  obtain p s where x: "x = (p, s)" by (cases x)
  have ps: "wf_queued_params p" "queued_inv p s" and qs: "multi_inv qs" using Cons.prems(1) by (simp_all add: x multi_inv_def)
  show ?case
  proof (cases "nextPrefetchReadyTime s \<le> curTick")
    case True
    obtain s' where "getPacket p c tlb curTick s = Some (dp_pkt (hd (pfq s)), s')" "dp_pkt (hd (pfq s)) \<noteq> None" "queued_inv p s'"
      using ready_packet [OF ps ready_queue [OF True Cons.prems(2)]] by blast
    then show ?thesis using True ps(1) qs by (auto simp: x multi_inv_def min_le_iff_disj)
  next
    case False
    obtain pkt qs' where "Multi_getPacket c tlb curTick qs = Some (pkt, qs')" "multi_inv qs'" "map fst qs' = map fst qs"
      "pkt \<noteq> None \<longleftrightarrow> Multi_nextPrefetchReadyTime qs \<le> curTick"
      "pkt = (case filter (\<lambda>(p, s). nextPrefetchReadyTime s \<le> curTick) qs of [] \<Rightarrow> None | (p, s) # _ \<Rightarrow> dp_pkt (hd (pfq s)))"
      using Cons.IH [OF qs Cons.prems(2)] by blast
    then show ?thesis using False ps by (auto simp: x multi_inv_def min_le_iff_disj)
  qed
qed

definition multi_example :: "(queued_params \<times> queued) list" where
  "multi_example = [(example_params, Queued_init),
     (example_params, Queued_init\<lparr>pfq := [createPkt (DeferredPacket_new (example_info 0x1040) 100 0) 0x1040 64 True 100]\<rparr>)]"

theorem multi_ready_has_packet_witness:
  "\<forall>c tlb. \<exists>pkt qs'. Multi_getPacket c tlb 200 multi_example = Some (Some pkt, qs') \<and> pp_paddr pkt = 0x1040"
proof (intro allI)
  fix c tlb
  have inv: "multi_inv multi_example"
    by (simp add: multi_inv_def multi_example_def wf_queued_params_def queued_inv_def Queued_init_def queue_keys_def createPkt_def
      DeferredPacket_new_def example_params_def exI [of _ 12])
  have t: "(200 :: u64) < MaxTick" by (simp add: MaxTick_def)
  define q where "q = snd (multi_example ! 1)"
  have ready: "filter (\<lambda>(p, s). nextPrefetchReadyTime s \<le> 200) multi_example = [(example_params, q)]"
    by (simp add: q_def multi_example_def nextPrefetchReadyTime_def MaxTick_def Queued_init_def createPkt_def DeferredPacket_new_def)
  obtain pkt where pkt: "dp_pkt (hd (pfq q)) = Some pkt" "pp_paddr pkt = 0x1040"
    by (simp add: q_def multi_example_def createPkt_def)
  obtain r qs' where "Multi_getPacket c tlb 200 multi_example = Some (r, qs')" "r = dp_pkt (hd (pfq q))"
    using multi_ready_has_packet [OF inv t, of c tlb] unfolding ready by auto
  then show "\<exists>pkt qs'. Multi_getPacket c tlb 200 multi_example = Some (Some pkt, qs') \<and> pp_paddr pkt = 0x1040"
    using pkt by simp
qed

end
