(* ===== verification/Repl_Policy.thy ===== *)
theory Repl_Policy
  imports Safe_Machine "HOL-Library.Product_Lexorder"
begin

section \<open>The interface of the replacement policies\<close>

text \<open>
  What a cache relies on in a replacement policy (\<open>replacement_policies/base.hh\<close>): it touches,
  resets and invalidates the replacement data of an entry, and asks for a victim among the
  candidates.  The model looks at one list of candidates, the ways of a set, and names an entry
  by its position; \<open>getVictim\<close> returns the position of the victim and the data of all candidates,
  which some policies change.  An empty list of candidates fails the assertion that every policy
  starts with.

  The simulated time and the random generator are the environment of a call.  Of the generator
  the policies use only \<open>random(lo, hi)\<close>, a number between \<open>lo\<close> and \<open>hi\<close>.
\<close>

record rp_env =
  curTick :: u64
  random :: "nat \<Rightarrow> nat \<Rightarrow> nat"

definition env_ok :: "rp_env \<Rightarrow> bool" where
  "env_ok e \<longleftrightarrow> (\<forall>lo hi. lo \<le> hi \<longrightarrow> lo \<le> random e lo hi \<and> random e lo hi \<le> hi)"

datatype rp_event = RP_touch rp_env nat | RP_reset rp_env nat | RP_invalidate rp_env nat | RP_getVictim rp_env

fun rp_step :: "(rp_env \<Rightarrow> nat \<Rightarrow> 's \<Rightarrow> 's option) \<Rightarrow> (rp_env \<Rightarrow> nat \<Rightarrow> 's \<Rightarrow> 's option) \<Rightarrow> (rp_env \<Rightarrow> nat \<Rightarrow> 's \<Rightarrow> 's option) \<Rightarrow>
    (rp_env \<Rightarrow> 's \<Rightarrow> (nat \<times> 's) option) \<Rightarrow> rp_event \<Rightarrow> 's \<Rightarrow> 's option" where
  "rp_step touch reset invalidate getVictim (RP_touch e w) s = touch e w s"
| "rp_step touch reset invalidate getVictim (RP_reset e w) s = reset e w s"
| "rp_step touch reset invalidate getVictim (RP_invalidate e w) s = invalidate e w s"
| "rp_step touch reset invalidate getVictim (RP_getVictim e) s = map_option snd (getVictim e s)"

fun rp_allowed :: "nat \<Rightarrow> rp_event \<Rightarrow> 's \<Rightarrow> bool" where
  "rp_allowed n (RP_touch e w) s \<longleftrightarrow> env_ok e \<and> w < n"
| "rp_allowed n (RP_reset e w) s \<longleftrightarrow> env_ok e \<and> w < n"
| "rp_allowed n (RP_invalidate e w) s \<longleftrightarrow> env_ok e \<and> w < n"
| "rp_allowed n (RP_getVictim e) s \<longleftrightarrow> env_ok e \<and> 0 < n"

locale replacement_policy =
  fixes inv :: "nat \<Rightarrow> 's \<Rightarrow> bool"
    and touch reset invalidate :: "rp_env \<Rightarrow> nat \<Rightarrow> 's \<Rightarrow> 's option"
    and getVictim :: "rp_env \<Rightarrow> 's \<Rightarrow> (nat \<times> 's) option"
  assumes touch_ok: "env_ok e \<Longrightarrow> inv n s \<Longrightarrow> w < n \<Longrightarrow> \<exists>s'. touch e w s = Some s' \<and> inv n s'"
    and reset_ok: "env_ok e \<Longrightarrow> inv n s \<Longrightarrow> w < n \<Longrightarrow> \<exists>s'. reset e w s = Some s' \<and> inv n s'"
    and invalidate_ok: "env_ok e \<Longrightarrow> inv n s \<Longrightarrow> w < n \<Longrightarrow> \<exists>s'. invalidate e w s = Some s' \<and> inv n s'"
    and victim_ok: "env_ok e \<Longrightarrow> inv n s \<Longrightarrow> 0 < n \<Longrightarrow> \<exists>w s'. getVictim e s = Some (w, s') \<and> w < n \<and> inv n s'"

text \<open>Any calls on a set of \<open>n\<close> ways, in any order.\<close>

sublocale replacement_policy \<subseteq> rpm: safe_machine "rp_step touch reset invalidate getVictim" "rp_allowed n" "inv n" for n
proof
  show "\<exists>s'. rp_step touch reset invalidate getVictim ev s = Some s' \<and> inv n s'" if "inv n s" "rp_allowed n ev s" for s ev
    using that touch_ok reset_ok invalidate_ok victim_ok by (cases ev) fastforce+
qed

subsection \<open>Policies with separate data for every entry\<close>

definition at_entry :: "(rp_env \<Rightarrow> 'd \<Rightarrow> 'd) \<Rightarrow> rp_env \<Rightarrow> nat \<Rightarrow> 'd list \<Rightarrow> 'd list option" where
  "at_entry f e w s = (if w < length s then Some (s[w := f e (s ! w)]) else None)"

locale entry_policy =
  fixes ok :: "'d \<Rightarrow> bool" and touch1 reset1 invalidate1 :: "rp_env \<Rightarrow> 'd \<Rightarrow> 'd"
    and getVictim :: "rp_env \<Rightarrow> 'd list \<Rightarrow> (nat \<times> 'd list) option"
  assumes touch1_ok: "ok d \<Longrightarrow> ok (touch1 e d)"
    and reset1_ok: "ok d \<Longrightarrow> ok (reset1 e d)"
    and invalidate1_ok: "ok d \<Longrightarrow> ok (invalidate1 e d)"
    and victim1_ok: "env_ok e \<Longrightarrow> list_all ok s \<Longrightarrow> s \<noteq> [] \<Longrightarrow>
      \<exists>w s'. getVictim e s = Some (w, s') \<and> w < length s \<and> length s' = length s \<and> list_all ok s'"
begin

definition set_inv :: "nat \<Rightarrow> 'd list \<Rightarrow> bool" where
  "set_inv n s \<longleftrightarrow> length s = n \<and> list_all ok s"

lemma at_entry_ok:
  assumes "\<And>d. ok d \<Longrightarrow> ok (f e d)" "set_inv n s" "w < n"
  shows "\<exists>s'. at_entry f e w s = Some s' \<and> set_inv n s'"
  using assms by (auto simp: at_entry_def set_inv_def list_all_nth intro!: list_all_update)

end

sublocale entry_policy \<subseteq> replacement_policy set_inv "at_entry touch1" "at_entry reset1" "at_entry invalidate1" getVictim
proof
  fix e n w and s :: "'d list"
  assume "set_inv n s" "w < n"
  then show "\<exists>s'. at_entry touch1 e w s = Some s' \<and> set_inv n s'" "\<exists>s'. at_entry reset1 e w s = Some s' \<and> set_inv n s'"
    "\<exists>s'. at_entry invalidate1 e w s = Some s' \<and> set_inv n s'"
    using at_entry_ok touch1_ok reset1_ok invalidate1_ok by blast+
next
  fix e n and s :: "'d list"
  assume "env_ok e" "set_inv n s" "0 < n"
  then show "\<exists>w s'. getVictim e s = Some (w, s') \<and> w < n \<and> set_inv n s'"
    using victim1_ok [of e s] by (fastforce simp: set_inv_def)
qed

subsection \<open>Visiting the candidates\<close>

text \<open>
  The loop most policies share: start with the first candidate and replace the victim by every
  candidate that is better.
\<close>

fun visit :: "(nat \<Rightarrow> nat \<Rightarrow> bool) \<Rightarrow> nat \<Rightarrow> nat list \<Rightarrow> nat" where
  "visit better victim [] = victim"
| "visit better victim (c # cs) = visit better (if better c victim then c else victim) cs"

definition first_min :: "(nat \<Rightarrow> 'k :: linorder) \<Rightarrow> nat \<Rightarrow> nat \<Rightarrow> bool" where
  "first_min key n r \<longleftrightarrow> r < n \<and> (\<forall>c < n. key r \<le> key c) \<and> (\<forall>c < r. key r < key c)"

lemma visit_in: "visit better v cs \<in> Set.insert v (set cs)"
  by (induction cs arbitrary: v) fastforce+

lemma visit_less [simp]: "0 < n \<Longrightarrow> visit better 0 [0..<n] < n"
  using visit_in [of better 0 "[0..<n]"] by auto

lemma visit_upt:
  assumes "\<And>c v. better c v \<longleftrightarrow> key c < key v" "v < n" "i \<le> n" "\<forall>c < i. key v \<le> key c" "\<forall>c < v. key v < key c" "v < i \<or> v = 0"
  shows "first_min key n (visit better v [i..<n])"
  using assms(2-)
proof (induction "n - i" arbitrary: i v)
  case 0
  then show ?case by (simp add: first_min_def)
next
  case (Suc m)
  have i: "i < n" "[i..<n] = i # [Suc i..<n]" using Suc.hyps(2) by (simp_all add: upt_rec)
  let ?v = "if better i v then i else v"
  have "\<forall>c < Suc i. key ?v \<le> key c" using Suc.prems(3) assms(1) by (auto simp: less_Suc_eq not_less)
  moreover have "\<forall>c < ?v. key ?v < key c" using Suc.prems(3,4) assms(1) by (auto intro: less_le_trans)
  ultimately have "first_min key n (visit better ?v [Suc i..<n])"
    using Suc.prems i(1) Suc.hyps(2) by (intro Suc.hyps(1)) auto
  then show ?case by (simp add: i(2))
qed

lemma visit_first_min:
  assumes "0 < n" "\<And>c v. better c v \<longleftrightarrow> key c < key v"
  shows "first_min key n (visit better 0 [0..<n])"
  using visit_upt [of better key 0 n 0] assms by simp

lemma first_min_unique: "first_min key n r \<Longrightarrow> first_min key n r' \<Longrightarrow> r = r'"
  unfolding first_min_def by (metis leD linorder_neqE_nat)

text \<open>The first minimum is the head of the stable sort of the positions.\<close>

lemma first_min_sort_key:
  assumes "0 < n"
  shows "first_min key n (hd (sort_key key [0..<n]))"
proof -
  let ?l = "sort_key key [0..<n]"
  obtain r rs where l: "?l = r # rs" using assms by (metis gr_implies_not_zero length_0_conv length_sort length_upt list.exhaust minus_nat.diff_0)
  have set: "set (r # rs) = {0..<n}" using l by (metis set_sort set_upt)
  then have r: "r < n" by auto
  have sorted: "\<forall>c \<in> set rs. key r \<le> key c" using sorted_sort_key [of key "[0..<n]"] unfolding l by simp
  have le: "\<forall>c < n. key r \<le> key c"
  proof (intro allI impI)
    fix c assume "c < n"
    then have "c \<in> set (r # rs)" unfolding set by simp
    then have "c = r \<or> c \<in> set rs" by simp
    then show "key r \<le> key c" by (elim disjE) (simp_all add: sorted)
  qed
  have "\<not> key c \<le> key r" if "c < r" for c
  proof
    assume "key c \<le> key r"
    then have eq: "key c = key r" using le r that by (meson antisym less_trans)
    have "filter (\<lambda>x. key x = key r) ?l = filter (\<lambda>x. key x = key r) [0..<n]" by (rule sort_key_stable)
    from arg_cong [OF this, of hd] have hd: "hd (filter (\<lambda>x. key x = key r) [0..<n]) = r" by (simp add: l)
    have s: "sorted (filter (\<lambda>x. key x = key r) [0..<n])" by (simp add: sorted_wrt_filter)
    have "c \<in> set (filter (\<lambda>x. key x = key r) [0..<n])" using eq r that by simp
    then have "hd (filter (\<lambda>x. key x = key r) [0..<n]) \<le> c" using s by (cases "filter (\<lambda>x. key x = key r) [0..<n]") auto
    then show False using hd that by simp
  qed
  then show ?thesis using r le by (auto simp: first_min_def l not_le)
qed

end
