(* ===== verification/Repl_Recency.thy ===== *)
theory Repl_Recency
  imports Repl_Policy "HOL-Library.Multiset"
begin

section \<open>Policies that order entries by time, use or chance\<close>

text \<open>
  The policies LRU, MRU, FIFO, LFU, random, BIP, SBIP, weighted LRU and second chance
  (\<open>replacement_policies/*_rp.cc\<close>).  Their replacement data are records; a policy that inherits
  from another extends the record and uses the inherited operations.

  Every policy is an instance of the interface, LRU implements a list of the entries in order of
  their last use, and the search of the second chance policy ends.
\<close>

subsection \<open>LRU, and BIP and SBIP, which insert differently\<close>

record LRUReplData =
  lastTouchTick :: u64

definition LRU_instantiateEntry :: LRUReplData where
  "LRU_instantiateEntry = \<lparr>lastTouchTick = 0\<rparr>"

definition LRU_invalidate :: "rp_env \<Rightarrow> 'a LRUReplData_scheme \<Rightarrow> 'a LRUReplData_scheme" where
  "LRU_invalidate e d = d\<lparr>lastTouchTick := 0\<rparr>"

definition LRU_touch :: "rp_env \<Rightarrow> 'a LRUReplData_scheme \<Rightarrow> 'a LRUReplData_scheme" where
  "LRU_touch e d = d\<lparr>lastTouchTick := curTick e\<rparr>"

definition LRU_reset :: "rp_env \<Rightarrow> 'a LRUReplData_scheme \<Rightarrow> 'a LRUReplData_scheme" where
  "LRU_reset e d = d\<lparr>lastTouchTick := curTick e\<rparr>"

definition LRU_getVictim :: "rp_env \<Rightarrow> 'a LRUReplData_scheme list \<Rightarrow> (nat \<times> 'a LRUReplData_scheme list) option" where
  "LRU_getVictim e s = do {
     c_assert (length s > 0);
     Some (visit (\<lambda>candidate victim. lastTouchTick (s ! candidate) < lastTouchTick (s ! victim)) 0 [0..<length s], s)
   }"

definition BIP_reset :: "nat \<Rightarrow> rp_env \<Rightarrow> LRUReplData \<Rightarrow> LRUReplData" where
  "BIP_reset btp e d = (if random e 1 100 \<le> btp then d\<lparr>lastTouchTick := curTick e\<rparr> else d\<lparr>lastTouchTick := 1\<rparr>)"

definition BIP_reset_inst_line :: "nat \<Rightarrow> bool \<Rightarrow> rp_env \<Rightarrow> LRUReplData \<Rightarrow> LRUReplData" where
  "BIP_reset_inst_line btp is_inst e d =
     (if \<not> is_inst then d\<lparr>lastTouchTick := curTick e\<rparr>
      else if random e 1 100 \<le> btp then d\<lparr>lastTouchTick := curTick e\<rparr> else d\<lparr>lastTouchTick := 1\<rparr>)"

definition SBIP_reset :: "rp_env \<Rightarrow> LRUReplData \<Rightarrow> LRUReplData" where
  "SBIP_reset e d = d\<lparr>lastTouchTick := 1\<rparr>"

definition SBIP_reset_inst_line :: "bool \<Rightarrow> rp_env \<Rightarrow> LRUReplData \<Rightarrow> LRUReplData" where
  "SBIP_reset_inst_line is_inst e d = (if \<not> is_inst then d\<lparr>lastTouchTick := curTick e\<rparr> else d\<lparr>lastTouchTick := 1\<rparr>)"

definition SBIP_starveMRU :: "rp_env \<Rightarrow> LRUReplData \<Rightarrow> LRUReplData" where
  "SBIP_starveMRU e d = d\<lparr>lastTouchTick := curTick e\<rparr>"

text \<open>
  The reset with a packet of the base class: a policy for instruction lines only calls
  \<open>reset_inst_line\<close>, which does nothing in the policies that do not define it.
\<close>

definition Base_reset_pkt :: "bool \<Rightarrow> (rp_env \<Rightarrow> 'd \<Rightarrow> 'd) \<Rightarrow> (bool \<Rightarrow> rp_env \<Rightarrow> 'd \<Rightarrow> 'd) \<Rightarrow> bool \<Rightarrow> rp_env \<Rightarrow> 'd \<Rightarrow> 'd" where
  "Base_reset_pkt inst_only rst rst_inst_line isInstFetch e d = (if inst_only then rst_inst_line isInstFetch e d else rst e d)"

definition Base_reset_inst_line :: "bool \<Rightarrow> rp_env \<Rightarrow> 'd \<Rightarrow> 'd" where
  "Base_reset_inst_line is_inst e d = d"

subsection \<open>Weighted LRU\<close>

record WeightedLRUReplData = LRUReplData +
  last_occ_ptr :: int

definition WeightedLRU_touch :: "int \<Rightarrow> rp_env \<Rightarrow> WeightedLRUReplData \<Rightarrow> WeightedLRUReplData" where
  "WeightedLRU_touch occupancy e d = (LRU_touch e d)\<lparr>last_occ_ptr := occupancy\<rparr>"

definition WeightedLRU_getVictim :: "rp_env \<Rightarrow> WeightedLRUReplData list \<Rightarrow> (nat \<times> WeightedLRUReplData list) option" where
  "WeightedLRU_getVictim e s = do {
     c_assert (length s > 0);
     Some (visit (\<lambda>candidate victim.
         if last_occ_ptr (s ! candidate) < last_occ_ptr (s ! victim) then True
         else if last_occ_ptr (s ! candidate) = last_occ_ptr (s ! victim) then
           lastTouchTick (s ! candidate) < lastTouchTick (s ! victim)
         else False) 0 [0..<length s], s)
   }"

subsection \<open>MRU\<close>

record MRUReplData =
  mru_lastTouchTick :: u64

definition MRU_invalidate :: "rp_env \<Rightarrow> MRUReplData \<Rightarrow> MRUReplData" where
  "MRU_invalidate e d = d\<lparr>mru_lastTouchTick := 0\<rparr>"

definition MRU_touch :: "rp_env \<Rightarrow> MRUReplData \<Rightarrow> MRUReplData" where
  "MRU_touch e d = d\<lparr>mru_lastTouchTick := curTick e\<rparr>"

definition MRU_reset :: "rp_env \<Rightarrow> MRUReplData \<Rightarrow> MRUReplData" where
  "MRU_reset e d = d\<lparr>mru_lastTouchTick := curTick e\<rparr>"

fun MRU_search :: "MRUReplData list \<Rightarrow> nat \<Rightarrow> nat list \<Rightarrow> nat" where
  "MRU_search s victim [] = victim"
| "MRU_search s victim (candidate # cs) =
     (if mru_lastTouchTick (s ! candidate) = 0 then candidate
      else if mru_lastTouchTick (s ! candidate) > mru_lastTouchTick (s ! victim) then MRU_search s candidate cs
      else MRU_search s victim cs)"

definition MRU_getVictim :: "rp_env \<Rightarrow> MRUReplData list \<Rightarrow> (nat \<times> MRUReplData list) option" where
  "MRU_getVictim e s = do {
     c_assert (length s > 0);
     Some (MRU_search s 0 [0..<length s], s)
   }"

subsection \<open>FIFO and second chance\<close>

record FIFOReplData =
  tickInserted :: u64

definition FIFO_invalidate :: "rp_env \<Rightarrow> 'a FIFOReplData_scheme \<Rightarrow> 'a FIFOReplData_scheme" where
  "FIFO_invalidate e d = d\<lparr>tickInserted := 0\<rparr>"

definition FIFO_touch :: "rp_env \<Rightarrow> 'a FIFOReplData_scheme \<Rightarrow> 'a FIFOReplData_scheme" where
  "FIFO_touch e d = d"

definition FIFO_reset :: "rp_env \<Rightarrow> 'a FIFOReplData_scheme \<Rightarrow> 'a FIFOReplData_scheme" where
  "FIFO_reset e d = d\<lparr>tickInserted := curTick e\<rparr>"

definition FIFO_getVictim :: "rp_env \<Rightarrow> 'a FIFOReplData_scheme list \<Rightarrow> (nat \<times> 'a FIFOReplData_scheme list) option" where
  "FIFO_getVictim e s = do {
     c_assert (length s > 0);
     Some (visit (\<lambda>candidate victim. tickInserted (s ! candidate) < tickInserted (s ! victim)) 0 [0..<length s], s)
   }"

record SecondChanceReplData = FIFOReplData +
  hasSecondChance :: bool

definition useSecondChance :: "rp_env \<Rightarrow> SecondChanceReplData \<Rightarrow> SecondChanceReplData" where
  "useSecondChance e d = (FIFO_reset e d)\<lparr>hasSecondChance := False\<rparr>"

definition SecondChance_invalidate :: "rp_env \<Rightarrow> SecondChanceReplData \<Rightarrow> SecondChanceReplData" where
  "SecondChance_invalidate e d = (FIFO_invalidate e d)\<lparr>hasSecondChance := False\<rparr>"

definition SecondChance_touch :: "rp_env \<Rightarrow> SecondChanceReplData \<Rightarrow> SecondChanceReplData" where
  "SecondChance_touch e d = (FIFO_touch e d)\<lparr>hasSecondChance := True\<rparr>"

definition SecondChance_reset :: "rp_env \<Rightarrow> SecondChanceReplData \<Rightarrow> SecondChanceReplData" where
  "SecondChance_reset e d = (FIFO_reset e d)\<lparr>hasSecondChance := False\<rparr>"

lemma FIFO_getVictim_in: "FIFO_getVictim e s = Some (w, s') \<Longrightarrow> w < length s \<and> s' = s"
  by (auto simp: FIFO_getVictim_def split: if_splits)

function SecondChance_search :: "rp_env \<Rightarrow> SecondChanceReplData list \<Rightarrow> (nat \<times> SecondChanceReplData list) option" where
  "SecondChance_search e s =
     (case FIFO_getVictim e s of
        None \<Rightarrow> None
      | Some (victim, _) \<Rightarrow>
          if hasSecondChance (s ! victim) then SecondChance_search e (s[victim := useSecondChance e (s ! victim)])
          else Some (victim, s))"
  by pat_completeness auto

text \<open>Every round of the search uses up one second chance.\<close>

lemma filter_update_less:
  assumes "w < length s" "P (s ! w)" "\<not> P d"
  shows "length (filter P (s[w := d])) < length (filter P s)"
proof -
  have "s = take w s @ s ! w # drop (Suc w) s" using assms(1) by (rule id_take_nth_drop)
  then have "length (filter P s) = length (filter P (take w s @ s ! w # drop (Suc w) s))" by simp
  then show ?thesis using assms by (simp add: upd_conv_take_nth_drop)
qed

termination SecondChance_search
proof (relation "measure (\<lambda>(e, s). length (filter hasSecondChance s))")
  fix e x2 victim and s y :: "SecondChanceReplData list"
  assume "FIFO_getVictim e s = Some x2" "(victim, y) = x2" "hasSecondChance (s ! victim)"
  then show "((e, s[victim := useSecondChance e (s ! victim)]), (e, s)) \<in> measure (\<lambda>(e, s). length (filter hasSecondChance s))"
    using FIFO_getVictim_in [of e s victim y] filter_update_less [of victim s hasSecondChance "useSecondChance e (s ! victim)"]
    by (auto simp: useSecondChance_def)
qed simp

declare SecondChance_search.simps [simp del]

definition SecondChance_getVictim :: "rp_env \<Rightarrow> SecondChanceReplData list \<Rightarrow> (nat \<times> SecondChanceReplData list) option" where
  "SecondChance_getVictim e s = do {
     c_assert (length s > 0);
     let i = find_index (\<lambda>d. tickInserted d = 0 \<and> \<not> hasSecondChance d) s;
     if i < length s then Some (i, s) else SecondChance_search e s
   }"

subsection \<open>LFU and random\<close>

record LFUReplData =
  refCount :: u32

definition LFU_invalidate :: "rp_env \<Rightarrow> LFUReplData \<Rightarrow> LFUReplData" where
  "LFU_invalidate e d = d\<lparr>refCount := 0\<rparr>"

definition LFU_touch :: "rp_env \<Rightarrow> LFUReplData \<Rightarrow> LFUReplData" where
  "LFU_touch e d = d\<lparr>refCount := refCount d + 1\<rparr>"

definition LFU_reset :: "rp_env \<Rightarrow> LFUReplData \<Rightarrow> LFUReplData" where
  "LFU_reset e d = d\<lparr>refCount := 1\<rparr>"

definition LFU_getVictim :: "rp_env \<Rightarrow> LFUReplData list \<Rightarrow> (nat \<times> LFUReplData list) option" where
  "LFU_getVictim e s = do {
     c_assert (length s > 0);
     Some (visit (\<lambda>candidate victim. refCount (s ! candidate) < refCount (s ! victim)) 0 [0..<length s], s)
   }"

record RandomReplData =
  rnd_valid :: bool

definition Random_invalidate :: "rp_env \<Rightarrow> RandomReplData \<Rightarrow> RandomReplData" where
  "Random_invalidate e d = d\<lparr>rnd_valid := False\<rparr>"

definition Random_touch :: "rp_env \<Rightarrow> RandomReplData \<Rightarrow> RandomReplData" where
  "Random_touch e d = d"

definition Random_reset :: "rp_env \<Rightarrow> RandomReplData \<Rightarrow> RandomReplData" where
  "Random_reset e d = d\<lparr>rnd_valid := True\<rparr>"

definition Random_getVictim :: "rp_env \<Rightarrow> RandomReplData list \<Rightarrow> (nat \<times> RandomReplData list) option" where
  "Random_getVictim e s = do {
     c_assert (length s > 0);
     let victim = random e 0 (length s - 1);
     let i = find_index (\<lambda>d. \<not> rnd_valid d) s;
     Some (if i < length s then i else victim, s)
   }"


subsection \<open>All of them are replacement policies\<close>

lemma list_all_True [simp]: "list_all (\<lambda>d. True) s"
  by (simp add: list_all_iff)

named_theorems victim_defs

lemmas victim_unfold [victim_defs] =
  LRU_getVictim_def WeightedLRU_getVictim_def FIFO_getVictim_def LFU_getVictim_def MRU_getVictim_def Random_getVictim_def

interpretation lru: entry_policy "\<lambda>d. True" LRU_touch LRU_reset LRU_invalidate LRU_getVictim
  by unfold_locales (simp_all add: victim_defs)

interpretation bip: entry_policy "\<lambda>d. True" LRU_touch "BIP_reset btp" LRU_invalidate LRU_getVictim for btp
  by unfold_locales (simp_all add: victim_defs)

interpretation sbip: entry_policy "\<lambda>d. True" LRU_touch SBIP_reset LRU_invalidate LRU_getVictim
  by unfold_locales (simp_all add: victim_defs)

interpretation weighted_lru: entry_policy "\<lambda>d. True" "WeightedLRU_touch occupancy" LRU_reset LRU_invalidate WeightedLRU_getVictim
  for occupancy
  by unfold_locales (simp_all add: victim_defs)

interpretation fifo: entry_policy "\<lambda>d. True" FIFO_touch FIFO_reset FIFO_invalidate FIFO_getVictim
  by unfold_locales (simp_all add: victim_defs)

interpretation lfu: entry_policy "\<lambda>d. True" LFU_touch LFU_reset LFU_invalidate LFU_getVictim
  by unfold_locales (simp_all add: victim_defs)

lemma MRU_search_in: "MRU_search s victim cs \<in> Set.insert victim (set cs)"
  by (induction cs arbitrary: victim) fastforce+

interpretation mru: entry_policy "\<lambda>d. True" MRU_touch MRU_reset MRU_invalidate MRU_getVictim
proof unfold_locales
  fix e and s :: "MRUReplData list"
  assume "s \<noteq> []"
  then show "\<exists>w s'. MRU_getVictim e s = Some (w, s') \<and> w < length s \<and> length s' = length s \<and> list_all (\<lambda>d. True) s'"
    using MRU_search_in [of s 0 "[0..<length s]"] by (auto simp: victim_defs)
qed simp_all

interpretation random_rp: entry_policy "\<lambda>d. True" Random_touch Random_reset Random_invalidate Random_getVictim
proof unfold_locales
  fix e and s :: "RandomReplData list"
  assume e: "env_ok e" and s: "s \<noteq> []"
  have "random e 0 (length s - 1) \<le> length s - 1" using e by (simp add: env_ok_def)
  then have "random e 0 (length s - 1) < length s" using s by (cases s) auto
  then show "\<exists>w s'. Random_getVictim e s = Some (w, s') \<and> w < length s \<and> length s' = length s \<and> list_all (\<lambda>d. True) s'"
    using s by (simp add: victim_defs Let_def)
qed simp_all

lemma SecondChance_search_total:
  "s \<noteq> [] \<Longrightarrow> \<exists>w s'. SecondChance_search e s = Some (w, s') \<and> w < length s \<and> length s' = length s"
proof (induction e s rule: SecondChance_search.induct)
  case (1 e s)
  obtain v where v: "FIFO_getVictim e s = Some (v, s)" "v < length s" using "1.prems" by (simp add: victim_defs)
  show ?case
    using "1.IH" [OF v(1) refl] "1.prems" v by (subst (1) SecondChance_search.simps) simp
qed

interpretation second_chance: entry_policy "\<lambda>d. True" SecondChance_touch SecondChance_reset SecondChance_invalidate SecondChance_getVictim
proof unfold_locales
  fix e and s :: "SecondChanceReplData list"
  assume "s \<noteq> []"
  then show "\<exists>w s'. SecondChance_getVictim e s = Some (w, s') \<and> w < length s \<and> length s' = length s \<and> list_all (\<lambda>d. True) s'"
    using SecondChance_search_total [of s e] by (auto simp: SecondChance_getVictim_def Let_def)
qed simp_all


subsection \<open>LRU keeps the entries in order of their last use\<close>

definition recency :: "'a LRUReplData_scheme list \<Rightarrow> nat list" where
  "recency s = sort_key (\<lambda>w. lastTouchTick (s ! w)) [0..<length s]"

lemma sort_key_move_last:
  assumes xs: "distinct xs" "w \<in> set xs"
    and same: "\<And>x. x \<in> set xs \<Longrightarrow> x \<noteq> w \<Longrightarrow> g x = f x"
    and last: "\<And>x. x \<in> set xs \<Longrightarrow> x \<noteq> w \<Longrightarrow> g x < g w"
  shows "sort_key g xs = remove1 w (sort_key f xs) @ [w]"
proof (rule properties_for_sort_key)
  let ?l = "sort_key f xs"
  have rem: "remove1 w ?l = filter (\<lambda>x. x \<noteq> w) ?l" using xs(1) by (simp add: distinct_remove1_removeAll removeAll_filter_not_eq) metis
  show "mset (remove1 w ?l @ [w]) = mset xs" using xs(2) by simp
  have ne: "g w \<noteq> g x" if "x \<in> set xs" "x \<noteq> w" for x using last [OF that] by simp
  have only: "filter (\<lambda>x. g w = g x) xs = [w]"
  proof -
    have "filter (\<lambda>x. g w = g x) xs = filter (\<lambda>x. x = w) xs" using ne by (intro filter_cong) (simp, metis)
    also have "\<dots> = [w]" using xs by (induction xs) (auto simp: filter_empty_conv)
    finally show ?thesis .
  qed
  show "filter (\<lambda>x. g k = g x) (remove1 w ?l @ [w]) = filter (\<lambda>x. g k = g x) xs" if "k \<in> set (remove1 w ?l @ [w])" for k
  proof (cases "k = w")
    case True
    have "filter (\<lambda>x. g w = g x) (remove1 w ?l) = []" using ne unfolding rem filter_filter filter_empty_conv set_sort by blast
    then show ?thesis using only True by simp
  next
    case False
    then have k: "k \<in> set xs" using that by (simp add: rem)
    then have k': "g k \<noteq> g w" using ne [OF _ False] by metis
    have iff: "x \<noteq> w \<and> f k = f x \<longleftrightarrow> g k = g x" if "x \<in> set xs" for x
      using same [OF k False] same [OF that] k' by (cases "x = w") auto
    have "filter (\<lambda>x. g k = g x) (remove1 w ?l @ [w]) = filter (\<lambda>x. x \<noteq> w \<and> f k = f x) ?l"
    proof -
      have "filter (\<lambda>x. g k = g x) (remove1 w ?l @ [w]) = filter (\<lambda>x. x \<noteq> w \<and> g k = g x) ?l"
        using k' by (simp add: rem conj_commute)
      also have "\<dots> = filter (\<lambda>x. x \<noteq> w \<and> f k = f x) ?l" using iff by (intro filter_cong refl) (metis set_sort)
      finally show ?thesis .
    qed
    also have "\<dots> = filter (\<lambda>x. x \<noteq> w) (filter (\<lambda>x. f x = f k) ?l)" by (simp add: conj_commute eq_commute)
    also have "\<dots> = filter (\<lambda>x. x \<noteq> w \<and> f k = f x) xs" by (simp add: sort_key_stable conj_commute eq_commute)
    also have "\<dots> = filter (\<lambda>x. g k = g x) xs" using iff by (intro filter_cong) simp_all
    finally show ?thesis .
  qed
  have "sorted (map f (filter (\<lambda>x. x \<noteq> w) ?l))" using sorted_filter [of f ?l "\<lambda>x. x \<noteq> w"] by simp
  moreover have "map f (filter (\<lambda>x. x \<noteq> w) ?l) = map g (filter (\<lambda>x. x \<noteq> w) ?l)" using same by auto
  ultimately show "sorted (map g (remove1 w ?l @ [w]))" using last by (auto simp: rem sorted_append less_imp_le)
qed

lemma recency_touch:
  assumes "w < length s" "\<forall>d \<in> set s. lastTouchTick d < curTick e"
  shows "recency (s[w := LRU_touch e (s ! w)]) = remove1 w (recency s) @ [w]"
  unfolding recency_def length_list_update
  by (rule sort_key_move_last) (use assms in \<open>auto simp: LRU_touch_def\<close>)

lemma LRU_victim_hd:
  assumes "s \<noteq> []"
  shows "LRU_getVictim e s = Some (hd (recency s), s)"
proof -
  let ?k = "\<lambda>w. lastTouchTick (s ! w)"
  have "first_min ?k (length s) (visit (\<lambda>c v. ?k c < ?k v) 0 [0..<length s])"
    using assms by (intro visit_first_min) simp_all
  moreover have "first_min ?k (length s) (hd (recency s))"
    using assms unfolding recency_def by (intro first_min_sort_key) simp
  ultimately show ?thesis using assms by (simp add: LRU_getVictim_def first_min_unique)
qed

subsection \<open>The search of the second chance policy\<close>

text \<open>What the search does to the candidates: it uses up second chances and changes nothing else.\<close>

definition chances_used :: "rp_env \<Rightarrow> SecondChanceReplData list \<Rightarrow> SecondChanceReplData list \<Rightarrow> bool" where
  "chances_used e s s' \<longleftrightarrow> length s' = length s \<and>
     (\<forall>i < length s. s' ! i = s ! i \<or> hasSecondChance (s ! i) \<and> s' ! i = useSecondChance e (s ! i))"

lemma chances_used_step:
  assumes "chances_used e s0 s" "v < length s" "hasSecondChance (s ! v)"
  shows "chances_used e s0 (s[v := useSecondChance e (s ! v)])"
  using assms unfolding chances_used_def by (auto simp: nth_list_update useSecondChance_def)

lemma SecondChance_search_spec:
  "SecondChance_search e s = Some (w, s') \<Longrightarrow> chances_used e s0 s \<Longrightarrow>
     chances_used e s0 s' \<and> \<not> hasSecondChance (s' ! w) \<and> first_min (\<lambda>i. tickInserted (s' ! i)) (length s') w"
proof (induction e s rule: SecondChance_search.induct)
  case (1 e s)
  show ?case
  proof (cases "FIFO_getVictim e s")
    case None
    then show ?thesis using "1.prems"(1) by (simp add: SecondChance_search.simps)
  next
    case (Some a)
    obtain v where v: "FIFO_getVictim e s = Some (v, s)" "v < length s"
      using Some FIFO_getVictim_in [of e s] by (cases a) auto
    have m: "first_min (\<lambda>i. tickInserted (s ! i)) (length s) v"
      using v visit_first_min [of "length s" _ "\<lambda>i. tickInserted (s ! i)"] by (auto simp: FIFO_getVictim_def split: if_splits)
    show ?thesis
    proof (cases "hasSecondChance (s ! v)")
      case True
      have "SecondChance_search e (s[v := useSecondChance e (s ! v)]) = Some (w, s')"
        using "1.prems"(1) v True unfolding SecondChance_search.simps [of e s] by simp
      then show ?thesis
        using "1.IH" [OF v(1) refl True] chances_used_step [OF "1.prems"(2) v(2) True] by blast
    next
      case False
      then have "w = v" "s' = s" using "1.prems"(1) v unfolding SecondChance_search.simps [of e s] by auto
      then show ?thesis using False m "1.prems"(2) by simp
    qed
  qed
qed

lemma MRU_search_eq:
  "MRU_search s v cs = (case find (\<lambda>c. mru_lastTouchTick (s ! c) = 0) cs of Some c \<Rightarrow> c
     | None \<Rightarrow> visit (\<lambda>c v. mru_lastTouchTick (s ! v) < mru_lastTouchTick (s ! c)) v cs)"
  by (induction cs arbitrary: v) (auto split: option.split)

subsection \<open>Properties\<close>

text \<open>
  C20: LRU implements the list of the entries in order of their last use.  The victim is the head
  of the list, and using an entry, later than all uses so far, moves it to the end.
\<close>

theorem lru_refines_recency_list:
  assumes "w < length s" "\<forall>d \<in> set s. lastTouchTick d < curTick e"
  shows "LRU_getVictim e s = Some (hd (recency s), s) \<and>
    map_option recency (at_entry LRU_touch e w s) = Some (remove1 w (recency s) @ [w])"
proof -
  have "s \<noteq> []" using assms(1) by auto
  then show ?thesis using LRU_victim_hd recency_touch [OF assms] assms(1) by (simp add: at_entry_def)
qed

theorem lru_refines_recency_list_witness:
  "map_option recency (at_entry LRU_touch \<lparr>curTick = 9, random = (\<lambda>lo hi. lo)\<rparr> 1
      [\<lparr>lastTouchTick = 5\<rparr>, \<lparr>lastTouchTick = 3\<rparr>, \<lparr>lastTouchTick = 7\<rparr>]) = Some [0, 2, 1]"
proof -
  have "recency [\<lparr>lastTouchTick = 5\<rparr>, \<lparr>lastTouchTick = 3\<rparr>, \<lparr>lastTouchTick = 7\<rparr>] = [1, 0, 2]" by code_simp
  then show ?thesis
    using lru_refines_recency_list [of 1 "[\<lparr>lastTouchTick = 5\<rparr>, \<lparr>lastTouchTick = 3\<rparr>, \<lparr>lastTouchTick = 7\<rparr>]"
        "\<lparr>curTick = 9, random = (\<lambda>lo hi. lo)\<rparr>"] by simp
qed

text \<open>
  The MRU policy evicts the first entry that was never used since it became invalid, and if
  there is none the entry used last.
\<close>

theorem mru_victim:
  assumes "s \<noteq> []"
  shows "\<exists>w. MRU_getVictim e s = Some (w, s) \<and> w < length s \<and>
    (if \<exists>d \<in> set s. mru_lastTouchTick d = 0
     then mru_lastTouchTick (s ! w) = 0 \<and> (\<forall>c < w. mru_lastTouchTick (s ! c) \<noteq> 0)
     else \<forall>d \<in> set s. mru_lastTouchTick d \<le> mru_lastTouchTick (s ! w))"
proof -
  let ?t = "\<lambda>i. mru_lastTouchTick (s ! i)" and ?f = "find (\<lambda>c. mru_lastTouchTick (s ! c) = 0) [0..<length s]"
  have eq: "MRU_getVictim e s = Some (MRU_search s 0 [0..<length s], s)" using assms by (simp add: MRU_getVictim_def)
  show ?thesis
  proof (cases ?f)
    case None
    then have no: "\<not> (\<exists>d \<in> set s. mru_lastTouchTick d = 0)" by (auto simp: find_None_iff in_set_conv_nth)
    have "first_min (\<lambda>i. - uint (?t i)) (length s) (visit (\<lambda>c v. ?t v < ?t c) 0 [0..<length s])"
      using assms by (intro visit_first_min) (simp_all add: word_less_def)
    then show ?thesis using no eq None
      by (auto simp: MRU_search_eq first_min_def word_le_def in_set_conv_nth intro!: exI)
  next
    case (Some c)
    then have "c < length s" "?t c = 0" "\<forall>j < c. ?t j \<noteq> 0" by (auto simp: find_Some_iff)
    then show ?thesis using eq Some by (auto simp: MRU_search_eq)
  qed
qed

theorem mru_victim_witness:
  "\<exists>w. MRU_getVictim \<lparr>curTick = 9, random = (\<lambda>lo hi. lo)\<rparr> [\<lparr>mru_lastTouchTick = 5\<rparr>, \<lparr>mru_lastTouchTick = 7\<rparr>] =
      Some (w, [\<lparr>mru_lastTouchTick = 5\<rparr>, \<lparr>mru_lastTouchTick = 7\<rparr>]) \<and> w < 2"
  using mru_victim [of "[\<lparr>mru_lastTouchTick = 5\<rparr>, \<lparr>mru_lastTouchTick = 7\<rparr>]" "\<lparr>curTick = 9, random = (\<lambda>lo hi. lo)\<rparr>"]
  by auto

text \<open>
  The search of the second chance policy ends.  If some candidate has no second chance, the
  victim is the one inserted first among those, and all the search changes is that other
  candidates lose their second chance and count as inserted now.
\<close>

theorem second_chance_victim:
  assumes "u < length s" "\<not> hasSecondChance (s ! u)" "\<forall>d \<in> set s. 0 < tickInserted d \<and> tickInserted d < curTick e"
  shows "\<exists>w s'. SecondChance_getVictim e s = Some (w, s') \<and> w < length s \<and> chances_used e s s' \<and>
    \<not> hasSecondChance (s ! w) \<and> s' ! w = s ! w \<and>
    (\<forall>v < length s. \<not> hasSecondChance (s ! v) \<longrightarrow> tickInserted (s ! w) \<le> tickInserted (s ! v))"
proof -
  have ne: "s \<noteq> []" using assms(1) by auto
  have "find_index (\<lambda>d. tickInserted d = 0 \<and> \<not> hasSecondChance d) s = length s"
    using assms(3) by (auto simp: find_index_eq_length_iff)
  then have eq: "SecondChance_getVictim e s = SecondChance_search e s" using ne by (simp add: SecondChance_getVictim_def)
  obtain w s' where w: "SecondChance_search e s = Some (w, s')" "w < length s" "length s' = length s"
    using SecondChance_search_total [OF ne] by blast
  have "chances_used e s s" by (simp add: chances_used_def)
  from SecondChance_search_spec [OF w(1) this] have sp: "chances_used e s s'" "\<not> hasSecondChance (s' ! w)"
    "\<And>v. v < length s \<Longrightarrow> tickInserted (s' ! w) \<le> tickInserted (s' ! v)"
    by (auto simp: first_min_def w(3))
  have same: "s' ! v = s ! v" if "v < length s" "\<not> hasSecondChance (s ! v)" for v
    using sp(1) that by (auto simp: chances_used_def)
  have "tickInserted (s' ! w) \<le> tickInserted (s ! u)" using sp(3) [OF assms(1)] same [OF assms(1,2)] by simp
  also have "\<dots> < curTick e" using assms(1,3) by simp
  finally have "s' ! w \<noteq> useSecondChance e (s ! w)" by (auto simp: useSecondChance_def FIFO_reset_def)
  then have "s' ! w = s ! w" using sp(1) w(2) by (auto simp: chances_used_def)
  then show ?thesis using eq w sp same by metis
qed

theorem second_chance_victim_witness:
  "\<exists>w s'. SecondChance_getVictim \<lparr>curTick = 9, random = (\<lambda>lo hi. lo)\<rparr>
      [\<lparr>tickInserted = 2, hasSecondChance = True\<rparr>, \<lparr>tickInserted = 4, hasSecondChance = False\<rparr>] = Some (w, s') \<and> w < 2"
  using second_chance_victim [of 1 "[\<lparr>tickInserted = 2, hasSecondChance = True\<rparr>, \<lparr>tickInserted = 4, hasSecondChance = False\<rparr>]"
      "\<lparr>curTick = 9, random = (\<lambda>lo hi. lo)\<rparr>"] by auto

end
