(* ===== verification/Sat_Counter.thy ===== *)
theory Sat_Counter
  imports Gem5_Prelude
begin

section \<open>Saturating counters\<close>

text \<open>
  The class template \<open>GenericSatCounter\<close> of \<open>base/sat_counter.hh\<close>.  The container type is a field:
  \<open>sc_width\<close> is its number of bits (8, 16, 32 or 64 for the four typedefs), the values are natural
  numbers, and what the container cuts off is written out with \<open>mod\<close>.  The failing checks of the
  constructor and the assertions of the shifts give \<^const>\<open>None\<close>, and so does the undefined shift
  of a 64-bit one by 64.

  The lemmas show that the value stays within its bounds under every operation and that adding
  and subtracting clamp the mathematical result.
\<close>

record sat_counter =
  sc_width :: nat
  initialVal :: nat
  maxVal :: nat
  counter :: nat

definition SatCounter_new :: "nat \<Rightarrow> nat \<Rightarrow> nat \<Rightarrow> sat_counter option" where
  "SatCounter_new width bits initial_val = do {
     c_assert (bits < 64);
     let m = (2 ^ bits - 1) mod 2 ^ width;
     c_assert (\<not> bits > width);
     c_assert (\<not> initial_val > m);
     Some \<lparr>sc_width = width, initialVal = initial_val, maxVal = m, counter = initial_val\<rparr>
   }"

definition sc_swap :: "sat_counter \<Rightarrow> sat_counter \<Rightarrow> sat_counter \<times> sat_counter" where
  "sc_swap this other =
     (this\<lparr>initialVal := initialVal other, maxVal := maxVal other, counter := counter other\<rparr>,
      other\<lparr>initialVal := initialVal this, maxVal := maxVal this, counter := counter this\<rparr>)"

text \<open>Assignment by copy, and the move: the second result is what remains of the other counter.\<close>

definition sc_copy_assign :: "sat_counter \<Rightarrow> sat_counter \<Rightarrow> sat_counter" where
  "sc_copy_assign this other = fst (sc_swap this other)"

definition sc_move_assign :: "sat_counter \<Rightarrow> sat_counter \<Rightarrow> (sat_counter \<times> sat_counter) option" where
  "sc_move_assign this other = do {
     temp \<leftarrow> SatCounter_new (sc_width other) 0 0;
     Some (this\<lparr>initialVal := initialVal other, maxVal := maxVal other, counter := counter other\<rparr>,
           fst (sc_swap other temp))
   }"

definition sc_inc :: "sat_counter \<Rightarrow> sat_counter" where
  "sc_inc c = (if counter c < maxVal c then c\<lparr>counter := counter c + 1\<rparr> else c)"

definition sc_dec :: "sat_counter \<Rightarrow> sat_counter" where
  "sc_dec c = (if counter c > 0 then c\<lparr>counter := counter c - 1\<rparr> else c)"

definition sc_shr :: "sat_counter \<Rightarrow> int \<Rightarrow> sat_counter option" where
  "sc_shr c shift = do {
     c_assert (shift \<ge> 0);
     Some (c\<lparr>counter := counter c div 2 ^ nat shift\<rparr>)
   }"

definition sc_shl :: "sat_counter \<Rightarrow> int \<Rightarrow> sat_counter option" where
  "sc_shl c shift = do {
     c_assert (shift \<ge> 0);
     let v = (counter c * 2 ^ nat shift) mod 2 ^ sc_width c;
     Some (c\<lparr>counter := (if v > maxVal c then maxVal c else v)\<rparr>)
   }"

text \<open>
  The two assignments call each other once, with the opposite sign.  The comparisons are between
  a value of the container type and a \<open>long long\<close> that is not negative, so they are exact.
\<close>

definition sc_add_nonneg :: "sat_counter \<Rightarrow> int \<Rightarrow> sat_counter" where
  "sc_add_nonneg c v =
     (if int (maxVal c) - int (counter c) \<ge> v then c\<lparr>counter := (counter c + nat v) mod 2 ^ sc_width c\<rparr>
      else c\<lparr>counter := maxVal c\<rparr>)"

definition sc_sub_nonneg :: "sat_counter \<Rightarrow> int \<Rightarrow> sat_counter" where
  "sc_sub_nonneg c v =
     (if int (counter c) > v then c\<lparr>counter := counter c - nat v\<rparr> else c\<lparr>counter := 0\<rparr>)"

definition sc_add :: "sat_counter \<Rightarrow> int \<Rightarrow> sat_counter" where
  "sc_add c v = (if v \<ge> 0 then sc_add_nonneg c v else sc_sub_nonneg c (- v))"

definition sc_sub :: "sat_counter \<Rightarrow> int \<Rightarrow> sat_counter" where
  "sc_sub c v = (if v \<ge> 0 then sc_sub_nonneg c v else sc_add_nonneg c (- v))"

definition sc_reset :: "sat_counter \<Rightarrow> sat_counter" where
  "sc_reset c = c\<lparr>counter := initialVal c\<rparr>"

definition isSaturated :: "sat_counter \<Rightarrow> bool" where
  "isSaturated c \<longleftrightarrow> counter c = maxVal c"

text \<open>The difference is returned in eight bits.\<close>

definition sc_saturate :: "sat_counter \<Rightarrow> nat \<times> sat_counter" where
  "sc_saturate c = ((maxVal c - counter c) mod 2 ^ 8, c\<lparr>counter := maxVal c\<rparr>)"

subsection \<open>Bounds\<close>

definition sc_ok :: "sat_counter \<Rightarrow> bool" where
  "sc_ok c \<longleftrightarrow> counter c \<le> maxVal c \<and> initialVal c \<le> maxVal c \<and> maxVal c < 2 ^ sc_width c"

text \<open>Two counters with the same container, initial and maximal value.\<close>

definition sc_same :: "sat_counter \<Rightarrow> sat_counter \<Rightarrow> bool" where
  "sc_same c d \<longleftrightarrow> sc_width c = sc_width d \<and> initialVal c = initialVal d \<and> maxVal c = maxVal d"

lemma sc_same_refl [simp]: "sc_same c c"
  by (simp add: sc_same_def)

lemma sc_same_trans: "sc_same c d \<Longrightarrow> sc_same d e \<Longrightarrow> sc_same c e"
  by (simp add: sc_same_def)

lemma SatCounter_new_spec:
  assumes "SatCounter_new width bits v = Some c"
  shows "sc_ok c" "counter c = v" "initialVal c = v" "sc_width c = width" "maxVal c = 2 ^ bits - 1"
proof -
  have b: "bits \<le> width" using assms by (auto simp: SatCounter_new_def Let_def split: if_splits)
  have "(2 :: nat) ^ bits - 1 < 2 ^ width"
    using power_increasing [OF b, of "2 :: nat"] zero_less_power [of "2 :: nat" bits] by linarith
  then show "maxVal c = 2 ^ bits - 1" using assms by (auto simp: SatCounter_new_def Let_def split: if_splits)
  show "sc_ok c" "counter c = v" "initialVal c = v" "sc_width c = width"
    using assms by (auto simp: SatCounter_new_def Let_def sc_ok_def split: if_splits)
qed

named_theorems sc_ops

lemma sc_inc_val [sc_ops]: "sc_ok c \<Longrightarrow> counter (sc_inc c) = min (maxVal c) (counter c + 1)"
  by (auto simp: sc_inc_def sc_ok_def)

lemma sc_dec_val [sc_ops]: "counter (sc_dec c) = counter c - 1"
  by (auto simp: sc_dec_def)

lemma sc_add_val [sc_ops]:
  "sc_ok c \<Longrightarrow> int (counter (sc_add c v)) = max 0 (min (int (maxVal c)) (int (counter c) + v))"
  by (auto simp: sc_add_def sc_add_nonneg_def sc_sub_nonneg_def sc_ok_def)

lemma sc_sub_val [sc_ops]:
  "sc_ok c \<Longrightarrow> int (counter (sc_sub c v)) = max 0 (min (int (maxVal c)) (int (counter c) - v))"
  by (auto simp: sc_sub_def sc_add_nonneg_def sc_sub_nonneg_def sc_ok_def)

lemma sc_same_ops [simp]:
  "sc_same (sc_inc c) c" "sc_same (sc_dec c) c" "sc_same (sc_add c v) c" "sc_same (sc_sub c v) c"
  "sc_same (sc_reset c) c" "sc_same (snd (sc_saturate c)) c"
  by (simp_all add: sc_same_def sc_inc_def sc_dec_def sc_add_def sc_sub_def sc_add_nonneg_def sc_sub_nonneg_def
      sc_reset_def sc_saturate_def)

lemma sc_okI: "sc_ok c \<Longrightarrow> sc_same d c \<Longrightarrow> counter d \<le> maxVal c \<Longrightarrow> sc_ok d"
  by (auto simp: sc_ok_def sc_same_def)

lemma sc_ok_ops [simp, intro]:
  assumes "sc_ok c"
  shows "sc_ok (sc_inc c)" "sc_ok (sc_dec c)" "sc_ok (sc_add c v)" "sc_ok (sc_sub c v)" "sc_ok (sc_reset c)"
    "sc_ok (snd (sc_saturate c))"
proof -
  have c: "counter c \<le> maxVal c" "initialVal c \<le> maxVal c" using assms by (auto simp: sc_ok_def)
  show "sc_ok (sc_inc c)" by (rule sc_okI [OF assms]) (simp_all add: sc_ops assms)
  show "sc_ok (sc_dec c)" by (rule sc_okI [OF assms]) (use c in \<open>simp_all add: sc_ops\<close>)
  have "int (counter (sc_add c v)) \<le> int (maxVal c)" "int (counter (sc_sub c v)) \<le> int (maxVal c)"
    using assms by (simp_all add: sc_ops)
  then show "sc_ok (sc_add c v)" "sc_ok (sc_sub c v)" by (auto intro: sc_okI [OF assms])
  show "sc_ok (sc_reset c)" by (rule sc_okI [OF assms sc_same_ops(5)]) (simp add: sc_reset_def c)
  show "sc_ok (snd (sc_saturate c))"
    by (rule sc_okI [OF assms sc_same_ops(6)]) (simp add: sc_saturate_def)
qed

lemma sc_shr_spec:
  assumes "sc_ok c" "0 \<le> n"
  shows "\<exists>d. sc_shr c n = Some d \<and> sc_ok d \<and> counter d = counter c div 2 ^ nat n"
proof -
  have "counter c div 2 ^ nat n \<le> maxVal c" using assms(1) by (meson div_le_dividend le_trans sc_ok_def)
  then show ?thesis using assms by (auto simp: sc_shr_def sc_ok_def)
qed

lemma sc_shl_spec:
  assumes "sc_ok c" "0 \<le> n"
  shows "\<exists>d. sc_shl c n = Some d \<and> sc_ok d \<and>
    (counter c * 2 ^ nat n < 2 ^ sc_width c \<longrightarrow> counter d = min (maxVal c) (counter c * 2 ^ nat n))"
  using assms by (auto simp: sc_shl_def sc_ok_def Let_def)

subsection \<open>Properties\<close>



text \<open>
  Shifting left does not saturate when the container loses bits.  An eight-bit counter of
  value 128 shifted left by one becomes 0, although the result of the shift exceeds the maximum.
\<close>

theorem shift_left_loses_saturation:
  "map_option counter (do { c \<leftarrow> SatCounter_new 8 8 128; sc_shl c 1 }) = Some 0"
  by code_simp

end
