(* ===== verification/Repl_RRIP.thy ===== *)
theory Repl_RRIP
  imports Repl_Policy Sat_Counter
begin

section \<open>Re-reference interval prediction: BRRIP and SHiP\<close>

text \<open>
  The policies of \<open>brrip_rp.cc\<close> and \<open>ship_rp.cc\<close>.  BRRIP keeps a saturating counter per entry, the
  predicted distance of its next use; SHiP adds a table of counters, indexed by a signature of
  the access, that decides how new entries are inserted.  The comparison of the saturation of a
  counter with the insertion threshold, made in floating point, is a parameter.

  The lemmas show that a victim has the largest prediction, that the predictions of all
  candidates age by the same amount, and that the accesses to SHiP's table are in range.
\<close>

subsection \<open>BRRIP\<close>

record BRRIPReplData =
  rrpv :: sat_counter
  brrip_valid :: bool

definition BRRIP_instantiateEntry :: "nat \<Rightarrow> BRRIPReplData option" where
  "BRRIP_instantiateEntry numRRPVBits = do {
     c_assert (\<not> numRRPVBits \<le> 0);
     c \<leftarrow> SatCounter_new 8 numRRPVBits 0;
     Some \<lparr>rrpv = c, brrip_valid = False\<rparr>
   }"

definition BRRIP_invalidate :: "rp_env \<Rightarrow> 'a BRRIPReplData_scheme \<Rightarrow> 'a BRRIPReplData_scheme" where
  "BRRIP_invalidate e d = d\<lparr>brrip_valid := False\<rparr>"

definition BRRIP_touch :: "bool \<Rightarrow> rp_env \<Rightarrow> 'a BRRIPReplData_scheme \<Rightarrow> 'a BRRIPReplData_scheme" where
  "BRRIP_touch hitPriority e d = (if hitPriority then d\<lparr>rrpv := sc_reset (rrpv d)\<rparr> else d\<lparr>rrpv := sc_dec (rrpv d)\<rparr>)"

definition BRRIP_reset :: "nat \<Rightarrow> rp_env \<Rightarrow> 'a BRRIPReplData_scheme \<Rightarrow> 'a BRRIPReplData_scheme" where
  "BRRIP_reset btp e d =
     (let c = snd (sc_saturate (rrpv d));
          c1 = (if random e 1 100 \<le> btp then sc_dec c else c)
      in d\<lparr>rrpv := c1, brrip_valid := True\<rparr>)"

text \<open>The loop returns an invalid candidate at once (\<open>Inl\<close>), or the victim (\<open>Inr\<close>).\<close>

fun BRRIP_search :: "'a BRRIPReplData_scheme list \<Rightarrow> nat \<Rightarrow> nat \<Rightarrow> nat list \<Rightarrow> nat + nat" where
  "BRRIP_search s victim victim_RRPV [] = Inr victim"
| "BRRIP_search s victim victim_RRPV (candidate # cs) =
     (if \<not> brrip_valid (s ! candidate) then Inl candidate
      else if counter (rrpv (s ! candidate)) > victim_RRPV
      then BRRIP_search s candidate (counter (rrpv (s ! candidate))) cs
      else BRRIP_search s victim victim_RRPV cs)"

text \<open>The victim is saturated, and all candidates move by the same difference.\<close>

definition BRRIP_age :: "'a BRRIPReplData_scheme list \<Rightarrow> nat \<Rightarrow> 'a BRRIPReplData_scheme list" where
  "BRRIP_age s victim =
     (let (diff, c) = sc_saturate (rrpv (s ! victim));
          s1 = s[victim := (s ! victim)\<lparr>rrpv := c\<rparr>]
      in if diff > 0 then map (\<lambda>d. d\<lparr>rrpv := sc_add (rrpv d) (int diff)\<rparr>) s1 else s1)"

definition BRRIP_getVictim :: "rp_env \<Rightarrow> 'a BRRIPReplData_scheme list \<Rightarrow> (nat \<times> 'a BRRIPReplData_scheme list) option" where
  "BRRIP_getVictim e s = do {
     c_assert (length s > 0);
     case BRRIP_search s 0 (counter (rrpv (s ! 0))) [0..<length s] of
       Inl candidate \<Rightarrow> Some (candidate, s)
     | Inr victim \<Rightarrow> Some (victim, BRRIP_age s victim)
   }"

subsection \<open>SHiP\<close>

record SHiPReplData = BRRIPReplData +
  signature :: nat
  outcome :: bool

record ship =
  SHCT :: "sat_counter list"
  ship_entries :: "SHiPReplData list"

definition setSignature :: "nat \<Rightarrow> SHiPReplData \<Rightarrow> SHiPReplData" where
  "setSignature new_signature d = d\<lparr>signature := new_signature, outcome := False\<rparr>"

definition setReReferenced :: "SHiPReplData \<Rightarrow> SHiPReplData" where
  "setReReferenced d = d\<lparr>outcome := True\<rparr>"

definition SHiP_new :: "nat \<Rightarrow> nat \<Rightarrow> nat \<Rightarrow> ship option" where
  "SHiP_new numRRPVBits shct_size ways = do {
     c_assert (\<not> numRRPVBits \<le> 0);
     c \<leftarrow> SatCounter_new 8 numRRPVBits 0;
     Some \<lparr>SHCT = replicate shct_size c,
           ship_entries = replicate ways \<lparr>rrpv = c, brrip_valid = False, signature = 0, outcome = False\<rparr>\<rparr>
   }"

text \<open>Reading or writing a table or a candidate out of range has no defined result.\<close>

definition SHiP_invalidate :: "rp_env \<Rightarrow> nat \<Rightarrow> ship \<Rightarrow> ship option" where
  "SHiP_invalidate e w p = do {
     c_assert (w < length (ship_entries p));
     let d = ship_entries p ! w;
     t \<leftarrow> (if outcome d then do {
             c_assert (signature d < length (SHCT p));
             Some ((SHCT p)[signature d := sc_dec (SHCT p ! signature d)])
           }
           else Some (SHCT p));
     Some (p\<lparr>SHCT := t, ship_entries := (ship_entries p)[w := BRRIP_invalidate e d]\<rparr>)
   }"

definition SHiP_touch :: "bool \<Rightarrow> nat \<Rightarrow> rp_env \<Rightarrow> nat \<Rightarrow> ship \<Rightarrow> ship option" where
  "SHiP_touch hitPriority sig e w p = do {
     c_assert (w < length (ship_entries p) \<and> sig < length (SHCT p));
     let d = setReReferenced (ship_entries p ! w);
     Some (p\<lparr>SHCT := (SHCT p)[sig := sc_inc (SHCT p ! sig)],
             ship_entries := (ship_entries p)[w := BRRIP_touch hitPriority e d]\<rparr>)
   }"

definition SHiP_reset :: "nat \<Rightarrow> (sat_counter \<Rightarrow> bool) \<Rightarrow> nat \<Rightarrow> rp_env \<Rightarrow> nat \<Rightarrow> ship \<Rightarrow> ship option" where
  "SHiP_reset btp above_threshold sig e w p = do {
     c_assert (w < length (ship_entries p) \<and> sig < length (SHCT p));
     let d = BRRIP_reset btp e (setSignature sig (ship_entries p ! w));
     let d1 = (if above_threshold (SHCT p ! sig) then d\<lparr>rrpv := sc_dec (rrpv d)\<rparr> else d);
     Some (p\<lparr>ship_entries := (ship_entries p)[w := d1]\<rparr>)
   }"

definition SHiP_getVictim :: "rp_env \<Rightarrow> ship \<Rightarrow> (nat \<times> ship) option" where
  "SHiP_getVictim e p = do {
     (w, s) \<leftarrow> BRRIP_getVictim e (ship_entries p);
     Some (w, p\<lparr>ship_entries := s\<rparr>)
   }"

text \<open>The two policies differ in the signature of an access: its address, or its PC if it has one.\<close>

definition SHiPMem_getSignature :: "u64 \<Rightarrow> nat \<Rightarrow> nat" where
  "SHiPMem_getSignature addr shct_size = unat addr mod shct_size"

definition SHiPPC_getSignature :: "u64 option \<Rightarrow> nat \<Rightarrow> nat" where
  "SHiPPC_getSignature a shct_size = (case a of Some pc \<Rightarrow> unat pc | None \<Rightarrow> 0) mod shct_size"

subsection \<open>BRRIP ages all candidates alike\<close>

definition brrip_ok :: "nat \<Rightarrow> 'a BRRIPReplData_scheme \<Rightarrow> bool" where
  "brrip_ok m d \<longleftrightarrow> sc_ok (rrpv d) \<and> maxVal (rrpv d) = m \<and> m < 2 ^ 8"

lemma sc_maxVal [simp]:
  "maxVal (sc_inc c) = maxVal c" "maxVal (sc_dec c) = maxVal c" "maxVal (sc_add c v) = maxVal c" "maxVal (sc_reset c) = maxVal c"
  "maxVal (snd (sc_saturate c)) = maxVal c"
  using sc_same_ops [of c] by (simp_all add: sc_same_def)

lemma brrip_ok_ops [simp]:
  assumes "brrip_ok m d"
  shows "brrip_ok m (BRRIP_touch hp e d)" "brrip_ok m (BRRIP_reset btp e d)" "brrip_ok m (BRRIP_invalidate e d)"
    "brrip_ok m (d\<lparr>rrpv := sc_add (rrpv d) v\<rparr>)" "brrip_ok m (d\<lparr>rrpv := snd (sc_saturate (rrpv d))\<rparr>)"
    "brrip_ok m (d\<lparr>rrpv := sc_dec (rrpv d)\<rparr>)"
  using assms by (simp_all add: brrip_ok_def BRRIP_touch_def BRRIP_reset_def BRRIP_invalidate_def Let_def)

lemma BRRIP_search_eq:
  "r = counter (rrpv (s ! v)) \<Longrightarrow> BRRIP_search s v r cs =
     (case find (\<lambda>c. \<not> brrip_valid (s ! c)) cs of Some c \<Rightarrow> Inl c
      | None \<Rightarrow> Inr (visit (\<lambda>c v. counter (rrpv (s ! v)) < counter (rrpv (s ! c))) v cs))"
  by (induction cs arbitrary: v r) (auto split: option.split)

lemma BRRIP_victim_cases:
  assumes "s \<noteq> []"
  shows "(\<exists>w < length s. \<not> brrip_valid (s ! w) \<and> BRRIP_getVictim e s = Some (w, s)) \<or>
    (\<forall>d \<in> set s. brrip_valid d) \<and> (\<exists>w. first_min (\<lambda>i. - int (counter (rrpv (s ! i)))) (length s) w \<and>
       BRRIP_getVictim e s = Some (w, BRRIP_age s w))"
proof (cases "find (\<lambda>c. \<not> brrip_valid (s ! c)) [0..<length s]")
  case None
  let ?v = "visit (\<lambda>c v. counter (rrpv (s ! v)) < counter (rrpv (s ! c))) 0 [0..<length s]"
  have "first_min (\<lambda>i. - int (counter (rrpv (s ! i)))) (length s) ?v"
    using assms by (intro visit_first_min) simp_all
  moreover have "\<forall>d \<in> set s. brrip_valid d" using None by (auto simp: find_None_iff in_set_conv_nth)
  moreover have "BRRIP_getVictim e s = Some (?v, BRRIP_age s ?v)"
    using assms None unfolding BRRIP_getVictim_def BRRIP_search_eq [OF refl] by simp
  ultimately show ?thesis by blast
next
  case (Some c)
  then have "c < length s" "\<not> brrip_valid (s ! c)" by (auto simp: find_Some_iff)
  moreover have "BRRIP_getVictim e s = Some (c, s)"
    using assms Some unfolding BRRIP_getVictim_def BRRIP_search_eq [OF refl] by simp
  ultimately show ?thesis by blast
qed

lemma sc_add_raise:
  assumes "sc_ok c" "counter c + k \<le> maxVal c"
  shows "counter (sc_add c (int k)) = counter c + k"
proof -
  have "int (counter (sc_add c (int k))) = int (counter c + k)" using sc_add_val [OF assms(1), of "int k"] assms(2) by simp
  then show ?thesis by (simp only: of_nat_eq_iff)
qed

lemma sc_add_saturated:
  assumes "sc_ok c" "counter c = maxVal c"
  shows "counter (sc_add c (int k)) = maxVal c"
proof -
  have "int (counter (sc_add c (int k))) = int (maxVal c)" using sc_add_val [OF assms(1), of "int k"] assms(2) by simp
  then show ?thesis by (simp only: of_nat_eq_iff)
qed

lemma BRRIP_age_spec:
  assumes ok: "list_all (brrip_ok m) s" and w: "w < length s"
    and max: "\<And>i. i < length s \<Longrightarrow> counter (rrpv (s ! i)) \<le> counter (rrpv (s ! w))"
  shows "length (BRRIP_age s w) = length s" "list_all (brrip_ok m) (BRRIP_age s w)"
    "i < length s \<Longrightarrow> counter (rrpv (BRRIP_age s w ! i)) = counter (rrpv (s ! i)) + (m - counter (rrpv (s ! w)))"
proof -
  let ?r = "counter (rrpv (s ! w))" and ?c = "snd (sc_saturate (rrpv (s ! w)))"
  let ?s1 = "s[w := (s ! w)\<lparr>rrpv := ?c\<rparr>]"
  have oki: "brrip_ok m (s ! i)" if "i < length s" for i using ok that by (rule list_all_nth)
  have m: "maxVal (rrpv (s ! w)) = m" "m < 256" "?r \<le> m" using oki [OF w] by (auto simp: brrip_ok_def sc_ok_def)
  have age: "BRRIP_age s w = (if m - ?r > 0 then map (\<lambda>d. d\<lparr>rrpv := sc_add (rrpv d) (int (m - ?r))\<rparr>) ?s1 else ?s1)"
    using m unfolding BRRIP_age_def by (simp add: sc_saturate_def)
  have s1: "list_all (brrip_ok m) ?s1" using ok oki [OF w] by (intro list_all_update) simp_all
  show "length (BRRIP_age s w) = length s" by (simp add: age)
  show "list_all (brrip_ok m) (BRRIP_age s w)" using s1 by (simp add: age list_all_iff)
  show "counter (rrpv (BRRIP_age s w ! i)) = counter (rrpv (s ! i)) + (m - ?r)" if i: "i < length s"
  proof (cases "i = w")
    case True
    have c: "sc_ok ?c" "counter ?c = m" "maxVal ?c = m" using oki [OF w] m by (simp_all add: brrip_ok_def) (simp add: sc_saturate_def)
    then have "counter (sc_add ?c (int (m - ?r))) = m" using sc_add_saturated by simp
    then show ?thesis using True w m(3) c(2) unfolding age by simp
  next
    case False
    have "sc_ok (rrpv (s ! i))" "counter (rrpv (s ! i)) + (m - ?r) \<le> maxVal (rrpv (s ! i))"
      using oki [OF i] max [OF i] m by (auto simp: brrip_ok_def)
    then have "counter (sc_add (rrpv (s ! i)) (int (m - ?r))) = counter (rrpv (s ! i)) + (m - ?r)" by (rule sc_add_raise)
    then show ?thesis using False i m(3) unfolding age by (simp add: of_nat_diff)
  qed
qed

lemma BRRIP_victim_ok:
  assumes "list_all (brrip_ok m) s" "s \<noteq> []"
  shows "\<exists>w s'. BRRIP_getVictim e s = Some (w, s') \<and> w < length s \<and> length s' = length s \<and> list_all (brrip_ok m) s'"
  using BRRIP_victim_cases [OF assms(2), of e]
proof (elim disjE exE conjE)
  fix w
  assume w: "first_min (\<lambda>i. - int (counter (rrpv (s ! i)))) (length s) w" "BRRIP_getVictim e s = Some (w, BRRIP_age s w)"
  have "w < length s" "\<And>i. i < length s \<Longrightarrow> counter (rrpv (s ! i)) \<le> counter (rrpv (s ! w))" using w(1) by (auto simp: first_min_def)
  with BRRIP_age_spec(1,2) [OF assms(1)] show ?thesis using w(2) by blast
qed (use assms in auto)

interpretation brrip: entry_policy "brrip_ok m" "BRRIP_touch hitPriority" "BRRIP_reset btp" BRRIP_invalidate BRRIP_getVictim
  for m hitPriority btp
  by unfold_locales (simp_all add: BRRIP_victim_ok)

subsection \<open>SHiP stays in its tables\<close>

definition ship_ok :: "nat \<Rightarrow> nat \<Rightarrow> nat \<Rightarrow> ship \<Rightarrow> bool" where
  "ship_ok m shct_size n p \<longleftrightarrow> length (SHCT p) = shct_size \<and> 0 < shct_size \<and> list_all sc_ok (SHCT p) \<and>
     length (ship_entries p) = n \<and> list_all (brrip_ok m) (ship_entries p) \<and>
     list_all (\<lambda>d. signature d < shct_size) (ship_entries p)"

lemma ship_okD:
  assumes "ship_ok m k n p"
  shows "length (SHCT p) = k" "0 < k" "list_all sc_ok (SHCT p)" "length (ship_entries p) = n"
    "list_all (brrip_ok m) (ship_entries p)" "list_all (\<lambda>d. signature d < k) (ship_entries p)"
    "i < k \<Longrightarrow> sc_ok (SHCT p ! i)" "w < n \<Longrightarrow> brrip_ok m (ship_entries p ! w)" "w < n \<Longrightarrow> signature (ship_entries p ! w) < k"
  using assms by (auto simp: ship_ok_def list_all_length)

lemma signature_ops [simp]:
  "signature (BRRIP_touch hp e d) = signature d" "signature (BRRIP_reset btp e d) = signature d"
  "signature (BRRIP_invalidate e d) = signature d"
  by (simp_all add: BRRIP_touch_def BRRIP_reset_def BRRIP_invalidate_def Let_def)

lemma brrip_ok_ship [simp]:
  "brrip_ok m (setReReferenced d) = brrip_ok m d" "brrip_ok m (setSignature k d) = brrip_ok m d"
  "signature (setReReferenced d) = signature d" "signature (setSignature k d) = k"
  by (simp_all add: brrip_ok_def setReReferenced_def setSignature_def)

lemma signature_age: "map signature (BRRIP_age s w) = map signature s"
proof -
  have "map signature (s[w := (s ! w)\<lparr>rrpv := c\<rparr>]) = map signature s" for c
    by (cases "w < length s") (simp_all add: map_update list_update_same_conv list_update_beyond)
  then show ?thesis by (simp add: BRRIP_age_def sc_saturate_def comp_def Let_def)
qed

lemma list_all_map_eq: "map f s' = map f s \<Longrightarrow> list_all (\<lambda>d. P (f d)) s' = list_all (\<lambda>d. P (f d)) s"
  by (metis (mono_tags) list.pred_map comp_def list.pred_cong)

lemma SHiP_ops_ok:
  assumes p: "ship_ok m k n p" and w: "w < n" and sig: "sig < k"
  shows "\<exists>p'. SHiP_touch hp sig e w p = Some p' \<and> ship_ok m k n p'" "\<exists>p'. SHiP_reset btp thr sig e w p = Some p' \<and> ship_ok m k n p'"
    "\<exists>p'. SHiP_invalidate e w p = Some p' \<and> ship_ok m k n p'"
proof -
  note D = ship_okD [OF p]
  show "\<exists>p'. SHiP_touch hp sig e w p = Some p' \<and> ship_ok m k n p'"
    using D w sig by (auto simp: SHiP_touch_def Let_def ship_ok_def intro!: list_all_update)
  show "\<exists>p'. SHiP_reset btp thr sig e w p = Some p' \<and> ship_ok m k n p'"
    using D w sig by (auto simp: SHiP_reset_def Let_def ship_ok_def intro!: list_all_update)
  show "\<exists>p'. SHiP_invalidate e w p = Some p' \<and> ship_ok m k n p'"
    using D w by (auto simp: SHiP_invalidate_def Let_def ship_ok_def intro!: list_all_update)
qed

lemma SHiP_victim_ok:
  assumes p: "ship_ok m k n p" and n: "0 < n"
  shows "\<exists>w p'. SHiP_getVictim e p = Some (w, p') \<and> w < n \<and> ship_ok m k n p'"
proof -
  note D = ship_okD [OF p]
  let ?s = "ship_entries p"
  have ne: "?s \<noteq> []" using D(4) n by auto
  obtain w s' where w: "BRRIP_getVictim e ?s = Some (w, s')" "w < length ?s" "length s' = length ?s" "list_all (brrip_ok m) s'"
    using BRRIP_victim_ok [OF D(5) ne] by blast
  have "s' = ?s \<or> s' = BRRIP_age ?s w" using BRRIP_victim_cases [OF ne, of e] w(1) by auto
  then have "map signature s' = map signature ?s" by (auto simp: signature_age)
  then have "list_all (\<lambda>d. signature d < k) s'" using list_all_map_eq [of signature s' ?s "\<lambda>x. x < k"] D(6) by simp
  then show ?thesis using w D by (simp add: SHiP_getVictim_def ship_ok_def)
qed

interpretation ship: replacement_policy "ship_ok m k" "SHiP_touch hitPriority (SHiPMem_getSignature addr k)"
  "SHiP_reset btp thr (SHiPMem_getSignature addr k)" SHiP_invalidate SHiP_getVictim
  for m k hitPriority btp thr addr
proof unfold_locales
  fix e n s w
  assume s: "ship_ok m k n s" "w < n"
  then have sig: "SHiPMem_getSignature addr k < k" using ship_okD(2) by (simp add: SHiPMem_getSignature_def)
  show "\<exists>s'. SHiP_touch hitPriority (SHiPMem_getSignature addr k) e w s = Some s' \<and> ship_ok m k n s'"
    "\<exists>s'. SHiP_reset btp thr (SHiPMem_getSignature addr k) e w s = Some s' \<and> ship_ok m k n s'"
    "\<exists>s'. SHiP_invalidate e w s = Some s' \<and> ship_ok m k n s'"
    using SHiP_ops_ok [OF s sig] by blast+
qed (rule SHiP_victim_ok)

subsection \<open>Properties\<close>

text \<open>
  With valid candidates BRRIP evicts one with the largest prediction, and the predictions of
  all candidates grow by the same amount, the one that saturates the victim, without exceeding
  the maximum.
\<close>

lemma brrip_victim_ages:
  assumes "list_all (brrip_ok m) s" "s \<noteq> []" "\<forall>d \<in> set s. brrip_valid d"
  shows "\<exists>w s'. BRRIP_getVictim e s = Some (w, s') \<and> w < length s \<and>
    (\<forall>i < length s. counter (rrpv (s ! i)) \<le> counter (rrpv (s ! w)) \<and>
       counter (rrpv (s' ! i)) = counter (rrpv (s ! i)) + (m - counter (rrpv (s ! w))) \<and> counter (rrpv (s' ! i)) \<le> m)"
proof -
  have "\<nexists>w. w < length s \<and> \<not> brrip_valid (s ! w)" using assms(3) by auto
  with BRRIP_victim_cases [OF assms(2), of e] obtain w where
    w: "first_min (\<lambda>i. - int (counter (rrpv (s ! i)))) (length s) w" "BRRIP_getVictim e s = Some (w, BRRIP_age s w)" by blast
  have wl: "w < length s" and max: "\<And>i. i < length s \<Longrightarrow> counter (rrpv (s ! i)) \<le> counter (rrpv (s ! w))"
    using w(1) by (auto simp: first_min_def)
  note age = BRRIP_age_spec [OF assms(1) wl max]
  have "counter (rrpv (BRRIP_age s w ! i)) \<le> m" if "i < length s" for i
    using age(1,2) that by (auto simp: list_all_length brrip_ok_def sc_ok_def)
  then show ?thesis using w(2) wl max age(3) by blast
qed

text \<open>
  SHiP never indexes its table of counters or its entries out of range, for every sequence of
  touches, resets, invalidations and victim searches, and the counters keep their bounds.
\<close>

lemma ship_stays_in_tables:
  assumes "SHiP_new bits shct_size n = Some p" "0 < shct_size"
    and "admissible (rp_step (SHiP_touch hitPriority (SHiPMem_getSignature addr shct_size))
      (SHiP_reset btp thr (SHiPMem_getSignature addr shct_size)) SHiP_invalidate SHiP_getVictim) (rp_allowed n) evs p"
  shows "\<exists>p'. run (rp_step (SHiP_touch hitPriority (SHiPMem_getSignature addr shct_size))
      (SHiP_reset btp thr (SHiPMem_getSignature addr shct_size)) SHiP_invalidate SHiP_getVictim) evs p = Some p' \<and> ship_ok (2 ^ bits - 1) shct_size n p'"
proof -
  obtain c where c: "SatCounter_new 8 bits 0 = Some c" and
    p: "p = \<lparr>SHCT = replicate shct_size c, ship_entries = replicate n \<lparr>rrpv = c, brrip_valid = False, signature = 0, outcome = False\<rparr>\<rparr>"
    using assms(1) by (auto simp: SHiP_new_def split: bind_splits if_splits)
  note new = SatCounter_new_spec [OF c]
  have "maxVal c < 2 ^ 8" using new(1,4) by (auto simp: sc_ok_def)
  then have "ship_ok (2 ^ bits - 1) shct_size n p"
    using new assms(2) by (simp add: p ship_ok_def brrip_ok_def list_all_length)
  then show ?thesis using ship.rpm.run_safe [OF _ assms(3)] by blast
qed

end
