(* ===== verification/Tree_PLRU.thy ===== *)
theory Tree_PLRU
  imports Repl_Policy
begin

section \<open>Tree pseudo-LRU\<close>

text \<open>
  The policy of \<open>tree_plru_rp.cc\<close>.  The entries of a set are the leaves of a complete binary tree,
  stored as a heap: a vector of one bit per inner node, which says whether the pseudo least
  recently used leaf lies to the right.  \<open>vector::at\<close> throws on an index out of range, which is
  \<^const>\<open>None\<close>; indices are 64-bit numbers, so the parent of index 0 is computed from \<open>2^64 - 1\<close>.

  The lemmas show that using an entry turns the whole path away from it, so the next victim is
  another entry, and that invalidating an entry makes it the next victim.
\<close>

definition parentIndex :: "nat \<Rightarrow> nat" where
  "parentIndex index = ((index + 2 ^ 64 - 1) mod 2 ^ 64) div 2"

definition leftSubtreeIndex :: "nat \<Rightarrow> nat" where
  "leftSubtreeIndex index = 2 * index + 1"

definition rightSubtreeIndex :: "nat \<Rightarrow> nat" where
  "rightSubtreeIndex index = 2 * index + 2"

definition isRightSubtree :: "nat \<Rightarrow> bool" where
  "isRightSubtree index \<longleftrightarrow> index mod 2 = 0"

text \<open>The loop of \<open>touch\<close> and \<open>invalidate\<close>, which write the opposite bits.\<close>

function tree_update :: "(bool \<Rightarrow> bool) \<Rightarrow> nat \<Rightarrow> bool list \<Rightarrow> bool list option" where
  "tree_update side tree_index tree =
     (let right = isRightSubtree tree_index;
          parent = parentIndex tree_index in
      if parent < length tree then
        (let tree1 = tree[parent := side right] in
         if parent \<noteq> 0 then tree_update side parent tree1 else Some tree1)
      else None)"
  by pat_completeness auto

lemma parentIndex_pos: "0 < i \<Longrightarrow> i < 2 ^ 64 \<Longrightarrow> parentIndex i = (i - 1) div 2"
proof -
  assume a: "0 < i" "i < 2 ^ 64"
  then have "i + 2 ^ 64 - 1 = (i - 1) + 2 ^ 64" by simp
  then have "(i + 2 ^ 64 - 1) mod 2 ^ 64 = i - 1" using a by (simp only: mod_add_self2) simp
  then show ?thesis by (simp add: parentIndex_def)
qed

lemma parentIndex_less: "parentIndex i < 2 ^ 63"
  using mod_less_divisor [of "2 ^ 64 :: nat" "i + 2 ^ 64 - 1"] unfolding parentIndex_def by simp

termination tree_update
proof (relation "measure (\<lambda>(side, i, t). if i = 0 then 2 ^ 64 else i)")
  fix side :: "bool \<Rightarrow> bool" and i p :: nat and t t1 :: "bool list" and r
  assume a: "p = parentIndex i" "p \<noteq> 0"
  have "p < (if i = 0 then 2 ^ 64 else i)"
  proof (cases "i = 0 \<or> 2 ^ 64 \<le> i")
    case True
    then show ?thesis using a parentIndex_less [of i] by auto
  next
    case False
    then show ?thesis using a parentIndex_pos [of i] by auto
  qed
  then show "((side, p, t1), (side, i, t)) \<in> measure (\<lambda>(side, i, t). if i = 0 then 2 ^ 64 else i)" using a by simp
qed simp

declare tree_update.simps [simp del]

definition TreePLRU_invalidate :: "nat \<Rightarrow> bool list \<Rightarrow> bool list option" where
  "TreePLRU_invalidate index tree = tree_update (\<lambda>right. right) index tree"

definition TreePLRU_touch :: "nat \<Rightarrow> bool list \<Rightarrow> bool list option" where
  "TreePLRU_touch index tree = tree_update (\<lambda>right. \<not> right) index tree"

definition TreePLRU_reset :: "nat \<Rightarrow> bool list \<Rightarrow> bool list option" where
  "TreePLRU_reset index tree = TreePLRU_touch index tree"

function tree_search :: "bool list \<Rightarrow> nat \<Rightarrow> nat" where
  "tree_search tree tree_index =
     (if tree_index < length tree then
        tree_search tree (if tree ! tree_index then rightSubtreeIndex tree_index else leftSubtreeIndex tree_index)
      else tree_index)"
  by pat_completeness auto

termination tree_search
  by (relation "measure (\<lambda>(t, i). length t - i)") (auto simp: rightSubtreeIndex_def leftSubtreeIndex_def)

declare tree_search.simps [simp del]

definition TreePLRU_getVictim :: "nat \<Rightarrow> nat \<Rightarrow> bool list \<Rightarrow> nat option" where
  "TreePLRU_getVictim numLeaves candidates tree = do {
     c_assert (candidates > 0);
     let i = tree_search tree 0 - (numLeaves - 1);
     c_assert (i < candidates);
     Some i
   }"

text \<open>
  The entries are created one after the other; every \<open>numLeaves\<close> of them share a tree.  The trees
  made so far are a list, the current instance its last element, and an entry holds its index
  and the position of its tree.
\<close>

record tree_plru =
  numLeaves :: nat
  tp_count :: nat
  trees :: "bool list list"

record TreePLRUReplData =
  tree_leaf :: nat
  tree_id :: nat

definition TreePLRU_new :: "nat \<Rightarrow> tree_plru option" where
  "TreePLRU_new num_leaves = do {
     c_assert (\<not> \<not> (num_leaves \<noteq> 0 \<and> and num_leaves (num_leaves - 1) = 0));
     Some \<lparr>numLeaves = num_leaves, tp_count = 0, trees = []\<rparr>
   }"

definition TreePLRU_instantiateEntry :: "tree_plru \<Rightarrow> TreePLRUReplData \<times> tree_plru" where
  "TreePLRU_instantiateEntry p =
     (let ts = (if tp_count p mod numLeaves p = 0 then trees p @ [replicate (numLeaves p - 1) False] else trees p)
      in (\<lparr>tree_leaf = tp_count p mod numLeaves p + numLeaves p - 1, tree_id = length ts - 1\<rparr>,
          p\<lparr>tp_count := tp_count p + 1, trees := ts\<rparr>))"

subsection \<open>Paths in the heap\<close>

text \<open>
  Counted from one, the ancestors of node \<open>j\<close> are the quotients of \<open>j\<close> by powers of two, and a node
  is a right child when it is odd.  \<open>path_bits f j t\<close>: the bits above \<open>j\<close> are \<open>f\<close> of the side of the
  child on the path.
\<close>

definition path_bits :: "(bool \<Rightarrow> bool) \<Rightarrow> nat \<Rightarrow> bool list \<Rightarrow> bool" where
  "path_bits f j t \<longleftrightarrow> (\<forall>d. 1 \<le> j div 2 ^ Suc d \<longrightarrow> t ! (j div 2 ^ Suc d - 1) = f (odd (j div 2 ^ d)))"

lemma div_pow_Suc: "(j :: nat) div 2 ^ Suc n = j div 2 div 2 ^ n"
  by (simp only: power_Suc div_mult2_eq)

lemma path_bits_root: "path_bits f 1 t"
proof -
  have "1 div 2 ^ Suc d = (0 :: nat)" for d by (rule div_less) (rule one_less_power, simp_all)
  then show ?thesis unfolding path_bits_def by simp
qed

lemma path_bits_Cons:
  assumes "1 \<le> j div 2" "path_bits f (j div 2) t" "t ! (j div 2 - 1) = f (odd j)"
  shows "path_bits f j t"
  unfolding path_bits_def
proof (intro allI impI)
  fix d
  assume d: "1 \<le> j div 2 ^ Suc d"
  show "t ! (j div 2 ^ Suc d - 1) = f (odd (j div 2 ^ d))"
  proof (cases d)
    case 0
    then show ?thesis using assms(3) by simp
  next
    case (Suc n)
    have "j div 2 ^ Suc d = (j div 2) div 2 ^ Suc n" "j div 2 ^ d = (j div 2) div 2 ^ n"
      by (simp_all only: Suc div_pow_Suc)
    then show ?thesis using assms(2) d unfolding path_bits_def by metis
  qed
qed

lemma tree_update_path:
  assumes "2 \<le> j" "j \<le> 2 ^ 64" "j div 2 \<le> length t"
  shows "\<exists>t'. tree_update f (j - 1) t = Some t' \<and> length t' = length t \<and> path_bits f j t' \<and>
    (\<forall>p. j div 2 \<le> p \<longrightarrow> t' ! p = t ! p)"
  using assms
proof (induction j arbitrary: t rule: less_induct)
  case (less j)
  let ?p = "j div 2"
  have par: "parentIndex (j - 1) = ?p - 1" using less.prems(1,2) parentIndex_pos [of "j - 1"] by simp
  have rgt: "isRightSubtree (j - 1) \<longleftrightarrow> odd j" using less.prems(1) by (simp add: isRightSubtree_def even_iff_mod_2_eq_zero [symmetric])
  let ?t = "t[?p - 1 := f (odd j)]"
  have step: "tree_update f (j - 1) t = (if ?p - 1 \<noteq> 0 then tree_update f (?p - 1) ?t else Some ?t)"
    using less.prems unfolding tree_update.simps [of f "j - 1"] Let_def par rgt by auto
  show ?case
  proof (cases "?p = 1")
    case True
    have "path_bits f (j div 2) ?t" unfolding True by (rule path_bits_root)
    moreover have "?t ! (?p - 1) = f (odd j)" using True less.prems(3) by (cases t) simp_all
    ultimately have "path_bits f j ?t" using path_bits_Cons [of j f ?t] True by linarith
    then show ?thesis using step True by auto
  next
    case False
    then have p: "2 \<le> ?p" "?p < j" "?p \<le> 2 ^ 64" "?p div 2 \<le> length ?t" using less.prems by auto
    obtain t' where t': "tree_update f (?p - 1) ?t = Some t'" "length t' = length ?t" "path_bits f ?p t'"
        "\<forall>q. ?p div 2 \<le> q \<longrightarrow> t' ! q = ?t ! q"
      using less.IH [OF p(2,1,3,4)] by blast
    have "?p div 2 \<le> ?p - 1" using p(1) by presburger
    then have a: "t' ! (?p - 1) = f (odd j)" using t'(4) less.prems(3) p(1) by simp
    have "path_bits f j t'" by (rule path_bits_Cons [OF _ t'(3) a]) (use p(1) in linarith)
    moreover have "t' ! q = t ! q" if "?p \<le> q" for q
    proof -
      have "?p div 2 \<le> q" "q \<noteq> ?p - 1" using that p(1) by auto
      then show ?thesis using t'(4) by simp
    qed
    ultimately show ?thesis using step False p(1) t'(1,2) by auto
  qed
qed

subsection \<open>The search follows the bits\<close>

lemma tree_search_step:
  assumes "1 \<le> a" "a \<le> length t"
  shows "tree_search t (a - 1) = tree_search t (2 * a + (if t ! (a - 1) then 1 else 0) - 1)"
proof -
  have "2 * (a - 1) + 2 = 2 * a" "2 * (a - 1) + 1 = 2 * a - 1" using assms(1) by auto
  moreover have "a - 1 < length t" using assms by simp
  ultimately show ?thesis
    by (subst tree_search.simps) (simp add: rightSubtreeIndex_def leftSubtreeIndex_def)
qed

lemma tree_search_along:
  assumes "path_bits (\<lambda>r. r) j t" "1 \<le> j div 2 ^ d" "j div 2 \<le> length t"
  shows "tree_search t (j div 2 ^ d - 1) = tree_search t (j - 1)"
  using assms(2)
proof (induction d)
  case (Suc d)
  let ?a = "j div 2 ^ Suc d" and ?c = "j div 2 ^ d"
  have half: "?a = ?c div 2" by (simp only: power_Suc2 div_mult2_eq)
  have "?a = j div 2 div 2 ^ d" by (rule div_pow_Suc)
  then have "?a \<le> length t" using assms(3) div_le_dividend [of "j div 2" "2 ^ d"] by linarith
  moreover have "t ! (?a - 1) = odd ?c" using assms(1) Suc.prems unfolding path_bits_def by blast
  ultimately have "tree_search t (?a - 1) = tree_search t (2 * ?a + (if odd ?c then 1 else 0) - 1)"
    using tree_search_step [OF Suc.prems] by simp
  also have "2 * ?a + (if odd ?c then 1 else 0) = ?c" unfolding half by auto
  finally have step: "tree_search t (?a - 1) = tree_search t (?c - 1)" .
  have "1 \<le> ?c" using Suc.prems unfolding half by simp
  then show ?case using Suc.IH step by simp
qed simp

text \<open>The search only descends.\<close>

lemma tree_search_below: "\<exists>m. (tree_search t i + 1) div 2 ^ m = i + 1"
proof (induction t i rule: tree_search.induct)
  case (1 t i)
  show ?case
  proof (cases "i < length t")
    case True
    let ?c = "if t ! i then rightSubtreeIndex i else leftSubtreeIndex i"
    obtain m where m: "(tree_search t ?c + 1) div 2 ^ m = ?c + 1" using "1.IH" True by blast
    have "(?c + 1) div 2 = i + 1" by (simp add: rightSubtreeIndex_def leftSubtreeIndex_def)
    then have "(tree_search t ?c + 1) div 2 ^ Suc m = i + 1" using m by (simp only: power_Suc2 div_mult2_eq)
    moreover have "tree_search t i = tree_search t ?c" using True by (subst tree_search.simps) simp
    ultimately show ?thesis by metis
  next
    case False
    then show ?thesis unfolding tree_search.simps [of t i] by (auto intro: exI [of _ 0])
  qed
qed

lemma tree_search_range: "i \<le> 2 * length t \<Longrightarrow> length t \<le> tree_search t i \<and> tree_search t i \<le> 2 * length t"
proof (induction t i rule: tree_search.induct)
  case (1 t i)
  show ?case
  proof (cases "i < length t")
    case True
    let ?c = "if t ! i then rightSubtreeIndex i else leftSubtreeIndex i"
    have "?c \<le> 2 * length t" using True by (simp add: rightSubtreeIndex_def leftSubtreeIndex_def)
    then show ?thesis using "1.IH" True unfolding tree_search.simps [of t i] by simp
  next
    case False
    then show ?thesis using "1.prems" unfolding tree_search.simps [of t i] by simp
  qed
qed

text \<open>The quotients of a number by powers of two meet the numbers 2 and 3 only once.\<close>

lemma second_level_unique:
  assumes "(j :: nat) div 2 ^ a \<in> {2, 3}" "j div 2 ^ b \<in> {2, 3}"
  shows "j div 2 ^ a = j div 2 ^ b"
proof -
  have small: False if "j div 2 ^ x \<in> {2, 3}" "j div 2 ^ y \<in> {2, 3}" "x < y" for x y
  proof -
    have "j div 2 ^ y = j div 2 ^ x div 2 ^ (y - x)" using that(3) by (simp add: div_mult2_eq [symmetric] power_add [symmetric])
    also have "\<dots> \<le> j div 2 ^ x div 2 ^ 1" using that(3) by (intro div_le_mono2) (simp_all add: self_le_power)
    finally show False using that(1,2) by auto
  qed
  show ?thesis using assms small [of a b] small [of b a] by (metis linorder_neqE_nat)
qed

lemma top_level: "2 \<le> (j :: nat) \<Longrightarrow> \<exists>d. j div 2 ^ d \<in> {2, 3} \<and> j div 2 ^ Suc d = 1"
proof (induction j rule: less_induct)
  case (less j)
  show ?case
  proof (cases "j < 4")
    case True
    then have "j = 2 \<or> j = 3" using less.prems by auto
    then show ?thesis by (intro exI [of _ 0]) auto
  next
    case False
    then have "j div 2 < j" "2 \<le> j div 2" by auto
    from less.IH [OF this] obtain d where "j div 2 div 2 ^ d \<in> {2, 3}" "j div 2 div 2 ^ Suc d = 1" by blast
    then show ?thesis unfolding div_pow_Suc [symmetric] by blast
  qed
qed

subsection \<open>Use and invalidation\<close>

text \<open>A tree with the \<open>2 ^ k\<close> leaves of a set of \<open>n\<close> ways; the index of way \<open>w\<close> is \<open>w + numLeaves - 1\<close>.\<close>

definition plru_ok :: "nat \<Rightarrow> bool list \<Rightarrow> bool" where
  "plru_ok n t \<longleftrightarrow> (\<exists>k. 1 \<le> k \<and> k < 63 \<and> n = 2 ^ k) \<and> length t = n - 1"

lemma plru_okD: "plru_ok n t \<Longrightarrow> 2 \<le> n \<and> n < 2 ^ 63 \<and> length t = n - 1"
proof -
  assume a: "plru_ok n t"
  then obtain k where k: "1 \<le> k" "k < 63" "n = 2 ^ k" by (auto simp: plru_ok_def)
  have "(2 :: nat) ^ 1 \<le> 2 ^ k" using k(1) by (intro power_increasing) simp_all
  moreover have "(2 :: nat) ^ k < 2 ^ 63" using k(2) by (intro power_strict_increasing) simp_all
  ultimately show ?thesis using a k(3) by (simp add: plru_ok_def)
qed

lemma leaf_update:
  assumes "plru_ok n t" "w < n"
  shows "\<exists>t'. tree_update f (w + n - 1) t = Some t' \<and> plru_ok n t' \<and> path_bits f (w + n) t'"
proof -
  note D = plru_okD [OF assms(1)]
  have "2 \<le> w + n" "w + n \<le> 2 ^ 64" "(w + n) div 2 \<le> length t" using D assms(2) by auto
  from tree_update_path [OF this, of f] show ?thesis using assms(1) by (auto simp: plru_ok_def)
qed

lemma plru_victim_range: "plru_ok n t \<Longrightarrow> TreePLRU_getVictim n n t = Some (tree_search t 0 - (n - 1)) \<and> tree_search t 0 - (n - 1) < n \<and> n - 1 \<le> tree_search t 0"
  using tree_search_range [of 0 t] plru_okD [of n t] by (auto simp: TreePLRU_getVictim_def Let_def)

lemma leaf_reached:
  assumes t: "plru_ok n t" and w: "w < n" and path: "path_bits (\<lambda>r. r) (w + n) t"
  shows "tree_search t 0 = w + n - 1"
proof -
  note D = plru_okD [OF t]
  obtain d where d: "(w + n) div 2 ^ Suc d = 1" using top_level [of "w + n"] D by auto
  have "tree_search t ((w + n) div 2 ^ Suc d - 1) = tree_search t (w + n - 1)"
    using D w d by (intro tree_search_along [OF path]) auto
  moreover have "\<not> w + n - 1 < length t" using D by linarith
  then have "tree_search t (w + n - 1) = w + n - 1" by (subst tree_search.simps) simp
  ultimately show ?thesis unfolding d by simp
qed

lemma leaf_avoided:
  assumes t: "plru_ok n t" and w: "w < n" and path: "path_bits Not (w + n) t"
  shows "tree_search t 0 \<noteq> w + n - 1"
proof
  assume eq: "tree_search t 0 = w + n - 1"
  note D = plru_okD [OF t]
  obtain d where d: "(w + n) div 2 ^ d \<in> {2, 3}" "(w + n) div 2 ^ Suc d = 1" using top_level [of "w + n"] D by auto
  let ?c = "(w + n) div 2 ^ d" and ?o = "if t ! 0 then 3 else 2 :: nat"
  have t0: "t ! 0 = (\<not> odd ?c)" using path d(2) unfolding path_bits_def by (metis diff_self_eq_0 le_refl)
  have ne: "?o \<noteq> ?c" using t0 d(1) by auto
  have "1 \<le> length t" using D by linarith
  from tree_search_step [OF le_refl this] have "tree_search t 0 = tree_search t (?o - 1)" by (cases "t ! 0") simp_all
  then have "tree_search t (?o - 1) + 1 = w + n" using eq D by linarith
  moreover have "?o - 1 + 1 = ?o" by simp
  ultimately obtain m where "(w + n) div 2 ^ m = ?o" using tree_search_below [of t "?o - 1"] by metis
  then show False using second_level_unique [OF d(1), of m] ne by (auto split: if_splits)
qed

definition plru_touch_way :: "rp_env \<Rightarrow> nat \<Rightarrow> bool list \<Rightarrow> bool list option" where
  "plru_touch_way e w t = TreePLRU_touch (w + length t) t"

definition plru_reset_way :: "rp_env \<Rightarrow> nat \<Rightarrow> bool list \<Rightarrow> bool list option" where
  "plru_reset_way e w t = TreePLRU_reset (w + length t) t"

definition plru_invalidate_way :: "rp_env \<Rightarrow> nat \<Rightarrow> bool list \<Rightarrow> bool list option" where
  "plru_invalidate_way e w t = TreePLRU_invalidate (w + length t) t"

definition plru_victim :: "rp_env \<Rightarrow> bool list \<Rightarrow> (nat \<times> bool list) option" where
  "plru_victim e t = map_option (\<lambda>w. (w, t)) (TreePLRU_getVictim (length t + 1) (length t + 1) t)"

lemmas plru_way_defs = plru_touch_way_def plru_reset_way_def plru_invalidate_way_def plru_victim_def
  TreePLRU_touch_def TreePLRU_reset_def TreePLRU_invalidate_def

interpretation plru: replacement_policy plru_ok plru_touch_way plru_reset_way plru_invalidate_way plru_victim
proof unfold_locales
  fix e n w t
  assume a: "plru_ok n t" "w < n"
  have "w + length t = w + n - 1" using plru_okD [OF a(1)] by simp
  then show "\<exists>s'. plru_touch_way e w t = Some s' \<and> plru_ok n s'" "\<exists>s'. plru_reset_way e w t = Some s' \<and> plru_ok n s'"
    "\<exists>s'. plru_invalidate_way e w t = Some s' \<and> plru_ok n s'"
    using leaf_update [OF a] unfolding plru_way_defs by metis+
next
  fix e n t
  assume a: "plru_ok n t"
  have "length t + 1 = n" using plru_okD [OF a] by simp
  then show "\<exists>w s'. plru_victim e t = Some (w, s') \<and> w < n \<and> plru_ok n s'"
    using plru_victim_range [OF a] a by (simp add: plru_victim_def)
qed

subsection \<open>Properties\<close>

text \<open>
  C25: in a tree with a power of two of at least two leaves, the entry used last is not the next
  victim, and an invalidated entry is the next victim.
\<close>

theorem plru_use_and_invalidate:
  assumes "plru_ok n t" "w < n"
  shows "(\<exists>t' v. TreePLRU_touch (w + n - 1) t = Some t' \<and> TreePLRU_getVictim n n t' = Some v \<and> v < n \<and> v \<noteq> w)
    \<and> (\<exists>t'. TreePLRU_invalidate (w + n - 1) t = Some t' \<and> TreePLRU_getVictim n n t' = Some w)"
proof
  note D = plru_okD [OF assms(1)]
  obtain t1 where t1: "tree_update Not (w + n - 1) t = Some t1" "plru_ok n t1" "path_bits Not (w + n) t1"
    using leaf_update [OF assms] by blast
  have "tree_search t1 0 - (n - 1) \<noteq> w"
    using leaf_avoided [OF t1(2) assms(2) t1(3)] plru_victim_range [OF t1(2)] D by linarith
  then show "\<exists>t' v. TreePLRU_touch (w + n - 1) t = Some t' \<and> TreePLRU_getVictim n n t' = Some v \<and> v < n \<and> v \<noteq> w"
    using t1(1) plru_victim_range [OF t1(2)] by (auto simp: TreePLRU_touch_def)
  obtain t2 where t2: "tree_update (\<lambda>r. r) (w + n - 1) t = Some t2" "plru_ok n t2" "path_bits (\<lambda>r. r) (w + n) t2"
    using leaf_update [OF assms] by blast
  have "tree_search t2 0 - (n - 1) = w" using leaf_reached [OF t2(2) assms(2) t2(3)] D by simp
  then show "\<exists>t'. TreePLRU_invalidate (w + n - 1) t = Some t' \<and> TreePLRU_getVictim n n t' = Some w"
    using t2(1) plru_victim_range [OF t2(2)] by (auto simp: TreePLRU_invalidate_def)
qed

theorem plru_use_and_invalidate_witness:
  "\<exists>t'. TreePLRU_invalidate (2 + 4 - 1) [False, False, False] = Some t' \<and> TreePLRU_getVictim 4 4 t' = Some 2"
proof -
  have "plru_ok 4 [False, False, False]" unfolding plru_ok_def by (auto intro!: exI [of _ 2])
  from plru_use_and_invalidate [OF this, of 2] show ?thesis by simp
qed

text \<open>
  A policy with a single leaf passes the check of the constructor, but every use of its entry
  accesses the empty tree out of range.
\<close>

theorem single_leaf_fails:
  "do { p \<leftarrow> TreePLRU_new 1;
        let (d, p1) = TreePLRU_instantiateEntry p;
        Some (TreePLRU_touch (tree_leaf d) (trees p1 ! tree_id d)) } = Some None"
  by (simp add: TreePLRU_new_def TreePLRU_instantiateEntry_def TreePLRU_touch_def tree_update.simps parentIndex_def Let_def)

end
