(* ===== verification/Repl_Emissary.thy ===== *)
theory Repl_Emissary
  imports Cache_Blk Repl_Policy
begin

section \<open>The EMISSARY replacement policy\<close>

text \<open>
  The policy of \<open>lru_emissary_rp.cc\<close>, which protects instruction lines that caused a starved
  decoder.  A line is preserved by a bit of its block; as long as a set has at most
  \<open>preserve_ways\<close> preserved lines, the least recently used other line is evicted, and beyond that
  the least recently used line of all.  At regular intervals the preserve bits of the lines that
  were not used are cleared.  The policy reads and writes the blocks of the whole cache, which
  are its state together with their ticks; the histogram it appends to a file is a result.

  The lemmas characterise the victim.  The counters of the search have eight bits, so they are
  exact for sets of up to 255 ways.
\<close>

record em_entry =
  em_blk :: CacheBlk
  em_lastTouchTick :: u64

record emissary =
  preserve_ways :: int
  last_tick :: u64
  flush_freq_in_cycles :: u64
  em_numWays :: nat
  em_sets :: "em_entry list list"

definition em_clean :: "em_entry \<Rightarrow> em_entry" where
  "em_clean x =
     (let b = em_blk x;
          b1 = (if \<not> isUsed b then clearPreserve b else b)
      in x\<lparr>em_blk := clearUsed b1\<rparr>)"

definition em_bucket :: "int \<Rightarrow> em_entry list \<Rightarrow> int" where
  "em_bucket pw xs =
     (let numPreserved = int (length (filter (\<lambda>x. isPreserve (em_blk x)) xs))
      in if numPreserved \<ge> pw then pw else numPreserved)"

text \<open>The line of the histogram, and the policy afterwards.\<close>

definition dumpPreserveHist :: "emissary \<Rightarrow> nat list \<times> emissary" where
  "dumpPreserveHist p =
     (let hist = fold (\<lambda>xs h. h(em_bucket (preserve_ways p) xs := h (em_bucket (preserve_ways p) xs) + 1)) (em_sets p) (\<lambda>i. 0)
      in (map (\<lambda>i. hist (int i)) [0..<em_numWays p], p\<lparr>em_sets := map (map em_clean) (em_sets p)\<rparr>))"

definition checkToFlushPreserveBits :: "rp_env \<Rightarrow> emissary \<Rightarrow> emissary" where
  "checkToFlushPreserveBits e p =
     (if flush_freq_in_cycles p = 0 then p
      else
        (let cur_tick = curTick e;
             diff = (cur_tick - last_tick p) div 500
         in if diff \<ge> flush_freq_in_cycles p then (snd (dumpPreserveHist p))\<lparr>last_tick := cur_tick\<rparr> else p))"

text \<open>Reading a set or a way out of range has no defined result.\<close>

definition em_set_tick :: "u64 \<Rightarrow> nat \<Rightarrow> nat \<Rightarrow> emissary \<Rightarrow> emissary option" where
  "em_set_tick t k w p = do {
     c_assert (k < length (em_sets p) \<and> w < length (em_sets p ! k));
     Some (p\<lparr>em_sets := (em_sets p)[k := (em_sets p ! k)[w := (em_sets p ! k ! w)\<lparr>em_lastTouchTick := t\<rparr>]]\<rparr>)
   }"

definition Emissary_invalidate :: "nat \<Rightarrow> rp_env \<Rightarrow> nat \<Rightarrow> emissary \<Rightarrow> emissary option" where
  "Emissary_invalidate k e w p = em_set_tick 0 k w p"

definition Emissary_touch :: "nat \<Rightarrow> rp_env \<Rightarrow> nat \<Rightarrow> emissary \<Rightarrow> emissary option" where
  "Emissary_touch k e w p = em_set_tick (curTick e) k w (checkToFlushPreserveBits e p)"

definition Emissary_reset :: "nat \<Rightarrow> rp_env \<Rightarrow> nat \<Rightarrow> emissary \<Rightarrow> emissary option" where
  "Emissary_reset k e w p = em_set_tick (curTick e) k w (checkToFlushPreserveBits e p)"

text \<open>The variables of the search; the counters are bytes.\<close>

record em_scan =
  victimNotSt :: nat
  lruEntry :: nat
  preservedEntry :: "nat option"
  numNotPreserved :: nat
  numpreserve :: nat

definition em_older :: "rp_env \<Rightarrow> em_entry list \<Rightarrow> nat \<Rightarrow> nat \<Rightarrow> bool" where
  "em_older e s candidate victim =
     (let candidate_cost = em_lastTouchTick (s ! candidate) div 500;
          victim_cost = em_lastTouchTick (s ! victim) div 500
      in candidate_cost < victim_cost \<and> curTick e div 500 - candidate_cost > 500)"

definition em_visit :: "rp_env \<Rightarrow> em_entry list \<Rightarrow> nat \<Rightarrow> em_scan \<Rightarrow> em_scan" where
  "em_visit e s candidate st =
     (let blk = em_blk (s ! candidate);
          st1 = (if isPreserve blk then
                   (let n = (numpreserve st + 1) mod 2 ^ 8 in
                    if n = 1 then st\<lparr>numpreserve := n, preservedEntry := Some candidate\<rparr>
                    else
                      (case preservedEntry st of
                         None \<Rightarrow> st\<lparr>numpreserve := n\<rparr>
                       | Some victim \<Rightarrow>
                           if em_older e s candidate victim \<or> blk_refCount blk < blk_refCount (em_blk (s ! victim))
                           then st\<lparr>numpreserve := n, preservedEntry := Some candidate\<rparr>
                           else st\<lparr>numpreserve := n\<rparr>))
                 else
                   (let n = (numNotPreserved st + 1) mod 2 ^ 8 in
                    if n = 1 \<or> em_lastTouchTick (s ! candidate) < em_lastTouchTick (s ! victimNotSt st)
                    then st\<lparr>numNotPreserved := n, victimNotSt := candidate\<rparr>
                    else st\<lparr>numNotPreserved := n\<rparr>))
      in if em_lastTouchTick (s ! candidate) < em_lastTouchTick (s ! lruEntry st1)
         then st1\<lparr>lruEntry := candidate\<rparr> else st1)"

definition Emissary_getVictim :: "nat \<Rightarrow> rp_env \<Rightarrow> emissary \<Rightarrow> (nat \<times> emissary) option" where
  "Emissary_getVictim k e p = do {
     c_assert (k < length (em_sets p) \<and> length (em_sets p ! k) > 0);
     let p1 = checkToFlushPreserveBits e p;
     let s = em_sets p1 ! k;
     let st = fold (em_visit e s) [0..<length s]
                \<lparr>victimNotSt = 0, lruEntry = 0, preservedEntry = None, numNotPreserved = 0, numpreserve = 0\<rparr>;
     Some (if int (numpreserve st) > preserve_ways p1 then lruEntry st else victimNotSt st, p1)
   }"

subsection \<open>The victim\<close>

definition preserved_ways :: "em_entry list \<Rightarrow> nat set" where
  "preserved_ways s = {w. w < length s \<and> isPreserve (em_blk (s ! w))}"

definition scan_inv :: "em_entry list \<Rightarrow> nat \<Rightarrow> em_scan \<Rightarrow> bool" where
  "scan_inv s i st \<longleftrightarrow>
     numpreserve st = card {w. w < i \<and> isPreserve (em_blk (s ! w))} \<and>
     numNotPreserved st = card {w. w < i \<and> \<not> isPreserve (em_blk (s ! w))} \<and>
     (if \<exists>w < i. \<not> isPreserve (em_blk (s ! w)) then
        victimNotSt st < i \<and> \<not> isPreserve (em_blk (s ! victimNotSt st)) \<and>
        (\<forall>w < i. \<not> isPreserve (em_blk (s ! w)) \<longrightarrow> em_lastTouchTick (s ! victimNotSt st) \<le> em_lastTouchTick (s ! w))
      else victimNotSt st = 0) \<and>
     (if i = 0 then lruEntry st = 0
      else lruEntry st < i \<and> (\<forall>w < i. em_lastTouchTick (s ! lruEntry st) \<le> em_lastTouchTick (s ! w)))"

lemma card_below_Suc: "card {w. w < Suc i \<and> P w} = card {w. w < i \<and> P w} + (if P i then 1 else 0)"
proof -
  have "{w. w < Suc i \<and> P w} = (if P i then Set.insert i {w. w < i \<and> P w} else {w. w < i \<and> P w})"
    by (auto simp: less_Suc_eq)
  then show ?thesis by simp
qed

lemma card_below_le: "card {w. w < i \<and> P w} \<le> i"
  using card_mono [of "{..<i}" "{w. w < i \<and> P w}"] by auto

lemma em_visit_sel:
  "numpreserve (em_visit e s c st) = (if isPreserve (em_blk (s ! c)) then (numpreserve st + 1) mod 256 else numpreserve st)"
  "numNotPreserved (em_visit e s c st) = (if isPreserve (em_blk (s ! c)) then numNotPreserved st else (numNotPreserved st + 1) mod 256)"
  "victimNotSt (em_visit e s c st) =
     (if \<not> isPreserve (em_blk (s ! c)) \<and> ((numNotPreserved st + 1) mod 256 = 1 \<or>
          em_lastTouchTick (s ! c) < em_lastTouchTick (s ! victimNotSt st)) then c else victimNotSt st)"
  "lruEntry (em_visit e s c st) = (if em_lastTouchTick (s ! c) < em_lastTouchTick (s ! lruEntry st) then c else lruEntry st)"
  by (simp_all add: em_visit_def Let_def split: option.split)

lemma scan_inv_step:
  assumes inv: "scan_inv s i st" and i: "i < 255"
  shows "scan_inv s (Suc i) (em_visit e s i st)"
proof -
  let ?P = "\<lambda>w. isPreserve (em_blk (s ! w))" and ?t = "\<lambda>w. em_lastTouchTick (s ! w)" and ?st = "em_visit e s i st"
  have np: "numpreserve st = card {w. w < i \<and> ?P w}" "numNotPreserved st = card {w. w < i \<and> \<not> ?P w}"
    using inv by (simp_all add: scan_inv_def)
  have small: "numpreserve st + 1 < 256" "numNotPreserved st + 1 < 256"
    using np i card_below_le [of i ?P] card_below_le [of i "\<lambda>w. \<not> ?P w"] by simp_all
  have first: "numNotPreserved st = 0 \<longleftrightarrow> \<not> (\<exists>w < i. \<not> ?P w)" unfolding np by auto
  have counts: "numpreserve ?st = card {w. w < Suc i \<and> ?P w}" "numNotPreserved ?st = card {w. w < Suc i \<and> \<not> ?P w}"
    using small np by (simp_all add: em_visit_sel card_below_Suc)
  have lru: "lruEntry ?st < Suc i \<and> (\<forall>w < Suc i. ?t (lruEntry ?st) \<le> ?t w)"
  proof (cases "i = 0")
    case True
    then show ?thesis using inv by (simp add: scan_inv_def em_visit_sel)
  next
    case False
    then have "lruEntry st < i" "\<forall>w < i. ?t (lruEntry st) \<le> ?t w" using inv by (simp_all add: scan_inv_def)
    then show ?thesis by (auto simp: em_visit_sel less_Suc_eq intro: less_imp_le order_trans)
  qed
  have vict: "if \<exists>w < Suc i. \<not> ?P w then victimNotSt ?st < Suc i \<and> \<not> ?P (victimNotSt ?st) \<and>
      (\<forall>w < Suc i. \<not> ?P w \<longrightarrow> ?t (victimNotSt ?st) \<le> ?t w) else victimNotSt ?st = 0"
  proof (cases "\<exists>w < i. \<not> ?P w")
    case False
    then have "numNotPreserved st = 0" "victimNotSt st = 0" using first inv by (simp_all add: scan_inv_def)
    then show ?thesis using False by (auto simp: em_visit_sel less_Suc_eq)
  next
    case True
    then have n: "(numNotPreserved st + 1) mod 256 \<noteq> 1" and
      v: "victimNotSt st < i" "\<not> ?P (victimNotSt st)" "\<forall>w < i. \<not> ?P w \<longrightarrow> ?t (victimNotSt st) \<le> ?t w"
      using first small inv by (simp_all add: scan_inv_def)
    have "\<exists>w < Suc i. \<not> ?P w" using True less_SucI by blast
    then show ?thesis using n v by (auto simp: em_visit_sel less_Suc_eq intro: less_imp_le order_trans)
  qed
  show ?thesis unfolding scan_inv_def using counts lru vict by simp
qed

lemma scan_inv_fold:
  "i \<le> 255 \<Longrightarrow> scan_inv s i (fold (em_visit e s) [0..<i]
     \<lparr>victimNotSt = 0, lruEntry = 0, preservedEntry = None, numNotPreserved = 0, numpreserve = 0\<rparr>)"
proof (induction i)
  case 0
  then show ?case by (simp add: scan_inv_def)
next
  case (Suc i)
  then show ?case using scan_inv_step by simp
qed

lemma em_sets_flush:
  "length (em_sets (checkToFlushPreserveBits e p)) = length (em_sets p)"
  "k < length (em_sets p) \<Longrightarrow> length (em_sets (checkToFlushPreserveBits e p) ! k) = length (em_sets p ! k)"
  by (simp_all add: checkToFlushPreserveBits_def Let_def dumpPreserveHist_def)

lemma Emissary_victim:
  assumes k: "k < length (em_sets p)" and n: "0 < length (em_sets p ! k)" "length (em_sets p ! k) \<le> 255"
    and p1: "p1 = checkToFlushPreserveBits e p" and s: "s = em_sets p1 ! k"
  shows "\<exists>w. Emissary_getVictim k e p = Some (w, p1) \<and> w < length s \<and>
    (if int (card (preserved_ways s)) > preserve_ways p1 then \<forall>v < length s. em_lastTouchTick (s ! w) \<le> em_lastTouchTick (s ! v)
     else if preserved_ways s = {..<length s} then w = 0
     else w \<notin> preserved_ways s \<and> (\<forall>v < length s. v \<notin> preserved_ways s \<longrightarrow> em_lastTouchTick (s ! w) \<le> em_lastTouchTick (s ! v)))"
proof -
  let ?st = "fold (em_visit e s) [0..<length s]
      \<lparr>victimNotSt = 0, lruEntry = 0, preservedEntry = None, numNotPreserved = 0, numpreserve = 0\<rparr>"
  have len: "0 < length s" "length s \<le> 255" using n em_sets_flush(2) [OF k] by (simp_all add: s p1)
  have inv: "scan_inv s (length s) ?st" using scan_inv_fold [OF len(2)] .
  have eq: "Emissary_getVictim k e p = Some (if int (numpreserve ?st) > preserve_ways p1 then lruEntry ?st else victimNotSt ?st, p1)"
    using k n(1) by (simp add: Emissary_getVictim_def Let_def p1 s)
  have np: "numpreserve ?st = card (preserved_ways s)" using inv by (simp add: scan_inv_def preserved_ways_def)
  have lru: "lruEntry ?st < length s" "\<forall>v < length s. em_lastTouchTick (s ! lruEntry ?st) \<le> em_lastTouchTick (s ! v)"
    using inv len(1) by (simp_all add: scan_inv_def)
  show ?thesis
  proof (cases "int (card (preserved_ways s)) > preserve_ways p1")
    case True
    then show ?thesis using eq np lru by auto
  next
    case False
    show ?thesis
    proof (cases "preserved_ways s = {..<length s}")
      case True
      then have "\<not> (\<exists>w < length s. \<not> isPreserve (em_blk (s ! w)))" by (auto simp: preserved_ways_def)
      then have "victimNotSt ?st = 0" using inv by (simp add: scan_inv_def)
      then show ?thesis using eq np False True len(1) by auto
    next
      case ne: False
      then have "\<exists>w < length s. \<not> isPreserve (em_blk (s ! w))" by (auto simp: preserved_ways_def)
      then have "victimNotSt ?st < length s" "\<not> isPreserve (em_blk (s ! victimNotSt ?st))"
        "\<forall>v < length s. \<not> isPreserve (em_blk (s ! v)) \<longrightarrow> em_lastTouchTick (s ! victimNotSt ?st) \<le> em_lastTouchTick (s ! v)"
        using inv by (simp_all add: scan_inv_def)
      then show ?thesis using eq np False ne by (auto simp: preserved_ways_def)
    qed
  qed
qed

text \<open>A flush keeps a line preserved exactly if it was used since the last flush.\<close>

lemma em_clean_bits:
  "isPreserve (em_blk (em_clean x)) \<longleftrightarrow> isPreserve (em_blk x) \<and> isUsed (em_blk x)" "\<not> isUsed (em_blk (em_clean x))"
  by (simp_all add: em_clean_def Let_def isPreserve_def isUsed_def clearPreserve_def clearUsed_def clearCoherenceBits_def
      coherence_bits and.assoc)

definition em_ok :: "nat \<Rightarrow> nat \<Rightarrow> emissary \<Rightarrow> bool" where
  "em_ok k n p \<longleftrightarrow> k < length (em_sets p) \<and> length (em_sets p ! k) = n \<and> n \<le> 255"

lemma em_ok_flush: "em_ok k n p \<Longrightarrow> em_ok k n (checkToFlushPreserveBits e p)"
  by (simp add: em_ok_def em_sets_flush)

lemma em_set_tick_ok: "em_ok k n p \<Longrightarrow> w < n \<Longrightarrow> \<exists>p'. em_set_tick t k w p = Some p' \<and> em_ok k n p'"
  by (simp add: em_set_tick_def em_ok_def)

interpretation emissary_rp: replacement_policy "em_ok k" "Emissary_touch k" "Emissary_reset k" "Emissary_invalidate k" "Emissary_getVictim k"
  for k
proof unfold_locales
  fix e n p w
  assume "em_ok k n p" "w < n"
  then show "\<exists>s'. Emissary_touch k e w p = Some s' \<and> em_ok k n s'" "\<exists>s'. Emissary_reset k e w p = Some s' \<and> em_ok k n s'"
    "\<exists>s'. Emissary_invalidate k e w p = Some s' \<and> em_ok k n s'"
    unfolding Emissary_touch_def Emissary_reset_def Emissary_invalidate_def by (simp_all add: em_set_tick_ok em_ok_flush)
next
  fix e n p
  assume "em_ok k n p" "0 < n"
  then show "\<exists>w s'. Emissary_getVictim k e p = Some (w, s') \<and> w < n \<and> em_ok k n s'"
    using Emissary_victim [of k p, OF _ _ _ refl refl, of e] em_sets_flush(2) [of k p e] em_ok_flush [of k n p e]
    by (auto simp: em_ok_def)
qed

subsection \<open>Properties\<close>


definition example_blk :: "u32 \<Rightarrow> CacheBlk" where
  "example_blk c = \<lparr>blk_valid = True, blk_secure = False, blk_tag = 0, coherence = c, whenReady = 0, tickRecentAccess = 0,
     l1AccessCount = 0, starveCount = 0, starveHistory = 0, rpMode = False, miss_cost = 0, recency_stack = 0, blk_addr = 0,
     blk_vaddr = 0, lockList = [], blk_taskId = 0, srcRequestorId = 0, blk_refCount = 0, blk_tickInserted = 0, blk_prefetched = False\<rparr>"

definition example_em :: emissary where
  "example_em = \<lparr>preserve_ways = 1, last_tick = 0, flush_freq_in_cycles = 0, em_numWays = 2,
     em_sets = [[\<lparr>em_blk = example_blk BlkPreserve, em_lastTouchTick = 1\<rparr>, \<lparr>em_blk = example_blk 0, em_lastTouchTick = 5\<rparr>]]\<rparr>"


end
