(* ===== verification/Dueling.thy ===== *)
theory Dueling
  imports Repl_RRIP Complex_Main
begin

section \<open>Dueling replacement policies\<close>

text \<open>
  A dueling policy (\<open>replacement_policies/dueling_rp.cc\<close>) runs two policies on the same entries.  A
  monitor (\<open>tags/dueling.cc\<close>) makes some sets samples of one policy and some of the other, counts
  their misses against each other, and lets the other sets follow the policy that misses less.

  The policy is a client of the interface of the replacement policies, for both of its parts, and
  provides the same interface again.  The quotient of a counter and its maximum is a
  rational number here.  In the code it is a double, but it is compared only with one half, and a
  quotient of numbers of 32 bits that is not one half is not rounded to it.
\<close>

subsection \<open>Duelers and their monitor\<close>

definition popCount :: "u64 \<Rightarrow> nat" where
  "popCount val = length (filter (bit val) [0..<64])"

record dueler =
  du_isSample :: u64
  du_team :: u64

definition Dueler_new :: dueler where
  "Dueler_new = \<lparr>du_isSample = 0, du_team = 0\<rparr>"

definition setSample :: "u64 \<Rightarrow> bool \<Rightarrow> dueler \<Rightarrow> dueler option" where
  "setSample ident team d = do {
     c_assert (\<not> popCount ident \<noteq> 1);
     c_assert (\<not> du_isSample d AND ident \<noteq> 0);
     let d1 = d\<lparr>du_isSample := du_isSample d OR ident\<rparr>;
     Some (if team then d1\<lparr>du_team := du_team d1 OR ident\<rparr> else d1)
   }"

text \<open>The result is whether the dueler is a sample, and its team.\<close>

definition Dueler_isSample :: "u64 \<Rightarrow> dueler \<Rightarrow> bool \<times> bool" where
  "Dueler_isSample ident d = (du_isSample d AND ident \<noteq> 0, du_team d AND ident \<noteq> 0)"

record duel_monitor =
  dm_id :: u64
  constituencySize :: nat
  teamSize :: nat
  lowThreshold :: rat
  highThreshold :: rat
  selector :: sat_counter
  regionCounter :: nat
  duel_winner :: bool

text \<open>Without a maximum the quotient is not a number, and no comparison with it holds.\<close>

definition calcSaturation :: "sat_counter \<Rightarrow> rat option" where
  "calcSaturation c = (if maxVal c = 0 then None else Some (of_nat (counter c) / of_nat (maxVal c)))"

definition saturation_less :: "sat_counter \<Rightarrow> rat \<Rightarrow> bool" where
  "saturation_less c x = (case calcSaturation c of None \<Rightarrow> False | Some q \<Rightarrow> q < x)"

definition saturation_ge :: "sat_counter \<Rightarrow> rat \<Rightarrow> bool" where
  "saturation_ge c x = (case calcSaturation c of None \<Rightarrow> False | Some q \<Rightarrow> x \<le> q)"

text \<open>
  The expression \<open>1 << numInstances\<close> is one of 32 bits with a sign, which is extended to the 64
  bits of the identifier; a shift by 32 or more is undefined.
\<close>

definition monitor_id :: "nat \<Rightarrow> u64 option" where
  "monitor_id numInstances =
     (if numInstances < 32 then Some (scast (push_bit numInstances 1 :: 32 word)) else None)"

definition DuelingMonitor_new :: "nat \<Rightarrow> nat \<Rightarrow> nat \<Rightarrow> nat \<Rightarrow> rat \<Rightarrow> rat \<Rightarrow> (duel_monitor \<times> nat) option" where
  "DuelingMonitor_new numInstances constituency_size team_size num_bits low_threshold high_threshold = do {
     ident \<leftarrow> monitor_id numInstances;
     sel \<leftarrow> SatCounter_new 32 num_bits 0;
     c_assert (\<not> constituency_size < 2 * team_size);
     c_assert (\<not> numInstances > 63);
     c_assert (\<not> (low_threshold \<le> 0 \<or> high_threshold \<ge> 1));
     c_assert (\<not> (high_threshold \<le> 0 \<or> high_threshold \<ge> 1));
     c_assert (\<not> low_threshold > high_threshold);
     sel1 \<leftarrow> sc_shr (snd (sc_saturate sel)) 1;
     Some (\<lparr>dm_id = ident, constituencySize = constituency_size, teamSize = team_size, lowThreshold = low_threshold,
            highThreshold = high_threshold, selector = sel1, regionCounter = 0,
            duel_winner = (if saturation_less sel1 low_threshold then False else True)\<rparr>, numInstances + 1)
   }"

definition duel_sample :: "dueler \<Rightarrow> duel_monitor \<Rightarrow> duel_monitor" where
  "duel_sample d m =
     (let (is_sample, team) = Dueler_isSample (dm_id m) d in
      if is_sample then
        if team then
          let m1 = m\<lparr>selector := sc_inc (selector m)\<rparr>
          in if saturation_ge (selector m1) (highThreshold m1) then m1\<lparr>duel_winner := True\<rparr> else m1
        else
          let m1 = m\<lparr>selector := sc_dec (selector m)\<rparr>
          in if saturation_less (selector m1) (lowThreshold m1) then m1\<lparr>duel_winner := False\<rparr> else m1
      else m)"

definition initEntry :: "duel_monitor \<Rightarrow> dueler \<Rightarrow> (dueler \<times> duel_monitor) option" where
  "initEntry m d = do {
     d1 \<leftarrow> (if regionCounter m < teamSize m then setSample (dm_id m) False d
           else if regionCounter m \<ge> constituencySize m - teamSize m then setSample (dm_id m) True d
           else Some d);
     let r = regionCounter m + 1;
     Some (d1, m\<lparr>regionCounter := (if r \<ge> constituencySize m then 0 else r)\<rparr>)
   }"

text \<open>The duelers of a table whose entries are instantiated in order.\<close>

fun instantiateEntries :: "nat \<Rightarrow> duel_monitor \<Rightarrow> (dueler list \<times> duel_monitor) option" where
  "instantiateEntries 0 m = Some ([], m)"
| "instantiateEntries (Suc n) m = do {
     (d, m1) \<leftarrow> initEntry m Dueler_new;
     (ds, m2) \<leftarrow> instantiateEntries n m1;
     Some (d # ds, m2)
   }"

subsection \<open>The policy on one set\<close>

text \<open>The monitor and, for the ways of the set, the duelers and the replacement data of both policies.\<close>

record ('a, 'b) dueling =
  dl_monitor :: duel_monitor
  dl_duelers :: "dueler list"
  replDataA :: 'a
  replDataB :: 'b

definition Dueling_both :: "(rp_env \<Rightarrow> nat \<Rightarrow> 'a \<Rightarrow> 'a option) \<Rightarrow> (rp_env \<Rightarrow> nat \<Rightarrow> 'b \<Rightarrow> 'b option) \<Rightarrow>
    rp_env \<Rightarrow> nat \<Rightarrow> ('a, 'b) dueling \<Rightarrow> ('a, 'b) dueling option" where
  "Dueling_both opA opB e w s = do {
     a \<leftarrow> opA e w (replDataA s);
     b \<leftarrow> opB e w (replDataB s);
     Some (s\<lparr>replDataA := a, replDataB := b\<rparr>)
   }"

definition Dueling_invalidate :: "(rp_env \<Rightarrow> nat \<Rightarrow> 'a \<Rightarrow> 'a option) \<Rightarrow> (rp_env \<Rightarrow> nat \<Rightarrow> 'b \<Rightarrow> 'b option) \<Rightarrow>
    rp_env \<Rightarrow> nat \<Rightarrow> ('a, 'b) dueling \<Rightarrow> ('a, 'b) dueling option" where
  "Dueling_invalidate invalidateA invalidateB e w s = Dueling_both invalidateA invalidateB e w s"

definition Dueling_touch :: "(rp_env \<Rightarrow> nat \<Rightarrow> 'a \<Rightarrow> 'a option) \<Rightarrow> (rp_env \<Rightarrow> nat \<Rightarrow> 'b \<Rightarrow> 'b option) \<Rightarrow>
    rp_env \<Rightarrow> nat \<Rightarrow> ('a, 'b) dueling \<Rightarrow> ('a, 'b) dueling option" where
  "Dueling_touch touchA touchB e w s = Dueling_both touchA touchB e w s"

definition Dueling_reset :: "(rp_env \<Rightarrow> nat \<Rightarrow> 'a \<Rightarrow> 'a option) \<Rightarrow> (rp_env \<Rightarrow> nat \<Rightarrow> 'b \<Rightarrow> 'b option) \<Rightarrow>
    rp_env \<Rightarrow> nat \<Rightarrow> ('a, 'b) dueling \<Rightarrow> ('a, 'b) dueling option" where
  "Dueling_reset resetA resetB e w s = do {
     s1 \<leftarrow> Dueling_both resetA resetB e w s;
     c_assert (w < length (dl_duelers s1));
     Some (s1\<lparr>dl_monitor := duel_sample (dl_duelers s1 ! w) (dl_monitor s1)\<rparr>)
   }"

text \<open>Which policy chooses the victim: the one a sample belongs to, or the one with fewer misses.\<close>

definition select_team_a :: "duel_monitor \<Rightarrow> dueler \<Rightarrow> bool" where
  "select_team_a m d =
     (let winner = (\<not> duel_winner m); (is_sample, team) = Dueler_isSample (dm_id m) d
      in (is_sample \<and> \<not> team) \<or> (\<not> is_sample \<and> \<not> winner))"

definition Dueling_getVictim :: "(rp_env \<Rightarrow> 'a \<Rightarrow> (nat \<times> 'a) option) \<Rightarrow> (rp_env \<Rightarrow> 'b \<Rightarrow> (nat \<times> 'b) option) \<Rightarrow>
    rp_env \<Rightarrow> ('a, 'b) dueling \<Rightarrow> (nat \<times> ('a, 'b) dueling) option" where
  "Dueling_getVictim victimA victimB e s = do {
     let m = dl_monitor s;
     c_assert (length (dl_duelers s) = teamSize m);
     c_assert (dl_duelers s \<noteq> []);
     let team = snd (Dueler_isSample (dm_id m) (hd (dl_duelers s)));
     c_assert (list_all (\<lambda>d. \<not> (fst (Dueler_isSample (dm_id m) d) \<and> team \<noteq> snd (Dueler_isSample (dm_id m) d))) (dl_duelers s));
     if select_team_a m (hd (dl_duelers s)) then do {
       (v, a) \<leftarrow> victimA e (replDataA s);
       Some (v, s\<lparr>replDataA := a\<rparr>) }
     else do {
       (v, b) \<leftarrow> victimB e (replDataB s);
       Some (v, s\<lparr>replDataB := b\<rparr>) }
   }"

subsection \<open>The policy on all sets\<close>

text \<open>The sets of a cache share the monitor.  An event is a call for one of them.\<close>

record ('a, 'b) duel_table =
  dt_monitor :: duel_monitor
  dt_sets :: "(dueler list \<times> 'a \<times> 'b) list"

definition set_view :: "nat \<Rightarrow> ('a, 'b) duel_table \<Rightarrow> ('a, 'b) dueling" where
  "set_view j t = (case dt_sets t ! j of (ds, a, b) \<Rightarrow>
     \<lparr>dl_monitor = dt_monitor t, dl_duelers = ds, replDataA = a, replDataB = b\<rparr>)"

definition duel_table_step :: "(rp_event \<Rightarrow> ('a, 'b) dueling \<Rightarrow> ('a, 'b) dueling option) \<Rightarrow>
    nat \<times> rp_event \<Rightarrow> ('a, 'b) duel_table \<Rightarrow> ('a, 'b) duel_table option" where
  "duel_table_step step ev t = (case ev of (j, rp) \<Rightarrow> do {
     c_assert (j < length (dt_sets t));
     s \<leftarrow> step rp (set_view j t);
     Some \<lparr>dt_monitor = dl_monitor s, dt_sets = (dt_sets t)[j := (dl_duelers s, replDataA s, replDataB s)]\<rparr> })"

definition duel_table_env :: "nat \<Rightarrow> nat \<Rightarrow> nat \<times> rp_event \<Rightarrow> ('a, 'b) duel_table \<Rightarrow> bool" where
  "duel_table_env n sets ev t \<longleftrightarrow> fst ev < sets \<and> rp_allowed n (snd ev) (set_view (fst ev) t)"

subsection \<open>Samples\<close>

definition entry_role :: "nat \<Rightarrow> nat \<Rightarrow> nat \<Rightarrow> bool \<times> bool" where
  "entry_role cs ts r = (if r < ts then (True, False) else if r \<ge> cs - ts then (True, True) else (False, False))"

text \<open>The first set of a constituency is a sample of the first policy, the last one of the second.\<close>

definition set_role :: "nat \<Rightarrow> nat \<Rightarrow> bool \<times> bool" where
  "set_role k j = (if j mod k = 0 then (True, False) else if j mod k = k - 1 then (True, True) else (False, False))"

lemma popCount_nonzero: "popCount ident = 1 \<Longrightarrow> ident \<noteq> 0"
  by (auto simp: popCount_def)

lemma setSample_new:
  assumes "popCount ident = 1"
  shows "\<exists>d. setSample ident team Dueler_new = Some d \<and> Dueler_isSample ident d = (True, team)"
  using assms popCount_nonzero [OF assms] by (cases team) (simp_all add: setSample_def Dueler_new_def Dueler_isSample_def)

lemma initEntry_new:
  assumes "popCount (dm_id m) = 1" "regionCounter m < constituencySize m"
  shows "\<exists>d. initEntry m Dueler_new = Some (d, m\<lparr>regionCounter := (regionCounter m + 1) mod constituencySize m\<rparr>) \<and>
    Dueler_isSample (dm_id m) d = entry_role (constituencySize m) (teamSize m) (regionCounter m)"
proof -
  have next_region: "(if regionCounter m + 1 \<ge> constituencySize m then 0 else regionCounter m + 1) = (regionCounter m + 1) mod constituencySize m"
    using assms(2) by (auto simp: mod_Suc)
  have follower: "Dueler_isSample (dm_id m) Dueler_new = (False, False)" by (simp add: Dueler_isSample_def Dueler_new_def)
  obtain d0 d1 where "setSample (dm_id m) False Dueler_new = Some d0" "Dueler_isSample (dm_id m) d0 = (True, False)"
    "setSample (dm_id m) True Dueler_new = Some d1" "Dueler_isSample (dm_id m) d1 = (True, True)"
    using setSample_new [OF assms(1)] by blast
  then show ?thesis using follower unfolding initEntry_def Let_def next_region by (simp add: entry_role_def)
qed

lemma instantiateEntries_spec:
  assumes "popCount (dm_id m) = 1" "regionCounter m < constituencySize m"
  shows "\<exists>ds. instantiateEntries n m = Some (ds, m\<lparr>regionCounter := (regionCounter m + n) mod constituencySize m\<rparr>) \<and> length ds = n \<and>
    (\<forall>i < n. Dueler_isSample (dm_id m) (ds ! i) = entry_role (constituencySize m) (teamSize m) ((regionCounter m + i) mod constituencySize m))"
  using assms
proof (induction n arbitrary: m)
  case (Suc n)
  let ?m1 = "m\<lparr>regionCounter := (regionCounter m + 1) mod constituencySize m\<rparr>"
  obtain d where d: "initEntry m Dueler_new = Some (d, ?m1)"
    "Dueler_isSample (dm_id m) d = entry_role (constituencySize m) (teamSize m) (regionCounter m)"
    using initEntry_new [OF Suc.prems] by blast
  obtain ds where ds: "instantiateEntries n ?m1 = Some (ds, ?m1\<lparr>regionCounter := (regionCounter ?m1 + n) mod constituencySize ?m1\<rparr>)"
    "length ds = n" "\<forall>i < n. Dueler_isSample (dm_id ?m1) (ds ! i) =
      entry_role (constituencySize ?m1) (teamSize ?m1) ((regionCounter ?m1 + i) mod constituencySize ?m1)"
    using Suc.IH [of ?m1] Suc.prems by auto
  have "Dueler_isSample (dm_id m) ((d # ds) ! i) = entry_role (constituencySize m) (teamSize m) ((regionCounter m + i) mod constituencySize m)"
    if "i < Suc n" for i
    using that d(2) ds(3) Suc.prems(2) by (cases i) (simp_all add: mod_simps)
  then show ?case using d(1) ds(1,2) by (simp add: mod_simps)
qed simp

lemma entry_role_set:
  assumes "2 \<le> k" "w < ways"
  shows "entry_role (k * ways) ways ((j * ways + w) mod (k * ways)) = set_role k j"
proof -
  have "(j * ways + w) mod (ways * k) = ways * ((j * ways + w) div ways mod k) + (j * ways + w) mod ways" by (rule mod_mult2_eq)
  then have r: "(j * ways + w) mod (k * ways) = (j mod k) * ways + w" using assms(2) by (simp add: mult.commute)
  have jk: "j mod k < k" using assms(1) by simp
  show ?thesis
  proof (cases "j mod k = 0")
    case True
    then show ?thesis using assms(2) by (simp add: r entry_role_def set_role_def)
  next
    case False
    then have "ways \<le> (j mod k) * ways" by (cases "j mod k") simp_all
    then have ge: "\<not> (j mod k) * ways + w < ways" by linarith
    have last: "(j mod k) * ways + w \<ge> k * ways - ways \<longleftrightarrow> j mod k = k - 1"
    proof
      assume "j mod k = k - 1"
      then show "(j mod k) * ways + w \<ge> k * ways - ways" by (simp add: diff_mult_distrib)
    next
      assume a: "(j mod k) * ways + w \<ge> k * ways - ways"
      show "j mod k = k - 1"
      proof (rule ccontr)
        assume "j mod k \<noteq> k - 1"
        then have "(j mod k + 2) * ways \<le> k * ways" using jk by (intro mult_right_mono) auto
        then show False using a assms(2) by (simp add: add_mult_distrib)
      qed
    qed
    show ?thesis using False ge last by (simp add: r entry_role_def set_role_def)
  qed
qed

subsection \<open>The monitor\<close>

text \<open>With both thresholds one half the winner is what the selector says.\<close>

definition monitor_half :: "duel_monitor \<Rightarrow> bool" where
  "monitor_half m \<longleftrightarrow> lowThreshold m = 1 / 2 \<and> highThreshold m = 1 / 2 \<and> sc_ok (selector m) \<and> 0 < maxVal (selector m) \<and>
     (duel_winner m \<longleftrightarrow> maxVal (selector m) \<le> 2 * counter (selector m))"

lemma saturation_half:
  assumes "0 < maxVal c"
  shows "saturation_ge c (1 / 2) \<longleftrightarrow> maxVal c \<le> 2 * counter c" "saturation_less c (1 / 2) \<longleftrightarrow> 2 * counter c < maxVal c"
proof -
  have "(1 / 2 :: rat) \<le> of_nat (counter c) / of_nat (maxVal c) \<longleftrightarrow> (of_nat (maxVal c) :: rat) \<le> of_nat (2 * counter c)"
    using assms by (simp add: field_simps)
  then show ge: "saturation_ge c (1 / 2) \<longleftrightarrow> maxVal c \<le> 2 * counter c"
    using assms unfolding saturation_ge_def calcSaturation_def by (simp only: of_nat_le_iff) simp
  show "saturation_less c (1 / 2) \<longleftrightarrow> 2 * counter c < maxVal c"
    using assms ge unfolding saturation_ge_def saturation_less_def calcSaturation_def by auto
qed

lemma sample_frame [simp]:
  "dm_id (duel_sample d m) = dm_id m" "teamSize (duel_sample d m) = teamSize m" "constituencySize (duel_sample d m) = constituencySize m"
  "regionCounter (duel_sample d m) = regionCounter m"
  by (simp_all add: duel_sample_def Let_def split: prod.split)

lemma sample_half:
  assumes "monitor_half m"
  shows "monitor_half (duel_sample d m)"
proof -
  have m: "lowThreshold m = 1 / 2" "highThreshold m = 1 / 2" "sc_ok (selector m)" "0 < maxVal (selector m)"
    "duel_winner m \<longleftrightarrow> maxVal (selector m) \<le> 2 * counter (selector m)"
    using assms unfolding monitor_half_def by blast+
  obtain is_sample team where r: "Dueler_isSample (dm_id m) d = (is_sample, team)" by fastforce
  let ?i = "sc_inc (selector m)" and ?d = "sc_dec (selector m)"
  have up: "counter (selector m) \<le> counter ?i" "counter ?d \<le> counter (selector m)"
    using m(3) by (simp_all add: sc_inc_val sc_dec_val sc_ok_def)
  have half: "saturation_ge ?i (highThreshold m) \<longleftrightarrow> maxVal (selector m) \<le> 2 * counter ?i"
    "saturation_less ?d (lowThreshold m) \<longleftrightarrow> 2 * counter ?d < maxVal (selector m)"
    using saturation_half [of ?i] saturation_half [of ?d] m(4) unfolding m(1,2) by simp_all
  have ok: "sc_ok ?i" "sc_ok ?d" using m(3) by simp_all
  show ?thesis
  proof (cases "is_sample")
    case True
    then show ?thesis using r m(1,2,4) ok up m(5)
      by (cases team) (simp_all add: duel_sample_def Let_def half monitor_half_def)
  qed (use assms r in \<open>simp add: duel_sample_def\<close>)
qed

lemma monitor_id_bit:
  assumes "n < 31"
  shows "\<exists>i. monitor_id n = Some i \<and> popCount i = 1"
proof -
  have "bit (scast (push_bit n 1 :: 32 word) :: u64) i \<longleftrightarrow> i = n" if "i < 64" for i
    using assms that by (auto simp: bit_signed_iff bit_exp_iff min_def)
  then have "filter (bit (scast (push_bit n 1 :: 32 word) :: u64)) [0..<64] = filter (\<lambda>i. i = n) [0..<64]"
    by (intro filter_cong) auto
  moreover have "length (filter (\<lambda>i. i = n) [0..<64]) = card {n}"
    using assms by (subst distinct_length_filter) (auto intro!: arg_cong [of _ _ card])
  ultimately show ?thesis using assms by (simp add: monitor_id_def popCount_def)
qed

lemma monitor_new:
  assumes "inst < 31" "2 * ts \<le> cs" "0 < cs"
  shows "\<exists>m. DuelingMonitor_new inst cs ts 10 (1 / 2) (1 / 2) = Some (m, inst + 1) \<and> monitor_half m \<and> popCount (dm_id m) = 1 \<and>
    constituencySize m = cs \<and> teamSize m = ts \<and> regionCounter m = 0"
proof -
  obtain i where i: "monitor_id inst = Some i" "popCount i = 1" using monitor_id_bit [OF assms(1)] by blast
  define sel where "sel = \<lparr>sc_width = 32, initialVal = 0, maxVal = 1023, counter = 511\<rparr>"
  have "\<not> saturation_ge sel (1 / 2)" "saturation_less sel (1 / 2)" by (simp_all add: saturation_half sel_def)
  then show ?thesis using i assms
    by (simp add: DuelingMonitor_new_def SatCounter_new_def sc_shr_def sc_saturate_def monitor_half_def sc_ok_def Let_def flip: sel_def)
      (simp add: sel_def)
qed

subsection \<open>Two policies give a policy\<close>

text \<open>All ways of a set have the same role, and both policies are in order.\<close>

definition dl_inv :: "(nat \<Rightarrow> 'a \<Rightarrow> bool) \<Rightarrow> (nat \<Rightarrow> 'b \<Rightarrow> bool) \<Rightarrow> bool \<times> bool \<Rightarrow> nat \<Rightarrow> ('a, 'b) dueling \<Rightarrow> bool" where
  "dl_inv invA invB role n s \<longleftrightarrow> length (dl_duelers s) = n \<and> teamSize (dl_monitor s) = n \<and>
     (\<forall>d \<in> set (dl_duelers s). Dueler_isSample (dm_id (dl_monitor s)) d = role) \<and> monitor_half (dl_monitor s) \<and>
     invA n (replDataA s) \<and> invB n (replDataB s)"

text \<open>The first policy is used by its samples, and by the others while the selector is not below the middle.\<close>

definition uses_A :: "bool \<times> bool \<Rightarrow> duel_monitor \<Rightarrow> bool" where
  "uses_A role m = (if fst role then \<not> snd role else maxVal (selector m) \<le> 2 * counter (selector m))"

definition dl_frame :: "('a, 'b) dueling \<Rightarrow> ('a, 'b) dueling \<Rightarrow> bool" where
  "dl_frame s s' \<longleftrightarrow> dl_duelers s' = dl_duelers s \<and> dm_id (dl_monitor s') = dm_id (dl_monitor s) \<and>
     teamSize (dl_monitor s') = teamSize (dl_monitor s)"

lemma both_frame: "Dueling_both f g e w s = Some s' \<Longrightarrow> dl_duelers s' = dl_duelers s \<and> dl_monitor s' = dl_monitor s"
  by (auto simp: Dueling_both_def split: bind_splits)

lemma step_frame:
  assumes "rp_step (Dueling_touch tA tB) (Dueling_reset rA rB) (Dueling_invalidate iA iB) (Dueling_getVictim vA vB) ev s = Some s'"
  shows "dl_frame s s'"
proof (cases ev)
  case (RP_reset e w)
  then obtain s1 where "Dueling_both rA rB e w s = Some s1" "s' = s1\<lparr>dl_monitor := duel_sample (dl_duelers s1 ! w) (dl_monitor s1)\<rparr>"
    using assms by (auto simp: Dueling_reset_def split: bind_splits if_split_asm)
  then show ?thesis using both_frame [of rA rB e w s s1] by (simp add: dl_frame_def)
next
  case (RP_getVictim e)
  then show ?thesis using assms by (auto simp: Dueling_getVictim_def dl_frame_def Let_def split: bind_splits if_split_asm)
qed (use assms in \<open>auto simp: Dueling_touch_def Dueling_invalidate_def dl_frame_def dest!: both_frame\<close>)

locale dueling_pair = A: replacement_policy invA touchA resetA invalidateA victimA + B: replacement_policy invB touchB resetB invalidateB victimB
  for invA :: "nat \<Rightarrow> 'a \<Rightarrow> bool" and touchA resetA invalidateA victimA
    and invB :: "nat \<Rightarrow> 'b \<Rightarrow> bool" and touchB resetB invalidateB victimB
begin

lemma both_ok:
  assumes "\<exists>a'. opA e w (replDataA s) = Some a' \<and> invA n a'" "\<exists>b'. opB e w (replDataB s) = Some b' \<and> invB n b'" "dl_inv invA invB role n s"
  shows "\<exists>s'. Dueling_both opA opB e w s = Some s' \<and> dl_inv invA invB role n s' \<and> dl_duelers s' = dl_duelers s"
  using assms by (auto simp: Dueling_both_def dl_inv_def)

lemma victim_choice:
  assumes "env_ok e" "dl_inv invA invB role n s" "0 < n"
  shows "\<exists>v s'. Dueling_getVictim victimA victimB e s = Some (v, s') \<and> v < n \<and> dl_inv invA invB role n s' \<and>
    (if uses_A role (dl_monitor s) then victimA e (replDataA s) = Some (v, replDataA s') \<and> replDataB s' = replDataB s
     else victimB e (replDataB s) = Some (v, replDataB s') \<and> replDataA s' = replDataA s)"
proof -
  have i: "length (dl_duelers s) = n" "teamSize (dl_monitor s) = n" "\<forall>d \<in> set (dl_duelers s). Dueler_isSample (dm_id (dl_monitor s)) d = role"
    "monitor_half (dl_monitor s)" "invA n (replDataA s)" "invB n (replDataB s)"
    using assms(2) by (simp_all add: dl_inv_def)
  have ne: "dl_duelers s \<noteq> []" using i(1) assms(3) by auto
  then have hd: "Dueler_isSample (dm_id (dl_monitor s)) (hd (dl_duelers s)) = role" using i(3) by simp
  have sel: "select_team_a (dl_monitor s) (hd (dl_duelers s)) = uses_A role (dl_monitor s)"
    using hd i(4) by (cases role) (auto simp: select_team_a_def uses_A_def monitor_half_def)
  have chk: "list_all (\<lambda>d. \<not> (fst (Dueler_isSample (dm_id (dl_monitor s)) d) \<and>
      snd (Dueler_isSample (dm_id (dl_monitor s)) (hd (dl_duelers s))) \<noteq> snd (Dueler_isSample (dm_id (dl_monitor s)) d))) (dl_duelers s)"
    using hd i(3) by (simp add: list_all_iff)
  obtain v a where a: "victimA e (replDataA s) = Some (v, a)" "v < n" "invA n a" using A.victim_ok [OF assms(1) i(5) assms(3)] by blast
  obtain u b where b: "victimB e (replDataB s) = Some (u, b)" "u < n" "invB n b" using B.victim_ok [OF assms(1) i(6) assms(3)] by blast
  show ?thesis using a b i ne sel chk assms(2)
    by (cases "uses_A role (dl_monitor s)") (simp_all add: Dueling_getVictim_def dl_inv_def Let_def)
qed

end

sublocale dueling_pair \<subseteq> D: replacement_policy "dl_inv invA invB role" "Dueling_touch touchA touchB" "Dueling_reset resetA resetB"
    "Dueling_invalidate invalidateA invalidateB" "Dueling_getVictim victimA victimB" for role
proof
  fix e n w and s :: "('a, 'b) dueling"
  assume env: "env_ok e" and inv: "dl_inv invA invB role n s" and w: "w < n"
  have i: "invA n (replDataA s)" "invB n (replDataB s)" using inv by (simp_all add: dl_inv_def)
  show "\<exists>s'. Dueling_touch touchA touchB e w s = Some s' \<and> dl_inv invA invB role n s'"
    using both_ok [where opA = touchA and opB = touchB and e = e and w = w, OF A.touch_ok [OF env i(1) w] B.touch_ok [OF env i(2) w] inv] unfolding Dueling_touch_def by blast
  show "\<exists>s'. Dueling_invalidate invalidateA invalidateB e w s = Some s' \<and> dl_inv invA invB role n s'"
    using both_ok [where opA = invalidateA and opB = invalidateB and e = e and w = w, OF A.invalidate_ok [OF env i(1) w] B.invalidate_ok [OF env i(2) w] inv] unfolding Dueling_invalidate_def by blast
  obtain s1 where s1: "Dueling_both resetA resetB e w s = Some s1" "dl_inv invA invB role n s1" "dl_duelers s1 = dl_duelers s"
    using both_ok [where opA = resetA and opB = resetB and e = e and w = w, OF A.reset_ok [OF env i(1) w] B.reset_ok [OF env i(2) w] inv] by blast
  then show "\<exists>s'. Dueling_reset resetA resetB e w s = Some s' \<and> dl_inv invA invB role n s'"
    using w by (auto simp: Dueling_reset_def dl_inv_def sample_half)
next
  fix e n and s :: "('a, 'b) dueling"
  assume "env_ok e" "dl_inv invA invB role n s" "0 < n"
  then show "\<exists>v s'. Dueling_getVictim victimA victimB e s = Some (v, s') \<and> v < n \<and> dl_inv invA invB role n s'"
    using victim_choice by blast
qed

text \<open>All sets of a cache: each one keeps its role, and the monitor serves all of them.\<close>

definition table_inv :: "(nat \<Rightarrow> 'a \<Rightarrow> bool) \<Rightarrow> (nat \<Rightarrow> 'b \<Rightarrow> bool) \<Rightarrow> (nat \<Rightarrow> bool \<times> bool) \<Rightarrow> nat \<Rightarrow> nat \<Rightarrow> ('a, 'b) duel_table \<Rightarrow> bool" where
  "table_inv invA invB roles n sets t \<longleftrightarrow>
     length (dt_sets t) = sets \<and> (\<forall>j < sets. dl_inv invA invB (roles j) n (set_view j t))"

lemma set_view_update:
  "i < length (dt_sets t) \<Longrightarrow> set_view i \<lparr>dt_monitor = m, dt_sets = (dt_sets t)[j := x]\<rparr> =
     (if i = j then \<lparr>dl_monitor = m, dl_duelers = fst x, replDataA = fst (snd x), replDataB = snd (snd x)\<rparr>
      else (set_view i t)\<lparr>dl_monitor := m\<rparr>)"
  by (auto simp: set_view_def split: prod.split)

lemma dl_inv_other_set:
  assumes "dl_inv invA invB role n s" "dl_inv invA invB role' n s'" "dm_id (dl_monitor s') = dm_id (dl_monitor s)"
  shows "dl_inv invA invB role n (s\<lparr>dl_monitor := dl_monitor s'\<rparr>)"
  using assms by (simp add: dl_inv_def)

sublocale dueling_pair \<subseteq> T: safe_machine
    "duel_table_step (rp_step (Dueling_touch touchA touchB) (Dueling_reset resetA resetB)
       (Dueling_invalidate invalidateA invalidateB) (Dueling_getVictim victimA victimB))"
    "duel_table_env n sets" "table_inv invA invB roles n sets" for n sets roles
proof
  fix t :: "('a, 'b) duel_table" and ev
  assume inv: "table_inv invA invB roles n sets t" and env: "duel_table_env n sets ev t"
  let ?step = "rp_step (Dueling_touch touchA touchB) (Dueling_reset resetA resetB)
       (Dueling_invalidate invalidateA invalidateB) (Dueling_getVictim victimA victimB)"
  obtain j rp where ev: "ev = (j, rp)" by (cases ev)
  have j: "j < sets" "rp_allowed n rp (set_view j t)" and len: "length (dt_sets t) = sets"
    and all: "\<And>i. i < sets \<Longrightarrow> dl_inv invA invB (roles i) n (set_view i t)"
    using inv env by (auto simp: ev table_inv_def duel_table_env_def)
  obtain s where s: "?step rp (set_view j t) = Some s" "dl_inv invA invB (roles j) n s"
    using D.rpm.progress [OF all [OF j(1)] j(2)] by blast
  have fr: "dl_frame (set_view j t) s" by (rule step_frame [OF s(1)])
  have view: "dl_monitor (set_view i t) = dt_monitor t" for i by (simp add: set_view_def split: prod.split)
  let ?t = "\<lparr>dt_monitor = dl_monitor s, dt_sets = (dt_sets t)[j := (dl_duelers s, replDataA s, replDataB s)]\<rparr>"
  have "dl_inv invA invB (roles i) n (set_view i ?t)" if "i < sets" for i
  proof (cases "i = j")
    case True
    then show ?thesis using that len s(2) by (simp add: set_view_update dl_inv_def)
  next
    case False
    then show ?thesis using that len fr view dl_inv_other_set [OF all [OF that] s(2)] by (simp add: set_view_update dl_frame_def)
  qed
  then show "\<exists>t'. duel_table_step ?step ev t = Some t' \<and> table_inv invA invB roles n sets t'"
    using j(1) len s(1) by (simp add: ev duel_table_step_def table_inv_def)
qed

subsection \<open>DRRIP\<close>

text \<open>The policy \<open>DRRIPRP\<close> of \<open>ReplacementPolicies.py\<close>: a duel of BRRIP with RRIP, which always inserts with a long prediction.\<close>

interpretation drrip: dueling_pair "brrip.set_inv mx" "at_entry (BRRIP_touch hp)" "at_entry (BRRIP_reset btp)" "at_entry BRRIP_invalidate" BRRIP_getVictim
    "brrip.set_inv mx'" "at_entry (BRRIP_touch hp')" "at_entry (BRRIP_reset btp')" "at_entry BRRIP_invalidate" BRRIP_getVictim
  for mx hp btp mx' hp' btp'
  by unfold_locales

definition drrip_step :: "nat \<Rightarrow> rp_event \<Rightarrow> (BRRIPReplData list, BRRIPReplData list) dueling \<Rightarrow>
    (BRRIPReplData list, BRRIPReplData list) dueling option" where
  "drrip_step btp = rp_step (Dueling_touch (at_entry (BRRIP_touch False)) (at_entry (BRRIP_touch False)))
     (Dueling_reset (at_entry (BRRIP_reset btp)) (at_entry (BRRIP_reset 100)))
     (Dueling_invalidate (at_entry BRRIP_invalidate) (at_entry BRRIP_invalidate)) (Dueling_getVictim BRRIP_getVictim BRRIP_getVictim)"

definition drrip_new :: "nat \<Rightarrow> nat \<Rightarrow> nat \<Rightarrow> nat \<Rightarrow> (BRRIPReplData list, BRRIPReplData list) duel_table option" where
  "drrip_new numInstances constituency_size ways sets = do {
     (m, _) \<leftarrow> DuelingMonitor_new numInstances constituency_size ways 10 (1 / 2) (1 / 2);
     d \<leftarrow> BRRIP_instantiateEntry 2;
     (ds, m1) \<leftarrow> instantiateEntries (sets * ways) m;
     Some \<lparr>dt_monitor = m1,
           dt_sets = map (\<lambda>j. (take ways (drop (j * ways) ds), replicate ways d, replicate ways d)) [0..<sets]\<rparr>
   }"

lemma drrip_start:
  assumes "inst < 31" "2 \<le> k" "0 < ways"
  shows "\<exists>t. drrip_new inst (k * ways) ways sets = Some t \<and>
    table_inv (brrip.set_inv 3) (brrip.set_inv 3) (set_role k) ways sets t"
proof -
  have "2 * ways \<le> k * ways" "0 < k * ways" using assms(2,3) by simp_all
  then obtain m where m: "DuelingMonitor_new inst (k * ways) ways 10 (1 / 2) (1 / 2) = Some (m, inst + 1)" "monitor_half m"
    "popCount (dm_id m) = 1" "constituencySize m = k * ways" "teamSize m = ways" "regionCounter m = 0"
    using monitor_new [OF assms(1)] by blast
  have region: "regionCounter m < constituencySize m" using m(4,6) assms(2,3) by simp
  let ?m = "m\<lparr>regionCounter := (sets * ways) mod (k * ways)\<rparr>"
  obtain ds where ds: "instantiateEntries (sets * ways) m = Some (ds, ?m)" "length ds = sets * ways"
    "\<forall>i < sets * ways. Dueler_isSample (dm_id m) (ds ! i) = entry_role (k * ways) ways (i mod (k * ways))"
    using instantiateEntries_spec [OF m(3) region, of "sets * ways"] unfolding m(4,5,6) by auto
  define d where "d = \<lparr>rrpv = \<lparr>sc_width = 8, initialVal = 0, maxVal = 3, counter = 0\<rparr>, brrip_valid = False\<rparr>"
  have d: "BRRIP_instantiateEntry 2 = Some d" "brrip.set_inv 3 ways (replicate ways d)"
    by (simp_all add: d_def BRRIP_instantiateEntry_def SatCounter_new_def brrip.set_inv_def brrip_ok_def sc_ok_def list_all_length)
  let ?S = "\<lambda>j. (take ways (drop (j * ways) ds), replicate ways d, replicate ways d)"
  have set: "dl_inv (brrip.set_inv 3) (brrip.set_inv 3) (set_role k j) ways
      \<lparr>dl_monitor = ?m, dl_duelers = take ways (drop (j * ways) ds), replDataA = replicate ways d, replDataB = replicate ways d\<rparr>"
    if j: "j < sets" for j
  proof -
    have "Suc j * ways \<le> sets * ways" using j by (intro mult_right_mono) simp_all
    then have bound: "j * ways + ways \<le> length ds" using ds(2) by simp
    have "Dueler_isSample (dm_id m) x = set_role k j" if x: "x \<in> set (take ways (drop (j * ways) ds))" for x
    proof -
      obtain w where w: "w < ways" "x = ds ! (j * ways + w)" using x bound by (auto simp: in_set_conv_nth)
      then have "Dueler_isSample (dm_id m) x = entry_role (k * ways) ways ((j * ways + w) mod (k * ways))"
        using ds(2,3) bound by simp
      then show ?thesis using entry_role_set [OF assms(2) w(1)] by simp
    qed
    then show ?thesis using bound m(2,5) d(2) by (simp add: dl_inv_def monitor_half_def)
  qed
  have "drrip_new inst (k * ways) ways sets = Some \<lparr>dt_monitor = ?m, dt_sets = map ?S [0..<sets]\<rparr>"
    using m(1) d(1) ds(1) by (simp add: drrip_new_def)
  moreover have "table_inv (brrip.set_inv 3) (brrip.set_inv 3) (set_role k) ways sets \<lparr>dt_monitor = ?m, dt_sets = map ?S [0..<sets]\<rparr>"
    using set by (simp add: table_inv_def set_view_def)
  ultimately show ?thesis by blast
qed

text \<open>
  C31: a duel of two policies.  With a constituency of a whole number of sets, at least two, the table of DRRIP
  can be built, and no sequence of calls on its sets fails a check.  At any time the victim of a
  set is the one BRRIP chooses if the set is the first of its constituency, the one RRIP chooses
  if it is the last, and in all other sets BRRIP's while the selector, which counts the
  misses of the samples of RRIP up and those of BRRIP down, is not below its middle.
\<close>

theorem drrip_duel:
  assumes "inst < 31" "2 \<le> k" "0 < ways"
  shows "\<exists>t0. drrip_new inst (k * ways) ways sets = Some t0 \<and>
    (\<forall>evs. admissible (duel_table_step (drrip_step btp)) (duel_table_env ways sets) evs t0 \<longrightarrow>
      (\<exists>t. run (duel_table_step (drrip_step btp)) evs t0 = Some t \<and>
        (\<forall>j e. j < sets \<longrightarrow> env_ok e \<longrightarrow>
          (\<exists>v s'. Dueling_getVictim BRRIP_getVictim BRRIP_getVictim e (set_view j t) = Some (v, s') \<and> v < ways \<and>
            (if j mod k = 0 \<or> j mod k \<noteq> k - 1 \<and> maxVal (selector (dt_monitor t)) \<le> 2 * counter (selector (dt_monitor t))
             then BRRIP_getVictim e (replDataA (set_view j t)) = Some (v, replDataA s') \<and> replDataB s' = replDataB (set_view j t)
             else BRRIP_getVictim e (replDataB (set_view j t)) = Some (v, replDataB s') \<and> replDataA s' = replDataA (set_view j t))))))"
proof -
  obtain t0 where t0: "drrip_new inst (k * ways) ways sets = Some t0"
    "table_inv (brrip.set_inv 3) (brrip.set_inv 3) (set_role k) ways sets t0"
    using drrip_start [OF assms] by blast
  have uses: "uses_A (set_role k j) (dl_monitor (set_view j t)) \<longleftrightarrow>
      j mod k = 0 \<or> j mod k \<noteq> k - 1 \<and> maxVal (selector (dt_monitor t)) \<le> 2 * counter (selector (dt_monitor t))" for j
      and t :: "(BRRIPReplData list, BRRIPReplData list) duel_table"
    by (simp add: uses_A_def set_role_def set_view_def split: prod.split)
  show ?thesis
  proof (rule exI [of _ t0], rule conjI [OF t0(1)], rule allI, rule impI)
    fix evs
    assume "admissible (duel_table_step (drrip_step btp)) (duel_table_env ways sets) evs t0"
    then obtain t where t: "run (duel_table_step (drrip_step btp)) evs t0 = Some t"
      "table_inv (brrip.set_inv 3) (brrip.set_inv 3) (set_role k) ways sets t"
      using drrip.T.run_safe [OF t0(2)] unfolding drrip_step_def by blast
    have "dl_inv (brrip.set_inv 3) (brrip.set_inv 3) (set_role k j) ways (set_view j t)" if "j < sets" for j
      using t(2) that by (simp add: table_inv_def)
    from drrip.victim_choice [OF _ this assms(3)] show "\<exists>t. run (duel_table_step (drrip_step btp)) evs t0 = Some t \<and>
        (\<forall>j e. j < sets \<longrightarrow> env_ok e \<longrightarrow>
          (\<exists>v s'. Dueling_getVictim BRRIP_getVictim BRRIP_getVictim e (set_view j t) = Some (v, s') \<and> v < ways \<and>
            (if j mod k = 0 \<or> j mod k \<noteq> k - 1 \<and> maxVal (selector (dt_monitor t)) \<le> 2 * counter (selector (dt_monitor t))
             then BRRIP_getVictim e (replDataA (set_view j t)) = Some (v, replDataA s') \<and> replDataB s' = replDataB (set_view j t)
             else BRRIP_getVictim e (replDataB (set_view j t)) = Some (v, replDataB s') \<and> replDataA s' = replDataA (set_view j t))))"
      unfolding uses by (intro exI [of _ t] conjI t(1)) blast
  qed
qed

definition duel_env :: rp_env where
  "duel_env = \<lparr>curTick = 500, random = (\<lambda>lo hi. lo)\<rparr>"

theorem drrip_duel_witness:
  "\<exists>t0 t v s'. drrip_new 0 4 2 3 = Some t0 \<and>
     run (duel_table_step (drrip_step 3)) [(0, RP_reset duel_env 1), (1, RP_reset duel_env 0), (2, RP_touch duel_env 1)] t0 = Some t \<and>
     Dueling_getVictim BRRIP_getVictim BRRIP_getVictim duel_env (set_view 2 t) = Some (v, s') \<and>
     BRRIP_getVictim duel_env (replDataA (set_view 2 t)) = Some (v, replDataA s')"
proof -
  have env: "env_ok duel_env" by (simp add: env_ok_def duel_env_def)
  obtain t0 where t0: "drrip_new 0 (2 * 2) 2 3 = Some t0"
    "\<And>evs. admissible (duel_table_step (drrip_step 3)) (duel_table_env 2 3) evs t0 \<Longrightarrow>
      (\<exists>t. run (duel_table_step (drrip_step 3)) evs t0 = Some t \<and>
        (\<forall>j e. j < 3 \<longrightarrow> env_ok e \<longrightarrow>
          (\<exists>v s'. Dueling_getVictim BRRIP_getVictim BRRIP_getVictim e (set_view j t) = Some (v, s') \<and> v < 2 \<and>
            (if j mod 2 = 0 \<or> j mod 2 \<noteq> 2 - 1 \<and> maxVal (selector (dt_monitor t)) \<le> 2 * counter (selector (dt_monitor t))
             then BRRIP_getVictim e (replDataA (set_view j t)) = Some (v, replDataA s') \<and> replDataB s' = replDataB (set_view j t)
             else BRRIP_getVictim e (replDataB (set_view j t)) = Some (v, replDataB s') \<and> replDataA s' = replDataA (set_view j t)))))"
    using drrip_duel [of 0 2 2 3 3] by auto
  have "admissible (duel_table_step (drrip_step 3)) (duel_table_env 2 3)
      [(0, RP_reset duel_env 1), (1, RP_reset duel_env 0), (2, RP_touch duel_env 1)] t0"
    using env by (simp add: duel_table_env_def split: option.split)
  from t0(2) [OF this] obtain t where t: "run (duel_table_step (drrip_step 3))
      [(0, RP_reset duel_env 1), (1, RP_reset duel_env 0), (2, RP_touch duel_env 1)] t0 = Some t"
    and all: "\<forall>j e. j < 3 \<longrightarrow> env_ok e \<longrightarrow>
          (\<exists>v s'. Dueling_getVictim BRRIP_getVictim BRRIP_getVictim e (set_view j t) = Some (v, s') \<and> v < 2 \<and>
            (if j mod 2 = 0 \<or> j mod 2 \<noteq> 2 - 1 \<and> maxVal (selector (dt_monitor t)) \<le> 2 * counter (selector (dt_monitor t))
             then BRRIP_getVictim e (replDataA (set_view j t)) = Some (v, replDataA s') \<and> replDataB s' = replDataB (set_view j t)
             else BRRIP_getVictim e (replDataB (set_view j t)) = Some (v, replDataB s') \<and> replDataA s' = replDataA (set_view j t)))" by blast
  from all [rule_format, OF _ env, of 2] obtain v s' where
    "Dueling_getVictim BRRIP_getVictim BRRIP_getVictim duel_env (set_view 2 t) = Some (v, s')"
    "BRRIP_getVictim duel_env (replDataA (set_view 2 t)) = Some (v, replDataA s')" by auto
  have "drrip_new 0 4 2 3 = Some t0" using t0(1) by simp
  then show ?thesis using t \<open>Dueling_getVictim _ _ _ _ = _\<close> \<open>BRRIP_getVictim duel_env _ = _\<close> by blast
qed

text \<open>
  C37: the identifier of a monitor is a shifted 32-bit one with a sign.  The constructor admits 64
  monitors, but the identifier of the one with number 31 has 33 bits set, so the first entry of
  its table panics, and from number 32 on the shift is undefined.
\<close>

theorem dueling_instances_limited:
  assumes "0 < ts" "2 * ts \<le> cs"
  shows "(\<exists>m. DuelingMonitor_new 31 cs ts 10 (1 / 2) (1 / 2) = Some (m, 32) \<and> popCount (dm_id m) = 33 \<and>
      (\<forall>n > 0. instantiateEntries n m = None)) \<and>
    (\<forall>inst \<ge> 32. DuelingMonitor_new inst cs ts 10 (1 / 2) (1 / 2) = None)"
proof -
  have "monitor_id 31 = Some 0xFFFFFFFF80000000" by (simp add: monitor_id_def)
  moreover have "popCount 0xFFFFFFFF80000000 = 33" by (simp add: popCount_def upt_rec)
  moreover have "instantiateEntries n m = None" if "0 < n" "popCount (dm_id m) = 33" "regionCounter m < teamSize m" for n m
    using that by (cases n) (simp_all add: initEntry_def setSample_def)
  ultimately have "\<exists>m. DuelingMonitor_new 31 cs ts 10 (1 / 2) (1 / 2) = Some (m, 32) \<and> popCount (dm_id m) = 33 \<and>
    (\<forall>n > 0. instantiateEntries n m = None)"
    using assms by (simp add: DuelingMonitor_new_def SatCounter_new_def sc_shr_def sc_saturate_def Let_def)
  moreover have "DuelingMonitor_new inst cs ts 10 (1 / 2) (1 / 2) = None" if "32 \<le> inst" for inst
    using that by (simp add: DuelingMonitor_new_def monitor_id_def)
  ultimately show ?thesis by blast
qed

theorem dueling_instances_limited_witness:
  "\<exists>m. DuelingMonitor_new 31 64 16 10 (1 / 2) (1 / 2) = Some (m, 32) \<and> instantiateEntries 1 m = None"
  using dueling_instances_limited [of 16 64] by (auto simp del: instantiateEntries.simps)

end
