(* ===== verification/Indexing.thy ===== *)
theory Indexing
  imports Prefetch_Base
begin

section \<open>Bit fields and indexing policies\<close>

text \<open>
  The bit field functions of \<open>base/bitfield.hh\<close> and \<open>floorLog2\<close> of \<open>base/intmath.hh\<close> that the indexing
  policies use, and the policies themselves (\<open>tags/indexing_policies\<close>): set associative, and skewed
  associative, where every way has its own hash of the address.  The assertion \<open>first >= last\<close> of
  \<open>bits\<close> and \<open>insertBits\<close> is a condition on the caller; it holds at every call below.

  The lemmas show that the hash functions are inverse to each other, and that an address can be
  regenerated from its tag and its position in the cache.
\<close>

subsection \<open>Bit fields\<close>

definition bf_mask :: "nat \<Rightarrow> u64" where
  "bf_mask nbits = (if nbits \<ge> 64 then - 1 else push_bit nbits 1 - 1)"

definition bf_bits :: "u64 \<Rightarrow> nat \<Rightarrow> nat \<Rightarrow> u64" where
  "bf_bits val first lst = drop_bit lst val AND bf_mask (first - lst + 1)"

definition bf_bit :: "u64 \<Rightarrow> nat \<Rightarrow> u64" where
  "bf_bit val b = bf_bits val b b"

definition mbits :: "u64 \<Rightarrow> nat \<Rightarrow> nat \<Rightarrow> u64" where
  "mbits val first lst = val AND (bf_mask (first + 1) AND NOT (bf_mask lst))"

definition bf_mask_range :: "nat \<Rightarrow> nat \<Rightarrow> u64" where
  "bf_mask_range first lst = mbits (- 1) first lst"

definition insertBits :: "u64 \<Rightarrow> nat \<Rightarrow> nat \<Rightarrow> u64 \<Rightarrow> u64" where
  "insertBits val first lst bit_val =
     (let bmask = bf_mask_range first lst
      in (val AND NOT bmask) OR (push_bit lst bit_val AND bmask))"

definition insertBit :: "u64 \<Rightarrow> nat \<Rightarrow> u64 \<Rightarrow> u64" where
  "insertBit val b bit_val = insertBits val b b bit_val"

definition floorLog2_step :: "u64 \<Rightarrow> nat \<Rightarrow> nat \<times> u64 \<Rightarrow> nat \<times> u64" where
  "floorLog2_step m k = (\<lambda>(y, ux). if ux AND m \<noteq> 0 then (y + k, drop_bit k ux) else (y, ux))"

definition floorLog2 :: "u64 \<Rightarrow> nat option" where
  "floorLog2 x = do {
     c_assert (x > 0);
     let (y, ux) = floorLog2_step 0xc 2 (floorLog2_step 0xf0 4 (floorLog2_step 0xff00 8
                     (floorLog2_step 0xffff0000 16 (floorLog2_step 0xffffffff00000000 32 (0, x)))));
     Some (if ux AND 2 \<noteq> 0 then y + 1 else y)
   }"

subsection \<open>The base class and the set associative policy\<close>

record indexing =
  ix_assoc :: u32
  numSets :: u32
  setShift :: nat
  setMask :: u32
  tagShift :: nat
  lru_ways :: nat

text \<open>The product of entry size and associativity is computed in 32 bits.\<close>

definition BaseIndexingPolicy_new :: "u64 \<Rightarrow> u32 \<Rightarrow> u32 \<Rightarrow> nat \<Rightarrow> indexing option" where
  "BaseIndexingPolicy_new size_bytes entry_size assoc lways = do {
     c_assert (entry_size * assoc \<noteq> 0);
     let ns = (ucast (size_bytes div ucast (entry_size * assoc)) :: u32);
     sh \<leftarrow> floorLog2 (ucast entry_size);
     lg \<leftarrow> floorLog2 (ucast ns);
     c_assert (\<not> \<not> isPowerOf2 (ucast ns));
     c_assert (\<not> assoc \<le> 0);
     Some \<lparr>ix_assoc = assoc, numSets = ns, setShift = sh, setMask = ns - 1, tagShift = sh + lg, lru_ways = lways\<rparr>
   }"

definition extractTag :: "indexing \<Rightarrow> u64 \<Rightarrow> u64" where
  "extractTag ix addr = drop_bit (tagShift ix) addr"

text \<open>Set, way and replacement mode that \<open>setEntry\<close> gives the entry with the given index.\<close>

definition setEntry :: "indexing \<Rightarrow> u64 \<Rightarrow> (u32 \<times> u32 \<times> bool) option" where
  "setEntry ix index = do {
     let k = (ucast (index div ucast (ix_assoc ix)) :: u32);
     let way = (ucast (index mod ucast (ix_assoc ix)) :: u32);
     c_assert (k < numSets ix);
     Some (k, way, \<not> unat way < lru_ways ix)
   }"

definition SetAssociative_extractSet :: "indexing \<Rightarrow> u64 \<Rightarrow> u32" where
  "SetAssociative_extractSet ix addr = ucast (drop_bit (setShift ix) addr AND ucast (setMask ix))"

text \<open>The shift of the set is made in 32 bits.\<close>

definition SetAssociative_regenerateAddr :: "indexing \<Rightarrow> u64 \<Rightarrow> u32 \<Rightarrow> u64" where
  "SetAssociative_regenerateAddr ix tag k = push_bit (tagShift ix) tag OR ucast (push_bit (setShift ix) k)"

subsection \<open>The skewed associative policy\<close>

text \<open>\<open>m\<close> is \<open>msbShift\<close>, one less than the number of set bits.\<close>

definition skew_hash :: "nat \<Rightarrow> u64 \<Rightarrow> u64" where
  "skew_hash m addr =
     (let lsb = bf_bit addr 0; msb = bf_bit addr m; xor_bit = msb XOR lsb
      in insertBit (drop_bit 1 addr) m xor_bit)"

definition skew_dehash :: "nat \<Rightarrow> u64 \<Rightarrow> u64" where
  "skew_dehash m addr =
     (let msb = bf_bit addr (m - 1); xor_bit = bf_bit addr m; lsb = msb XOR xor_bit;
          addr_no_msb = mbits addr (m - 1) 0
      in insertBit (push_bit 1 addr_no_msb) 0 lsb)"

definition NUM_SKEWING_FUNCTIONS :: nat where
  "NUM_SKEWING_FUNCTIONS = 8"

definition skew :: "nat \<Rightarrow> u64 \<Rightarrow> nat \<Rightarrow> u64 option" where
  "skew m addr way = do {
     let addr1 = bf_bits addr m 0;
     let addr2 = bf_bits addr (2 * (m + 1) - 1) (m + 1);
     let h = skew_hash m; let d = skew_dehash m;
     let k = way mod NUM_SKEWING_FUNCTIONS;
     r \<leftarrow> (if k = 0 then Some (h addr1 XOR h addr2 XOR addr2)
          else if k = 1 then Some (h addr1 XOR h addr2 XOR addr1)
          else if k = 2 then Some (h addr1 XOR d addr2 XOR addr2)
          else if k = 3 then Some (h addr1 XOR d addr2 XOR addr1)
          else if k = 4 then Some (d addr1 XOR h addr2 XOR addr2)
          else if k = 5 then Some (d addr1 XOR h addr2 XOR addr1)
          else if k = 6 then Some (d addr1 XOR d addr2 XOR addr2)
          else if k = 7 then Some (d addr1 XOR d addr2 XOR addr1)
          else None);
     Some ((h ^^ (way div NUM_SKEWING_FUNCTIONS)) r)
   }"

definition deskew :: "nat \<Rightarrow> u64 \<Rightarrow> nat \<Rightarrow> u64 option" where
  "deskew m addr way = do {
     let addr2 = bf_bits addr (2 * (m + 1) - 1) (m + 1);
     let h = skew_hash m; let d = skew_dehash m;
     let addr1 = (if way \<ge> NUM_SKEWING_FUNCTIONS then (d ^^ (way div NUM_SKEWING_FUNCTIONS)) (bf_bits addr m 0)
                  else bf_bits addr m 0);
     let k = way mod 8;
     if k = 0 then Some (d (addr1 XOR h addr2 XOR addr2))
     else if k = 1 then Some ((h ^^ m) (addr1 XOR h addr2))
     else if k = 2 then Some (d (addr1 XOR d addr2 XOR addr2))
     else if k = 3 then Some ((h ^^ m) (addr1 XOR d addr2))
     else if k = 4 then Some (h (addr1 XOR h addr2 XOR addr2))
     else if k = 5 then Some ((h ^^ (m + 1)) (addr1 XOR h addr2))
     else if k = 6 then Some (h (addr1 XOR d addr2 XOR addr2))
     else if k = 7 then Some ((h ^^ (m + 1)) (addr1 XOR d addr2))
     else None
   }"

record skewed = indexing +
  msbShift :: nat

definition SkewedAssociative_new :: "u64 \<Rightarrow> u32 \<Rightarrow> u32 \<Rightarrow> nat \<Rightarrow> skewed option" where
  "SkewedAssociative_new size_bytes entry_size assoc lways = do {
     ix \<leftarrow> BaseIndexingPolicy_new size_bytes entry_size assoc lways;
     lg \<leftarrow> floorLog2 (ucast (numSets ix));
     let m = lg - 1;
     c_assert (\<not> setShift ix + 2 * (m + 1) > 64);
     c_assert (\<not> numSets ix \<le> 2);
     Some (indexing.extend ix \<lparr>msbShift = m\<rparr>)
   }"

definition SkewedAssociative_extractSet :: "skewed \<Rightarrow> u64 \<Rightarrow> nat \<Rightarrow> u32 option" where
  "SkewedAssociative_extractSet ix addr way = do {
     r \<leftarrow> skew (msbShift ix) (drop_bit (setShift ix) addr) way;
     Some (ucast (r AND ucast (setMask ix)))
   }"

definition SkewedAssociative_regenerateAddr :: "skewed \<Rightarrow> u64 \<Rightarrow> u32 \<Rightarrow> nat \<Rightarrow> u64 option" where
  "SkewedAssociative_regenerateAddr ix tag k way = do {
     let addr_set = push_bit (msbShift ix + 1) tag OR ucast k;
     r \<leftarrow> deskew (msbShift ix) addr_set way;
     Some (push_bit (tagShift ix) tag OR push_bit (setShift ix) (r AND ucast (setMask ix)))
   }"

subsection \<open>Bits of the bit field functions\<close>

lemma bit_bf_mask: "bit (bf_mask n) i \<longleftrightarrow> i < n \<and> i < 64"
proof (cases "n \<ge> 64")
  case True
  then show ?thesis by (auto simp: bf_mask_def)
next
  case False
  then have "bf_mask n = mask n" by (simp add: bf_mask_def mask_eq_exp_minus_1)
  then show ?thesis using False by (auto simp: bit_simps)
qed

lemma bit_bf_bits: "bit (bf_bits x f l) i \<longleftrightarrow> i \<le> f - l \<and> bit x (l + i)"
  by (auto simp: bf_bits_def bit_simps bit_bf_mask dest: bit_imp_le_length)

lemma bit_bf_bit: "bit (bf_bit x b) i \<longleftrightarrow> i = 0 \<and> bit x b"
  by (auto simp: bf_bit_def bit_bf_bits)

lemma bit_mbits: "bit (mbits x f l) i \<longleftrightarrow> bit x i \<and> l \<le> i \<and> i \<le> f"
  by (auto simp: mbits_def bit_simps bit_bf_mask dest: bit_imp_le_length)

lemma bit_insertBit: "b < 64 \<Longrightarrow> bit (insertBit x b v) i \<longleftrightarrow> (if i = b then bit v 0 else bit x i)"
  by (auto simp: insertBit_def insertBits_def Let_def bf_mask_range_def bit_simps bit_mbits dest: bit_imp_le_length)

lemma bit_skew_hash: "m < 64 \<Longrightarrow> bit (skew_hash m x) i \<longleftrightarrow> (if i = m then bit x m \<noteq> bit x 0 else bit x (i + 1))"
  by (auto simp: skew_hash_def Let_def bit_insertBit bit_bf_bit bit_simps)

lemma bit_skew_dehash:
  "1 \<le> m \<Longrightarrow> m < 64 \<Longrightarrow> bit (skew_dehash m x) i \<longleftrightarrow> (if i = 0 then bit x (m - 1) \<noteq> bit x m else i \<le> m \<and> bit x (i - 1))"
  by (auto simp: skew_dehash_def Let_def bit_insertBit bit_bf_bit bit_xor_iff bit_mbits
      mult.commute [of _ "2 :: u64"] bit_double_iff dest: bit_imp_le_length)

subsection \<open>The hash functions\<close>

text \<open>\<open>narrow m x\<close>: the value has only the \<open>m + 1\<close> set bits.\<close>

definition narrow :: "nat \<Rightarrow> u64 \<Rightarrow> bool" where
  "narrow m x \<longleftrightarrow> take_bit (m + 1) x = x"

lemma narrow_bit: "narrow m x \<longleftrightarrow> (\<forall>i > m. \<not> bit x i)"
proof
  assume *: "narrow m x"
  show "\<forall>i > m. \<not> bit x i"
  proof (intro allI impI)
    fix i
    assume "m < i"
    moreover have "bit x i = bit (take_bit (m + 1) x) i" using * by (simp add: narrow_def)
    ultimately show "\<not> bit x i" by (simp add: bit_take_bit_iff)
  qed
next
  assume "\<forall>i > m. \<not> bit x i"
  then show "narrow m x"
    unfolding narrow_def by (intro bit_eqI) (auto simp: bit_take_bit_iff less_Suc_eq_le intro: leI)
qed

lemma narrow_high: "narrow m x \<Longrightarrow> m < i \<Longrightarrow> \<not> bit x i"
  by (simp add: narrow_bit)

lemma narrow_low: "narrow m x \<Longrightarrow> bit x i \<Longrightarrow> i \<le> m"
  by (meson narrow_high not_le)

lemma narrow_xor [simp, intro]: "narrow m x \<Longrightarrow> narrow m y \<Longrightarrow> narrow m (x XOR y)"
  by (simp add: narrow_bit bit_simps)

lemma narrow_hash [simp, intro]: "m < 64 \<Longrightarrow> narrow m x \<Longrightarrow> narrow m (skew_hash m x)"
  by (simp add: narrow_bit bit_skew_hash)

lemma narrow_dehash [simp, intro]: "1 \<le> m \<Longrightarrow> m < 64 \<Longrightarrow> narrow m (skew_dehash m x)"
  by (simp add: narrow_bit bit_skew_dehash)

lemma narrow_hash_pow [simp, intro]: "m < 64 \<Longrightarrow> narrow m x \<Longrightarrow> narrow m ((skew_hash m ^^ n) x)"
  by (induction n) auto

lemma narrow_bits [simp]: "narrow m (bf_bits x m 0)" "narrow m (bf_bits x (2 * (m + 1) - 1) (m + 1))"
  by (auto simp: narrow_bit bit_bf_bits)

lemma dehash_hash [simp]:
  assumes "1 \<le> m" "m < 64" "narrow m x"
  shows "skew_dehash m (skew_hash m x) = x"
  using assms by (intro bit_eqI) (auto simp: bit_skew_dehash bit_skew_hash dest: narrow_low)

lemma hash_dehash [simp]:
  assumes "1 \<le> m" "m < 64" "narrow m x"
  shows "skew_hash m (skew_dehash m x) = x"
  using assms by (intro bit_eqI) (auto simp: bit_skew_dehash bit_skew_hash dest: narrow_low)

lemma hash_xor: "m < 64 \<Longrightarrow> skew_hash m (x XOR y) = skew_hash m x XOR skew_hash m y"
  by (intro bit_eqI) (auto simp: bit_skew_hash bit_xor_iff)

lemma dehash_xor: "1 \<le> m \<Longrightarrow> m < 64 \<Longrightarrow> skew_dehash m (x XOR y) = skew_dehash m x XOR skew_dehash m y"
  by (intro bit_eqI) (auto simp: bit_skew_dehash bit_xor_iff)

lemma hash_pow_xor: "m < 64 \<Longrightarrow> (skew_hash m ^^ n) (x XOR y) = (skew_hash m ^^ n) x XOR (skew_hash m ^^ n) y"
  by (induction n) (auto simp: hash_xor)

lemma dehash_hash_pow:
  "1 \<le> m \<Longrightarrow> m < 64 \<Longrightarrow> narrow m x \<Longrightarrow> (skew_dehash m ^^ n) ((skew_hash m ^^ n) x) = x"
  by (induction n arbitrary: x) (simp_all add: funpow_swap1)

text \<open>
  The hash is one step of a linear feedback shift register: iterating it slides a window of \<open>m + 1\<close> bits over
  the sequence below.  Hence the sum of two consecutive powers is the identity.
\<close>

fun feedback :: "nat \<Rightarrow> u64 \<Rightarrow> nat \<Rightarrow> bool" where
  "feedback m x n = (if n \<le> m then bit x n else feedback m x (n - 1) \<noteq> feedback m x (n - 1 - m))"

declare feedback.simps [simp del]

lemma feedback_Suc: "feedback m x (Suc (n + m)) \<longleftrightarrow> (feedback m x (n + m) \<noteq> feedback m x n)"
  by (subst feedback.simps) simp

lemma hash_pow_window: "m < 64 \<Longrightarrow> i \<le> m \<Longrightarrow> bit ((skew_hash m ^^ n) x) i = feedback m x (i + n)"
proof (induction n arbitrary: i)
  case 0
  then show ?case by (simp add: feedback.simps)
next
  case (Suc n)
  show ?case
  proof (cases "i = m")
    case True
    then show ?thesis using Suc feedback_Suc [of m x n] by (simp add: bit_skew_hash add.commute)
  next
    case False
    then show ?thesis using Suc by (simp add: bit_skew_hash)
  qed
qed

lemma hash_pow_sum:
  assumes "m < 64" "narrow m x"
  shows "(skew_hash m ^^ m) x XOR (skew_hash m ^^ (m + 1)) x = x"
proof (rule bit_eqI)
  fix i
  have n: "narrow m ((skew_hash m ^^ m) x)" "narrow m ((skew_hash m ^^ (m + 1)) x)"
    using assms by (blast intro: narrow_hash_pow)+
  show "bit ((skew_hash m ^^ m) x XOR (skew_hash m ^^ (m + 1)) x) i = bit x i"
  proof (cases "i \<le> m")
    case True
    have "feedback m x i = bit x i" using True by (simp add: feedback.simps)
    then show ?thesis
      using hash_pow_window [OF assms(1) True, of m x] hash_pow_window [OF assms(1) True, of "m + 1" x]
        feedback_Suc [of m x i]
      by (auto simp add: bit_xor_iff del: funpow.simps)
  next
    case False
    then show ?thesis using narrow_high [OF n(1)] narrow_high [OF n(2)] narrow_high [OF assms(2)]
      by (simp add: bit_xor_iff del: funpow.simps)
  qed
qed

lemma unhash_plus_id:
  assumes "m < 64" "narrow m x"
  shows "(skew_hash m ^^ m) (skew_hash m x XOR x) = x"
  using hash_pow_sum [OF assms] by (simp add: hash_pow_xor assms funpow_swap1 xor.commute)

lemma undehash_plus_id:
  assumes "1 \<le> m" "m < 64" "narrow m x"
  shows "(skew_hash m ^^ (m + 1)) (skew_dehash m x XOR x) = x"
proof -
  have "(skew_hash m ^^ (m + 1)) (skew_dehash m x) = (skew_hash m ^^ m) x"
    using assms by (simp add: funpow_swap1)
  then show ?thesis using hash_pow_sum [of m x] assms by (simp add: hash_pow_xor del: funpow.simps)
qed

subsection \<open>Skewing and back\<close>

lemma xor_cancel [simp]:
  fixes x y z :: u64
  shows "(x XOR y XOR z) XOR y XOR z = x" "(x XOR y XOR z) XOR y = x XOR z"
  by (auto intro!: bit_eqI simp: bit_xor_iff)

lemma deskew_skew:
  assumes m: "1 \<le> m" "m < 64"
    and low: "skew m a way = Some (bf_bits b m 0)"
    and high: "bf_bits b (2 * (m + 1) - 1) (m + 1) = bf_bits a (2 * (m + 1) - 1) (m + 1)"
  shows "deskew m b way = Some (bf_bits a m 0)"
proof -
  define h where "h = skew_hash m"
  define d where "d = skew_dehash m"
  define p where "p = bf_bits a m 0"
  define q where "q = bf_bits a (2 * (m + 1) - 1) (m + 1)"
  define j where "j = way div 8"
  have n: "narrow m p" "narrow m q" unfolding p_def q_def by (rule narrow_bits)+
  have nh: "narrow m (h p)" "narrow m (h q)" "narrow m (d p)" "narrow m (d q)"
    using n m by (simp_all add: h_def d_def)
  have dh: "(d ^^ j) ((h ^^ j) x) = x" if "narrow m x" for x
    using dehash_hash_pow [OF m that] by (simp add: h_def d_def)
  have inv: "d (h p) = p" "h (d p) = p" using n m by (simp_all add: h_def d_def)
  have e1: "(h ^^ m) (h p XOR p) = p" using unhash_plus_id [OF m(2) n(1)] by (simp add: h_def)
  have e2: "(h ^^ (m + 1)) (d p XOR p) = p" using undehash_plus_id [OF m n(1)] by (simp add: h_def d_def del: funpow.simps)
  obtain r where r: "bf_bits b m 0 = (h ^^ j) r" "narrow m r"
     and k: "(way mod 8, r) \<in> {(0, h p XOR h q XOR q), (1, h p XOR h q XOR p), (2, h p XOR d q XOR q),
        (3, h p XOR d q XOR p), (4, d p XOR h q XOR q), (5, d p XOR h q XOR p), (6, d p XOR d q XOR q),
        (7, d p XOR d q XOR p)}"
    using low n nh unfolding skew_def Let_def p_def [symmetric] q_def [symmetric] h_def [symmetric] d_def [symmetric]
      j_def NUM_SKEWING_FUNCTIONS_def
    by (auto split: if_splits)
  have a1: "(if way \<ge> 8 then (d ^^ j) (bf_bits b m 0) else bf_bits b m 0) = r"
    using dh [OF r(2)] r(1) by (auto simp: j_def)
  show ?thesis
    using k e1 e2 inv
    unfolding deskew_def Let_def high p_def [symmetric] q_def [symmetric] h_def [symmetric] d_def [symmetric]
      NUM_SKEWING_FUNCTIONS_def j_def [symmetric] a1
    by (auto simp del: funpow.simps)
qed

subsection \<open>Powers of two\<close>

lemma power_of_2_nat: "0 < n \<Longrightarrow> n AND (n - 1) = (0 :: nat) \<Longrightarrow> \<exists>k. n = 2 ^ k"
proof (induction n rule: less_induct)
  case (less n)
  show ?case
  proof (cases "even n")
    case True
    then obtain y where y: "n = 2 * y" by blast
    with less.prems have "0 < y" by simp
    then have "n - 1 = 2 * (y - 1) + 1" using y by simp
    then have "n AND (n - 1) = 2 * (y AND (y - 1))" using y by (simp add: and_rec [of "2 * y"])
    then have "y AND (y - 1) = 0" using less.prems by simp
    then obtain k where "y = 2 ^ k" using less.IH [of y] \<open>0 < y\<close> y by auto
    then have "n = 2 ^ (Suc k)" using y by simp
    then show ?thesis by blast
  next
    case False
    then obtain y where y: "n = 2 * y + 1" by (blast elim: oddE)
    then have "n AND (n - 1) = 2 * y" by (simp add: and_rec [of "Suc (2 * y)"])
    then have "n = 2 ^ 0" using less.prems y by simp
    then show ?thesis by blast
  qed
qed

lemma unat_exp: "n < LENGTH('a) \<Longrightarrow> unat ((2 :: 'a :: len word) ^ n) = 2 ^ n"
proof -
  assume "n < LENGTH('a)"
  then have "unat (of_nat (2 ^ n) :: 'a word) = 2 ^ n"
    by (simp only: unsigned_of_nat) (simp add: take_bit_nat_eq_self_iff)
  then show ?thesis by simp
qed

lemma take_bit_less:
  assumes "take_bit n k = (k :: 'a :: len word)" "n < LENGTH('a)"
  shows "k < 2 ^ n"
proof -
  have "unat k = take_bit n (unat k)" using assms(1) by (metis unsigned_take_bit_eq)
  then have "unat k < 2 ^ n" by (metis take_bit_nat_less_exp)
  then show ?thesis using unat_exp [OF assms(2)] by (simp add: word_less_nat_alt)
qed

lemma isPowerOf2_obtain:
  assumes "isPowerOf2 x"
  obtains k where "k < 64" "x = 2 ^ k"
proof -
  have pos: "0 < unat x" using assms by (simp add: isPowerOf2_def unat_gt_0)
  have "unat (x AND (x - 1)) = unat x AND (unat x - 1)"
    using pos by (simp add: unsigned_and_eq unat_minus_one isPowerOf2_def [symmetric] unat_gt_0)
  then have "unat x AND (unat x - 1) = 0" using assms by (simp add: isPowerOf2_def)
  then obtain k where k: "unat x = 2 ^ k" using power_of_2_nat pos by blast
  moreover have "unat x < 2 ^ LENGTH(64)" by (rule unsigned_less)
  then have "(2::nat) ^ k < 2 ^ 64" using k by simp
  then have "k < 64" by (simp only: power_strict_increasing_iff)
  moreover have "x = of_nat (unat x)" by simp
  then have "x = 2 ^ k" unfolding k by simp
  ultimately show ?thesis using that by blast
qed

lemma floorLog2_step_exp:
  assumes "m = push_bit k (mask k)" "n < 2 * k" "n < 64"
  shows "floorLog2_step m k (y, 2 ^ n) = (y + (n - n mod k), 2 ^ (n mod k))"
proof -
  have "(2 ^ n AND m \<noteq> 0) = bit m n" by (simp add: and.commute [of _ m] and_exp_eq_0_iff_not_bit)
  also have "\<dots> \<longleftrightarrow> k \<le> n" using assms by (auto simp: bit_simps)
  finally have "(2 ^ n AND m \<noteq> 0) = (k \<le> n)" .
  moreover have "n mod k = (if k \<le> n then n - k else n)" using assms by (simp add: le_mod_geq)
  ultimately show ?thesis using assms(3) by (simp add: floorLog2_step_def drop_bit_exp_eq)
qed

lemma floorLog2_masks:
  "(0xffffffff00000000 :: u64) = push_bit 32 (mask 32)" "(0xffff0000 :: u64) = push_bit 16 (mask 16)"
  "(0xff00 :: u64) = push_bit 8 (mask 8)" "(0xf0 :: u64) = push_bit 4 (mask 4)" "(0xc :: u64) = push_bit 2 (mask 2)"
  by (simp_all add: mask_eq_exp_minus_1)

lemma floorLog2_last: "n < 2 \<Longrightarrow> (if 2 ^ n AND (2 :: u64) \<noteq> 0 then y + 1 else y) = y + n"
  by (auto simp: less_2_cases_iff)

lemma mod_chain:
  fixes n :: nat
  shows "n mod 32 mod 16 = n mod 16" "n mod 16 mod 8 = n mod 8" "n mod 8 mod 4 = n mod 4" "n mod 4 mod 2 = n mod 2"
  by (simp_all add: mod_mod_cancel)

lemma floorLog2_exp:
  assumes "n < 64"
  shows "floorLog2 (2 ^ n) = Some n"
proof -
  have s5: "floorLog2_step 0xffffffff00000000 32 (0, 2 ^ n) = (n - n mod 32, 2 ^ (n mod 32))"
    using floorLog2_step_exp [OF floorLog2_masks(1), of n 0] assms by simp
  have s4: "floorLog2_step 0xffff0000 16 (y, 2 ^ (n mod 32)) = (y + (n mod 32 - n mod 16), 2 ^ (n mod 16))" for y
    using floorLog2_step_exp [OF floorLog2_masks(2), of "n mod 32" y] by (simp add: mod_chain)
  have s3: "floorLog2_step 0xff00 8 (y, 2 ^ (n mod 16)) = (y + (n mod 16 - n mod 8), 2 ^ (n mod 8))" for y
    using floorLog2_step_exp [OF floorLog2_masks(3), of "n mod 16" y] by (simp add: mod_chain)
  have s2: "floorLog2_step 0xf0 4 (y, 2 ^ (n mod 8)) = (y + (n mod 8 - n mod 4), 2 ^ (n mod 4))" for y
    using floorLog2_step_exp [OF floorLog2_masks(4), of "n mod 8" y] by (simp add: mod_chain)
  have s1: "floorLog2_step 0xc 2 (y, 2 ^ (n mod 4)) = (y + (n mod 4 - n mod 2), 2 ^ (n mod 2))" for y
    using floorLog2_step_exp [OF floorLog2_masks(5), of "n mod 4" y] by (simp add: mod_chain)
  have le: "n mod 2 \<le> n mod 4" "n mod 4 \<le> n mod 8" "n mod 8 \<le> n mod 16" "n mod 16 \<le> n mod 32" "n mod 32 \<le> n"
    using mod_chain [of n] by (metis mod_less_eq_dividend)+
  have "(2 :: u64) ^ n \<noteq> 0" using assms by simp
  then have "0 < (2 :: u64) ^ n" by (simp add: word_gt_0)
  then have "floorLog2 (2 ^ n) = Some (n - n mod 32 + (n mod 32 - n mod 16) + (n mod 16 - n mod 8)
      + (n mod 8 - n mod 4) + (n mod 4 - n mod 2) + n mod 2)"
    unfolding floorLog2_def s5 s4 s3 s2 s1 Let_def using floorLog2_last [of "n mod 2"] by simp
  then show ?thesis using le by simp
qed

subsection \<open>Regenerating addresses\<close>

lemma skew_total:
  assumes "1 \<le> m" "m < 64"
  obtains r where "skew m a way = Some r" "narrow m r"
proof -
  have "way mod 8 < 8" by simp
  then have k: "way mod 8 \<in> {0, 1, 2, 3, 4, 5, 6, 7}" by auto
  have n: "narrow m (bf_bits a m 0)" "narrow m (bf_bits a (2 * (m + 1) - 1) (m + 1))" by (rule narrow_bits)+
  show ?thesis
    using k n assms that unfolding skew_def Let_def NUM_SKEWING_FUNCTIONS_def by fastforce
qed

lemma BaseIndexingPolicy_shape:
  assumes "BaseIndexingPolicy_new sz es assoc lw = Some ix"
  obtains n where "n < 32" "numSets ix = 2 ^ n" "floorLog2 (ucast (numSets ix)) = Some n"
    "setMask ix = mask n" "tagShift ix = setShift ix + n"
proof -
  obtain lg where f: "floorLog2 (ucast (numSets ix)) = Some lg" "isPowerOf2 (ucast (numSets ix))"
    "setMask ix = numSets ix - 1" "tagShift ix = setShift ix + lg"
    using assms by (auto simp: BaseIndexingPolicy_new_def Let_def split: bind_splits if_splits)
  obtain k where k: "k < 64" "(ucast (numSets ix) :: u64) = 2 ^ k" using isPowerOf2_obtain f(2) by blast
  have "lg = k" using f(1) floorLog2_exp [OF k(1)] k(2) by simp
  have lt: "unat (numSets ix) < 2 ^ LENGTH(32)" by (rule unsigned_less)
  then have "unat (ucast (numSets ix) :: u64) = unat (numSets ix)"
    by (simp add: unsigned_ucast_eq take_bit_nat_eq_self_iff)
  moreover have "unat ((2 :: u64) ^ k) = 2 ^ k" using k(1) by (simp add: unat_exp)
  ultimately have u: "unat (numSets ix) = 2 ^ k" using k(2) by simp
  with lt have "(2 :: nat) ^ k < 2 ^ 32" by simp
  then have "k < 32" by (simp only: power_strict_increasing_iff)
  moreover have "numSets ix = of_nat (unat (numSets ix))" by simp
  then have "numSets ix = 2 ^ k" unfolding u by simp
  ultimately show ?thesis using that [of k] f \<open>lg = k\<close> by (simp add: mask_eq_exp_minus_1)
qed

lemma narrow_through_u32:
  assumes "m < 32" "narrow m r"
  shows "(ucast (ucast (r AND ucast (mask (m + 1) :: u32)) :: u32) :: u64) = r"
  using assms by (intro bit_eqI) (auto simp: bit_simps less_Suc_eq_le dest: narrow_low)

lemma regenerate_bits:
  fixes addr r :: u64
  assumes "narrow m r"
  shows "bf_bits (push_bit (m + 1) (drop_bit (m + 1) a) OR r) m 0 = r"
    and "bf_bits (push_bit (m + 1) (drop_bit (m + 1) a) OR r) (2 * (m + 1) - 1) (m + 1) = bf_bits a (2 * (m + 1) - 1) (m + 1)"
  subgoal
    using assms by (intro bit_eqI) (auto simp: bit_bf_bits bit_simps simp del: push_bit_Suc dest: narrow_low)
  subgoal
    using narrow_high [OF assms] by (intro bit_eqI) (auto simp: bit_bf_bits bit_simps simp del: push_bit_Suc dest: bit_imp_le_length)
  done

lemma regenerate_join:
  fixes addr :: u64
  assumes "m < 32"
  shows "push_bit (s + (m + 1)) (drop_bit (s + (m + 1)) addr)
    OR push_bit s (bf_bits (drop_bit s addr) m 0 AND ucast (mask (m + 1) :: u32)) = push_bit s (drop_bit s addr)"
proof (rule bit_eqI)
  fix i
  show "bit (push_bit (s + (m + 1)) (drop_bit (s + (m + 1)) addr)
    OR push_bit s (bf_bits (drop_bit s addr) m 0 AND ucast (mask (m + 1) :: u32))) i = bit (push_bit s (drop_bit s addr)) i"
    using assms by (cases "i < s + (m + 1)") (auto simp: bit_bf_bits bit_simps simp del: push_bit_Suc)
qed

text \<open>
  C22: Skewed associative caches do not lose addresses.  For every way, an accepted skewed indexing policy maps an
  address to an existing set, and the tag of the address together with that set and way regenerates the
  address, up to its offset in the entry: the deskewing functions invert the skewing functions.
\<close>

theorem skewed_regenerates:
  assumes "SkewedAssociative_new sz es assoc lw = Some ix"
  shows "\<exists>k. SkewedAssociative_extractSet ix addr way = Some k \<and> k < numSets ix \<and>
    SkewedAssociative_regenerateAddr ix (extractTag (indexing.truncate ix) addr) k way
      = Some (push_bit (setShift ix) (drop_bit (setShift ix) addr))"
proof -
  obtain ib lg where b: "BaseIndexingPolicy_new sz es assoc lw = Some ib" "floorLog2 (ucast (numSets ib)) = Some lg"
     "\<not> numSets ib \<le> 2" "ix = indexing.extend ib \<lparr>msbShift = lg - 1\<rparr>"
    using assms by (auto simp: SkewedAssociative_new_def Let_def split: bind_splits if_splits)
  obtain n where n: "n < 32" "numSets ib = 2 ^ n" "floorLog2 (ucast (numSets ib)) = Some n" "setMask ib = mask n"
     "tagShift ib = setShift ib + n"
    using BaseIndexingPolicy_shape [OF b(1)] by blast
  have "n \<noteq> 0" "n \<noteq> 1" using b(3) n(2) by (intro notI, simp)+
  then obtain m where m: "n = m + 1" "1 \<le> m" "m < 64" "m < 32" using n(1) by (cases n) auto
  have ix: "msbShift ix = m" "setShift ix = setShift ib" "tagShift ix = setShift ib + (m + 1)"
     "setMask ix = mask (m + 1)" "numSets ix = 2 ^ (m + 1)"
     "tagShift (indexing.truncate ix) = setShift ib + (m + 1)"
    using b n m by (simp_all add: indexing.defs)
  define a where "a = drop_bit (setShift ib) addr"
  obtain r where r: "skew m a way = Some r" "narrow m r" using skew_total [OF m(2,3)] by blast
  define k where "k = (ucast (r AND ucast (mask (m + 1) :: u32)) :: u32)"
  have k: "ucast k = r" unfolding k_def by (rule narrow_through_u32 [OF m(4) r(2)])
  have lt: "k < 2 ^ (m + 1)"
  proof -
    have "take_bit (m + 1) k = k" unfolding k_def by (intro bit_eqI) (auto simp: bit_simps)
    then show ?thesis using take_bit_less [of "m + 1" k] m n(1) by simp
  qed
  have tag: "extractTag (indexing.truncate ix) addr = drop_bit (m + 1) a"
    by (simp add: extractTag_def ix a_def add.commute)
  have "deskew m (push_bit (m + 1) (drop_bit (m + 1) a) OR r) way = Some (bf_bits a m 0)"
    using deskew_skew [OF m(2,3)] regenerate_bits [OF r(2)] r(1) by metis
  then have "SkewedAssociative_regenerateAddr ix (drop_bit (m + 1) a) k way
      = Some (push_bit (setShift ib) (drop_bit (setShift ib) addr))"
    using regenerate_join [OF m(4), of "setShift ib" addr]
    by (simp add: SkewedAssociative_regenerateAddr_def ix k Let_def a_def add.commute)
  then show ?thesis using r(1) lt
    by (simp add: SkewedAssociative_extractSet_def ix tag k_def a_def)
qed

definition example_skewed :: skewed where
  "example_skewed = \<lparr>ix_assoc = 8, numSets = 64, setShift = 6, setMask = 63, tagShift = 12, lru_ways = 8, msbShift = 5\<rparr>"

lemma example_skewed_new: "SkewedAssociative_new 32768 64 8 8 = Some example_skewed"
  by code_simp

theorem skewed_regenerates_witness:
  "\<exists>k. SkewedAssociative_extractSet example_skewed 0x12345 3 = Some k \<and> k < 64 \<and>
     SkewedAssociative_regenerateAddr example_skewed (extractTag (indexing.truncate example_skewed) 0x12345) k 3 = Some 0x12340"
  using skewed_regenerates [OF example_skewed_new, of "0x12345" 3] by (simp add: example_skewed_def)

lemma set_assoc_bits:
  fixes addr :: u64
  assumes "s + n \<le> 32"
  shows "push_bit (s + n) (drop_bit (s + n) addr)
    OR ucast (push_bit s (ucast (drop_bit s addr AND ucast (mask n :: u32)) :: u32)) = push_bit s (drop_bit s addr)"
proof (rule bit_eqI)
  fix i
  show "bit (push_bit (s + n) (drop_bit (s + n) addr)
    OR ucast (push_bit s (ucast (drop_bit s addr AND ucast (mask n :: u32)) :: u32))) i = bit (push_bit s (drop_bit s addr)) i"
    using assms by (cases "i < s + n") (auto simp: bit_simps simp del: push_bit_Suc)
qed

text \<open>
  The set associative policy does not lose addresses either, as long as the bytes of one way are addressed
  with at most 32 bits (the set is shifted in 32 bits): it maps every address to an existing set, and the tag
  and the set regenerate the address up to its offset in the entry.
\<close>

theorem set_assoc_regenerates:
  assumes "BaseIndexingPolicy_new sz es assoc lw = Some ix" "tagShift ix \<le> 32"
  shows "SetAssociative_extractSet ix addr < numSets ix \<and>
    SetAssociative_regenerateAddr ix (extractTag ix addr) (SetAssociative_extractSet ix addr)
      = push_bit (setShift ix) (drop_bit (setShift ix) addr)"
proof -
  obtain n where n: "n < 32" "numSets ix = 2 ^ n" "setMask ix = mask n" "tagShift ix = setShift ix + n"
    using BaseIndexingPolicy_shape [OF assms(1)] by blast
  have "take_bit n (SetAssociative_extractSet ix addr) = SetAssociative_extractSet ix addr"
    unfolding SetAssociative_extractSet_def n by (intro bit_eqI) (auto simp: bit_simps)
  then have "SetAssociative_extractSet ix addr < 2 ^ n" by (rule take_bit_less) (simp add: n)
  then show ?thesis using set_assoc_bits [of "setShift ix" n addr] assms(2)
    by (simp add: SetAssociative_regenerateAddr_def SetAssociative_extractSet_def extractTag_def n)
qed

theorem set_assoc_regenerates_witness:
  "SetAssociative_regenerateAddr (indexing.truncate example_skewed) 0x12 0xd = 0x12340"
proof -
  have new: "BaseIndexingPolicy_new 32768 64 8 8 = Some (indexing.truncate example_skewed)" by code_simp
  show ?thesis using set_assoc_regenerates [OF new, of "0x12345"]
    by (simp add: example_skewed_def indexing.defs extractTag_def SetAssociative_extractSet_def)
qed

text \<open>With one bit more, the address is lost: 64 byte entries and \<open>2 ^ 27\<close> sets, an address with bit 32 set.\<close>

lemma set_assoc_shift_overflows:
  "let ix = \<lparr>ix_assoc = 1, numSets = 2 ^ 27, setShift = 6, setMask = 2 ^ 27 - 1, tagShift = 33, lru_ways = 1\<rparr>
   in BaseIndexingPolicy_new (2 ^ 33) 64 1 1 = Some ix \<and>
      SetAssociative_regenerateAddr ix (extractTag ix (2 ^ 32)) (SetAssociative_extractSet ix (2 ^ 32)) = 0"
  by code_simp

end
