(* ===== verification/Set_Assoc.thy ===== *)
theory Set_Assoc
  imports Cache_Blk Indexing Repl_Recency
begin

section \<open>Set associative tags\<close>

text \<open>
  The tag store of a set associative cache: \<open>BaseTags\<close> (\<open>tags/base.cc\<close>, \<open>tags/base.hh\<close>) and \<open>BaseSetAssoc\<close>
  (\<open>tags/base_set_assoc.cc\<close>, \<open>tags/base_set_assoc.hh\<close>) over the set associative indexing policy.  A pointer to a
  block is its set and way.  Every set has the data of its replacement policy beside it; the operations
  of the policy are an argument, as the policy is an object behind an interface, and the policy must
  keep its state per set.  The statistics are integers.  The data bytes are not modelled.

  The invariant says that no tag occurs twice in a set, and that the statistics count the valid
  blocks; every operation keeps it.
\<close>

record 'r rp_ops =
  rp_touch :: "rp_env \<Rightarrow> nat \<Rightarrow> 'r \<Rightarrow> 'r option"
  rp_reset :: "rp_env \<Rightarrow> nat \<Rightarrow> 'r \<Rightarrow> 'r option"
  rp_reset_pkt :: "bool \<Rightarrow> rp_env \<Rightarrow> nat \<Rightarrow> 'r \<Rightarrow> 'r option"
  rp_invalidate :: "rp_env \<Rightarrow> nat \<Rightarrow> 'r \<Rightarrow> 'r option"
  rp_starveMRU :: "rp_env \<Rightarrow> nat \<Rightarrow> 'r \<Rightarrow> 'r option"
  rp_getVictim :: "rp_env \<Rightarrow> 'r \<Rightarrow> (nat \<times> 'r) option"

record tag_stats =
  tagsInUse :: int
  tagAccesses :: int
  dataAccesses :: int
  occupancies :: "int \<Rightarrow> int"
  totalRefs :: int
  totalStarves :: int
  sampledRefs :: int
  warmupTick :: u64

record 'r tags =
  tg_ix :: indexing
  tg_blks :: "CacheBlk list list"
  tg_repl :: "'r list"
  tg_stats :: tag_stats
  allocAssoc :: int
  sequentialAccess :: bool
  lookupLatency :: u64
  warmupBound :: int
  warmedUp :: bool
  maxRequestors :: int

record tag_pkt =
  tp_addr :: u64
  tp_secure :: bool
  tp_isInstFetch :: bool
  tp_requestorId :: int
  tp_taskId :: u32
  tp_vaddr :: u64

subsection \<open>Access to blocks and policy\<close>

definition blk_at :: "nat \<times> nat \<Rightarrow> 'r tags \<Rightarrow> CacheBlk option" where
  "blk_at loc t =
     (let (k, w) = loc
      in if k < length (tg_blks t) \<and> w < length (tg_blks t ! k) then Some (tg_blks t ! k ! w) else None)"

definition put_blk :: "nat \<times> nat \<Rightarrow> CacheBlk \<Rightarrow> 'r tags \<Rightarrow> 'r tags" where
  "put_blk loc b t = (let (k, w) = loc in t\<lparr>tg_blks := (tg_blks t)[k := (tg_blks t ! k)[w := b]]\<rparr>)"

definition policy_call :: "('r \<Rightarrow> 'r option) \<Rightarrow> nat \<Rightarrow> 'r tags \<Rightarrow> 'r tags option" where
  "policy_call f k t = do {
     c_assert (k < length (tg_repl t));
     r \<leftarrow> f (tg_repl t ! k);
     Some (t\<lparr>tg_repl := (tg_repl t)[k := r]\<rparr>)
   }"

definition count_stats :: "(tag_stats \<Rightarrow> tag_stats) \<Rightarrow> 'r tags \<Rightarrow> 'r tags" where
  "count_stats f t = t\<lparr>tg_stats := f (tg_stats t)\<rparr>"

subsection \<open>Construction\<close>

text \<open>The fields that the constructor leaves undefined are zero here; insertion sets them.\<close>

definition CacheBlk_new :: "CacheBlk option" where
  "CacheBlk_new = CacheBlk_invalidate
     \<lparr>blk_valid = False, blk_secure = False, blk_tag = - 1, coherence = 0, whenReady = 0, tickRecentAccess = 0,
      l1AccessCount = 0, starveCount = 0, starveHistory = 0, rpMode = False, miss_cost = 0, recency_stack = 0,
      blk_addr = 0, blk_vaddr = 0, lockList = [], blk_taskId = 0, srcRequestorId = 0, blk_refCount = 0,
      blk_tickInserted = 0, blk_prefetched = False\<rparr>"

text \<open>\<open>tagsInit\<close>: link the blocks, by index, to the sets of the indexing policy.\<close>

fun tagsInit :: "indexing \<Rightarrow> CacheBlk \<Rightarrow> u64 list \<Rightarrow> CacheBlk list list \<Rightarrow> CacheBlk list list option" where
  "tagsInit ix b [] s = Some s"
| "tagsInit ix b (i # is) s = do {
     (k, way, mode) \<leftarrow> setEntry ix i;
     c_assert (unat k < length s \<and> unat way < length (s ! unat k));
     tagsInit ix b is (s[unat k := (s ! unat k)[unat way := b\<lparr>rpMode := mode\<rparr>]])
   }"

definition BaseSetAssoc_new :: "indexing \<Rightarrow> u64 \<Rightarrow> u64 \<Rightarrow> bool \<Rightarrow> u64 \<Rightarrow> int \<Rightarrow> int \<Rightarrow> 'r \<Rightarrow> 'r tags option" where
  "BaseSetAssoc_new ix size_bytes block_size sequential latency warmup max_requestors r = do {
     c_assert (\<not> (block_size < 4 \<or> \<not> isPowerOf2 block_size));
     b \<leftarrow> CacheBlk_new;
     s \<leftarrow> tagsInit ix b (map of_nat [0..<unat (size_bytes div block_size)])
            (replicate (unat (numSets ix)) (replicate (unat (ix_assoc ix)) b));
     Some \<lparr>tg_ix = ix, tg_blks = s, tg_repl = replicate (unat (numSets ix)) r,
           tg_stats = \<lparr>tagsInUse = 0, tagAccesses = 0, dataAccesses = 0, occupancies = (\<lambda>i. 0), totalRefs = 0,
                       totalStarves = 0, sampledRefs = 0, warmupTick = 0\<rparr>,
           allocAssoc = uint (ix_assoc ix), sequentialAccess = sequential, lookupLatency = latency,
           warmupBound = warmup, warmedUp = False, maxRequestors = max_requestors\<rparr>
   }"

subsection \<open>Lookup\<close>

definition getPossibleEntries :: "'r tags \<Rightarrow> u64 \<Rightarrow> (nat \<times> CacheBlk list) option" where
  "getPossibleEntries t addr =
     (let k = unat (SetAssociative_extractSet (tg_ix t) addr)
      in if k < length (tg_blks t) then Some (k, tg_blks t ! k) else None)"

definition findBlock :: "u64 \<Rightarrow> bool \<Rightarrow> 'r tags \<Rightarrow> (nat \<times> nat) option option" where
  "findBlock addr is_secure t = do {
     let tag = extractTag (tg_ix t) addr;
     (k, entries) \<leftarrow> getPossibleEntries t addr;
     let w = find_index (\<lambda>blk. matchTag blk tag is_secure) entries;
     Some (if w < length entries then Some (k, w) else None)
   }"

definition accessBlock :: "'r rp_ops \<Rightarrow> rp_env \<Rightarrow> tag_pkt \<Rightarrow> 'r tags \<Rightarrow> ((nat \<times> nat) option \<times> u64 \<times> 'r tags) option" where
  "accessBlock ops e pkt t = do {
     found \<leftarrow> findBlock (tp_addr pkt) (tp_secure pkt) t;
     let t1 = count_stats (\<lambda>s. s\<lparr>tagAccesses := tagAccesses s + allocAssoc t,
                                 dataAccesses := dataAccesses s +
                                   (if sequentialAccess t then (if found \<noteq> None then 1 else 0) else allocAssoc t)\<rparr>) t;
     case found of
       None \<Rightarrow> Some (None, lookupLatency t, t1)
     | Some loc \<Rightarrow> do {
         b \<leftarrow> blk_at loc t1;
         b1 \<leftarrow> setUsed ((increaseRefCount b)\<lparr>tickRecentAccess := curTick e\<rparr>);
         t2 \<leftarrow> policy_call (rp_touch ops e (snd loc)) (fst loc) (put_blk loc b1 t1);
         Some (Some loc, lookupLatency t, t2)
       }
   }"

definition starveMRU :: "'r rp_ops \<Rightarrow> rp_env \<Rightarrow> u64 \<Rightarrow> bool \<Rightarrow> 'r tags \<Rightarrow> ((nat \<times> nat) option \<times> 'r tags) option" where
  "starveMRU ops e addr is_secure t = do {
     found \<leftarrow> findBlock addr is_secure t;
     case found of
       None \<Rightarrow> Some (None, t)
     | Some loc \<Rightarrow> do { t1 \<leftarrow> policy_call (rp_starveMRU ops e (snd loc)) (fst loc) t; Some (Some loc, t1) }
   }"

definition findVictim :: "'r rp_ops \<Rightarrow> rp_env \<Rightarrow> u64 \<Rightarrow> 'r tags \<Rightarrow> ((nat \<times> nat) \<times> (nat \<times> nat) list \<times> 'r tags) option" where
  "findVictim ops e addr t = do {
     (k, entries) \<leftarrow> getPossibleEntries t addr;
     c_assert (k < length (tg_repl t));
     (w, r) \<leftarrow> rp_getVictim ops e (tg_repl t ! k);
     Some ((k, w), [(k, w)], t\<lparr>tg_repl := (tg_repl t)[k := r]\<rparr>)
   }"

subsection \<open>Insertion, invalidation and move\<close>

definition BaseTags_insertBlock :: "rp_env \<Rightarrow> tag_pkt \<Rightarrow> nat \<times> nat \<Rightarrow> 'r tags \<Rightarrow> 'r tags option" where
  "BaseTags_insertBlock e pkt loc t = do {
     b \<leftarrow> blk_at loc t;
     c_assert (\<not> blk_valid b);
     let requestor_id = tp_requestorId pkt;
     c_assert (requestor_id < maxRequestors t);
     let t1 = count_stats (\<lambda>s. s\<lparr>occupancies := (occupancies s)(requestor_id := occupancies s requestor_id + 1)\<rparr>) t;
     b1 \<leftarrow> CacheBlk_insert (curTick e) (extractTag (tg_ix t) (tp_addr pkt)) (tp_secure pkt) requestor_id (tp_taskId pkt) b;
     let t2 = put_blk loc b1 t1;
     let t3 = (if \<not> warmedUp t2 \<and> tagsInUse (tg_stats t2) \<ge> warmupBound t2
               then count_stats (\<lambda>s. s\<lparr>warmupTick := curTick e\<rparr>) (t2\<lparr>warmedUp := True\<rparr>) else t2);
     Some (count_stats (\<lambda>s. s\<lparr>tagAccesses := tagAccesses s + 1, dataAccesses := dataAccesses s + 1\<rparr>) t3)
   }"

definition insertBlock :: "'r rp_ops \<Rightarrow> rp_env \<Rightarrow> tag_pkt \<Rightarrow> nat \<times> nat \<Rightarrow> 'r tags \<Rightarrow> 'r tags option" where
  "insertBlock ops e pkt loc t = do {
     t1 \<leftarrow> BaseTags_insertBlock e pkt loc t;
     policy_call (rp_reset_pkt ops (tp_isInstFetch pkt) e (snd loc)) (fst loc)
       (count_stats (\<lambda>s. s\<lparr>tagsInUse := tagsInUse s + 1\<rparr>) t1)
   }"

definition BaseTags_invalidate :: "nat \<times> nat \<Rightarrow> 'r tags \<Rightarrow> 'r tags option" where
  "BaseTags_invalidate loc t = do {
     b \<leftarrow> blk_at loc t;
     c_assert (blk_valid b);
     let i = srcRequestorId b;
     let t1 = count_stats (\<lambda>s. s\<lparr>occupancies := (occupancies s)(i := occupancies s i - 1),
                                 totalRefs := totalRefs s + uint (blk_refCount b),
                                 totalStarves := totalStarves s + (if isStarved b then 1 else 0),
                                 sampledRefs := sampledRefs s + 1\<rparr>) t;
     b1 \<leftarrow> CacheBlk_invalidate b;
     Some (put_blk loc b1 t1)
   }"

definition tags_invalidate :: "'r rp_ops \<Rightarrow> rp_env \<Rightarrow> nat \<times> nat \<Rightarrow> 'r tags \<Rightarrow> 'r tags option" where
  "tags_invalidate ops e loc t = do {
     t1 \<leftarrow> BaseTags_invalidate loc t;
     policy_call (rp_invalidate ops e (snd loc)) (fst loc) (count_stats (\<lambda>s. s\<lparr>tagsInUse := tagsInUse s - 1\<rparr>) t1)
   }"

definition BaseTags_moveBlock :: "rp_env \<Rightarrow> nat \<times> nat \<Rightarrow> nat \<times> nat \<Rightarrow> 'r tags \<Rightarrow> 'r tags option" where
  "BaseTags_moveBlock e src dest t = do {
     s \<leftarrow> blk_at src t;
     d \<leftarrow> blk_at dest t;
     c_assert (\<not> blk_valid d);
     c_assert (blk_valid s);
     (d1, s1) \<leftarrow> CacheBlk_move (curTick e) d s;
     c_assert (blk_valid d1);
     c_assert (\<not> blk_valid s1);
     Some (put_blk src s1 (put_blk dest d1 t))
   }"

definition moveBlock :: "'r rp_ops \<Rightarrow> rp_env \<Rightarrow> nat \<times> nat \<Rightarrow> nat \<times> nat \<Rightarrow> 'r tags \<Rightarrow> 'r tags option" where
  "moveBlock ops e src dest t = do {
     t1 \<leftarrow> BaseTags_moveBlock e src dest t;
     t2 \<leftarrow> policy_call (rp_invalidate ops e (snd src)) (fst src) t1;
     policy_call (rp_reset ops e (snd dest)) (fst dest) t2
   }"

definition setWayAllocationMax :: "int \<Rightarrow> 'r tags \<Rightarrow> 'r tags option" where
  "setWayAllocationMax ways t = do { c_assert (\<not> ways < 1); Some (t\<lparr>allocAssoc := ways\<rparr>) }"

definition regenerateBlkAddr :: "nat \<times> nat \<Rightarrow> 'r tags \<Rightarrow> u64 option" where
  "regenerateBlkAddr loc t = do {
     b \<leftarrow> blk_at loc t;
     Some (SetAssociative_regenerateAddr (tg_ix t) (blk_tag b) (of_nat (fst loc)))
   }"

text \<open>The reference counts of the blocks still in the cache at the end of a simulation.\<close>

definition cleanupRefsVisitor :: "CacheBlk \<Rightarrow> tag_stats \<Rightarrow> tag_stats" where
  "cleanupRefsVisitor b s =
     (if blk_valid b then s\<lparr>totalRefs := totalRefs s + uint (blk_refCount b),
                            totalStarves := totalStarves s + (if isStarved b then 1 else 0),
                            sampledRefs := sampledRefs s + 1\<rparr> else s)"

definition cleanupRefs :: "'r tags \<Rightarrow> 'r tags" where
  "cleanupRefs t = count_stats (fold (fold cleanupRefsVisitor) (tg_blks t)) t"

definition anyBlk :: "(CacheBlk \<Rightarrow> bool) \<Rightarrow> 'r tags \<Rightarrow> bool" where
  "anyBlk visitor t = list_ex (list_ex visitor) (tg_blks t)"

subsection \<open>The invariant\<close>

definition upd_blk :: "nat \<times> nat \<Rightarrow> CacheBlk \<Rightarrow> CacheBlk list list \<Rightarrow> CacheBlk list list" where
  "upd_blk loc b s = s[fst loc := (s ! fst loc)[snd loc := b]]"

definition blk_count :: "(CacheBlk \<Rightarrow> bool) \<Rightarrow> CacheBlk list list \<Rightarrow> int" where
  "blk_count P s = int (sum_list (map (\<lambda>es. length (filter P es)) s))"

definition no_alias :: "CacheBlk list \<Rightarrow> bool" where
  "no_alias es \<longleftrightarrow> (\<forall>i < length es. \<forall>j < length es. blk_valid (es ! i) \<longrightarrow>
     matchTag (es ! j) (blk_tag (es ! i)) (blk_secure (es ! i)) \<longrightarrow> i = j)"

definition ix_ok :: "indexing \<Rightarrow> bool" where
  "ix_ok ix \<longleftrightarrow> 0 < ix_assoc ix \<and> tagShift ix \<le> 32 \<and>
     (\<exists>n < 32. numSets ix = 2 ^ n \<and> setMask ix = mask n \<and> tagShift ix = setShift ix + n)"

definition blks_ok :: "indexing \<Rightarrow> CacheBlk list list \<Rightarrow> bool" where
  "blks_ok ix s \<longleftrightarrow> length s = unat (numSets ix) \<and>
     (\<forall>es \<in> set s. length es = unat (ix_assoc ix) \<and> no_alias es \<and> (\<forall>b \<in> set es. blk_valid b \<or> \<not> blk_secure b))"

definition stats_ok :: "CacheBlk list list \<Rightarrow> tag_stats \<Rightarrow> bool" where
  "stats_ok s st \<longleftrightarrow> tagsInUse st = blk_count blk_valid s \<and>
     (\<forall>i. occupancies st i = blk_count (\<lambda>b. blk_valid b \<and> srcRequestorId b = i) s)"

definition repl_ok :: "(nat \<Rightarrow> 'r \<Rightarrow> bool) \<Rightarrow> indexing \<Rightarrow> 'r list \<Rightarrow> bool" where
  "repl_ok rinv ix rs \<longleftrightarrow> length rs = unat (numSets ix) \<and> (\<forall>r \<in> set rs. rinv (unat (ix_assoc ix)) r)"

definition tags_inv :: "(nat \<Rightarrow> 'r \<Rightarrow> bool) \<Rightarrow> 'r tags \<Rightarrow> bool" where
  "tags_inv rinv t \<longleftrightarrow> ix_ok (tg_ix t) \<and> blks_ok (tg_ix t) (tg_blks t) \<and> stats_ok (tg_blks t) (tg_stats t) \<and>
     repl_ok rinv (tg_ix t) (tg_repl t)"

definition valid_loc :: "nat \<times> nat \<Rightarrow> 'r tags \<Rightarrow> bool" where
  "valid_loc loc t \<longleftrightarrow> fst loc < unat (numSets (tg_ix t)) \<and> snd loc < unat (ix_assoc (tg_ix t))"

subsection \<open>Updating one block\<close>

lemma put_blk_upd: "put_blk loc b t = t\<lparr>tg_blks := upd_blk loc b (tg_blks t)\<rparr>"
  by (cases loc) (simp add: put_blk_def upd_blk_def)

lemma blk_at_valid:
  assumes "blks_ok (tg_ix t) (tg_blks t)" "valid_loc loc t"
  shows "blk_at loc t = Some (tg_blks t ! fst loc ! snd loc)"
  using assms by (cases loc) (auto simp: blk_at_def valid_loc_def blks_ok_def)

lemma blk_at_cong: "tg_blks t' = tg_blks t \<Longrightarrow> blk_at loc t' = blk_at loc t"
  by (cases loc) (simp add: blk_at_def)

lemma filter_length_update:
  "w < length es \<Longrightarrow> int (length (filter P (es[w := b]))) = int (length (filter P es)) - of_bool (P (es ! w)) + of_bool (P b)"
proof (induction es arbitrary: w)
  case (Cons e es)
  then show ?case by (cases w) auto
qed simp

lemma sum_list_update_int:
  "k < length xs \<Longrightarrow> int (sum_list (xs[k := x])) = int (sum_list xs) - int (xs ! k) + int (x :: nat)"
proof (induction xs arbitrary: k)
  case (Cons y ys)
  then show ?case by (cases k) auto
qed simp

lemma blk_count_upd:
  assumes "k < length s" "w < length (s ! k)"
  shows "blk_count P (upd_blk (k, w) b s) = blk_count P s - of_bool (P (s ! k ! w)) + of_bool (P b)"
  using assms filter_length_update [OF assms(2), of P b]
  by (simp add: blk_count_def upd_blk_def map_update sum_list_update_int)

lemma upd_blk_nth [simp]:
  "k < length s \<Longrightarrow> w < length (s ! k) \<Longrightarrow> upd_blk (k, w) b s ! k ! w = b"
  by (simp add: upd_blk_def)

lemma length_upd_blk [simp]: "length (upd_blk loc b s) = length s"
  by (simp add: upd_blk_def)

lemma blks_ok_upd:
  assumes ok: "blks_ok ix s" and loc: "k < unat (numSets ix)" "w < unat (ix_assoc ix)"
    and b: "blk_valid b \<or> \<not> blk_secure b"
    and fresh: "\<And>j. blk_valid b \<Longrightarrow> j < unat (ix_assoc ix) \<Longrightarrow> j \<noteq> w \<Longrightarrow> \<not> matchTag (s ! k ! j) (blk_tag b) (blk_secure b)"
  shows "blks_ok ix (upd_blk (k, w) b s)"
proof -
  have k: "k < length s" "s ! k \<in> set s" "length (s ! k) = unat (ix_assoc ix)" "no_alias (s ! k)"
    "\<forall>b \<in> set (s ! k). blk_valid b \<or> \<not> blk_secure b"
    using ok loc by (auto simp: blks_ok_def)
  have "no_alias ((s ! k)[w := b])"
    unfolding no_alias_def
  proof (intro allI impI)
    fix i j
    assume i: "i < length ((s ! k)[w := b])" "j < length ((s ! k)[w := b])" "blk_valid ((s ! k)[w := b] ! i)"
      and m: "matchTag ((s ! k)[w := b] ! j) (blk_tag ((s ! k)[w := b] ! i)) (blk_secure ((s ! k)[w := b] ! i))"
    have sym: "blk_valid x \<Longrightarrow> matchTag y (blk_tag x) (blk_secure x) \<Longrightarrow> blk_valid y \<and> matchTag x (blk_tag y) (blk_secure y)" for x y
      by (simp add: matchTag_def)
    show "i = j"
    proof (cases "i = w \<or> j = w")
      case True
      then show ?thesis using fresh [of j] fresh [of i] sym [OF i(3) m] i(1,2) m i(3) k(3) loc(2)
        by (metis length_list_update nth_list_update_eq nth_list_update_neq)
    next
      case False
      then have "blk_valid (s ! k ! i)" "matchTag (s ! k ! j) (blk_tag (s ! k ! i)) (blk_secure (s ! k ! i))"
        using i m by simp_all
      then show ?thesis using k(4) i(1,2) unfolding no_alias_def by (metis length_list_update)
    qed
  qed
  moreover have "\<forall>x \<in> set ((s ! k)[w := b]). blk_valid x \<or> \<not> blk_secure x"
    using k(5) b set_update_subset_insert [of "s ! k" w b] by blast
  moreover have "set (s[k := (s ! k)[w := b]]) \<subseteq> Set.insert ((s ! k)[w := b]) (set s)"
    by (rule set_update_subset_insert)
  ultimately show ?thesis
    using ok k(3) unfolding blks_ok_def upd_blk_def by auto
qed

lemma stats_ok_upd:
  assumes "stats_ok s st" "k < length s" "w < length (s ! k)"
    and "tagsInUse st' = tagsInUse st - of_bool (blk_valid (s ! k ! w)) + of_bool (blk_valid b)"
    and "\<And>i. occupancies st' i = occupancies st i - of_bool (blk_valid (s ! k ! w) \<and> srcRequestorId (s ! k ! w) = i)
           + of_bool (blk_valid b \<and> srcRequestorId b = i)"
  shows "stats_ok (upd_blk (k, w) b s) st'"
  using assms by (simp add: stats_ok_def blk_count_upd)

lemma policy_call_ok:
  assumes "repl_ok rinv (tg_ix t) (tg_repl t)" "k < unat (numSets (tg_ix t))"
    and "\<And>r. rinv (unat (ix_assoc (tg_ix t))) r \<Longrightarrow> \<exists>r'. f r = Some r' \<and> rinv (unat (ix_assoc (tg_ix t))) r'"
  shows "\<exists>rs. policy_call f k t = Some (t\<lparr>tg_repl := rs\<rparr>) \<and> repl_ok rinv (tg_ix t) rs"
proof -
  have "rinv (unat (ix_assoc (tg_ix t))) (tg_repl t ! k)" and k: "k < length (tg_repl t)" using assms(1,2) by (auto simp: repl_ok_def)
  then obtain r' where "f (tg_repl t ! k) = Some r'" "rinv (unat (ix_assoc (tg_ix t))) r'" using assms(3) by blast
  then show ?thesis
    using assms(1) k set_update_subset_insert [of "tg_repl t" k r'] unfolding repl_ok_def
    by (intro exI [of _ "(tg_repl t)[k := r']"]) (auto simp: policy_call_def)
qed

subsection \<open>Lookup\<close>

lemma extractSet_less:
  assumes "ix_ok ix"
  shows "unat (SetAssociative_extractSet ix addr) < unat (numSets ix)"
proof -
  obtain n where n: "n < 32" "numSets ix = 2 ^ n" "setMask ix = mask n" using assms by (auto simp: ix_ok_def)
  have "take_bit n (SetAssociative_extractSet ix addr) = SetAssociative_extractSet ix addr"
    unfolding SetAssociative_extractSet_def n by (intro bit_eqI) (auto simp: bit_simps)
  then have "SetAssociative_extractSet ix addr < 2 ^ n" by (rule take_bit_less) (simp add: n)
  then show ?thesis by (simp add: n word_less_nat_alt)
qed

definition set_of :: "'r tags \<Rightarrow> u64 \<Rightarrow> nat" where
  "set_of t addr = unat (SetAssociative_extractSet (tg_ix t) addr)"

definition holds_at :: "'r tags \<Rightarrow> u64 \<Rightarrow> bool \<Rightarrow> nat \<Rightarrow> bool" where
  "holds_at t addr sec w \<longleftrightarrow> w < unat (ix_assoc (tg_ix t)) \<and>
     matchTag (tg_blks t ! set_of t addr ! w) (extractTag (tg_ix t) addr) sec"

lemma set_of_less: "ix_ok (tg_ix t) \<Longrightarrow> set_of t addr < unat (numSets (tg_ix t))"
  by (simp add: set_of_def extractSet_less)

lemma find_index_less_nth: "find_index P xs < length xs \<longleftrightarrow> (\<exists>i < length xs. P (xs ! i))"
  unfolding find_index_less_iff by (metis in_set_conv_nth)

text \<open>Lookup is exact: it returns the one way that holds the address, or nothing.\<close>

lemma findBlock_iff:
  assumes "ix_ok (tg_ix t)" "blks_ok (tg_ix t) (tg_blks t)"
  shows "findBlock addr sec t = Some (Some (k, w)) \<longleftrightarrow> k = set_of t addr \<and> holds_at t addr sec w"
    and "findBlock addr sec t = Some None \<longleftrightarrow> (\<forall>w. \<not> holds_at t addr sec w)"
    and "findBlock addr sec t \<noteq> None"
proof -
  let ?es = "tg_blks t ! set_of t addr" and ?P = "\<lambda>b. matchTag b (extractTag (tg_ix t) addr) sec"
  have k: "set_of t addr < length (tg_blks t)" using set_of_less [OF assms(1)] assms(2) by (simp add: blks_ok_def)
  then have len: "length ?es = unat (ix_assoc (tg_ix t))" "no_alias ?es" using assms(2) by (auto simp: blks_ok_def)
  have f: "findBlock addr sec t = Some (if find_index ?P ?es < length ?es then Some (set_of t addr, find_index ?P ?es) else None)"
    using k by (simp add: findBlock_def getPossibleEntries_def set_of_def [symmetric] Let_def)
  have iff: "find_index ?P ?es < length ?es \<longleftrightarrow> (\<exists>w. holds_at t addr sec w)"
    unfolding find_index_less_nth holds_at_def len(1) [symmetric] ..
  show "findBlock addr sec t \<noteq> None" by (simp add: f)
  show "findBlock addr sec t = Some None \<longleftrightarrow> (\<forall>w. \<not> holds_at t addr sec w)"
    using iff by (auto simp: f)
  have uniq: "i = j" if "i < length ?es" "j < length ?es" "?P (?es ! i)" "?P (?es ! j)" for i j
    using len(2) that unfolding no_alias_def matchTag_def by metis
  show "findBlock addr sec t = Some (Some (k, w)) \<longleftrightarrow> k = set_of t addr \<and> holds_at t addr sec w"
  proof (cases "find_index ?P ?es < length ?es")
    case True
    then show ?thesis using find_index_sat [OF True] uniq [OF True, of w] len(1) by (auto simp: f holds_at_def)
  next
    case False
    then show ?thesis using iff by (auto simp: f)
  qed
qed

subsection \<open>What the operations do\<close>

definition same_cfg :: "'r tags \<Rightarrow> 'r tags \<Rightarrow> bool" where
  "same_cfg t t' \<longleftrightarrow> tg_ix t' = tg_ix t \<and> maxRequestors t' = maxRequestors t"

definition block_of :: "nat \<times> nat \<Rightarrow> 'r tags \<Rightarrow> CacheBlk" where
  "block_of loc t = tg_blks t ! fst loc ! snd loc"

lemma CacheBlk_invalidate_eff:
  "\<exists>b1. CacheBlk_invalidate b = Some b1 \<and> \<not> blk_valid b1 \<and> \<not> blk_secure b1 \<and> blk_tag b1 = - 1 \<and> blk_vaddr b1 = blk_vaddr b \<and> blk_taskId b1 = 1024"
  by (simp add: CacheBlk_invalidate_def TaggedEntry_invalidate_def clearCoherenceBits_def setWhenReady_def)

lemma CacheBlk_insert_eff:
  assumes "\<not> blk_valid b" "\<not> blk_secure b"
  shows "\<exists>b1. CacheBlk_insert now tag sec req task b = Some b1 \<and> blk_valid b1 \<and> blk_tag b1 = tag \<and> blk_secure b1 = sec \<and>
    srcRequestorId b1 = req"
  using assms by (simp add: CacheBlk_insert_def TaggedEntry_insert_def increaseRefCount_def Let_def)

lemma CacheBlk_move_eff:
  assumes "\<not> blk_valid d" "\<not> blk_secure d" "blk_valid s" "blk_tickInserted d \<le> now"
  shows "\<exists>d1 s1. CacheBlk_move now d s = Some (d1, s1) \<and> blk_valid d1 \<and> blk_tag d1 = blk_tag s \<and> blk_secure d1 = blk_secure s \<and>
    srcRequestorId d1 = srcRequestorId s \<and> \<not> blk_valid s1 \<and> \<not> blk_secure s1"
  using assms CacheBlk_invalidate_eff [of "s\<lparr>lockList := lockList d\<rparr>"]
  by (auto simp: CacheBlk_move_def TaggedEntry_insert_def setCoherenceBits_def setWhenReady_def Let_def)

lemma setUsed_eff:
  assumes "blk_valid b"
  shows "\<exists>b1. setUsed ((increaseRefCount b)\<lparr>tickRecentAccess := now\<rparr>) = Some b1 \<and> blk_valid b1 \<and> blk_tag b1 = blk_tag b \<and>
    blk_secure b1 = blk_secure b \<and> srcRequestorId b1 = srcRequestorId b"
  using assms by (simp add: setUsed_def setCoherenceBits_def increaseRefCount_def)

lemma BaseTags_insertBlock_eff:
  assumes "blks_ok (tg_ix t) (tg_blks t)" "valid_loc loc t" "\<not> blk_valid (block_of loc t)" "\<not> blk_secure (block_of loc t)"
    "tp_requestorId pkt < maxRequestors t"
  shows "\<exists>b1 st wu. BaseTags_insertBlock e pkt loc t = Some (t\<lparr>tg_blks := upd_blk loc b1 (tg_blks t), tg_stats := st, warmedUp := wu\<rparr>) \<and>
    blk_valid b1 \<and> blk_tag b1 = extractTag (tg_ix t) (tp_addr pkt) \<and> blk_secure b1 = tp_secure pkt \<and> srcRequestorId b1 = tp_requestorId pkt \<and>
    tagsInUse st = tagsInUse (tg_stats t) \<and>
    occupancies st = (occupancies (tg_stats t))(tp_requestorId pkt := occupancies (tg_stats t) (tp_requestorId pkt) + 1)"
proof -
  obtain b1 where b1: "CacheBlk_insert (curTick e) (extractTag (tg_ix t) (tp_addr pkt)) (tp_secure pkt) (tp_requestorId pkt) (tp_taskId pkt) (block_of loc t) = Some b1"
     "blk_valid b1" "blk_tag b1 = extractTag (tg_ix t) (tp_addr pkt)" "blk_secure b1 = tp_secure pkt" "srcRequestorId b1 = tp_requestorId pkt"
    using CacheBlk_insert_eff [OF assms(3,4)] by blast
  have at: "blk_at loc t = Some (block_of loc t)" using blk_at_valid [OF assms(1,2)] by (simp add: block_of_def)
  define wu where "wu \<longleftrightarrow> warmedUp t \<or> tagsInUse (tg_stats t) \<ge> warmupBound t"
  show ?thesis
    using b1 at assms(3,5)
    by (intro exI [of _ b1] exI [of _ "tg_stats t\<lparr>occupancies := (occupancies (tg_stats t))(tp_requestorId pkt := occupancies (tg_stats t) (tp_requestorId pkt) + 1),
            warmupTick := (if \<not> warmedUp t \<and> tagsInUse (tg_stats t) \<ge> warmupBound t then curTick e else warmupTick (tg_stats t)),
            tagAccesses := tagAccesses (tg_stats t) + 1, dataAccesses := dataAccesses (tg_stats t) + 1\<rparr>"] exI [of _ wu])
      (auto simp: BaseTags_insertBlock_def count_stats_def put_blk_upd wu_def Let_def)
qed

lemma BaseTags_invalidate_eff:
  assumes "blks_ok (tg_ix t) (tg_blks t)" "valid_loc loc t" "blk_valid (block_of loc t)"
  shows "\<exists>b1 st. BaseTags_invalidate loc t = Some (t\<lparr>tg_blks := upd_blk loc b1 (tg_blks t), tg_stats := st\<rparr>) \<and>
    \<not> blk_valid b1 \<and> \<not> blk_secure b1 \<and> blk_tag b1 = - 1 \<and> blk_vaddr b1 = blk_vaddr (block_of loc t) \<and> blk_taskId b1 = 1024 \<and>
    tagsInUse st = tagsInUse (tg_stats t) \<and>
    occupancies st = (occupancies (tg_stats t))(srcRequestorId (block_of loc t) := occupancies (tg_stats t) (srcRequestorId (block_of loc t)) - 1)"
proof -
  have at: "blk_at loc t = Some (block_of loc t)" using blk_at_valid [OF assms(1,2)] by (simp add: block_of_def)
  obtain b1 where b1: "CacheBlk_invalidate (block_of loc t) = Some b1" "\<not> blk_valid b1" "\<not> blk_secure b1" "blk_tag b1 = - 1"
    "blk_vaddr b1 = blk_vaddr (block_of loc t)" "blk_taskId b1 = 1024"
    using CacheBlk_invalidate_eff [of "block_of loc t"] by blast
  define i where "i = srcRequestorId (block_of loc t)"
  show ?thesis using at assms(3) b1
    by (intro exI [of _ b1] exI [of _ "tg_stats t\<lparr>occupancies := (occupancies (tg_stats t))(i := occupancies (tg_stats t) i - 1),
          totalRefs := totalRefs (tg_stats t) + uint (blk_refCount (block_of loc t)),
          totalStarves := totalStarves (tg_stats t) + (if isStarved (block_of loc t) then 1 else 0),
          sampledRefs := sampledRefs (tg_stats t) + 1\<rparr>"])
      (simp add: BaseTags_invalidate_def count_stats_def put_blk_upd Let_def i_def)
qed

text \<open>A block that changes only in its metadata.\<close>

definition same_ident :: "CacheBlk \<Rightarrow> CacheBlk \<Rightarrow> bool" where
  "same_ident b c \<longleftrightarrow> blk_valid c = blk_valid b \<and> blk_tag c = blk_tag b \<and> blk_secure c = blk_secure b \<and> srcRequestorId c = srcRequestorId b"

lemma ident_upd:
  assumes "ix_ok (tg_ix t)" "blks_ok (tg_ix t) (tg_blks t)" "valid_loc loc t" "same_ident (block_of loc t) c"
  shows "blks_ok (tg_ix t) (upd_blk loc c (tg_blks t))"
    and "stats_ok (tg_blks t) st \<Longrightarrow> tagsInUse st' = tagsInUse st \<Longrightarrow> occupancies st' = occupancies st \<Longrightarrow> stats_ok (upd_blk loc c (tg_blks t)) st'"
proof -
  obtain k w where kw: "loc = (k, w)" by (cases loc)
  have k: "k < unat (numSets (tg_ix t))" "w < unat (ix_assoc (tg_ix t))" using assms(3) by (simp_all add: valid_loc_def kw)
  have len: "k < length (tg_blks t)" "length (tg_blks t ! k) = unat (ix_assoc (tg_ix t))" "no_alias (tg_blks t ! k)" using assms(2) k by (auto simp: blks_ok_def)
  have mem: "tg_blks t ! k ! w \<in> set (tg_blks t ! k)" "tg_blks t ! k \<in> set (tg_blks t)" using len k by auto
  have id: "blk_valid c = blk_valid (tg_blks t ! k ! w)" "blk_tag c = blk_tag (tg_blks t ! k ! w)" "blk_secure c = blk_secure (tg_blks t ! k ! w)"
    "srcRequestorId c = srcRequestorId (tg_blks t ! k ! w)" using assms(4) by (simp_all add: same_ident_def block_of_def kw)
  have sec: "blk_valid c \<or> \<not> blk_secure c" using assms(2) mem unfolding id blks_ok_def by blast
  have fresh: "\<not> matchTag (tg_blks t ! k ! j) (blk_tag c) (blk_secure c)" if "blk_valid c" "j < unat (ix_assoc (tg_ix t))" "j \<noteq> w" for j
    using len(2,3) k(2) that unfolding no_alias_def id by metis
  show "blks_ok (tg_ix t) (upd_blk loc c (tg_blks t))" unfolding kw using sec fresh by (intro blks_ok_upd [OF assms(2) k]) auto
  show "stats_ok (upd_blk loc c (tg_blks t)) st'"
    if "stats_ok (tg_blks t) st" "tagsInUse st' = tagsInUse st" "occupancies st' = occupancies st"
    unfolding kw using len k id that(2,3) by (intro stats_ok_upd [OF that(1)]) auto
qed

lemma found_loc:
  assumes "ix_ok (tg_ix t)" "blks_ok (tg_ix t) (tg_blks t)" "findBlock addr sec t = Some (Some loc)"
  shows "valid_loc loc t" "blk_valid (block_of loc t)" "blk_tag (block_of loc t) = extractTag (tg_ix t) addr"
    "blk_secure (block_of loc t) = sec" "fst loc = set_of t addr"
proof -
  obtain k w where kw: "loc = (k, w)" by (cases loc)
  have *: "k = set_of t addr" "holds_at t addr sec w" using findBlock_iff(1) [OF assms(1,2)] assms(3) by (auto simp: kw)
  then show "valid_loc loc t" "blk_valid (block_of loc t)" "blk_tag (block_of loc t) = extractTag (tg_ix t) addr"
    "blk_secure (block_of loc t) = sec" "fst loc = set_of t addr"
    using set_of_less [OF assms(1), of addr] by (auto simp: kw valid_loc_def holds_at_def matchTag_def block_of_def)
qed

text \<open>Lookup after the update of one block.\<close>

lemma findBlock_upd:
  assumes t: "ix_ok (tg_ix t)" "blks_ok (tg_ix t) (tg_blks t)" and t': "blks_ok (tg_ix t) (tg_blks t')" "tg_ix t' = tg_ix t"
    and u: "tg_blks t' = upd_blk loc c (tg_blks t)" "valid_loc loc t"
  shows "findBlock addr sec t' = Some (Some l) \<longleftrightarrow>
    (if l = loc then fst loc = set_of t addr \<and> matchTag c (extractTag (tg_ix t) addr) sec else findBlock addr sec t = Some (Some l))"
proof -
  obtain k w where kw: "loc = (k, w)" by (cases loc)
  obtain j v where jv: "l = (j, v)" by (cases l)
  have k: "k < length (tg_blks t)" "w < length (tg_blks t ! k)" "w < unat (ix_assoc (tg_ix t))" using u(2) t(2) by (auto simp: valid_loc_def kw blks_ok_def)
  have so: "set_of t' addr = set_of t addr" by (simp add: set_of_def t'(2))
  have nth: "upd_blk loc c (tg_blks t) ! i ! x = (if (i, x) = loc then c else tg_blks t ! i ! x)" for i x
    using k by (cases "i = k") (auto simp: upd_blk_def kw nth_list_update)
  have "findBlock addr sec t' = Some (Some l) \<longleftrightarrow> j = set_of t addr \<and> holds_at t' addr sec v"
    using findBlock_iff(1) [of t' addr sec j v] t t' by (simp add: jv so)
  moreover have "holds_at t' addr sec v \<longleftrightarrow> v < unat (ix_assoc (tg_ix t)) \<and>
      matchTag (if (set_of t addr, v) = loc then c else tg_blks t ! set_of t addr ! v) (extractTag (tg_ix t) addr) sec"
    by (simp add: holds_at_def so u(1) nth t'(2))
  moreover have "findBlock addr sec t = Some (Some l) \<longleftrightarrow> j = set_of t addr \<and> holds_at t addr sec v"
    using findBlock_iff(1) [OF t] by (simp add: jv)
  ultimately show ?thesis using k(3) by (auto simp: jv kw holds_at_def)
qed

lemma upd_blk_commute:
  "w \<noteq> v \<Longrightarrow> upd_blk (k, w) b (upd_blk (k, v) c s) = upd_blk (k, v) c (upd_blk (k, w) b s)"
  by (cases "k < length s") (simp_all add: upd_blk_def list_update_swap list_update_beyond)

subsection \<open>The operations keep the invariant\<close>

locale tags_policy = replacement_policy rinv "rp_touch ops" "rp_reset ops" "rp_invalidate ops" "rp_getVictim ops"
  for rinv :: "nat \<Rightarrow> 'r \<Rightarrow> bool" and ops :: "'r rp_ops" +
  assumes reset_pkt_ok: "env_ok e \<Longrightarrow> rinv n r \<Longrightarrow> w < n \<Longrightarrow> \<exists>r'. rp_reset_pkt ops is_inst e w r = Some r' \<and> rinv n r'"
    and starveMRU_ok: "env_ok e \<Longrightarrow> rinv n r \<Longrightarrow> w < n \<Longrightarrow> \<exists>r'. rp_starveMRU ops e w r = Some r' \<and> rinv n r'"
begin

lemma tags_invD:
  assumes "tags_inv rinv t"
  shows "ix_ok (tg_ix t)" "blks_ok (tg_ix t) (tg_blks t)" "stats_ok (tg_blks t) (tg_stats t)" "repl_ok rinv (tg_ix t) (tg_repl t)"
  using assms by (auto simp: tags_inv_def)

lemma insert_ok:
  assumes inv: "tags_inv rinv t" and e: "env_ok e" and loc: "valid_loc loc t" "fst loc = set_of t (tp_addr pkt)"
    and b: "\<not> blk_valid (block_of loc t)" and miss: "findBlock (tp_addr pkt) (tp_secure pkt) t = Some None"
    and req: "tp_requestorId pkt < maxRequestors t"
  shows "\<exists>t' b1. insertBlock ops e pkt loc t = Some t' \<and> tags_inv rinv t' \<and> same_cfg t t' \<and>
    tg_blks t' = upd_blk loc b1 (tg_blks t) \<and> blk_valid b1 \<and> blk_tag b1 = extractTag (tg_ix t) (tp_addr pkt) \<and> blk_secure b1 = tp_secure pkt"
proof -
  note D = tags_invD [OF inv]
  obtain k w where kw: "loc = (k, w)" by (cases loc)
  have k: "k < unat (numSets (tg_ix t))" "w < unat (ix_assoc (tg_ix t))" using loc(1) by (simp_all add: valid_loc_def kw)
  have len: "k < length (tg_blks t)" "length (tg_blks t ! k) = unat (ix_assoc (tg_ix t))" using D(2) k by (auto simp: blks_ok_def)
  have "tg_blks t ! k ! w \<in> set (tg_blks t ! k)" "tg_blks t ! k \<in> set (tg_blks t)" using len k by auto
  then have sec: "\<not> blk_secure (block_of loc t)" using D(2) b by (auto simp: blks_ok_def block_of_def kw)
  obtain b1 st wu where u: "BaseTags_insertBlock e pkt loc t = Some (t\<lparr>tg_blks := upd_blk loc b1 (tg_blks t), tg_stats := st, warmedUp := wu\<rparr>)"
    "blk_valid b1" "blk_tag b1 = extractTag (tg_ix t) (tp_addr pkt)" "blk_secure b1 = tp_secure pkt" "srcRequestorId b1 = tp_requestorId pkt"
    "tagsInUse st = tagsInUse (tg_stats t)"
    "occupancies st = (occupancies (tg_stats t))(tp_requestorId pkt := occupancies (tg_stats t) (tp_requestorId pkt) + 1)"
    using BaseTags_insertBlock_eff [OF D(2) loc(1) b sec req] by blast
  let ?t = "t\<lparr>tg_blks := upd_blk loc b1 (tg_blks t), warmedUp := wu, tg_stats := st\<lparr>tagsInUse := tagsInUse st + 1\<rparr>\<rparr>"
  have "\<And>j. \<not> holds_at t (tp_addr pkt) (tp_secure pkt) j" using miss findBlock_iff(2) [OF D(1,2)] by blast
  then have blks: "blks_ok (tg_ix t) (upd_blk loc b1 (tg_blks t))"
    unfolding kw using u(2-4) loc(2) by (intro blks_ok_upd [OF D(2) k]) (auto simp: holds_at_def kw)
  have stats: "stats_ok (upd_blk loc b1 (tg_blks t)) (st\<lparr>tagsInUse := tagsInUse st + 1\<rparr>)"
    unfolding kw using u b len k by (intro stats_ok_upd [OF D(3)]) (auto simp: block_of_def kw)
  have "\<exists>rs. policy_call (rp_reset_pkt ops (tp_isInstFetch pkt) e (snd loc)) (fst loc) ?t = Some (?t\<lparr>tg_repl := rs\<rparr>) \<and> repl_ok rinv (tg_ix ?t) rs"
    using D(4) k reset_pkt_ok [OF e] by (intro policy_call_ok) (auto simp: kw)
  then obtain rs where rs: "policy_call (rp_reset_pkt ops (tp_isInstFetch pkt) e (snd loc)) (fst loc) ?t = Some (?t\<lparr>tg_repl := rs\<rparr>)" "repl_ok rinv (tg_ix t) rs"
    by auto
  have "insertBlock ops e pkt loc t = Some (?t\<lparr>tg_repl := rs\<rparr>)"
    using u(1) rs(1) by (simp add: insertBlock_def count_stats_def)
  then show ?thesis using rs(2) blks stats D(1) u(2-4)
    by (intro exI [of _ "?t\<lparr>tg_repl := rs\<rparr>"] exI [of _ b1]) (simp add: tags_inv_def same_cfg_def)
qed

lemma invalidate_block_ok:
  assumes inv: "tags_inv rinv t" and e: "env_ok e" and loc: "valid_loc loc t" and b: "blk_valid (block_of loc t)"
  shows "\<exists>t' b1. tags_invalidate ops e loc t = Some t' \<and> tags_inv rinv t' \<and> same_cfg t t' \<and>
    tg_blks t' = upd_blk loc b1 (tg_blks t) \<and> \<not> blk_valid b1 \<and> blk_tag b1 = - 1 \<and> blk_vaddr b1 = blk_vaddr (block_of loc t) \<and>
    \<not> blk_secure b1 \<and> blk_taskId b1 = 1024"
proof -
  note D = tags_invD [OF inv]
  obtain k w where kw: "loc = (k, w)" by (cases loc)
  have k: "k < unat (numSets (tg_ix t))" "w < unat (ix_assoc (tg_ix t))" using loc by (simp_all add: valid_loc_def kw)
  have len: "k < length (tg_blks t)" "length (tg_blks t ! k) = unat (ix_assoc (tg_ix t))" using D(2) k by (auto simp: blks_ok_def)
  obtain b1 st where u: "BaseTags_invalidate loc t = Some (t\<lparr>tg_blks := upd_blk loc b1 (tg_blks t), tg_stats := st\<rparr>)"
    "\<not> blk_valid b1" "\<not> blk_secure b1" "blk_tag b1 = - 1" "blk_vaddr b1 = blk_vaddr (block_of loc t)" "blk_taskId b1 = 1024"
    "tagsInUse st = tagsInUse (tg_stats t)"
    "occupancies st = (occupancies (tg_stats t))(srcRequestorId (block_of loc t) := occupancies (tg_stats t) (srcRequestorId (block_of loc t)) - 1)"
    using BaseTags_invalidate_eff [OF D(2) loc b] by blast
  let ?t = "t\<lparr>tg_blks := upd_blk loc b1 (tg_blks t), tg_stats := st\<lparr>tagsInUse := tagsInUse st - 1\<rparr>\<rparr>"
  have blks: "blks_ok (tg_ix t) (upd_blk loc b1 (tg_blks t))"
    unfolding kw using u(2,3) by (intro blks_ok_upd [OF D(2) k]) auto
  have stats: "stats_ok (upd_blk loc b1 (tg_blks t)) (st\<lparr>tagsInUse := tagsInUse st - 1\<rparr>)"
    unfolding kw using u b len k by (intro stats_ok_upd [OF D(3)]) (auto simp: block_of_def kw)
  have "\<exists>rs. policy_call (rp_invalidate ops e (snd loc)) (fst loc) ?t = Some (?t\<lparr>tg_repl := rs\<rparr>) \<and> repl_ok rinv (tg_ix ?t) rs"
    using D(4) k invalidate_ok [OF e] by (intro policy_call_ok) (auto simp: kw)
  then obtain rs where rs: "policy_call (rp_invalidate ops e (snd loc)) (fst loc) ?t = Some (?t\<lparr>tg_repl := rs\<rparr>)" "repl_ok rinv (tg_ix t) rs"
    by auto
  have "tags_invalidate ops e loc t = Some (?t\<lparr>tg_repl := rs\<rparr>)"
    using u(1) rs(1) by (simp add: tags_invalidate_def count_stats_def)
  then show ?thesis using rs(2) blks stats D(1) u(2-6)
    by (intro exI [of _ "?t\<lparr>tg_repl := rs\<rparr>"] exI [of _ b1]) (simp add: tags_inv_def same_cfg_def)
qed

lemma access_ok:
  assumes inv: "tags_inv rinv t" and e: "env_ok e"
  shows "\<exists>f t'. accessBlock ops e pkt t = Some (f, lookupLatency t, t') \<and> findBlock (tp_addr pkt) (tp_secure pkt) t = Some f \<and>
    tags_inv rinv t' \<and> same_cfg t t' \<and>
    (f = None \<longrightarrow> tg_blks t' = tg_blks t) \<and>
    (\<forall>loc. f = Some loc \<longrightarrow> (\<exists>c. same_ident (block_of loc t) c \<and> tg_blks t' = upd_blk loc c (tg_blks t)))"
proof -
  note D = tags_invD [OF inv]
  obtain f where f: "findBlock (tp_addr pkt) (tp_secure pkt) t = Some f" using findBlock_iff(3) [OF D(1,2)] by blast
  define st where "st = (tg_stats t)\<lparr>tagAccesses := tagAccesses (tg_stats t) + allocAssoc t, dataAccesses := dataAccesses (tg_stats t) +
                 (if sequentialAccess t then (if f \<noteq> None then 1 else 0) else allocAssoc t)\<rparr>"
  have acc: "accessBlock ops e pkt t = (case f of
       None \<Rightarrow> Some (None, lookupLatency t, t\<lparr>tg_stats := st\<rparr>)
     | Some loc \<Rightarrow> do {
         b \<leftarrow> blk_at loc (t\<lparr>tg_stats := st\<rparr>);
         b1 \<leftarrow> setUsed ((increaseRefCount b)\<lparr>tickRecentAccess := curTick e\<rparr>);
         t2 \<leftarrow> policy_call (rp_touch ops e (snd loc)) (fst loc) (put_blk loc b1 (t\<lparr>tg_stats := st\<rparr>));
         Some (Some loc, lookupLatency t, t2)
       })"
    unfolding accessBlock_def f count_stats_def st_def Let_def Option.bind.bind_lunit by (rule refl)
  have st: "tagsInUse st = tagsInUse (tg_stats t)" "occupancies st = occupancies (tg_stats t)" by (simp_all add: st_def)
  show ?thesis
  proof (cases f)
    case None
    then have "accessBlock ops e pkt t = Some (None, lookupLatency t, t\<lparr>tg_stats := st\<rparr>)"
      by (simp add: acc)
    moreover have "tags_inv rinv (t\<lparr>tg_stats := st\<rparr>)" using D st by (simp add: tags_inv_def stats_ok_def)
    ultimately show ?thesis using None f
      by (intro exI [of _ "None"] exI [of _ "t\<lparr>tg_stats := st\<rparr>"]) (simp add: same_cfg_def)
  next
    case (Some loc)
    have fl: "findBlock (tp_addr pkt) (tp_secure pkt) t = Some (Some loc)" using f Some by simp
    note L = found_loc [OF D(1,2) fl]
    obtain c where c: "setUsed ((increaseRefCount (block_of loc t))\<lparr>tickRecentAccess := curTick e\<rparr>) = Some c" "same_ident (block_of loc t) c"
      using setUsed_eff [OF L(2), of "curTick e"] L(2) by (auto simp: same_ident_def)
    let ?t = "t\<lparr>tg_stats := st, tg_blks := upd_blk loc c (tg_blks t)\<rparr>"
    have "\<exists>rs. policy_call (rp_touch ops e (snd loc)) (fst loc) ?t = Some (?t\<lparr>tg_repl := rs\<rparr>) \<and> repl_ok rinv (tg_ix ?t) rs"
      using D(4) L(1) touch_ok [OF e] by (intro policy_call_ok) (auto simp: valid_loc_def)
    then obtain rs where rs: "policy_call (rp_touch ops e (snd loc)) (fst loc) ?t = Some (?t\<lparr>tg_repl := rs\<rparr>)" "repl_ok rinv (tg_ix t) rs" by auto
    have "blk_at loc (t\<lparr>tg_stats := st\<rparr>) = Some (block_of loc t)"
      using blk_at_valid [OF D(2) L(1)] blk_at_cong [of "t\<lparr>tg_stats := st\<rparr>" t] by (simp add: block_of_def)
    then have "accessBlock ops e pkt t = Some (Some loc, lookupLatency t, ?t\<lparr>tg_repl := rs\<rparr>)"
      using c(1) rs(1) by (simp add: acc Some put_blk_upd)
    moreover have "tags_inv rinv (?t\<lparr>tg_repl := rs\<rparr>)"
      using D(1) ident_upd(1) [OF D(1,2) L(1) c(2)] ident_upd(2) [OF D(1,2) L(1) c(2) D(3) st] rs(2) by (simp add: tags_inv_def)
    ultimately show ?thesis using fl c(2)
      by (intro exI [of _ "Some loc"] exI [of _ "?t\<lparr>tg_repl := rs\<rparr>"]) (auto simp: same_cfg_def)
  qed
qed

lemma starve_ok:
  assumes inv: "tags_inv rinv t" and e: "env_ok e"
  shows "\<exists>f t'. starveMRU ops e addr sec t = Some (f, t') \<and> findBlock addr sec t = Some f \<and> tags_inv rinv t' \<and> same_cfg t t' \<and> tg_blks t' = tg_blks t"
proof -
  note D = tags_invD [OF inv]
  obtain f where f: "findBlock addr sec t = Some f" using findBlock_iff(3) [OF D(1,2)] by blast
  show ?thesis
  proof (cases f)
    case None
    then show ?thesis using f inv by (simp add: starveMRU_def same_cfg_def)
  next
    case (Some loc)
    then have "findBlock addr sec t = Some (Some loc)" using f by simp
    note L = found_loc [OF D(1,2) this]
    have "\<exists>rs. policy_call (rp_starveMRU ops e (snd loc)) (fst loc) t = Some (t\<lparr>tg_repl := rs\<rparr>) \<and> repl_ok rinv (tg_ix t) rs"
      using D(4) L(1) starveMRU_ok [OF e] by (intro policy_call_ok) (auto simp: valid_loc_def)
    then show ?thesis using f Some D by (auto simp: starveMRU_def same_cfg_def tags_inv_def)
  qed
qed

lemma findVictim_ok:
  assumes inv: "tags_inv rinv t" and e: "env_ok e"
  shows "\<exists>w rs. findVictim ops e addr t = Some ((set_of t addr, w), [(set_of t addr, w)], t\<lparr>tg_repl := rs\<rparr>) \<and>
    valid_loc (set_of t addr, w) t \<and> tags_inv rinv (t\<lparr>tg_repl := rs\<rparr>)"
proof -
  note D = tags_invD [OF inv]
  have k: "set_of t addr < unat (numSets (tg_ix t))" by (rule set_of_less [OF D(1)])
  then have kr: "set_of t addr < length (tg_repl t)" "set_of t addr < length (tg_blks t)"
    and r: "rinv (unat (ix_assoc (tg_ix t))) (tg_repl t ! set_of t addr)"
    using D(2,4) by (auto simp: repl_ok_def blks_ok_def)
  have "0 < unat (ix_assoc (tg_ix t))" using D(1) by (simp add: ix_ok_def word_less_nat_alt)
  then obtain w r' where v: "rp_getVictim ops e (tg_repl t ! set_of t addr) = Some (w, r')" "w < unat (ix_assoc (tg_ix t))"
     "rinv (unat (ix_assoc (tg_ix t))) r'" using victim_ok [OF e r] by blast
  have "repl_ok rinv (tg_ix t) ((tg_repl t)[set_of t addr := r'])"
    using D(4) v(3) set_update_subset_insert [of "tg_repl t" "set_of t addr" r'] by (auto simp: repl_ok_def)
  then show ?thesis using v kr k D
    by (intro exI [of _ w] exI [of _ "(tg_repl t)[set_of t addr := r']"])
      (simp add: findVictim_def getPossibleEntries_def set_of_def [symmetric] valid_loc_def tags_inv_def Let_def)
qed

lemma move_ok:
  assumes inv: "tags_inv rinv t" and e: "env_ok e" and loc: "valid_loc (k, w) t" "valid_loc (k, v) t" "w \<noteq> v"
    and b: "blk_valid (block_of (k, w) t)" "\<not> blk_valid (block_of (k, v) t)" "blk_tickInserted (block_of (k, v) t) \<le> curTick e"
  shows "\<exists>t' b1 c1. moveBlock ops e (k, w) (k, v) t = Some t' \<and> tags_inv rinv t' \<and> same_cfg t t' \<and>
    tg_blks t' = upd_blk (k, v) c1 (upd_blk (k, w) b1 (tg_blks t)) \<and> \<not> blk_valid b1 \<and> blk_valid c1 \<and>
    blk_tag c1 = blk_tag (block_of (k, w) t) \<and> blk_secure c1 = blk_secure (block_of (k, w) t)"
proof -
  note D = tags_invD [OF inv]
  let ?s = "tg_blks t"
  have k: "k < unat (numSets (tg_ix t))" "w < unat (ix_assoc (tg_ix t))" "v < unat (ix_assoc (tg_ix t))" using loc by (simp_all add: valid_loc_def)
  have len: "k < length ?s" "length (?s ! k) = unat (ix_assoc (tg_ix t))" "no_alias (?s ! k)" using D(2) k by (auto simp: blks_ok_def)
  have "?s ! k ! v \<in> set (?s ! k)" "?s ! k \<in> set ?s" using len k by auto
  then have sec: "\<not> blk_secure (block_of (k, v) t)" using D(2) b(2) by (auto simp: blks_ok_def block_of_def)
  obtain c1 b1 where m: "CacheBlk_move (curTick e) (block_of (k, v) t) (block_of (k, w) t) = Some (c1, b1)"
    "blk_valid c1" "blk_tag c1 = blk_tag (block_of (k, w) t)" "blk_secure c1 = blk_secure (block_of (k, w) t)"
    "srcRequestorId c1 = srcRequestorId (block_of (k, w) t)" "\<not> blk_valid b1" "\<not> blk_secure b1"
    using CacheBlk_move_eff [OF b(2) sec b(1) b(3)] by blast
  let ?u = "upd_blk (k, w) b1 ?s"
  have u1: "blks_ok (tg_ix t) ?u" using m(6,7) by (intro blks_ok_upd [OF D(2) k(1,2)]) auto
  have nth: "?u ! k ! j = (if j = w then b1 else ?s ! k ! j)" if "j < unat (ix_assoc (tg_ix t))" for j
    using that len(1,2) by (simp add: upd_blk_def nth_list_update)
  have fresh: "\<not> matchTag (?u ! k ! j) (blk_tag c1) (blk_secure c1)" if "j < unat (ix_assoc (tg_ix t))" "j \<noteq> v" for j
  proof (cases "j = w")
    case True
    then show ?thesis using nth [OF that(1)] m(6) by (simp add: matchTag_def)
  next
    case False
    then show ?thesis using nth [OF that(1)] len(2,3) k(2) that(1) b(1) unfolding no_alias_def m(3,4) block_of_def
      by (metis fst_conv snd_conv)
  qed
  have u2: "blks_ok (tg_ix t) (upd_blk (k, v) c1 ?u)" using m(2) fresh by (intro blks_ok_upd [OF u1 k(1,3)]) auto
  have lu: "k < length ?u" "v < length (?u ! k)" using len k by (simp_all add: upd_blk_def)
  have s1: "stats_ok ?u ((tg_stats t)\<lparr>tagsInUse := tagsInUse (tg_stats t) - 1,
      occupancies := (\<lambda>i. occupancies (tg_stats t) i - of_bool (srcRequestorId (block_of (k, w) t) = i))\<rparr>)"
    using b(1) m(6) len k by (intro stats_ok_upd [OF D(3)]) (auto simp: block_of_def)
  have s2: "stats_ok (upd_blk (k, v) c1 ?u) (tg_stats t)"
    using nth [OF k(3)] loc(3) b(2) m(2,5) by (intro stats_ok_upd [OF s1 lu]) (auto simp: block_of_def)
  let ?t = "t\<lparr>tg_blks := upd_blk (k, v) c1 ?u\<rparr>"
  have "BaseTags_moveBlock e (k, w) (k, v) t = Some ?t"
    using blk_at_valid [OF D(2) loc(1)] blk_at_valid [OF D(2) loc(2)] m(1,2,6) b(1,2) upd_blk_commute [OF loc(3)]
    by (simp add: BaseTags_moveBlock_def block_of_def put_blk_upd)
  moreover have "\<exists>rs. policy_call (rp_invalidate ops e w) k ?t = Some (?t\<lparr>tg_repl := rs\<rparr>) \<and> repl_ok rinv (tg_ix ?t) rs"
    using D(4) k invalidate_ok [OF e] by (intro policy_call_ok) auto
  then obtain rs where rs: "policy_call (rp_invalidate ops e w) k ?t = Some (?t\<lparr>tg_repl := rs\<rparr>)" "repl_ok rinv (tg_ix t) rs" by auto
  moreover have "\<exists>rs'. policy_call (rp_reset ops e v) k (?t\<lparr>tg_repl := rs\<rparr>) = Some ((?t\<lparr>tg_repl := rs\<rparr>)\<lparr>tg_repl := rs'\<rparr>) \<and> repl_ok rinv (tg_ix (?t\<lparr>tg_repl := rs\<rparr>)) rs'"
    using rs(2) k reset_ok [OF e] by (intro policy_call_ok) auto
  then obtain rs' where "policy_call (rp_reset ops e v) k (?t\<lparr>tg_repl := rs\<rparr>) = Some (?t\<lparr>tg_repl := rs'\<rparr>)" "repl_ok rinv (tg_ix t) rs'" by auto
  ultimately have "moveBlock ops e (k, w) (k, v) t = Some (?t\<lparr>tg_repl := rs'\<rparr>)" by (simp add: moveBlock_def)
  moreover have "tags_inv rinv (?t\<lparr>tg_repl := rs'\<rparr>)" using u2 s2 D(1) \<open>repl_ok rinv (tg_ix t) rs'\<close> by (simp add: tags_inv_def)
  moreover have "same_cfg t (?t\<lparr>tg_repl := rs'\<rparr>)" "tg_blks (?t\<lparr>tg_repl := rs'\<rparr>) = upd_blk (k, v) c1 ?u" by (simp_all add: same_cfg_def)
  ultimately show ?thesis using m(2-4,6) by blast
qed

end

subsection \<open>The initial tags\<close>

definition empty_row :: "nat \<Rightarrow> CacheBlk list \<Rightarrow> bool" where
  "empty_row n es \<longleftrightarrow> length es = n \<and> (\<forall>x \<in> set es. \<not> blk_valid x \<and> \<not> blk_secure x)"

lemma empty_row_upd: "empty_row n es \<Longrightarrow> \<not> blk_valid b \<Longrightarrow> \<not> blk_secure b \<Longrightarrow> empty_row n (es[w := b])"
  using set_update_subset_insert [of es w b] unfolding empty_row_def by auto

lemma tagsInit_shape:
  assumes "tagsInit ix b is s = Some s'" "\<not> blk_valid b" "\<not> blk_secure b" "\<forall>es \<in> set s. empty_row n es"
  shows "length s' = length s \<and> (\<forall>es \<in> set s'. empty_row n es)"
  using assms
proof (induction "is" arbitrary: s)
  case (Cons i "is")
  obtain k way mode where st: "setEntry ix i = Some (k, way, mode)" using Cons.prems(1) by (auto split: bind_splits)
  let ?es = "(s ! unat k)[unat way := b\<lparr>rpMode := mode\<rparr>]"
  have r: "unat k < length s" "tagsInit ix b is (s[unat k := ?es]) = Some s'"
    using Cons.prems(1) st by (auto split: bind_splits if_splits)
  have "empty_row n ?es" using Cons.prems(2-4) r(1) by (intro empty_row_upd) auto
  then have "\<forall>es \<in> set (s[unat k := ?es]). empty_row n es"
    using Cons.prems(4) set_update_subset_insert [of s "unat k" ?es] by blast
  from Cons.IH [OF r(2) Cons.prems(2,3) this] show ?case by simp
qed simp

lemma blk_count_none: "\<forall>es \<in> set s. \<forall>x \<in> set es. \<not> P x \<Longrightarrow> blk_count P s = 0"
  by (induction s) (simp_all add: blk_count_def filter_empty_conv)

lemma BaseIndexingPolicy_ix_ok:
  assumes "BaseIndexingPolicy_new sz es assoc lw = Some ix" "tagShift ix \<le> 32"
  shows "ix_ok ix"
proof -
  have "0 < ix_assoc ix" using assms(1)
    by (auto simp: BaseIndexingPolicy_new_def Let_def word_gt_0 split: bind_splits if_splits)
  then show ?thesis using BaseIndexingPolicy_shape [OF assms(1)] assms(2) unfolding ix_ok_def by metis
qed

lemma BaseSetAssoc_new_inv:
  assumes "BaseIndexingPolicy_new sz es assoc lw = Some ix" "tagShift ix \<le> 32"
    and new: "BaseSetAssoc_new ix bytes block_size sequential latency warmup mr r = Some t" and r: "rinv (unat (ix_assoc ix)) r"
  shows "tags_inv rinv t" "maxRequestors t = mr" "tg_ix t = ix"
proof -
  obtain b where b: "CacheBlk_new = Some b" "\<not> blk_valid b" "\<not> blk_secure b"
    unfolding CacheBlk_new_def using CacheBlk_invalidate_eff by metis
  let ?s0 = "replicate (unat (numSets ix)) (replicate (unat (ix_assoc ix)) b)"
  obtain s where s: "tagsInit ix b (map of_nat [0..<unat (bytes div block_size)]) ?s0 = Some s"
     and t: "tg_ix t = ix" "tg_blks t = s" "tg_repl t = replicate (unat (numSets ix)) r" "maxRequestors t = mr"
       "tagsInUse (tg_stats t) = 0" "occupancies (tg_stats t) = (\<lambda>i. 0)"
    using new unfolding BaseSetAssoc_new_def b(1) by (auto split: bind_splits if_splits)
  have "\<forall>es \<in> set ?s0. empty_row (unat (ix_assoc ix)) es" using b(2,3) by (auto simp: in_set_replicate empty_row_def)
  from tagsInit_shape [OF s b(2,3) this]
  have sh: "length s = unat (numSets ix)" "\<forall>es \<in> set s. length es = unat (ix_assoc ix) \<and> (\<forall>x \<in> set es. \<not> blk_valid x \<and> \<not> blk_secure x)"
    by (auto simp: empty_row_def)
  have "blks_ok ix s" using sh by (auto simp: blks_ok_def no_alias_def)
  moreover have "stats_ok s (tg_stats t)" using sh(2) t(5,6) by (simp add: stats_ok_def blk_count_none)
  moreover have "repl_ok rinv ix (tg_repl t)" using r t(3) by (auto simp: repl_ok_def in_set_replicate)
  ultimately show "tags_inv rinv t" using BaseIndexingPolicy_ix_ok [OF assms(1,2)] by (simp add: tags_inv_def t)
  show "maxRequestors t = mr" "tg_ix t = ix" using t by simp_all
qed

subsection \<open>Policies that keep their state per set\<close>

definition lru_ops :: "bool \<Rightarrow> LRUReplData list rp_ops" where
  "lru_ops inst_only = \<lparr>rp_touch = at_entry LRU_touch, rp_reset = at_entry LRU_reset,
     rp_reset_pkt = (\<lambda>is_inst. at_entry (Base_reset_pkt inst_only LRU_reset Base_reset_inst_line is_inst)),
     rp_invalidate = at_entry LRU_invalidate, rp_starveMRU = at_entry (\<lambda>e d. d), rp_getVictim = LRU_getVictim\<rparr>"

definition sbip_ops :: "bool \<Rightarrow> LRUReplData list rp_ops" where
  "sbip_ops inst_only = \<lparr>rp_touch = at_entry LRU_touch, rp_reset = at_entry SBIP_reset,
     rp_reset_pkt = (\<lambda>is_inst. at_entry (Base_reset_pkt inst_only SBIP_reset SBIP_reset_inst_line is_inst)),
     rp_invalidate = at_entry LRU_invalidate, rp_starveMRU = at_entry SBIP_starveMRU, rp_getVictim = LRU_getVictim\<rparr>"

definition ways_are :: "nat \<Rightarrow> 'd list \<Rightarrow> bool" where
  "ways_are n r \<longleftrightarrow> length r = n"

lemma lru_set_inv: "lru.set_inv = ways_are" "sbip.set_inv = ways_are"
  by (auto simp: fun_eq_iff lru.set_inv_def sbip.set_inv_def ways_are_def)

interpretation lru_tags: tags_policy ways_are "lru_ops inst_only" for inst_only
proof -
  have "replacement_policy ways_are (at_entry LRU_touch) (at_entry LRU_reset) (at_entry LRU_invalidate) LRU_getVictim"
    using lru.replacement_policy_axioms unfolding lru_set_inv .
  then show "tags_policy ways_are (lru_ops inst_only)"
    by (simp add: tags_policy_def tags_policy_axioms_def lru_ops_def at_entry_def ways_are_def)
qed

interpretation sbip_tags: tags_policy ways_are "sbip_ops inst_only" for inst_only
proof -
  have "replacement_policy ways_are (at_entry LRU_touch) (at_entry SBIP_reset) (at_entry LRU_invalidate) LRU_getVictim"
    using sbip.replacement_policy_axioms unfolding lru_set_inv .
  then show "tags_policy ways_are (sbip_ops inst_only)"
    by (simp add: tags_policy_def tags_policy_axioms_def sbip_ops_def at_entry_def ways_are_def)
qed

end
