(* ===== verification/Mem_Cmd.thy ===== *)
theory Mem_Cmd
  imports Safe_Machine
begin

section \<open>Commands of packets\<close>

text \<open>
  The commands of memory packets and the table of their attributes and responses (\<open>MemCmd\<close> in
  \<open>mem/packet.hh\<close> and \<open>mem/packet.cc\<close>), without the two deprecated entries that no enumerator names.  The set of attributes
  is a list here.  The lemmas check the table.
\<close>

datatype (plugins only: code) MemCmd =
    InvalidCmd | ReadReq | ReadResp | ReadRespWithInvalidate | WriteReq | WriteResp |
    WriteCompleteResp | WritebackDirty | WritebackClean | WriteClean | CleanEvict | SoftPFReq |
    SoftPFExReq | HardPFReq | SoftPFResp | HardPFResp | WriteLineReq | UpgradeReq | SCUpgradeReq |
    UpgradeResp | SCUpgradeFailReq | UpgradeFailResp | ReadExReq | ReadExResp | ReadCleanReq |
    ReadSharedReq | LoadLockedReq | StoreCondReq | StoreCondFailReq | StoreCondResp | SwapReq |
    SwapResp | MemFenceReq | MemSyncReq | MemSyncResp | MemFenceResp | CleanSharedReq |
    CleanSharedResp | CleanInvalidReq | CleanInvalidResp | InvalidDestError | BadAddressError |
    FunctionalReadError | FunctionalWriteError | PrintReq | FlushReq | InvalidateReq | InvalidateResp |
    HTMReq | HTMReqResp | HTMAbort

datatype Attribute =
    IsRead | IsWrite | IsUpgrade | IsInvalidate | IsClean | NeedsWritable | IsRequest | IsResponse |
    NeedsResponse | IsEviction | IsSWPrefetch | IsHWPrefetch | IsLlsc | HasData | IsError | IsPrint |
    IsFlush | FromCache

primrec commandInfo :: "MemCmd \<Rightarrow> Attribute list \<times> MemCmd" where
  "commandInfo InvalidCmd = ([], InvalidCmd)"
| "commandInfo ReadReq = ([IsRead, IsRequest, NeedsResponse], ReadResp)"
| "commandInfo ReadResp = ([IsRead, IsResponse, HasData], InvalidCmd)"
| "commandInfo ReadRespWithInvalidate = ([IsRead, IsResponse, HasData, IsInvalidate], InvalidCmd)"
| "commandInfo WriteReq = ([IsWrite, NeedsWritable, IsRequest, NeedsResponse, HasData], WriteResp)"
| "commandInfo WriteResp = ([IsWrite, IsResponse], InvalidCmd)"
| "commandInfo WriteCompleteResp = ([IsWrite, IsResponse], InvalidCmd)"
| "commandInfo WritebackDirty = ([IsWrite, IsRequest, IsEviction, HasData, FromCache], InvalidCmd)"
| "commandInfo WritebackClean = ([IsWrite, IsRequest, IsEviction, HasData, FromCache], InvalidCmd)"
| "commandInfo WriteClean = ([IsWrite, IsRequest, HasData, FromCache], InvalidCmd)"
| "commandInfo CleanEvict = ([IsRequest, IsEviction, FromCache], InvalidCmd)"
| "commandInfo SoftPFReq = ([IsRead, IsRequest, IsSWPrefetch, NeedsResponse], SoftPFResp)"
| "commandInfo SoftPFExReq = ([IsRead, NeedsWritable, IsInvalidate, IsRequest, IsSWPrefetch, NeedsResponse], SoftPFResp)"
| "commandInfo HardPFReq = ([IsRead, IsRequest, IsHWPrefetch, NeedsResponse, FromCache], HardPFResp)"
| "commandInfo SoftPFResp = ([IsRead, IsResponse, IsSWPrefetch, HasData], InvalidCmd)"
| "commandInfo HardPFResp = ([IsRead, IsResponse, IsHWPrefetch, HasData], InvalidCmd)"
| "commandInfo WriteLineReq = ([IsWrite, NeedsWritable, IsRequest, NeedsResponse, HasData], WriteResp)"
| "commandInfo UpgradeReq = ([IsInvalidate, NeedsWritable, IsUpgrade, IsRequest, NeedsResponse, FromCache], UpgradeResp)"
| "commandInfo SCUpgradeReq = ([IsInvalidate, NeedsWritable, IsUpgrade, IsLlsc, IsRequest, NeedsResponse, FromCache], UpgradeResp)"
| "commandInfo UpgradeResp = ([IsUpgrade, IsResponse], InvalidCmd)"
| "commandInfo SCUpgradeFailReq = ([IsRead, NeedsWritable, IsInvalidate, IsLlsc, IsRequest, NeedsResponse, FromCache], UpgradeFailResp)"
| "commandInfo UpgradeFailResp = ([IsRead, IsResponse, HasData], InvalidCmd)"
| "commandInfo ReadExReq = ([IsRead, NeedsWritable, IsInvalidate, IsRequest, NeedsResponse, FromCache], ReadExResp)"
| "commandInfo ReadExResp = ([IsRead, IsResponse, HasData], InvalidCmd)"
| "commandInfo ReadCleanReq = ([IsRead, IsRequest, NeedsResponse, FromCache], ReadResp)"
| "commandInfo ReadSharedReq = ([IsRead, IsRequest, NeedsResponse, FromCache], ReadResp)"
| "commandInfo LoadLockedReq = ([IsRead, IsLlsc, IsRequest, NeedsResponse], ReadResp)"
| "commandInfo StoreCondReq = ([IsWrite, NeedsWritable, IsLlsc, IsRequest, NeedsResponse, HasData], StoreCondResp)"
| "commandInfo StoreCondFailReq = ([IsWrite, NeedsWritable, IsLlsc, IsRequest, NeedsResponse, HasData], StoreCondResp)"
| "commandInfo StoreCondResp = ([IsWrite, IsLlsc, IsResponse], InvalidCmd)"
| "commandInfo SwapReq = ([IsRead, IsWrite, NeedsWritable, IsRequest, HasData, NeedsResponse], SwapResp)"
| "commandInfo SwapResp = ([IsRead, IsWrite, IsResponse, HasData], InvalidCmd)"
| "commandInfo MemFenceReq = ([IsRequest, NeedsResponse], MemFenceResp)"
| "commandInfo MemSyncReq = ([IsRequest, NeedsResponse], MemSyncResp)"
| "commandInfo MemSyncResp = ([IsResponse], InvalidCmd)"
| "commandInfo MemFenceResp = ([IsResponse], InvalidCmd)"
| "commandInfo CleanSharedReq = ([IsRequest, IsClean, NeedsResponse, FromCache], CleanSharedResp)"
| "commandInfo CleanSharedResp = ([IsResponse, IsClean], InvalidCmd)"
| "commandInfo CleanInvalidReq = ([IsRequest, IsInvalidate, IsClean, NeedsResponse, FromCache], CleanInvalidResp)"
| "commandInfo CleanInvalidResp = ([IsResponse, IsInvalidate, IsClean], InvalidCmd)"
| "commandInfo InvalidDestError = ([IsResponse, IsError], InvalidCmd)"
| "commandInfo BadAddressError = ([IsResponse, IsError], InvalidCmd)"
| "commandInfo FunctionalReadError = ([IsRead, IsResponse, IsError], InvalidCmd)"
| "commandInfo FunctionalWriteError = ([IsWrite, IsResponse, IsError], InvalidCmd)"
| "commandInfo PrintReq = ([IsRequest, IsPrint], InvalidCmd)"
| "commandInfo FlushReq = ([IsRequest, IsFlush, NeedsWritable], InvalidCmd)"
| "commandInfo InvalidateReq = ([IsInvalidate, IsRequest, NeedsWritable, NeedsResponse, FromCache], InvalidateResp)"
| "commandInfo InvalidateResp = ([IsInvalidate, IsResponse], InvalidCmd)"
| "commandInfo HTMReq = ([IsRead, IsRequest, NeedsResponse], HTMReqResp)"
| "commandInfo HTMReqResp = ([IsRead, IsResponse], InvalidCmd)"
| "commandInfo HTMAbort = ([IsRead, IsRequest], InvalidCmd)"

definition testCmdAttrib :: "MemCmd \<Rightarrow> Attribute \<Rightarrow> bool" where
  "testCmdAttrib c a \<longleftrightarrow> a \<in> set (fst (commandInfo c))"

definition isRead :: "MemCmd \<Rightarrow> bool" where "isRead c = testCmdAttrib c IsRead"
definition isWrite :: "MemCmd \<Rightarrow> bool" where "isWrite c = testCmdAttrib c IsWrite"
definition isUpgrade :: "MemCmd \<Rightarrow> bool" where "isUpgrade c = testCmdAttrib c IsUpgrade"
definition isRequest :: "MemCmd \<Rightarrow> bool" where "isRequest c = testCmdAttrib c IsRequest"
definition isResponse :: "MemCmd \<Rightarrow> bool" where "isResponse c = testCmdAttrib c IsResponse"
definition needsWritable :: "MemCmd \<Rightarrow> bool" where "needsWritable c = testCmdAttrib c NeedsWritable"
definition needsResponse :: "MemCmd \<Rightarrow> bool" where "needsResponse c = testCmdAttrib c NeedsResponse"
definition isInvalidate :: "MemCmd \<Rightarrow> bool" where "isInvalidate c = testCmdAttrib c IsInvalidate"
definition isEviction :: "MemCmd \<Rightarrow> bool" where "isEviction c = testCmdAttrib c IsEviction"
definition isClean :: "MemCmd \<Rightarrow> bool" where "isClean c = testCmdAttrib c IsClean"
definition fromCache :: "MemCmd \<Rightarrow> bool" where "fromCache c = testCmdAttrib c FromCache"
definition hasData :: "MemCmd \<Rightarrow> bool" where "hasData c = testCmdAttrib c HasData"
definition isLLSC :: "MemCmd \<Rightarrow> bool" where "isLLSC c = testCmdAttrib c IsLlsc"
definition isError :: "MemCmd \<Rightarrow> bool" where "isError c = testCmdAttrib c IsError"
definition isPrint :: "MemCmd \<Rightarrow> bool" where "isPrint c = testCmdAttrib c IsPrint"
definition isFlush :: "MemCmd \<Rightarrow> bool" where "isFlush c = testCmdAttrib c IsFlush"

definition isWriteback :: "MemCmd \<Rightarrow> bool" where
  "isWriteback c \<longleftrightarrow> testCmdAttrib c IsEviction \<and> testCmdAttrib c HasData"

definition isPrefetch :: "MemCmd \<Rightarrow> bool" where
  "isPrefetch c \<longleftrightarrow> testCmdAttrib c IsSWPrefetch \<or> testCmdAttrib c IsHWPrefetch"

definition isDemand :: "MemCmd \<Rightarrow> bool" where
  "isDemand c \<longleftrightarrow> c = ReadReq \<or> c = WriteReq \<or> c = WriteLineReq \<or> c = ReadExReq \<or> c = ReadCleanReq \<or> c = ReadSharedReq"

definition responseCommand :: "MemCmd \<Rightarrow> MemCmd" where
  "responseCommand c = snd (commandInfo c)"

definition hasRespData :: "MemCmd \<Rightarrow> bool" where
  "hasRespData c = hasData (responseCommand c)"

lemmas cmd_attribs = isRead_def isWrite_def isUpgrade_def isRequest_def isResponse_def needsWritable_def needsResponse_def isInvalidate_def isEviction_def isClean_def fromCache_def hasData_def isLLSC_def isError_def isPrint_def isFlush_def isWriteback_def isPrefetch_def
  isDemand_def responseCommand_def hasRespData_def testCmdAttrib_def

text \<open>
  C30: the table of commands is well typed.  No command is both a request and a response, and every command but the
  invalid one is one of them.  A command needs a response exactly if the table names one, and
  the named command is a response that needs none itself.  Evictions are requests from caches that need neither
  a response nor a writable block, and a demand needs a response.
\<close>

theorem command_table_typed:
  "\<not> (isRequest c \<and> isResponse c) \<and> (isRequest c \<or> isResponse c \<longleftrightarrow> c \<noteq> InvalidCmd) \<and>
   (needsResponse c \<longleftrightarrow> responseCommand c \<noteq> InvalidCmd) \<and>
   (needsResponse c \<longrightarrow> isResponse (responseCommand c) \<and> \<not> needsResponse (responseCommand c)) \<and>
   (isEviction c \<longrightarrow> isRequest c \<and> fromCache c \<and> \<not> needsResponse c \<and> \<not> needsWritable c) \<and>
   (isDemand c \<longrightarrow> isRequest c \<and> needsResponse c)"
  by (cases c) (simp_all add: cmd_attribs)

theorem command_table_typed_witness:
  "isResponse (responseCommand ReadReq) \<and> \<not> needsResponse CleanEvict"
  using command_table_typed [of ReadReq] command_table_typed [of CleanEvict] by (simp add: cmd_attribs)

end
