(* ===== verification/Base_Cache.thy ===== *)
theory Base_Cache
  imports Set_Assoc Mem_Cmd
begin

section \<open>Allocation and eviction in the cache\<close>

text \<open>
  How \<open>BaseCache\<close> and \<open>Cache\<close> (\<open>mem/cache/base.cc\<close>, \<open>mem/cache/cache.cc\<close>) use the tags: a miss allocates a
  block, the victim is written back or announced as evicted, invalidated and replaced, and an
  instruction cache notifies its prefetcher.  The queue of outstanding misses is a function that gives, for an
  address, whether the miss needs a writable block and whether it is a clean request.  There is no
  compressor and no temporary block, and the data bytes are left out.

  The lemmas show that lookups after an allocation see exactly the new block and what was there
  before without the victim, that a dirty victim is written back to the address it was cached
  under, and that no assertion fails.
\<close>

record cache_cfg =
  writebackClean :: bool
  isReadOnly :: bool
  is_icache :: bool

type_synonym mshr_query = "u64 \<Rightarrow> bool \<Rightarrow> (bool \<times> bool) option"

record emissary_info =
  ei_starved :: bool
  ei_preserve :: bool
  ei_tickBlkInserted :: u32
  ei_tickBlkRecentAccess :: u64
  ei_accessCount :: u32
  ei_starveCount :: u32
  ei_starveHistory :: u8

record writeback =
  wb_cmd :: MemCmd
  wb_addr :: u64
  wb_secure :: bool
  wb_taskId :: u32
  wb_hasSharers :: bool
  wb_emissary :: "emissary_info option"

record inval_note =
  in_addr :: u64
  in_secure :: bool
  in_taskId :: u32
  in_vaddr :: u64

text \<open>What a call reports: packets to write back, notifications to the prefetcher, unused prefetches.\<close>

record evict_log =
  ev_writebacks :: "writeback list"
  ev_notes :: "inval_note list"
  ev_unused :: nat

definition no_log :: evict_log where
  "no_log = \<lparr>ev_writebacks = [], ev_notes = [], ev_unused = 0\<rparr>"

definition log_append :: "evict_log \<Rightarrow> evict_log \<Rightarrow> evict_log" where
  "log_append a b = \<lparr>ev_writebacks = ev_writebacks a @ ev_writebacks b, ev_notes = ev_notes a @ ev_notes b,
                     ev_unused = ev_unused a + ev_unused b\<rparr>"

definition writebackBlk :: "cache_cfg \<Rightarrow> nat \<times> nat \<Rightarrow> 'r tags \<Rightarrow> (writeback \<times> 'r tags) option" where
  "writebackBlk cfg loc t = do {
     c_assert (\<not> isReadOnly cfg \<or> writebackClean cfg);
     blk \<leftarrow> blk_at loc t;
     c_assert (blk_valid blk \<and> (isSet DirtyBit blk \<or> writebackClean cfg));
     a \<leftarrow> regenerateBlkAddr loc t;
     let pkt = \<lparr>wb_cmd = (if isSet DirtyBit blk then WritebackDirty else WritebackClean), wb_addr = a,
                wb_secure = blk_secure blk, wb_taskId = blk_taskId blk, wb_hasSharers = \<not> isSet WritableBit blk,
                wb_emissary = (if isReadOnly cfg
                  then Some \<lparr>ei_starved = isStarved blk, ei_preserve = isPreserve blk,
                             ei_tickBlkInserted = ucast (blk_tickInserted blk), ei_tickBlkRecentAccess = tickRecentAccess blk,
                             ei_accessCount = blk_refCount blk, ei_starveCount = starveCount blk,
                             ei_starveHistory = starveHistory blk\<rparr>
                  else None)\<rparr>;
     let blk1 = (if isSet WritableBit blk then clearCoherenceBits WritableBit blk else blk);
     Some (pkt, put_blk loc (clearCoherenceBits DirtyBit blk1) t)
   }"

definition cleanEvictBlk :: "cache_cfg \<Rightarrow> nat \<times> nat \<Rightarrow> 'r tags \<Rightarrow> writeback option" where
  "cleanEvictBlk cfg loc t = do {
     c_assert (\<not> writebackClean cfg);
     blk \<leftarrow> blk_at loc t;
     c_assert (blk_valid blk \<and> \<not> isSet DirtyBit blk);
     a \<leftarrow> regenerateBlkAddr loc t;
     Some \<lparr>wb_cmd = CleanEvict, wb_addr = a, wb_secure = blk_secure blk, wb_taskId = blk_taskId blk,
           wb_hasSharers = False, wb_emissary = None\<rparr>
   }"

text \<open>The notification is built after the tags have invalidated the block.\<close>

definition invalidateBlock :: "cache_cfg \<Rightarrow> 'r rp_ops \<Rightarrow> rp_env \<Rightarrow> nat \<times> nat \<Rightarrow> 'r tags \<Rightarrow> (evict_log \<times> 'r tags) option" where
  "invalidateBlock cfg ops e loc t = do {
     blk \<leftarrow> blk_at loc t;
     let unused = (if blk_prefetched blk then 1 else 0);
     t1 \<leftarrow> tags_invalidate ops e loc t;
     if is_icache cfg then do {
       a \<leftarrow> regenerateBlkAddr loc t1;
       blk1 \<leftarrow> blk_at loc t1;
       Some (\<lparr>ev_writebacks = [],
              ev_notes = [\<lparr>in_addr = a, in_secure = blk_secure blk1, in_taskId = blk_taskId blk1, in_vaddr = blk_vaddr blk1\<rparr>],
              ev_unused = unused\<rparr>, t1)
     } else Some (no_log\<lparr>ev_unused := unused\<rparr>, t1)
   }"

definition evictBlock :: "cache_cfg \<Rightarrow> 'r rp_ops \<Rightarrow> rp_env \<Rightarrow> nat \<times> nat \<Rightarrow> 'r tags \<Rightarrow> (evict_log \<times> 'r tags) option" where
  "evictBlock cfg ops e loc t = do {
     blk \<leftarrow> blk_at loc t;
     (pkt, t1) \<leftarrow> (if isSet DirtyBit blk \<or> writebackClean cfg then writebackBlk cfg loc t
                   else do { p \<leftarrow> cleanEvictBlk cfg loc t; Some (p, t) });
     (l, t2) \<leftarrow> invalidateBlock cfg ops e loc t1;
     Some (log_append (no_log\<lparr>ev_writebacks := [pkt]\<rparr>) l, t2)
   }"

text \<open>The first loop of \<open>handleEvictions\<close>: true if no victim has an outstanding miss.\<close>

fun check_evictions :: "mshr_query \<Rightarrow> (nat \<times> nat) list \<Rightarrow> 'r tags \<Rightarrow> bool option" where
  "check_evictions mshr [] t = Some True"
| "check_evictions mshr (loc # locs) t = do {
     blk \<leftarrow> blk_at loc t;
     if blk_valid blk then do {
       a \<leftarrow> regenerateBlkAddr loc t;
       case mshr a (blk_secure blk) of
         None \<Rightarrow> check_evictions mshr locs t
       | Some (needs_writable, isCleaning) \<Rightarrow> do {
           c_assert (\<not> isSet WritableBit blk \<and> needs_writable \<or> isCleaning);
           Some False
         }
     } else check_evictions mshr locs t
   }"

fun evict_all :: "cache_cfg \<Rightarrow> 'r rp_ops \<Rightarrow> rp_env \<Rightarrow> (nat \<times> nat) list \<Rightarrow> 'r tags \<Rightarrow> (evict_log \<times> 'r tags) option" where
  "evict_all cfg ops e [] t = Some (no_log, t)"
| "evict_all cfg ops e (loc # locs) t = do {
     blk \<leftarrow> blk_at loc t;
     (l, t1) \<leftarrow> (if blk_valid blk then evictBlock cfg ops e loc t else Some (no_log, t));
     (l', t2) \<leftarrow> evict_all cfg ops e locs t1;
     Some (log_append l l', t2)
   }"

definition handleEvictions :: "cache_cfg \<Rightarrow> 'r rp_ops \<Rightarrow> mshr_query \<Rightarrow> rp_env \<Rightarrow> (nat \<times> nat) list \<Rightarrow> 'r tags \<Rightarrow>
    (bool \<times> evict_log \<times> 'r tags) option" where
  "handleEvictions cfg ops mshr e locs t = do {
     free \<leftarrow> check_evictions mshr locs t;
     if \<not> free then Some (False, no_log, t)
     else do { (l, t1) \<leftarrow> evict_all cfg ops e locs t; Some (True, l, t1) }
   }"

record alloc_result =
  al_victim :: "(nat \<times> nat) option"
  al_evictedAddr :: "u64 option"
  al_log :: evict_log

definition allocateBlock :: "cache_cfg \<Rightarrow> 'r rp_ops \<Rightarrow> mshr_query \<Rightarrow> rp_env \<Rightarrow> tag_pkt \<Rightarrow> 'r tags \<Rightarrow> (alloc_result \<times> 'r tags) option" where
  "allocateBlock cfg ops mshr e pkt t = do {
     (victim, evict_blks, t1) \<leftarrow> findVictim ops e (tp_addr pkt) t;
     blk \<leftarrow> blk_at victim t1;
     let evicted_addr = (if is_icache cfg then blk_vaddr blk else 0);
     (ok, l, t2) \<leftarrow> handleEvictions cfg ops mshr e evict_blks t1;
     if \<not> ok then Some (\<lparr>al_victim = None, al_evictedAddr = None, al_log = l\<rparr>, t2)
     else do {
       t3 \<leftarrow> insertBlock ops e pkt victim t2;
       b \<leftarrow> blk_at victim t3;
       Some (\<lparr>al_victim = Some victim, al_evictedAddr = Some evicted_addr, al_log = l\<rparr>,
             if is_icache cfg then put_blk victim (b\<lparr>blk_vaddr := tp_vaddr pkt\<rparr>) t3 else t3)
     }
   }"

subsection \<open>Addresses of blocks\<close>

definition same_block :: "'r tags \<Rightarrow> u64 \<Rightarrow> u64 \<Rightarrow> bool" where
  "same_block t a b \<longleftrightarrow> drop_bit (setShift (tg_ix t)) a = drop_bit (setShift (tg_ix t)) b"

definition block_base :: "'r tags \<Rightarrow> u64 \<Rightarrow> u64" where
  "block_base t a = push_bit (setShift (tg_ix t)) (drop_bit (setShift (tg_ix t)) a)"

lemma regenerate_extract:
  assumes "ix_ok (tg_ix t)"
  shows "SetAssociative_regenerateAddr (tg_ix t) (extractTag (tg_ix t) a) (of_nat (set_of t a)) = block_base t a"
proof -
  obtain n where n: "setMask (tg_ix t) = mask n" "tagShift (tg_ix t) = setShift (tg_ix t) + n" "tagShift (tg_ix t) \<le> 32"
    using assms by (auto simp: ix_ok_def)
  have "of_nat (set_of t a) = SetAssociative_extractSet (tg_ix t) a" by (simp add: set_of_def)
  then show ?thesis using set_assoc_bits [of "setShift (tg_ix t)" n a] n
    by (simp add: SetAssociative_regenerateAddr_def SetAssociative_extractSet_def extractTag_def block_base_def)
qed

lemma same_block_iff:
  assumes "ix_ok (tg_ix t)"
  shows "same_block t a b \<longleftrightarrow> set_of t a = set_of t b \<and> extractTag (tg_ix t) a = extractTag (tg_ix t) b"
proof
  assume *: "same_block t a b"
  obtain n where "tagShift (tg_ix t) = n + setShift (tg_ix t)" using assms by (auto simp: ix_ok_def)
  then have ex: "extractTag (tg_ix t) c = drop_bit n (drop_bit (setShift (tg_ix t)) c)" for c by (simp add: extractTag_def)
  have "extractTag (tg_ix t) a = extractTag (tg_ix t) b" unfolding ex using * by (simp only: same_block_def)
  then show "set_of t a = set_of t b \<and> extractTag (tg_ix t) a = extractTag (tg_ix t) b"
    using * by (simp add: same_block_def set_of_def SetAssociative_extractSet_def)
next
  assume "set_of t a = set_of t b \<and> extractTag (tg_ix t) a = extractTag (tg_ix t) b"
  then have "block_base t a = block_base t b" using regenerate_extract [OF assms] by metis
  moreover have "drop_bit s (push_bit s (drop_bit s c)) = drop_bit s c" for s and c :: u64
    by (intro bit_eqI) (auto simp: bit_simps dest: bit_imp_le_length)
  ultimately show "same_block t a b" unfolding block_base_def same_block_def by metis
qed

lemma upd_blk_upd: "upd_blk loc b (upd_blk loc c s) = upd_blk loc b s"
  by (cases "fst loc < length s") (simp_all add: upd_blk_def list_update_beyond)

lemma valid_loc_cfg: "same_cfg t t' \<Longrightarrow> valid_loc loc t' = valid_loc loc t"
  by (simp add: valid_loc_def same_cfg_def)

lemma block_of_upd:
  assumes "blks_ok (tg_ix t) (tg_blks t)" "valid_loc loc t" "tg_blks t' = upd_blk loc b (tg_blks t)"
  shows "block_of loc t' = b"
  using assms by (cases loc) (auto simp: block_of_def valid_loc_def blks_ok_def)

lemma regenerate_loc:
  assumes "blks_ok (tg_ix t) (tg_blks t)" "valid_loc loc t"
  shows "regenerateBlkAddr loc t = Some (SetAssociative_regenerateAddr (tg_ix t) (blk_tag (block_of loc t)) (of_nat (fst loc)))"
  using blk_at_valid [OF assms] by (simp add: regenerateBlkAddr_def block_of_def)

lemma findBlock_cong: "tg_blks t' = tg_blks t \<Longrightarrow> tg_ix t' = tg_ix t \<Longrightarrow> findBlock a s t' = findBlock a s t"
  by (simp add: findBlock_def getPossibleEntries_def Let_def)

subsection \<open>Eviction\<close>

definition cfg_ok :: "cache_cfg \<Rightarrow> bool" where
  "cfg_ok cfg \<longleftrightarrow> (isReadOnly cfg \<longrightarrow> writebackClean cfg)"

text \<open>An outstanding miss on a valid block is a clean request or asks for a writable copy of it.\<close>

definition mshr_ok :: "mshr_query \<Rightarrow> 'r tags \<Rightarrow> bool" where
  "mshr_ok mshr t \<longleftrightarrow> (\<forall>loc needs clean. valid_loc loc t \<longrightarrow> blk_valid (block_of loc t) \<longrightarrow>
     mshr (SetAssociative_regenerateAddr (tg_ix t) (blk_tag (block_of loc t)) (of_nat (fst loc))) (blk_secure (block_of loc t)) = Some (needs, clean) \<longrightarrow>
     \<not> isSet WritableBit (block_of loc t) \<and> needs \<or> clean)"

definition writes_back :: "'r tags \<Rightarrow> nat \<times> nat \<Rightarrow> writeback \<Rightarrow> bool" where
  "writes_back t loc wb \<longleftrightarrow> (isSet DirtyBit (block_of loc t) \<longrightarrow> wb_cmd wb = WritebackDirty) \<and>
     wb_addr wb = SetAssociative_regenerateAddr (tg_ix t) (blk_tag (block_of loc t)) (of_nat (fst loc)) \<and>
     wb_secure wb = blk_secure (block_of loc t)"

context tags_policy
begin

lemma invalidateBlock_ok:
  assumes inv: "tags_inv rinv t" and e: "env_ok e" and loc: "valid_loc loc t" and b: "blk_valid (block_of loc t)"
  shows "\<exists>l t' b1. invalidateBlock cfg ops e loc t = Some (l, t') \<and> tags_inv rinv t' \<and> same_cfg t t' \<and>
    tg_blks t' = upd_blk loc b1 (tg_blks t) \<and> \<not> blk_valid b1 \<and> ev_writebacks l = [] \<and>
    ev_notes l = (if is_icache cfg then [\<lparr>in_addr = SetAssociative_regenerateAddr (tg_ix t) (- 1) (of_nat (fst loc)), in_secure = False,
                     in_taskId = 1024, in_vaddr = blk_vaddr (block_of loc t)\<rparr>] else [])"
proof -
  note D = tags_invD [OF inv]
  obtain t' b1 where i: "tags_invalidate ops e loc t = Some t'" "tags_inv rinv t'" "same_cfg t t'" "tg_blks t' = upd_blk loc b1 (tg_blks t)"
    "\<not> blk_valid b1" "blk_tag b1 = - 1" "blk_vaddr b1 = blk_vaddr (block_of loc t)" "\<not> blk_secure b1" "blk_taskId b1 = 1024"
    using invalidate_block_ok [OF inv e loc b] by blast
  note D' = tags_invD [OF i(2)]
  have loc': "valid_loc loc t'" using valid_loc_cfg [OF i(3)] loc by simp
  have b1: "block_of loc t' = b1" by (rule block_of_upd [OF D(2) loc i(4)])
  have at: "blk_at loc t = Some (block_of loc t)" "blk_at loc t' = Some b1"
    using blk_at_valid [OF D(2) loc] blk_at_valid [OF D'(2) loc'] b1 by (simp_all add: block_of_def)
  have "tg_ix t' = tg_ix t" using i(3) by (simp add: same_cfg_def)
  then have "\<exists>l. invalidateBlock cfg ops e loc t = Some (l, t') \<and> ev_writebacks l = [] \<and>
    ev_notes l = (if is_icache cfg then [\<lparr>in_addr = SetAssociative_regenerateAddr (tg_ix t) (- 1) (of_nat (fst loc)), in_secure = False,
                     in_taskId = 1024, in_vaddr = blk_vaddr (block_of loc t)\<rparr>] else [])"
    using at i(1,6-9) regenerate_loc [OF D'(2) loc'] b1 by (simp add: invalidateBlock_def no_log_def)
  then show ?thesis using i(2-5) by blast
qed

lemma evictBlock_ok:
  assumes inv: "tags_inv rinv t" and e: "env_ok e" and loc: "valid_loc loc t" and b: "blk_valid (block_of loc t)" and cfg: "cfg_ok cfg"
  shows "\<exists>l t' b1 wb. evictBlock cfg ops e loc t = Some (l, t') \<and> tags_inv rinv t' \<and> same_cfg t t' \<and>
    tg_blks t' = upd_blk loc b1 (tg_blks t) \<and> \<not> blk_valid b1 \<and> ev_writebacks l = [wb] \<and>
    wb_cmd wb = (if isSet DirtyBit (block_of loc t) then WritebackDirty else if writebackClean cfg then WritebackClean else CleanEvict) \<and>
    wb_addr wb = SetAssociative_regenerateAddr (tg_ix t) (blk_tag (block_of loc t)) (of_nat (fst loc)) \<and>
    wb_secure wb = blk_secure (block_of loc t)"
proof -
  note D = tags_invD [OF inv]
  have at: "blk_at loc t = Some (block_of loc t)" using blk_at_valid [OF D(2) loc] by (simp add: block_of_def)
  note ra = regenerate_loc [OF D(2) loc]
  show ?thesis
  proof (cases "isSet DirtyBit (block_of loc t) \<or> writebackClean cfg")
    case True
    define c where "c = clearCoherenceBits DirtyBit (if isSet WritableBit (block_of loc t) then clearCoherenceBits WritableBit (block_of loc t) else block_of loc t)"
    have c: "same_ident (block_of loc t) c" by (simp add: c_def same_ident_def clearCoherenceBits_def)
    let ?t = "t\<lparr>tg_blks := upd_blk loc c (tg_blks t)\<rparr>"
    obtain pkt where pkt: "writebackBlk cfg loc t = Some (pkt, ?t)"
      "wb_cmd pkt = (if isSet DirtyBit (block_of loc t) then WritebackDirty else WritebackClean)"
      "wb_addr pkt = SetAssociative_regenerateAddr (tg_ix t) (blk_tag (block_of loc t)) (of_nat (fst loc))"
      "wb_secure pkt = blk_secure (block_of loc t)"
      using True at ra b cfg by (simp add: writebackBlk_def cfg_ok_def put_blk_upd c_def Let_def)
    have inv1: "tags_inv rinv ?t"
      using D ident_upd(1) [OF D(1,2) loc c] ident_upd(2) [OF D(1,2) loc c D(3)] by (simp add: tags_inv_def)
    have loc1: "valid_loc loc ?t" using loc by (simp add: valid_loc_def)
    have b1: "block_of loc ?t = c" by (rule block_of_upd [OF D(2) loc]) simp
    have "blk_valid (block_of loc ?t)" using b c by (simp add: b1 same_ident_def)
    from invalidateBlock_ok [OF inv1 e loc1 this, of cfg] obtain l t' d where
      i: "invalidateBlock cfg ops e loc ?t = Some (l, t')" "tags_inv rinv t'" "same_cfg ?t t'" "tg_blks t' = upd_blk loc d (tg_blks ?t)"
      "\<not> blk_valid d" "ev_writebacks l = []" by blast
    have "evictBlock cfg ops e loc t = Some (log_append (no_log\<lparr>ev_writebacks := [pkt]\<rparr>) l, t')"
      using at True pkt(1) i(1) by (simp add: evictBlock_def)
    moreover have "tg_blks t' = upd_blk loc d (tg_blks t)" "same_cfg t t'" using i(3,4) by (simp_all add: upd_blk_upd same_cfg_def)
    moreover have "ev_writebacks (log_append (no_log\<lparr>ev_writebacks := [pkt]\<rparr>) l) = [pkt]" using i(6) by (simp add: log_append_def)
    ultimately show ?thesis using i(2,5) pkt(2-4) True by metis
  next
    case False
    obtain pkt where pkt: "cleanEvictBlk cfg loc t = Some pkt" "wb_cmd pkt = CleanEvict"
      "wb_addr pkt = SetAssociative_regenerateAddr (tg_ix t) (blk_tag (block_of loc t)) (of_nat (fst loc))"
      "wb_secure pkt = blk_secure (block_of loc t)"
      using False at ra b by (simp add: cleanEvictBlk_def)
    from invalidateBlock_ok [OF inv e loc b, of cfg] obtain l t' d where
      i: "invalidateBlock cfg ops e loc t = Some (l, t')" "tags_inv rinv t'" "same_cfg t t'" "tg_blks t' = upd_blk loc d (tg_blks t)"
      "\<not> blk_valid d" "ev_writebacks l = []" by blast
    have "evictBlock cfg ops e loc t = Some (log_append (no_log\<lparr>ev_writebacks := [pkt]\<rparr>) l, t')"
      using at False pkt(1) i(1) by (simp add: evictBlock_def)
    moreover have "ev_writebacks (log_append (no_log\<lparr>ev_writebacks := [pkt]\<rparr>) l) = [pkt]" using i(6) by (simp add: log_append_def)
    ultimately show ?thesis using i(2-5) pkt(2-4) False by metis
  qed
qed

lemma insert_vaddr:
  assumes "tags_inv rinv t" "valid_loc loc t" "blk_at loc t = Some b"
  shows "tags_inv rinv (put_blk loc (b\<lparr>blk_vaddr := v\<rparr>) t)"
proof -
  note D = tags_invD [OF assms(1)]
  have c: "same_ident (block_of loc t) (b\<lparr>blk_vaddr := v\<rparr>)"
    using blk_at_valid [OF D(2) assms(2)] assms(3) by (simp add: same_ident_def block_of_def)
  show ?thesis using D ident_upd(1) [OF D(1,2) assms(2) c] ident_upd(2) [OF D(1,2) assms(2) c D(3)]
    by (simp add: put_blk_upd tags_inv_def)
qed

lemma handleEvictions_ok:
  assumes inv: "tags_inv rinv t" and e: "env_ok e" and loc: "valid_loc loc t" and cfg: "cfg_ok cfg" and m: "mshr_ok mshr t"
  shows "\<exists>ok l t'. handleEvictions cfg ops mshr e [loc] t = Some (ok, l, t') \<and> tags_inv rinv t' \<and> same_cfg t t' \<and>
    (\<not> ok \<longrightarrow> tg_blks t' = tg_blks t) \<and>
    (ok \<longrightarrow> (\<exists>c. tg_blks t' = upd_blk loc c (tg_blks t) \<and> \<not> blk_valid c) \<and>
       (blk_valid (block_of loc t) \<longrightarrow> (\<exists>wb. ev_writebacks l = [wb] \<and> writes_back t loc wb)))"
proof -
  note D = tags_invD [OF inv]
  let ?b = "block_of loc t"
  have at: "blk_at loc t = Some ?b" using blk_at_valid [OF D(2) loc] by (simp add: block_of_def)
  note ra = regenerate_loc [OF D(2) loc]
  let ?a = "SetAssociative_regenerateAddr (tg_ix t) (blk_tag ?b) (of_nat (fst loc))"
  show ?thesis
  proof (cases "blk_valid ?b")
    case False
    have "upd_blk loc ?b (tg_blks t) = tg_blks t" by (cases loc) (simp add: upd_blk_def block_of_def)
    moreover have "handleEvictions cfg ops mshr e [loc] t = Some (True, log_append no_log no_log, t)"
      using at False by (simp add: handleEvictions_def)
    moreover have "same_cfg t t" by (simp add: same_cfg_def)
    ultimately show ?thesis using False inv by metis
  next
    case True
    show ?thesis
    proof (cases "mshr ?a (blk_secure ?b)")
      case None
      obtain l t' c wb where v: "evictBlock cfg ops e loc t = Some (l, t')" "tags_inv rinv t'" "same_cfg t t'"
        "tg_blks t' = upd_blk loc c (tg_blks t)" "\<not> blk_valid c" "ev_writebacks l = [wb]"
        "wb_cmd wb = (if isSet DirtyBit ?b then WritebackDirty else if writebackClean cfg then WritebackClean else CleanEvict)"
        "wb_addr wb = ?a" "wb_secure wb = blk_secure ?b"
        using evictBlock_ok [OF inv e loc True cfg] by blast
      have "handleEvictions cfg ops mshr e [loc] t = Some (True, log_append l no_log, t')"
        using at True ra None v(1) by (simp add: handleEvictions_def)
      moreover have "ev_writebacks (log_append l no_log) = [wb]" using v(6) by (simp add: log_append_def no_log_def)
      moreover have "writes_back t loc wb" using v(7-9) by (simp add: writes_back_def)
      ultimately show ?thesis using v(2-5) True by metis
    next
      case (Some nc)
      obtain needs clean where nc: "nc = (needs, clean)" by (cases nc)
      have "\<not> isSet WritableBit ?b \<and> needs \<or> clean" using m loc True Some unfolding mshr_ok_def nc by blast
      then have "handleEvictions cfg ops mshr e [loc] t = Some (False, no_log, t)"
        using at True ra Some by (simp add: handleEvictions_def nc)
      moreover have "same_cfg t t" by (simp add: same_cfg_def)
      ultimately show ?thesis using inv by (metis (full_types))
    qed
  qed
qed

lemma evicted_still_miss:
  assumes "tags_inv rinv t" "tags_inv rinv t'" "same_cfg t t'" "tg_blks t' = upd_blk loc c (tg_blks t)" "valid_loc loc t" "\<not> blk_valid c"
    and "findBlock a s t = Some None"
  shows "findBlock a s t' = Some None"
proof -
  note D = tags_invD [OF assms(1)] and D' = tags_invD [OF assms(2)]
  have ix: "tg_ix t' = tg_ix t" using assms(3) by (simp add: same_cfg_def)
  have "findBlock a s t' \<noteq> Some (Some l)" for l
    using findBlock_upd [OF D(1,2) _ ix assms(4,5), of a s l] D'(2) ix assms(6,7) by (auto simp: matchTag_def)
  then show ?thesis using findBlock_iff(3) [OF D'(1,2)] by (metis option.exhaust)
qed

lemma allocate_ok:
  assumes inv: "tags_inv rinv t" and e: "env_ok e" and cfg: "cfg_ok cfg" and m: "mshr_ok mshr t"
    and miss: "findBlock (tp_addr pkt) (tp_secure pkt) t = Some None" and req: "tp_requestorId pkt < maxRequestors t"
  shows "\<exists>r t'. allocateBlock cfg ops mshr e pkt t = Some (r, t') \<and> tags_inv rinv t' \<and> same_cfg t t' \<and>
    (al_victim r = None \<longrightarrow> tg_blks t' = tg_blks t) \<and>
    (\<forall>v. al_victim r = Some v \<longrightarrow> valid_loc v t \<and> fst v = set_of t (tp_addr pkt) \<and>
       (\<exists>c. tg_blks t' = upd_blk v c (tg_blks t) \<and> blk_valid c \<and> blk_tag c = extractTag (tg_ix t) (tp_addr pkt) \<and> blk_secure c = tp_secure pkt) \<and>
       (blk_valid (block_of v t) \<longrightarrow> (\<exists>wb. ev_writebacks (al_log r) = [wb] \<and> writes_back t v wb)))"
proof -
  obtain w rs where fv: "findVictim ops e (tp_addr pkt) t = Some ((set_of t (tp_addr pkt), w), [(set_of t (tp_addr pkt), w)], t\<lparr>tg_repl := rs\<rparr>)"
    and v: "valid_loc (set_of t (tp_addr pkt), w) t" and inv1: "tags_inv rinv (t\<lparr>tg_repl := rs\<rparr>)"
    using findVictim_ok [OF inv e] by blast
  define v where "v = (set_of t (tp_addr pkt), w)"
  define t1 where "t1 = t\<lparr>tg_repl := rs\<rparr>"
  have t1: "tg_blks t1 = tg_blks t" "tg_ix t1 = tg_ix t" "maxRequestors t1 = maxRequestors t" by (simp_all add: t1_def)
  have eq1: "valid_loc l t1 = valid_loc l t" "block_of l t1 = block_of l t" "findBlock a s t1 = findBlock a s t" for l a s
    using findBlock_cong [OF t1(1,2)] by (simp_all add: valid_loc_def block_of_def t1)
  have wb1: "writes_back t1 l = writes_back t l" for l by (simp add: fun_eq_iff writes_back_def eq1 t1)
  have inv1: "tags_inv rinv t1" using inv1 by (simp add: t1_def)
  have m1: "mshr_ok mshr t1" using m by (simp add: mshr_ok_def eq1 t1)
  have vl: "valid_loc v t1" using v by (simp add: eq1 v_def)
  note D1 = tags_invD [OF inv1]
  have at: "blk_at v t1 = Some (block_of v t)" using blk_at_valid [OF D1(2) vl] by (simp add: block_of_def t1)
  obtain ok l t2 where h: "handleEvictions cfg ops mshr e [v] t1 = Some (ok, l, t2)" "tags_inv rinv t2" "same_cfg t1 t2"
    "\<not> ok \<Longrightarrow> tg_blks t2 = tg_blks t1" "ok \<Longrightarrow> \<exists>c. tg_blks t2 = upd_blk v c (tg_blks t1) \<and> \<not> blk_valid c"
    "ok \<Longrightarrow> blk_valid (block_of v t) \<Longrightarrow> \<exists>wb. ev_writebacks l = [wb] \<and> writes_back t v wb"
    using handleEvictions_ok [OF inv1 e vl cfg m1] unfolding eq1 wb1 by blast
  have c2: "same_cfg t t2" using h(3) by (simp add: same_cfg_def t1)
  show ?thesis
  proof (cases ok)
    case False
    then have "allocateBlock cfg ops mshr e pkt t = Some (\<lparr>al_victim = None, al_evictedAddr = None, al_log = l\<rparr>, t2)"
      using fv at h(1) by (simp add: allocateBlock_def v_def t1_def)
    then show ?thesis using h(2,4) c2 False t1(1) by simp
  next
    case True
    obtain c where c: "tg_blks t2 = upd_blk v c (tg_blks t1)" "\<not> blk_valid c" using h(5) [OF True] by blast
    have "findBlock (tp_addr pkt) (tp_secure pkt) t2 = Some None"
      using evicted_still_miss [OF inv1 h(2,3) c(1) vl c(2)] miss by (simp add: eq1)
    moreover have v2: "valid_loc v t2" using valid_loc_cfg [OF h(3)] vl by simp
    moreover have "fst v = set_of t2 (tp_addr pkt)" using c2 by (simp add: v_def set_of_def same_cfg_def)
    moreover have "\<not> blk_valid (block_of v t2)" using block_of_upd [OF D1(2) vl c(1)] c(2) by simp
    moreover have "tp_requestorId pkt < maxRequestors t2" using req c2 by (simp add: same_cfg_def)
    ultimately obtain t3 b1 where i: "insertBlock ops e pkt v t2 = Some t3" "tags_inv rinv t3" "same_cfg t2 t3"
      "tg_blks t3 = upd_blk v b1 (tg_blks t2)" "blk_valid b1" "blk_tag b1 = extractTag (tg_ix t2) (tp_addr pkt)" "blk_secure b1 = tp_secure pkt"
      using insert_ok [OF h(2) e] by blast
    have v3: "valid_loc v t3" using valid_loc_cfg [OF i(3)] v2 by simp
    note D2 = tags_invD [OF h(2)] and D3 = tags_invD [OF i(2)]
    have at3: "blk_at v t3 = Some b1"
      using blk_at_valid [OF D3(2) v3] block_of_upd [OF D2(2) v2 i(4)] by (simp add: block_of_def)
    define t4 where "t4 = (if is_icache cfg then put_blk v (b1\<lparr>blk_vaddr := tp_vaddr pkt\<rparr>) t3 else t3)"
    let ?r = "\<lparr>al_victim = Some v, al_evictedAddr = Some (if is_icache cfg then blk_vaddr (block_of v t) else 0), al_log = l\<rparr>"
    have al: "allocateBlock cfg ops mshr e pkt t = Some (?r, t4)"
      using fv at h(1) True i(1) at3 by (simp add: allocateBlock_def v_def t1_def t4_def)
    have "tags_inv rinv t4" using i(2) insert_vaddr [OF i(2) v3 at3] by (simp add: t4_def)
    moreover have "same_cfg t t4" using c2 i(3) by (simp add: t4_def same_cfg_def put_blk_upd)
    moreover have "\<exists>d. tg_blks t4 = upd_blk v d (tg_blks t) \<and> blk_valid d \<and> blk_tag d = extractTag (tg_ix t) (tp_addr pkt) \<and> blk_secure d = tp_secure pkt"
      using i(4-7) c(1) c2 t1(1) by (auto simp: t4_def put_blk_upd upd_blk_upd same_cfg_def)
    moreover have "valid_loc v t" "fst v = set_of t (tp_addr pkt)" using vl eq1 by (simp_all add: v_def)
    ultimately show ?thesis using al h(6) [OF True] by (intro exI [of _ ?r] exI [of _ t4]) simp
  qed
qed

end

subsection \<open>The cache as a machine\<close>

text \<open>
  Accesses, allocations after a miss, invalidations, moves inside a set, starvation reports and changes of the
  coherence bits, in any order.
\<close>

datatype cache_event =
    CE_access rp_env tag_pkt
  | CE_allocate rp_env tag_pkt mshr_query
  | CE_invalidate rp_env "nat \<times> nat"
  | CE_move rp_env nat nat nat
  | CE_starve rp_env u64 bool
  | CE_setBits "nat \<times> nat" u32

fun cache_step :: "cache_cfg \<Rightarrow> 'r rp_ops \<Rightarrow> cache_event \<Rightarrow> 'r tags \<Rightarrow> 'r tags option" where
  "cache_step cfg ops (CE_access e pkt) t = map_option (snd \<circ> snd) (accessBlock ops e pkt t)"
| "cache_step cfg ops (CE_allocate e pkt mshr) t = map_option snd (allocateBlock cfg ops mshr e pkt t)"
| "cache_step cfg ops (CE_invalidate e loc) t = map_option snd (invalidateBlock cfg ops e loc t)"
| "cache_step cfg ops (CE_move e k w v) t = moveBlock ops e (k, w) (k, v) t"
| "cache_step cfg ops (CE_starve e addr sec) t = map_option snd (starveMRU ops e addr sec t)"
| "cache_step cfg ops (CE_setBits loc bs) t = do {
     b \<leftarrow> blk_at loc t;
     b1 \<leftarrow> setCoherenceBits bs b;
     Some (put_blk loc b1 t)
   }"

fun cache_allowed :: "cache_cfg \<Rightarrow> cache_event \<Rightarrow> 'r tags \<Rightarrow> bool" where
  "cache_allowed cfg (CE_access e pkt) t \<longleftrightarrow> env_ok e"
| "cache_allowed cfg (CE_allocate e pkt mshr) t \<longleftrightarrow> env_ok e \<and> cfg_ok cfg \<and> mshr_ok mshr t \<and>
     findBlock (tp_addr pkt) (tp_secure pkt) t = Some None \<and> tp_requestorId pkt < maxRequestors t"
| "cache_allowed cfg (CE_invalidate e loc) t \<longleftrightarrow> env_ok e \<and> valid_loc loc t \<and> blk_valid (block_of loc t)"
| "cache_allowed cfg (CE_move e k w v) t \<longleftrightarrow> env_ok e \<and> valid_loc (k, w) t \<and> valid_loc (k, v) t \<and> w \<noteq> v \<and>
     blk_valid (block_of (k, w) t) \<and> \<not> blk_valid (block_of (k, v) t) \<and> blk_tickInserted (block_of (k, v) t) \<le> curTick e"
| "cache_allowed cfg (CE_starve e addr sec) t \<longleftrightarrow> env_ok e"
| "cache_allowed cfg (CE_setBits loc bs) t \<longleftrightarrow> valid_loc loc t \<and> blk_valid (block_of loc t)"

context tags_policy
begin

lemma setBits_ok:
  assumes inv: "tags_inv rinv t" and loc: "valid_loc loc t" and b: "blk_valid (block_of loc t)"
  shows "\<exists>t'. cache_step cfg ops (CE_setBits loc bs) t = Some t' \<and> tags_inv rinv t'"
proof -
  note D = tags_invD [OF inv]
  let ?c = "block_of loc t\<lparr>coherence := coherence (block_of loc t) OR bs\<rparr>"
  have at: "blk_at loc t = Some (block_of loc t)" using blk_at_valid [OF D(2) loc] by (simp add: block_of_def)
  have c: "same_ident (block_of loc t) ?c" by (simp add: same_ident_def)
  have "cache_step cfg ops (CE_setBits loc bs) t = Some (t\<lparr>tg_blks := upd_blk loc ?c (tg_blks t)\<rparr>)"
    using at b by (simp add: setCoherenceBits_def put_blk_upd)
  moreover have "tags_inv rinv (t\<lparr>tg_blks := upd_blk loc ?c (tg_blks t)\<rparr>)"
    using D ident_upd(1) [OF D(1,2) loc c] ident_upd(2) [OF D(1,2) loc c D(3)] by (simp add: tags_inv_def)
  ultimately show ?thesis by blast
qed

end

sublocale tags_policy \<subseteq> csm: safe_machine "cache_step cfg ops" "cache_allowed cfg" "tags_inv rinv" for cfg
proof
  fix t ev
  assume inv: "tags_inv rinv t" and al: "cache_allowed cfg ev t"
  show "\<exists>t'. cache_step cfg ops ev t = Some t' \<and> tags_inv rinv t'"
  proof (cases ev)
    case (CE_access e pkt)
    then show ?thesis using access_ok [OF inv, of e pkt] al by fastforce
  next
    case (CE_allocate e pkt mshr)
    then show ?thesis using allocate_ok [OF inv, of e cfg mshr pkt] al by fastforce
  next
    case (CE_invalidate e loc)
    then show ?thesis using invalidateBlock_ok [OF inv, of e loc cfg] al by fastforce
  next
    case (CE_move e k w v)
    then show ?thesis using move_ok [OF inv, of e k w v] al by fastforce
  next
    case (CE_starve e addr sec)
    then show ?thesis using starve_ok [OF inv, of e addr sec] al by fastforce
  next
    case (CE_setBits loc bs)
    then show ?thesis using setBits_ok [OF inv, of loc cfg bs] al by simp
  qed
qed

subsection \<open>An example\<close>

text \<open>A direct mapped instruction cache with one block; it allocates a block and marks it dirty.\<close>

definition ex_ix :: indexing where
  "ex_ix = \<lparr>ix_assoc = 1, numSets = 1, setShift = 6, setMask = 0, tagShift = 6, lru_ways = 1\<rparr>"

definition ex_cfg :: cache_cfg where
  "ex_cfg = \<lparr>writebackClean = True, isReadOnly = False, is_icache = True\<rparr>"

definition ex_env :: "u64 \<Rightarrow> rp_env" where
  "ex_env now = \<lparr>curTick = now, random = (\<lambda>lo hi. lo)\<rparr>"

definition ex_pkt :: "u64 \<Rightarrow> tag_pkt" where
  "ex_pkt a = \<lparr>tp_addr = a, tp_secure = False, tp_isInstFetch = True, tp_requestorId = 0, tp_taskId = 0, tp_vaddr = a\<rparr>"

definition ex_new :: "LRUReplData list tags option" where
  "ex_new = BaseSetAssoc_new ex_ix 64 64 False 1 0 8 (replicate (unat (ix_assoc ex_ix)) LRU_instantiateEntry)"

definition ex_events :: "cache_event list" where
  "ex_events = [CE_allocate (ex_env 5) (ex_pkt 0x12345) (\<lambda>a s. None), CE_setBits (0, 0) DirtyBit]"

definition ex_dirty :: "LRUReplData list tags" where
  "ex_dirty = the (run (cache_step ex_cfg (lru_ops False)) ex_events (the ex_new))"

lemma ex_env_ok [simp]: "env_ok (ex_env now)"
  by (simp add: env_ok_def ex_env_def)

lemma ex_cfg_ok [simp]: "cfg_ok ex_cfg" "is_icache ex_cfg"
  by (simp_all add: cfg_ok_def ex_cfg_def)

lemma no_mshr_ok [simp]: "mshr_ok (\<lambda>a s. None) t"
  by (simp add: mshr_ok_def)

lemma ex_ix_new: "BaseIndexingPolicy_new 64 64 1 1 = Some ex_ix" "tagShift ex_ix \<le> 32"
  by (code_simp, simp add: ex_ix_def)

lemma some_the: "\<not> Option.is_none x \<Longrightarrow> x = Some (the x)"
  by (cases x) simp_all

lemma ex_new_some:
  "BaseSetAssoc_new ex_ix 64 64 False 1 0 8 (replicate (unat (ix_assoc ex_ix)) LRU_instantiateEntry) = Some (the ex_new)"
  unfolding ex_new_def [symmetric] by (rule some_the) code_simp

lemma ex_admissible: "admissible (cache_step ex_cfg (lru_ops False)) (cache_allowed ex_cfg) ex_events (the ex_new)"
proof -
  let ?t0 = "the ex_new" and ?st = "cache_step ex_cfg (lru_ops False)" and ?e1 = "CE_allocate (ex_env 5) (ex_pkt 0x12345) (\<lambda>a s. None)"
  have miss: "findBlock 0x12345 False ?t0 = Some None" "0 < maxRequestors ?t0" by code_simp+
  define t1 where "t1 = the (?st ?e1 ?t0)"
  have t1: "?st ?e1 ?t0 = Some t1" unfolding t1_def by (rule some_the) code_simp
  have "valid_loc (0, 0) t1 \<and> blk_valid (block_of (0, 0) t1)" unfolding t1_def by code_simp
  then have "cache_allowed ex_cfg (CE_setBits (0, 0) DirtyBit) t1" by simp
  moreover have "cache_allowed ex_cfg ?e1 ?t0" using miss by (simp add: ex_pkt_def)
  ultimately show ?thesis unfolding ex_events_def using t1 by (simp del: cache_step.simps cache_allowed.simps split: option.splits)
qed

lemma ex_new_inv: "tags_inv ways_are (the ex_new)"
  by (rule BaseSetAssoc_new_inv [OF ex_ix_new ex_new_some]) (simp add: ways_are_def)

lemma ex_dirty_inv: "tags_inv ways_are ex_dirty"
  using lru_tags.csm.run_safe [OF ex_new_inv ex_admissible] by (auto simp: ex_dirty_def)

subsection \<open>Properties\<close>

text \<open>
  C5: a set associative cache with LRU replacement never fails an assertion, for any sequence of accesses,
  allocations after misses, invalidations, moves inside a set, starvation reports and changes of coherence bits, and
  at every point no address is cached twice, the number of tags in use is the number of valid
  blocks, and the occupancy of every requestor counts its valid blocks.
\<close>

theorem cache_never_aborts:
  assumes "BaseIndexingPolicy_new sz es assoc lw = Some ix" "tagShift ix \<le> 32"
    and "BaseSetAssoc_new ix bytes block_size sequential latency warmup mr
           (replicate (unat (ix_assoc ix)) LRU_instantiateEntry) = Some t"
    and "admissible (cache_step cfg (lru_ops inst_only)) (cache_allowed cfg) evs t"
  shows "\<exists>t'. run (cache_step cfg (lru_ops inst_only)) evs t = Some t' \<and> tags_inv ways_are t'"
proof -
  have "tags_inv ways_are t" by (rule BaseSetAssoc_new_inv [OF assms(1-3)]) (simp add: ways_are_def)
  then show ?thesis using assms(4) by (rule lru_tags.csm.run_safe)
qed

theorem cache_never_aborts_witness:
  "\<exists>t'. run (cache_step ex_cfg (lru_ops False)) ex_events (the ex_new) = Some t' \<and> tags_inv ways_are t'"
  by (rule cache_never_aborts [OF ex_ix_new ex_new_some ex_admissible])



text \<open>
  C7: no dirty data is lost.  If an allocation evicts a block that was cached under an address and is dirty,
  exactly one packet leaves the cache, a write back of dirty data to that address, aligned to the block, in the same
  security domain.
\<close>

theorem dirty_victim_written_back:
  assumes "tags_policy rinv ops" "tags_inv rinv t" "env_ok e" "cfg_ok cfg" "mshr_ok mshr t"
    and "findBlock (tp_addr pkt) (tp_secure pkt) t = Some None" "tp_requestorId pkt < maxRequestors t"
    and "allocateBlock cfg ops mshr e pkt t = Some (r, t')" "al_victim r = Some v"
    and "findBlock a s t = Some (Some v)" "isSet DirtyBit (block_of v t)"
  shows "\<exists>wb. ev_writebacks (al_log r) = [wb] \<and> wb_cmd wb = WritebackDirty \<and> wb_addr wb = block_base t a \<and> wb_secure wb = s"
proof -
  note D = tags_policy.tags_invD [OF assms(1,2)]
  note F = found_loc [OF D(1,2) assms(10)]
  obtain wb where wb: "ev_writebacks (al_log r) = [wb]" "writes_back t v wb"
    using tags_policy.allocate_ok [OF assms(1-7)] assms(8,9) F(2) by fastforce
  have "wb_addr wb = block_base t a" using wb(2) F(3,5) regenerate_extract [OF D(1)] by (simp add: writes_back_def)
  then show ?thesis using wb assms(11) F(4) by (simp add: writes_back_def)
qed

theorem dirty_victim_written_back_witness:
  "\<exists>r t' wb. allocateBlock ex_cfg (lru_ops False) (\<lambda>a s. None) (ex_env 9) (ex_pkt 0x777) ex_dirty = Some (r, t') \<and>
     ev_writebacks (al_log r) = [wb] \<and> wb_cmd wb = WritebackDirty \<and> wb_addr wb = block_base ex_dirty 0x12345"
proof -
  let ?a = "allocateBlock ex_cfg (lru_ops False) (\<lambda>a s. None) (ex_env 9) (ex_pkt 0x777) ex_dirty"
  have miss: "findBlock (tp_addr (ex_pkt 0x777)) (tp_secure (ex_pkt 0x777)) ex_dirty = Some None"
    "tp_requestorId (ex_pkt 0x777) < maxRequestors ex_dirty" by code_simp+
  have f: "findBlock 0x12345 False ex_dirty = Some (Some (0, 0))" "isSet DirtyBit (block_of (0, 0) ex_dirty)" by code_simp+
  have "\<not> Option.is_none ?a" "al_victim (fst (the ?a)) = Some (0, 0)" by code_simp+
  then obtain r t' where a: "?a = Some (r, t')" "al_victim r = Some (0, 0)" by (cases ?a) auto
  show ?thesis
    using dirty_victim_written_back [OF lru_tags.tags_policy_axioms ex_dirty_inv ex_env_ok ex_cfg_ok(1) no_mshr_ok miss a f] a(1) by blast
qed

text \<open>
  C34: the notification that an instruction cache sends to its prefetcher for an invalidated block carries
  the virtual address of the block, but its physical address, security flag and task are those of an
  invalid block: they depend on the set only.
\<close>

theorem notification_after_invalidation:
  assumes "tags_policy rinv ops" "tags_inv rinv t" "env_ok e" "valid_loc loc t" "blk_valid (block_of loc t)" "is_icache cfg"
  shows "\<exists>l t'. invalidateBlock cfg ops e loc t = Some (l, t') \<and>
    ev_notes l = [\<lparr>in_addr = SetAssociative_regenerateAddr (tg_ix t) (- 1) (of_nat (fst loc)), in_secure = False,
                   in_taskId = 1024, in_vaddr = blk_vaddr (block_of loc t)\<rparr>]"
  using tags_policy.invalidateBlock_ok [OF assms(1-5), of cfg] assms(6) by auto

theorem notification_after_invalidation_witness:
  "\<exists>l t' n. invalidateBlock ex_cfg (lru_ops False) (ex_env 9) (0, 0) ex_dirty = Some (l, t') \<and> ev_notes l = [n] \<and>
     in_vaddr n = 0x12345 \<and> in_addr n = SetAssociative_regenerateAddr (tg_ix ex_dirty) (- 1) 0"
proof -
  have v: "valid_loc (0, 0) ex_dirty" "blk_valid (block_of (0, 0) ex_dirty)" "blk_vaddr (block_of (0, 0) ex_dirty) = 0x12345" by code_simp+
  show ?thesis
    using notification_after_invalidation [OF lru_tags.tags_policy_axioms ex_dirty_inv ex_env_ok v(1,2) ex_cfg_ok(2), of False 9] v(3) by auto
qed

end
