(* ===== verification/Mshr.thy ===== *)
theory Mshr
  imports Mem_Cmd Safe_Machine "HOL-Library.Sublist" "HOL-Library.Multiset"
begin

section \<open>Miss status holding registers\<close>

text \<open>
  An MSHR collects the requests for a block that is being fetched (\<open>mem/cache/mshr.hh\<close>, \<open>mem/cache/mshr.cc\<close>): a list of
  targets that the response will serve, and a list of deferred targets that need another request.  Each list keeps flags
  that summarise its targets.  Snoops that must see the response first are targets as well.

  A target may mark the MSHR of the cache above it as pending downstream.  That MSHR belongs to
  another cache: the calls to it are returned as messages, \<open>Up_set\<close> and \<open>Up_clear\<close> with its name, for
  \<open>set_downstreamPending\<close> and \<open>clearDownstreamPending\<close> there.  Of a packet the model has its command, address, size
  and the request flags the code reads; data, printing and the cost of a miss are left out.

  The lemmas show that targets are neither lost nor overtaken, and that the flags never hide
  a target that needs a writable block.
\<close>

record mpkt =
  mk_id :: nat
  mk_cmd :: MemCmd
  mk_addr :: u64
  mk_size :: nat
  mk_secure :: bool
  mk_no_merge :: bool
  mk_uncacheable :: bool
  mk_cacheClean :: bool
  mk_cacheInvalidate :: bool
  mk_expressSnoop :: bool
  mk_upstream :: "nat option"

definition isCacheMaintenance :: "mpkt \<Rightarrow> bool" where
  "isCacheMaintenance p \<longleftrightarrow> mk_cacheClean p \<or> mk_cacheInvalidate p"

definition getOffset :: "mpkt \<Rightarrow> nat \<Rightarrow> nat" where
  "getOffset p blk_size = unat (mk_addr p AND (of_nat blk_size - 1))"

definition pkt_getBlockAddr :: "mpkt \<Rightarrow> nat \<Rightarrow> u64" where
  "pkt_getBlockAddr p blk_size = mk_addr p AND NOT (of_nat blk_size - 1)"

definition pkt_matchBlockAddr :: "mpkt \<Rightarrow> u64 \<Rightarrow> bool \<Rightarrow> nat \<Rightarrow> bool" where
  "pkt_matchBlockAddr p addr is_secure blk_size \<longleftrightarrow> pkt_getBlockAddr p blk_size = addr \<and> mk_secure p = is_secure"

datatype Source = FromCPU | FromSnoop | FromPrefetcher

datatype up_call = Up_set nat | Up_clear nat

record target =
  t_pkt :: mpkt
  t_recvTime :: u64
  t_readyTime :: u64
  t_order :: u64
  t_source :: Source
  t_markedPending :: bool
  t_allocOnFill :: bool

record TargetList =
  tl_targets :: "target list"
  tl_needsWritable :: bool
  tl_hasUpgrade :: bool
  tl_allocOnFill :: bool
  tl_hasFromCache :: bool
  tl_blkAddr :: u64
  tl_blkSize :: nat
  canMergeWrites :: bool
  writesBitmap :: "bool list"

subsection \<open>Target lists\<close>

definition resetFlags :: "TargetList \<Rightarrow> TargetList" where
  "resetFlags l = l\<lparr>canMergeWrites := True, writesBitmap := replicate (length (writesBitmap l)) False,
     tl_needsWritable := False, tl_hasUpgrade := False, tl_allocOnFill := False, tl_hasFromCache := False\<rparr>"

definition tl_init :: "u64 \<Rightarrow> nat \<Rightarrow> TargetList \<Rightarrow> TargetList" where
  "tl_init blk_addr blk_size l =
     resetFlags (l\<lparr>tl_blkAddr := blk_addr, tl_blkSize := blk_size,
                  writesBitmap := take blk_size (writesBitmap l) @ replicate (blk_size - length (writesBitmap l)) False\<rparr>)"

definition isReset :: "TargetList \<Rightarrow> bool" where
  "isReset l \<longleftrightarrow> \<not> tl_needsWritable l \<and> \<not> tl_hasUpgrade l \<and> \<not> tl_allocOnFill l \<and> \<not> tl_hasFromCache l \<and> canMergeWrites l"

definition tl_isWholeLineWrite :: "TargetList \<Rightarrow> bool" where
  "tl_isWholeLineWrite l = list_all (\<lambda>b. b) (writesBitmap l)"

text \<open>Filling the bitmap beyond its end has no defined result.\<close>

definition fill_bitmap :: "nat \<Rightarrow> nat \<Rightarrow> bool list \<Rightarrow> bool list option" where
  "fill_bitmap offset n bm = do {
     c_assert (offset + n \<le> length bm);
     Some (take offset bm @ replicate n True @ drop (offset + n) bm)
   }"

definition updateWriteFlags :: "mpkt \<Rightarrow> TargetList \<Rightarrow> TargetList option" where
  "updateWriteFlags pkt l =
     (if tl_isWholeLineWrite l then Some l
      else if canMergeWrites l then
        (if \<not> isWrite (mk_cmd pkt) then Some (l\<lparr>canMergeWrites := False\<rparr>)
         else do {
           let compat_write = \<not> mk_no_merge pkt;
           let first_write = (tl_targets l = []);
           bm \<leftarrow> (if first_write \<or> compat_write
                 then fill_bitmap (getOffset pkt (tl_blkSize l)) (mk_size pkt) (writesBitmap l)
                 else Some (writesBitmap l));
           Some (l\<lparr>writesBitmap := bm, canMergeWrites := (canMergeWrites l \<and> compat_write)\<rparr>)
         })
      else Some l)"

definition updateFlags :: "mpkt \<Rightarrow> Source \<Rightarrow> bool \<Rightarrow> TargetList \<Rightarrow> TargetList option" where
  "updateFlags pkt source alloc_on_fill l =
     (if source \<noteq> FromSnoop then
        (let l1 = l\<lparr>tl_needsWritable := tl_needsWritable l \<or> needsWritable (mk_cmd pkt),
                    tl_hasUpgrade := tl_hasUpgrade l \<or> isUpgrade (mk_cmd pkt) \<or> mk_cmd pkt = StoreCondReq,
                    tl_allocOnFill := tl_allocOnFill l \<or> alloc_on_fill\<rparr>
         in if source \<noteq> FromPrefetcher
            then updateWriteFlags pkt (l1\<lparr>tl_hasFromCache := tl_hasFromCache l1 \<or> fromCache (mk_cmd pkt)\<rparr>)
            else Some l1)
      else Some l)"

fun update_all :: "target list \<Rightarrow> TargetList \<Rightarrow> TargetList option" where
  "update_all [] l = Some l"
| "update_all (t # ts) l = do { l1 \<leftarrow> updateFlags (t_pkt t) (t_source t) (t_allocOnFill t) l; update_all ts l1 }"

definition populateFlags :: "TargetList \<Rightarrow> TargetList option" where
  "populateFlags l = update_all (tl_targets l) (resetFlags l)"

definition tl_add :: "u64 \<Rightarrow> mpkt \<Rightarrow> u64 \<Rightarrow> u64 \<Rightarrow> Source \<Rightarrow> bool \<Rightarrow> bool \<Rightarrow> TargetList \<Rightarrow> (TargetList \<times> up_call list) option" where
  "tl_add now pkt ready ord source markPending alloc_on_fill l = do {
     l1 \<leftarrow> updateFlags pkt source alloc_on_fill l;
     let up = (if markPending then mk_upstream pkt else None);
     let t = \<lparr>t_pkt = pkt, t_recvTime = now, t_readyTime = ready, t_order = ord, t_source = source,
              t_markedPending = (up \<noteq> None), t_allocOnFill = alloc_on_fill\<rparr>;
     Some (l1\<lparr>tl_targets := tl_targets l1 @ [t]\<rparr>, case up of None \<Rightarrow> [] | Some m \<Rightarrow> [Up_set m])
   }"

definition replaceUpgrade :: "mpkt \<Rightarrow> mpkt option" where
  "replaceUpgrade pkt = do {
     let has_data = (hasData (mk_cmd pkt) \<or> hasRespData (mk_cmd pkt));
     let pkt1 = (if mk_cmd pkt = UpgradeReq then pkt\<lparr>mk_cmd := ReadExReq\<rparr>
                 else if mk_cmd pkt = SCUpgradeReq then pkt\<lparr>mk_cmd := SCUpgradeFailReq\<rparr>
                 else if mk_cmd pkt = StoreCondReq then pkt\<lparr>mk_cmd := StoreCondFailReq\<rparr>
                 else pkt);
     c_assert (has_data \<or> \<not> hasData (mk_cmd pkt1));
     Some pkt1
   }"

fun replace_all :: "target list \<Rightarrow> target list option" where
  "replace_all [] = Some []"
| "replace_all (t # ts) = do { p \<leftarrow> replaceUpgrade (t_pkt t); ts1 \<leftarrow> replace_all ts; Some (t\<lparr>t_pkt := p\<rparr> # ts1) }"

definition replaceUpgrades :: "TargetList \<Rightarrow> TargetList option" where
  "replaceUpgrades l =
     (if \<not> tl_hasUpgrade l then Some l
      else do { ts \<leftarrow> replace_all (tl_targets l); Some (l\<lparr>tl_targets := ts, tl_hasUpgrade := False\<rparr>) })"

fun clear_pending :: "target list \<Rightarrow> target list \<times> up_call list" where
  "clear_pending [] = ([], [])"
| "clear_pending (t # ts) =
     (let (ts1, cs) = clear_pending ts
      in if t_markedPending t
         then (t\<lparr>t_markedPending := False\<rparr> # ts1, (case mk_upstream (t_pkt t) of None \<Rightarrow> [] | Some m \<Rightarrow> [Up_clear m]) @ cs)
         else (t # ts1, cs))"

definition tl_clearDownstreamPending :: "TargetList \<Rightarrow> TargetList \<times> up_call list" where
  "tl_clearDownstreamPending l = (let (ts, cs) = clear_pending (tl_targets l) in (l\<lparr>tl_targets := ts\<rparr>, cs))"

subsection \<open>The register\<close>

record queue_entry =
  qe_readyTime :: u64
  qe_isUncacheable :: bool
  qe_inService :: bool
  qe_order :: u64
  qe_blkAddr :: u64
  qe_blkSize :: nat
  qe_isSecure :: bool

record mshr = queue_entry +
  downstreamPending :: bool
  pendingModified :: bool
  postInvalidate :: bool
  postDowngrade :: bool
  wasWholeLineWrite :: bool
  isForward :: bool
  mh_targets :: TargetList
  deferredTargets :: TargetList

definition TargetList_new :: TargetList where
  "TargetList_new = \<lparr>tl_targets = [], tl_needsWritable = False, tl_hasUpgrade = False, tl_allocOnFill = False, tl_hasFromCache = False,
     tl_blkAddr = 0, tl_blkSize = 0, canMergeWrites = True, writesBitmap = []\<rparr>"

definition MSHR_new :: mshr where
  "MSHR_new = \<lparr>qe_readyTime = 0, qe_isUncacheable = False, qe_inService = False, qe_order = 0, qe_blkAddr = 0, qe_blkSize = 0,
     qe_isSecure = False, downstreamPending = False, pendingModified = False, postInvalidate = False, postDowngrade = False,
     wasWholeLineWrite = False, isForward = False, mh_targets = TargetList_new, deferredTargets = TargetList_new\<rparr>"

definition getNumTargets :: "mshr \<Rightarrow> nat" where
  "getNumTargets m = length (tl_targets (mh_targets m)) + length (tl_targets (deferredTargets m))"

definition hasTargets :: "mshr \<Rightarrow> bool" where
  "hasTargets m \<longleftrightarrow> tl_targets (mh_targets m) \<noteq> []"

definition front_target :: "TargetList \<Rightarrow> target option" where
  "front_target l = (case tl_targets l of [] \<Rightarrow> None | t # ts \<Rightarrow> Some t)"

definition getTarget :: "mshr \<Rightarrow> target option" where
  "getTarget m = do { c_assert (hasTargets m); front_target (mh_targets m) }"

definition isCleaning :: "mshr \<Rightarrow> bool option" where
  "isCleaning m = do { t \<leftarrow> front_target (mh_targets m); Some (isClean (mk_cmd (t_pkt t))) }"

definition isPendingModified :: "mshr \<Rightarrow> bool option" where
  "isPendingModified m = do { c_assert (qe_inService m); Some (pendingModified m) }"

definition hasPostInvalidate :: "mshr \<Rightarrow> bool option" where
  "hasPostInvalidate m = do { c_assert (qe_inService m); Some (postInvalidate m) }"

definition hasPostDowngrade :: "mshr \<Rightarrow> bool option" where
  "hasPostDowngrade m = do { c_assert (qe_inService m); Some (postDowngrade m) }"

definition mh_isWholeLineWrite :: "mshr \<Rightarrow> bool" where
  "mh_isWholeLineWrite m = tl_isWholeLineWrite (mh_targets m)"

definition MSHR_allocate :: "u64 \<Rightarrow> u64 \<Rightarrow> nat \<Rightarrow> mpkt \<Rightarrow> u64 \<Rightarrow> u64 \<Rightarrow> bool \<Rightarrow> mshr \<Rightarrow> (mshr \<times> up_call list) option" where
  "MSHR_allocate now blk_addr blk_size pkt when_ready ord alloc_on_fill m = do {
     let m1 = m\<lparr>qe_blkAddr := blk_addr, qe_blkSize := blk_size, qe_isSecure := mk_secure pkt, qe_readyTime := when_ready,
                qe_order := ord, isForward := False, wasWholeLineWrite := False, qe_isUncacheable := mk_uncacheable pkt,
                qe_inService := False, downstreamPending := False,
                mh_targets := tl_init blk_addr blk_size (mh_targets m),
                deferredTargets := tl_init blk_addr blk_size (deferredTargets m)\<rparr>;
     let source = (if mk_cmd pkt = HardPFReq then FromPrefetcher else FromCPU);
     (l, cs) \<leftarrow> tl_add now pkt when_ready ord source True alloc_on_fill (mh_targets m1);
     f \<leftarrow> front_target l;
     c_assert (pkt_matchBlockAddr pkt (pkt_getBlockAddr (t_pkt f) blk_size) (mk_secure (t_pkt f)) blk_size);
     Some (m1\<lparr>mh_targets := l\<rparr>, cs)
   }"

definition set_downstreamPending :: "mshr \<Rightarrow> mshr option" where
  "set_downstreamPending m = do { c_assert (\<not> downstreamPending m); Some (m\<lparr>downstreamPending := True\<rparr>) }"

definition clearDownstreamPending :: "mshr \<Rightarrow> (mshr \<times> up_call list) option" where
  "clearDownstreamPending m = do {
     c_assert (downstreamPending m);
     let (l, cs) = tl_clearDownstreamPending (mh_targets m);
     Some (m\<lparr>downstreamPending := False, mh_targets := l\<rparr>, cs)
   }"

definition MSHR_markInService :: "bool \<Rightarrow> mshr \<Rightarrow> (mshr \<times> up_call list) option" where
  "MSHR_markInService pending_modified_resp m = do {
     c_assert (\<not> qe_inService m);
     let m1 = m\<lparr>qe_inService := True, pendingModified := (tl_needsWritable (mh_targets m) \<or> pending_modified_resp),
                postInvalidate := False, postDowngrade := False\<rparr>;
     let (l, cs) = (if \<not> downstreamPending m1 then tl_clearDownstreamPending (mh_targets m1) else (mh_targets m1, []));
     let m2 = m1\<lparr>mh_targets := l\<rparr>;
     Some (m2\<lparr>wasWholeLineWrite := mh_isWholeLineWrite m2\<rparr>, cs)
   }"

definition MSHR_deallocate :: "mshr \<Rightarrow> mshr option" where
  "MSHR_deallocate m = do {
     c_assert (tl_targets (mh_targets m) = []);
     let m1 = m\<lparr>mh_targets := resetFlags (mh_targets m)\<rparr>;
     c_assert (isReset (deferredTargets m1));
     Some (m1\<lparr>qe_inService := False\<rparr>)
   }"

definition allocateTarget :: "u64 \<Rightarrow> mpkt \<Rightarrow> u64 \<Rightarrow> u64 \<Rightarrow> bool \<Rightarrow> mshr \<Rightarrow> (mshr \<times> up_call list) option" where
  "allocateTarget now pkt whenReady ord alloc_on_fill m = do {
     c_assert (mk_cmd pkt \<noteq> HardPFReq);
     f \<leftarrow> front_target (mh_targets m);
     if isCacheMaintenance pkt \<or> isCacheMaintenance (t_pkt f) \<or> tl_targets (deferredTargets m) \<noteq> [] \<or>
        (qe_inService m \<and> (postInvalidate m \<or>
           (needsWritable (mk_cmd pkt) \<and> (\<not> pendingModified m \<or> postDowngrade m \<or> isForward m))))
     then do {
       pkt1 \<leftarrow> (if qe_inService m \<and> postInvalidate m then replaceUpgrade pkt else Some pkt);
       (l, cs) \<leftarrow> tl_add now pkt1 whenReady ord FromCPU True alloc_on_fill (deferredTargets m);
       Some (m\<lparr>deferredTargets := l\<rparr>, cs)
     }
     else do {
       (l, cs) \<leftarrow> tl_add now pkt whenReady ord FromCPU (\<not> qe_inService m) alloc_on_fill (mh_targets m);
       Some (m\<lparr>mh_targets := l\<rparr>, cs)
     }
   }"

subsection \<open>Snoops\<close>

text \<open>What a snoop sets in the snooping packet.\<close>

record snoop_marks =
  sn_cacheResponding :: bool
  sn_responderHadWritable :: bool
  sn_satisfied :: bool
  sn_hasSharers :: bool

definition no_marks :: snoop_marks where
  "no_marks = \<lparr>sn_cacheResponding = False, sn_responderHadWritable = False, sn_satisfied = False, sn_hasSharers = False\<rparr>"

definition snoop_copy :: "bool \<Rightarrow> nat \<Rightarrow> mpkt \<Rightarrow> mpkt" where
  "snoop_copy will_respond blk_size pkt =
     (if will_respond then pkt\<lparr>mk_expressSnoop := False\<rparr>
      else pkt\<lparr>mk_addr := pkt_getBlockAddr pkt blk_size, mk_size := blk_size, mk_expressSnoop := False, mk_upstream := None\<rparr>)"

text \<open>The snoop joins the targets, to be replayed after the response.\<close>

definition save_snoop :: "u64 \<Rightarrow> mpkt \<Rightarrow> u64 \<Rightarrow> bool \<Rightarrow> mshr \<Rightarrow> (mshr \<times> up_call list) option" where
  "save_snoop now pkt ord will_respond m = do {
     (l, cs) \<leftarrow> tl_add now (snoop_copy will_respond (qe_blkSize m) pkt) now ord FromSnoop
                 (downstreamPending m \<and> tl_needsWritable (mh_targets m)) False (mh_targets m);
     let m1 = m\<lparr>mh_targets := l\<rparr>;
     Some (if needsWritable (mk_cmd pkt) \<or> isInvalidate (mk_cmd pkt) then m1\<lparr>postInvalidate := True\<rparr> else m1, cs)
   }"

text \<open>The part of \<open>handleSnoop\<close> for a request that comes after the one in service.\<close>

definition snoop_in_service :: "u64 \<Rightarrow> mpkt \<Rightarrow> u64 \<Rightarrow> mshr \<Rightarrow> (bool \<times> snoop_marks \<times> mshr \<times> up_call list) option" where
  "snoop_in_service now pkt ord m = do {
     let c = mk_cmd pkt;
     let will_respond = (pendingModified m \<and> needsResponse c \<and> \<not> isClean c);
     let saves = (pendingModified m \<or> isInvalidate c);
     let downgrades = (\<not> needsWritable c \<and> \<not> mk_uncacheable pkt);
     (m1, cs) \<leftarrow> (if saves then save_snoop now pkt ord will_respond m else Some (m, []));
     Some (will_respond,
           \<lparr>sn_cacheResponding = (saves \<and> will_respond), sn_responderHadWritable = (saves \<and> will_respond),
            sn_satisfied = (saves \<and> \<not> will_respond \<and> pendingModified m \<and> isClean c), sn_hasSharers = downgrades\<rparr>,
           if downgrades then m1\<lparr>postDowngrade := True\<rparr> else m1, cs)
   }"

definition handleSnoop :: "u64 \<Rightarrow> mpkt \<Rightarrow> u64 \<Rightarrow> mshr \<Rightarrow> (bool \<times> snoop_marks \<times> mshr \<times> up_call list) option" where
  "handleSnoop now pkt ord m = do {
     let c = mk_cmd pkt;
     let takes = (needsWritable c \<or> mk_cacheInvalidate pkt);
     c_assert (\<not> (needsWritable c \<noteq> isInvalidate c \<and> \<not> isCacheMaintenance pkt));
     if \<not> qe_inService m \<or> (mk_expressSnoop pkt \<and> downstreamPending m) then do {
       m1 \<leftarrow> (if takes then do {
                l \<leftarrow> replaceUpgrades (mh_targets m);
                d \<leftarrow> replaceUpgrades (deferredTargets m);
                Some (m\<lparr>mh_targets := l, deferredTargets := d\<rparr>)
              } else Some m);
       Some (False, no_marks, m1, [])
     }
     else do {
       d \<leftarrow> (if takes then replaceUpgrades (deferredTargets m) else Some (deferredTargets m));
       let m1 = m\<lparr>deferredTargets := d\<rparr>;
       f \<leftarrow> front_target (mh_targets m1);
       if postInvalidate m1 \<or> mk_cacheInvalidate (t_pkt f) then Some (True, no_marks, m1, [])
       else snoop_in_service now pkt ord m1
     }
   }"

subsection \<open>Serving and promoting targets\<close>

definition extractServiceableTargets :: "MemCmd \<Rightarrow> mshr \<Rightarrow> (TargetList \<times> mshr) option" where
  "extractServiceableTargets c m = do {
     let l = mh_targets m;
     let fresh = tl_init (qe_blkAddr m) (qe_blkSize m) TargetList_new;
     if c = ReadRespWithInvalidate then do {
       f \<leftarrow> front_target l;
       c_assert (t_source f = FromCPU \<or> t_source f = FromPrefetcher);
       let others = tl (tl_targets l);
       c_assert (list_all (\<lambda>t. t_source t = FromCPU \<or> t_source t = FromSnoop) others);
       ready \<leftarrow> populateFlags (fresh\<lparr>tl_targets := f # filter (\<lambda>t. t_source t \<noteq> FromCPU) others\<rparr>);
       l1 \<leftarrow> populateFlags (l\<lparr>tl_targets := filter (\<lambda>t. t_source t = FromCPU) others\<rparr>);
       Some (ready, m\<lparr>mh_targets := l1\<rparr>)
     }
     else do {
       l1 \<leftarrow> populateFlags fresh;
       Some (l, m\<lparr>mh_targets := l1\<rparr>)
     }
   }"

definition promoteDeferredTargets :: "u64 \<Rightarrow> mshr \<Rightarrow> (bool \<times> mshr) option" where
  "promoteDeferredTargets now m =
     (let ts = tl_targets (mh_targets m); ds = tl_targets (deferredTargets m) in
      if ts = [] \<and> ds = [] then Some (False, m)
      else do {
        let it = find_index (\<lambda>t. isCacheMaintenance (t_pkt t)) ds;
        let k = (if it = 0 then (if ts = [] then 1 else 0) else it);
        d \<leftarrow> populateFlags ((deferredTargets m)\<lparr>tl_targets := drop k ds\<rparr>);
        l \<leftarrow> populateFlags ((mh_targets m)\<lparr>tl_targets := ts @ take k ds\<rparr>);
        f \<leftarrow> front_target l;
        Some (True, m\<lparr>mh_targets := l, deferredTargets := d, qe_order := t_order f, qe_readyTime := max now (t_readyTime f)\<rparr>)
      })"

text \<open>The condition asserts that the deferred targets it looks at come from the processor side.\<close>

definition promoteIf :: "(target \<Rightarrow> bool) \<Rightarrow> mshr \<Rightarrow> (mshr \<times> up_call list) option" where
  "promoteIf pred m = do {
     c_assert (\<not> downstreamPending m);
     let ds = tl_targets (deferredTargets m);
     let k = find_index (\<lambda>t. \<not> pred t) ds;
     c_assert (list_all (\<lambda>t. t_source t = FromCPU) (take (Suc k) ds));
     let (ps, cs) = clear_pending (take k ds);
     d \<leftarrow> populateFlags ((deferredTargets m)\<lparr>tl_targets := drop k ds\<rparr>);
     Some (m\<lparr>mh_targets := (mh_targets m)\<lparr>tl_targets := tl_targets (mh_targets m) @ ps\<rparr>, deferredTargets := d\<rparr>, cs)
   }"

definition promoteReadable :: "mshr \<Rightarrow> (mshr \<times> up_call list) option" where
  "promoteReadable m =
     (if tl_targets (deferredTargets m) = [] then Some (m, [])
      else do {
        pi \<leftarrow> hasPostInvalidate m;
        if pi then Some (m, [])
        else promoteIf (\<lambda>t. \<not> mk_cacheInvalidate (t_pkt t) \<and> \<not> needsWritable (mk_cmd (t_pkt t))) m
      })"

text \<open>
  The code reads the front of the deferred targets before it knows that there is one; the value is used only if the
  flag says that there is.
\<close>

definition promoteWritable :: "mshr \<Rightarrow> (mshr \<times> up_call list) option" where
  "promoteWritable m =
     (if \<not> tl_needsWritable (deferredTargets m) then Some (m, [])
      else do {
        pi \<leftarrow> hasPostInvalidate m;
        pd \<leftarrow> hasPostDowngrade m;
        f \<leftarrow> front_target (deferredTargets m);
        if pi \<or> pd \<or> mk_cacheInvalidate (t_pkt f) then Some (m, [])
        else do {
          c_assert (\<not> tl_needsWritable (mh_targets m));
          promoteIf (\<lambda>t. \<not> mk_cacheInvalidate (t_pkt t)) (m\<lparr>mh_targets := (mh_targets m)\<lparr>tl_needsWritable := True\<rparr>\<rparr>)
        }
      })"

definition popTarget :: "mshr \<Rightarrow> mshr option" where
  "popTarget m =
     (case tl_targets (mh_targets m) of
        [] \<Rightarrow> None
      | t # ts \<Rightarrow> Some (m\<lparr>mh_targets := (mh_targets m)\<lparr>tl_targets := ts\<rparr>\<rparr>))"

definition MSHR_delay :: "u64 \<Rightarrow> u64 \<Rightarrow> mshr \<Rightarrow> mshr option" where
  "MSHR_delay now delay_ticks m = do { c_assert (qe_readyTime m \<le> now); Some (m\<lparr>qe_readyTime := now + delay_ticks\<rparr>) }"

definition MSHR_matchBlockAddr :: "u64 \<Rightarrow> bool \<Rightarrow> mshr \<Rightarrow> bool option" where
  "MSHR_matchBlockAddr addr is_secure m = do {
     c_assert (hasTargets m);
     Some (qe_blkAddr m = addr \<and> qe_isSecure m = is_secure)
   }"

subsection \<open>Well-formed lists and their flags\<close>

definition pkt_fits :: "nat \<Rightarrow> mpkt \<Rightarrow> bool" where
  "pkt_fits n p \<longleftrightarrow> getOffset p n + mk_size p \<le> n"

definition wants_writable :: "target \<Rightarrow> bool" where
  "wants_writable t \<longleftrightarrow> t_source t \<noteq> FromSnoop \<and> needsWritable (mk_cmd (t_pkt t))"

definition list_ok :: "nat \<Rightarrow> TargetList \<Rightarrow> bool" where
  "list_ok n l \<longleftrightarrow> length (writesBitmap l) = n \<and> tl_blkSize l = n \<and>
     (\<forall>t \<in> set (tl_targets l). t_source t \<noteq> FromSnoop \<longrightarrow> pkt_fits n (t_pkt t))"

text \<open>The flag never hides a target that needs a writable block.\<close>

definition nw_sound :: "TargetList \<Rightarrow> bool" where
  "nw_sound l \<longleftrightarrow> (\<forall>t \<in> set (tl_targets l). wants_writable t \<longrightarrow> tl_needsWritable l)"

lemma fill_bitmap_ok: "offset + n \<le> length bm \<Longrightarrow> \<exists>bm'. fill_bitmap offset n bm = Some bm' \<and> length bm' = length bm"
  by (simp add: fill_bitmap_def)

lemma updateWriteFlags_ok:
  assumes "length (writesBitmap l) = n" "tl_blkSize l = n" "pkt_fits n pkt"
  shows "\<exists>l'. updateWriteFlags pkt l = Some l' \<and> length (writesBitmap l') = n \<and> tl_blkSize l' = n \<and>
    tl_targets l' = tl_targets l \<and> tl_needsWritable l' = tl_needsWritable l"
proof -
  obtain bm where bm: "fill_bitmap (getOffset pkt (tl_blkSize l)) (mk_size pkt) (writesBitmap l) = Some bm" "length bm = n"
    using fill_bitmap_ok assms unfolding pkt_fits_def by metis
  then show ?thesis using assms by (simp add: updateWriteFlags_def Let_def)
qed

lemma updateFlags_ok:
  assumes "length (writesBitmap l) = n" "tl_blkSize l = n" "source \<noteq> FromSnoop \<longrightarrow> pkt_fits n pkt"
  shows "\<exists>l'. updateFlags pkt source al l = Some l' \<and> length (writesBitmap l') = n \<and> tl_blkSize l' = n \<and>
    tl_targets l' = tl_targets l \<and> tl_needsWritable l' = (tl_needsWritable l \<or> source \<noteq> FromSnoop \<and> needsWritable (mk_cmd pkt))"
proof (cases "source = FromCPU")
  case True
  define l1 where "l1 = l\<lparr>tl_needsWritable := tl_needsWritable l \<or> needsWritable (mk_cmd pkt),
      tl_hasUpgrade := tl_hasUpgrade l \<or> isUpgrade (mk_cmd pkt) \<or> mk_cmd pkt = StoreCondReq,
      tl_allocOnFill := tl_allocOnFill l \<or> al, tl_hasFromCache := tl_hasFromCache l \<or> fromCache (mk_cmd pkt)\<rparr>"
  have "length (writesBitmap l1) = n" "tl_blkSize l1 = n" "pkt_fits n pkt" using assms True by (simp_all add: l1_def)
  from updateWriteFlags_ok [OF this] obtain l' where "updateWriteFlags pkt l1 = Some l'" "length (writesBitmap l') = n" "tl_blkSize l' = n"
    "tl_targets l' = tl_targets l1" "tl_needsWritable l' = tl_needsWritable l1" by blast
  then show ?thesis using True by (simp add: updateFlags_def l1_def Let_def)
next
  case False
  then show ?thesis using assms by (cases source) (simp_all add: updateFlags_def Let_def)
qed

lemma update_all_ok:
  assumes "length (writesBitmap l) = n" "tl_blkSize l = n" "\<forall>t \<in> set ts. t_source t \<noteq> FromSnoop \<longrightarrow> pkt_fits n (t_pkt t)"
  shows "\<exists>l'. update_all ts l = Some l' \<and> length (writesBitmap l') = n \<and> tl_blkSize l' = n \<and>
    tl_targets l' = tl_targets l \<and> tl_needsWritable l' = (tl_needsWritable l \<or> (\<exists>t \<in> set ts. wants_writable t))"
  using assms
proof (induction ts arbitrary: l)
  case (Cons t ts)
  have "t_source t \<noteq> FromSnoop \<longrightarrow> pkt_fits n (t_pkt t)" using Cons.prems(3) by simp
  from updateFlags_ok [OF Cons.prems(1,2) this, of "t_allocOnFill t"] obtain l1 where
    l1: "updateFlags (t_pkt t) (t_source t) (t_allocOnFill t) l = Some l1" "length (writesBitmap l1) = n" "tl_blkSize l1 = n"
    "tl_targets l1 = tl_targets l" "tl_needsWritable l1 = (tl_needsWritable l \<or> wants_writable t)"
    unfolding wants_writable_def by blast
  have "\<forall>t \<in> set ts. t_source t \<noteq> FromSnoop \<longrightarrow> pkt_fits n (t_pkt t)" using Cons.prems(3) by simp
  from Cons.IH [OF l1(2,3) this] show ?case using l1 by auto
qed simp

lemma populate_ok:
  assumes "list_ok n l"
  shows "\<exists>l'. populateFlags l = Some l' \<and> list_ok n l' \<and> nw_sound l' \<and> tl_targets l' = tl_targets l \<and> (tl_targets l = [] \<longrightarrow> isReset l')"
proof -
  have "length (writesBitmap (resetFlags l)) = n" "tl_blkSize (resetFlags l) = n" "\<forall>t \<in> set (tl_targets l). t_source t \<noteq> FromSnoop \<longrightarrow> pkt_fits n (t_pkt t)"
    using assms by (simp_all add: list_ok_def resetFlags_def)
  from update_all_ok [OF this] show ?thesis using assms
    by (cases "tl_targets l") (auto simp: populateFlags_def list_ok_def nw_sound_def resetFlags_def isReset_def)
qed

lemma list_ok_targets: "list_ok n l \<Longrightarrow> set ts \<subseteq> set (tl_targets l) \<Longrightarrow> list_ok n (l\<lparr>tl_targets := ts\<rparr>)"
  by (auto simp: list_ok_def)

lemma tl_init_ok: "tl_targets l = [] \<Longrightarrow> list_ok n (tl_init a n l) \<and> nw_sound (tl_init a n l) \<and> tl_targets (tl_init a n l) = []"
  by (auto simp: tl_init_def resetFlags_def list_ok_def nw_sound_def)

lemma tl_add_ok:
  assumes "list_ok n l" "nw_sound l" "source \<noteq> FromSnoop \<longrightarrow> pkt_fits n pkt"
  shows "\<exists>l' cs t. tl_add now pkt ready ord source mp al l = Some (l', cs) \<and> list_ok n l' \<and> nw_sound l' \<and>
    tl_targets l' = tl_targets l @ [t] \<and> t_pkt t = pkt \<and> t_source t = source"
proof -
  obtain l1 where l1: "updateFlags pkt source al l = Some l1" "length (writesBitmap l1) = n" "tl_blkSize l1 = n" "tl_targets l1 = tl_targets l"
    "tl_needsWritable l1 = (tl_needsWritable l \<or> source \<noteq> FromSnoop \<and> needsWritable (mk_cmd pkt))"
    using updateFlags_ok [of l n source pkt al] assms by (auto simp: list_ok_def)
  let ?up = "if mp then mk_upstream pkt else None"
  let ?t = "\<lparr>t_pkt = pkt, t_recvTime = now, t_readyTime = ready, t_order = ord, t_source = source, t_markedPending = (?up \<noteq> None), t_allocOnFill = al\<rparr>"
  have "tl_add now pkt ready ord source mp al l = Some (l1\<lparr>tl_targets := tl_targets l @ [?t]\<rparr>, case ?up of None \<Rightarrow> [] | Some m \<Rightarrow> [Up_set m])"
    unfolding tl_add_def Let_def using l1(1,4) by simp
  moreover have "list_ok n (l1\<lparr>tl_targets := tl_targets l @ [?t]\<rparr>)" using l1(2,3) assms(1,3) by (auto simp: list_ok_def)
  moreover have "nw_sound (l1\<lparr>tl_targets := tl_targets l @ [?t]\<rparr>)" using l1(5) assms(2) by (auto simp: nw_sound_def wants_writable_def)
  moreover have "tl_targets (l1\<lparr>tl_targets := tl_targets l @ [?t]\<rparr>) = tl_targets l @ [?t]" "t_pkt ?t = pkt" "t_source ?t = source" by simp_all
  ultimately show ?thesis by metis
qed

text \<open>Replacing an upgrade keeps what the lists look at.\<close>

definition same_request :: "target \<Rightarrow> target \<Rightarrow> bool" where
  "same_request t u \<longleftrightarrow> t_source u = t_source t \<and> mk_id (t_pkt u) = mk_id (t_pkt t) \<and> mk_addr (t_pkt u) = mk_addr (t_pkt t) \<and>
     mk_size (t_pkt u) = mk_size (t_pkt t) \<and> needsWritable (mk_cmd (t_pkt u)) = needsWritable (mk_cmd (t_pkt t))"

lemma replaceUpgrade_ok:
  "\<exists>q. replaceUpgrade p = Some q \<and> mk_id q = mk_id p \<and> mk_addr q = mk_addr p \<and> mk_size q = mk_size p \<and>
     needsWritable (mk_cmd q) = needsWritable (mk_cmd p)"
  by (auto simp: replaceUpgrade_def Let_def cmd_attribs)

lemma replace_all_ok: "\<exists>us. replace_all ts = Some us \<and> list_all2 same_request ts us"
proof (induction ts)
  case (Cons t ts)
  obtain q where q: "replaceUpgrade (t_pkt t) = Some q" "mk_id q = mk_id (t_pkt t)" "mk_addr q = mk_addr (t_pkt t)" "mk_size q = mk_size (t_pkt t)"
    "needsWritable (mk_cmd q) = needsWritable (mk_cmd (t_pkt t))" using replaceUpgrade_ok by blast
  then have "same_request t (t\<lparr>t_pkt := q\<rparr>)" by (simp add: same_request_def)
  then show ?case using q(1) Cons.IH by auto
qed simp

lemma same_request_list:
  assumes "list_all2 same_request (tl_targets l) us"
  shows "list_ok n l \<Longrightarrow> list_ok n (l\<lparr>tl_targets := us\<rparr>)" "nw_sound l \<Longrightarrow> nw_sound (l\<lparr>tl_targets := us\<rparr>)"
    "map (\<lambda>t. mk_id (t_pkt t)) us = map (\<lambda>t. mk_id (t_pkt t)) (tl_targets l)" "map t_source us = map t_source (tl_targets l)"
proof -
  have pair: "\<exists>t \<in> set (tl_targets l). same_request t u" if u: "u \<in> set us" for u
  proof -
    obtain i where "i < length us" "u = us ! i" using u by (auto simp: in_set_conv_nth)
    then have "tl_targets l ! i \<in> set (tl_targets l)" "same_request (tl_targets l ! i) u" using assms by (simp_all add: list_all2_conv_all_nth)
    then show ?thesis by blast
  qed
  show "list_ok n (l\<lparr>tl_targets := us\<rparr>)" if "list_ok n l"
    using that pair unfolding list_ok_def same_request_def pkt_fits_def getOffset_def by fastforce
  show "nw_sound (l\<lparr>tl_targets := us\<rparr>)" if "nw_sound l"
    using that pair unfolding nw_sound_def wants_writable_def same_request_def by fastforce
  show "map (\<lambda>t. mk_id (t_pkt t)) us = map (\<lambda>t. mk_id (t_pkt t)) (tl_targets l)" "map t_source us = map t_source (tl_targets l)"
    using assms by (auto simp: list_all2_conv_all_nth same_request_def intro!: nth_equalityI)
qed

lemma replaceUpgrades_ok:
  assumes "list_ok n l" "nw_sound l"
  shows "\<exists>l'. replaceUpgrades l = Some l' \<and> list_ok n l' \<and> nw_sound l' \<and>
    map (\<lambda>t. mk_id (t_pkt t)) (tl_targets l') = map (\<lambda>t. mk_id (t_pkt t)) (tl_targets l) \<and> map t_source (tl_targets l') = map t_source (tl_targets l)"
proof (cases "tl_hasUpgrade l")
  case True
  obtain us where us: "replace_all (tl_targets l) = Some us" "list_all2 same_request (tl_targets l) us" using replace_all_ok by blast
  note S = same_request_list [OF us(2)]
  have "list_ok n (l\<lparr>tl_targets := us, tl_hasUpgrade := False\<rparr>)" "nw_sound (l\<lparr>tl_targets := us, tl_hasUpgrade := False\<rparr>)"
    using S(1) [OF assms(1)] S(2) [OF assms(2)] by (simp_all add: list_ok_def nw_sound_def)
  then show ?thesis using True us(1) S(3,4) by (simp add: replaceUpgrades_def)
qed (use assms in \<open>simp add: replaceUpgrades_def\<close>)

lemma clear_pending_same: "list_all2 same_request ts (fst (clear_pending ts))"
  by (induction ts) (auto simp: Let_def case_prod_beta same_request_def)

lemma clear_pending_list:
  assumes "tl_clearDownstreamPending l = (l', cs)"
  shows "list_ok n l \<Longrightarrow> list_ok n l'" "nw_sound l \<Longrightarrow> nw_sound l'"
    "map (\<lambda>t. mk_id (t_pkt t)) (tl_targets l') = map (\<lambda>t. mk_id (t_pkt t)) (tl_targets l)" "map t_source (tl_targets l') = map t_source (tl_targets l)"
proof -
  have l': "l' = l\<lparr>tl_targets := fst (clear_pending (tl_targets l))\<rparr>" using assms by (simp add: tl_clearDownstreamPending_def case_prod_beta)
  note S = same_request_list [OF clear_pending_same [of "tl_targets l"]]
  show "list_ok n l \<Longrightarrow> list_ok n l'" "nw_sound l \<Longrightarrow> nw_sound l'"
    "map (\<lambda>t. mk_id (t_pkt t)) (tl_targets l') = map (\<lambda>t. mk_id (t_pkt t)) (tl_targets l)" "map t_source (tl_targets l') = map t_source (tl_targets l)"
    using S unfolding l' by simp_all
qed

subsection \<open>The register as a queue of requests\<close>

definition ids :: "TargetList \<Rightarrow> nat list" where
  "ids l = map (\<lambda>t. mk_id (t_pkt t)) (tl_targets l)"

text \<open>The requests that wait, in the order in which they will be served.\<close>

definition pending :: "mshr \<Rightarrow> nat list" where
  "pending m = ids (mh_targets m) @ ids (deferredTargets m)"

definition sources_ok :: "Source list \<Rightarrow> bool" where
  "sources_ok ss \<longleftrightarrow> (ss \<noteq> [] \<longrightarrow> hd ss \<noteq> FromSnoop \<and> FromPrefetcher \<notin> set (tl ss))"

definition no_snoops :: "Source list \<Rightarrow> bool" where
  "no_snoops ss \<longleftrightarrow> FromSnoop \<notin> set ss"

definition mshr_ok :: "mshr \<Rightarrow> bool" where
  "mshr_ok m \<longleftrightarrow> list_ok (qe_blkSize m) (mh_targets m) \<and> nw_sound (mh_targets m) \<and> sources_ok (map t_source (tl_targets (mh_targets m))) \<and>
     list_ok (qe_blkSize m) (deferredTargets m) \<and> nw_sound (deferredTargets m) \<and>
     set (map t_source (tl_targets (deferredTargets m))) \<subseteq> {FromCPU} \<and>
     (tl_targets (deferredTargets m) = [] \<longrightarrow> isReset (deferredTargets m)) \<and>
     (\<not> qe_inService m \<longrightarrow> no_snoops (map t_source (tl_targets (mh_targets m))))"

lemma front_target_hd: "tl_targets l \<noteq> [] \<Longrightarrow> front_target l = Some (hd (tl_targets l))"
  by (cases "tl_targets l") (simp_all add: front_target_def)

lemma no_snoops_simps [simp]: "no_snoops []" "no_snoops (s # ss) \<longleftrightarrow> s \<noteq> FromSnoop \<and> no_snoops ss" "no_snoops (ss @ us) \<longleftrightarrow> no_snoops ss \<and> no_snoops us"
  by (auto simp: no_snoops_def)

lemma no_snoops_CPU: "set ss \<subseteq> {FromCPU} \<Longrightarrow> no_snoops ss"
  by (auto simp: no_snoops_def)

lemma sources_ok_append: "sources_ok ss \<Longrightarrow> FromPrefetcher \<notin> set us \<Longrightarrow> ss = [] \<longrightarrow> FromSnoop \<notin> set us \<Longrightarrow> sources_ok (ss @ us)"
  by (cases ss; cases us) (auto simp: sources_ok_def)

lemma mshr_allocate_ok:
  assumes "tl_targets (mh_targets m) = []" "tl_targets (deferredTargets m) = []" "pkt_fits blk_size pkt"
  shows "\<exists>m' cs. MSHR_allocate now blk_addr blk_size pkt when_ready ord al m = Some (m', cs) \<and> mshr_ok m' \<and> pending m' = [mk_id pkt]"
proof -
  let ?src = "if mk_cmd pkt = HardPFReq then FromPrefetcher else FromCPU"
  note I = tl_init_ok [OF assms(1), of blk_size blk_addr] and D = tl_init_ok [OF assms(2), of blk_size blk_addr]
  obtain l' cs t where l': "tl_add now pkt when_ready ord ?src True al (tl_init blk_addr blk_size (mh_targets m)) = Some (l', cs)"
    "list_ok blk_size l'" "nw_sound l'" "tl_targets l' = [t]" "t_pkt t = pkt" "t_source t = ?src"
    using tl_add_ok [OF conjunct1 [OF I] conjunct1 [OF conjunct2 [OF I]], of ?src pkt now when_ready ord True al] assms(3) I by fastforce
  have nw: "isReset (tl_init blk_addr blk_size (deferredTargets m))" by (simp add: tl_init_def resetFlags_def isReset_def)
  show ?thesis using l' D nw assms(1)
    by (simp add: MSHR_allocate_def front_target_def pkt_matchBlockAddr_def mshr_ok_def sources_ok_def pending_def ids_def)
qed

lemma allocateTarget_ok:
  assumes "mshr_ok m" "mk_cmd pkt \<noteq> HardPFReq" "tl_targets (mh_targets m) \<noteq> []" "pkt_fits (qe_blkSize m) pkt"
  shows "\<exists>m' cs. allocateTarget now pkt when_ready ord al m = Some (m', cs) \<and> mshr_ok m' \<and> pending m' = pending m @ [mk_id pkt]"
proof -
  obtain f where f: "front_target (mh_targets m) = Some f" using front_target_hd [OF assms(3)] by blast
  let ?defer = "isCacheMaintenance pkt \<or> isCacheMaintenance (t_pkt f) \<or> tl_targets (deferredTargets m) \<noteq> [] \<or>
        (qe_inService m \<and> (postInvalidate m \<or> (needsWritable (mk_cmd pkt) \<and> (\<not> pendingModified m \<or> postDowngrade m \<or> isForward m))))"
  show ?thesis
  proof (cases ?defer)
    case True
    obtain p where p: "(if qe_inService m \<and> postInvalidate m then replaceUpgrade pkt else Some pkt) = Some p"
      "mk_id p = mk_id pkt" "mk_addr p = mk_addr pkt" "mk_size p = mk_size pkt"
      using replaceUpgrade_ok [of pkt] by (cases "qe_inService m \<and> postInvalidate m") auto
    have fits: "FromCPU \<noteq> FromSnoop \<longrightarrow> pkt_fits (qe_blkSize m) p" using assms(4) p by (simp add: pkt_fits_def getOffset_def)
    have D: "list_ok (qe_blkSize m) (deferredTargets m)" "nw_sound (deferredTargets m)" using assms(1) by (simp_all add: mshr_ok_def)
    from tl_add_ok [OF D fits] obtain l' cs t where l': "tl_add now p when_ready ord FromCPU True al (deferredTargets m) = Some (l', cs)"
      "list_ok (qe_blkSize m) l'" "nw_sound l'" "tl_targets l' = tl_targets (deferredTargets m) @ [t]" "t_pkt t = p" "t_source t = FromCPU" by blast
    have "allocateTarget now pkt when_ready ord al m = Some (m\<lparr>deferredTargets := l'\<rparr>, cs)"
      using True f p(1) l'(1) assms(2) by (simp add: allocateTarget_def)
    moreover have "mshr_ok (m\<lparr>deferredTargets := l'\<rparr>)" using assms(1) l' by (simp add: mshr_ok_def)
    moreover have "pending (m\<lparr>deferredTargets := l'\<rparr>) = pending m @ [mk_id pkt]" using l' p(2) by (simp add: pending_def ids_def)
    ultimately show ?thesis by blast
  next
    case False
    have fits: "FromCPU \<noteq> FromSnoop \<longrightarrow> pkt_fits (qe_blkSize m) pkt" using assms(4) by simp
    have D: "list_ok (qe_blkSize m) (mh_targets m)" "nw_sound (mh_targets m)" using assms(1) by (simp_all add: mshr_ok_def)
    from tl_add_ok [OF D fits] obtain l' cs t where l': "tl_add now pkt when_ready ord FromCPU (\<not> qe_inService m) al (mh_targets m) = Some (l', cs)"
      "list_ok (qe_blkSize m) l'" "nw_sound l'" "tl_targets l' = tl_targets (mh_targets m) @ [t]" "t_pkt t = pkt" "t_source t = FromCPU" by blast
    have "allocateTarget now pkt when_ready ord al m = Some (m\<lparr>mh_targets := l'\<rparr>, cs)"
      using False f l'(1) assms(2) by (auto simp: allocateTarget_def)
    moreover have "mshr_ok (m\<lparr>mh_targets := l'\<rparr>)" using assms(1) l' by (simp add: mshr_ok_def sources_ok_append)
    moreover have "pending (m\<lparr>mh_targets := l'\<rparr>) = pending m @ [mk_id pkt]" using False l' by (simp add: pending_def ids_def)
    ultimately show ?thesis by blast
  qed
qed

lemma markInService_ok:
  assumes "mshr_ok m" "\<not> qe_inService m"
  shows "\<exists>m' cs. MSHR_markInService pm m = Some (m', cs) \<and> mshr_ok m' \<and> pending m' = pending m"
proof -
  obtain l cs where l: "(if \<not> downstreamPending m then tl_clearDownstreamPending (mh_targets m) else (mh_targets m, [])) = (l, cs)" by fastforce
  have "list_ok (qe_blkSize m) l \<and> nw_sound l \<and> map t_source (tl_targets l) = map t_source (tl_targets (mh_targets m)) \<and> ids l = ids (mh_targets m)"
  proof (cases "downstreamPending m")
    case False
    then have "tl_clearDownstreamPending (mh_targets m) = (l, cs)" using l by simp
    from clear_pending_list [OF this] show ?thesis using assms(1) by (simp add: mshr_ok_def ids_def)
  qed (use l assms(1) in \<open>simp add: mshr_ok_def\<close>)
  moreover define m' where "m' = m\<lparr>qe_inService := True, pendingModified := (tl_needsWritable (mh_targets m) \<or> pm),
      postInvalidate := False, postDowngrade := False, mh_targets := l\<rparr>"
  moreover have "MSHR_markInService pm m = Some (m'\<lparr>wasWholeLineWrite := mh_isWholeLineWrite m'\<rparr>, cs)"
    using l assms(2) unfolding MSHR_markInService_def m'_def Let_def by (cases "downstreamPending m") (simp_all split: prod.splits)
  ultimately show ?thesis using assms(1) by (simp add: mshr_ok_def pending_def ids_def)
qed

lemma clearDownstream_ok:
  assumes "mshr_ok m" "downstreamPending m"
  shows "\<exists>m' cs. clearDownstreamPending m = Some (m', cs) \<and> mshr_ok m' \<and> pending m' = pending m"
proof -
  obtain l cs where l: "tl_clearDownstreamPending (mh_targets m) = (l, cs)" by fastforce
  from clear_pending_list [OF this] show ?thesis using l assms by (simp add: clearDownstreamPending_def mshr_ok_def pending_def ids_def)
qed

text \<open>A snoop leaves the requests as they are or adds itself behind the targets.\<close>

definition inserted :: "nat \<Rightarrow> nat list \<Rightarrow> nat list \<Rightarrow> bool" where
  "inserted x q q' \<longleftrightarrow> q' = q \<or> (\<exists>us vs. q = us @ vs \<and> q' = us @ x # vs)"

lemma inserted_refl [simp]: "inserted x q q"
  by (simp add: inserted_def)

lemma save_snoop_ok:
  assumes "mshr_ok m" "tl_targets (mh_targets m) \<noteq> []" "qe_inService m"
  shows "\<exists>m' cs. save_snoop now pkt ord wr m = Some (m', cs) \<and> mshr_ok m' \<and> inserted (mk_id pkt) (pending m) (pending m')"
proof -
  let ?p = "snoop_copy wr (qe_blkSize m) pkt"
  have D: "list_ok (qe_blkSize m) (mh_targets m)" "nw_sound (mh_targets m)" using assms(1) by (simp_all add: mshr_ok_def)
  obtain l cs t where l: "tl_add now ?p now ord FromSnoop (downstreamPending m \<and> tl_needsWritable (mh_targets m)) False (mh_targets m) = Some (l, cs)"
    "list_ok (qe_blkSize m) l" "nw_sound l" "tl_targets l = tl_targets (mh_targets m) @ [t]" "t_pkt t = ?p" "t_source t = FromSnoop"
    using tl_add_ok [OF D, of FromSnoop] by blast
  have "sources_ok (map t_source (tl_targets l))" using assms l(4,6) by (simp add: mshr_ok_def sources_ok_append)
  then have ok: "mshr_ok (m\<lparr>mh_targets := l\<rparr>)" using assms(1,3) l(2,3) by (simp add: mshr_ok_def)
  have "mk_id ?p = mk_id pkt" by (simp add: snoop_copy_def)
  then have ins: "inserted (mk_id pkt) (pending m) (pending (m\<lparr>mh_targets := l\<rparr>))" using l(4,5) by (auto simp: inserted_def pending_def ids_def)
  show ?thesis using l(1) ok ins by (simp add: save_snoop_def mshr_ok_def pending_def Let_def)
qed

lemma snoop_in_service_ok:
  assumes "mshr_ok m" "tl_targets (mh_targets m) \<noteq> []" "qe_inService m"
  shows "\<exists>b ms m' cs. snoop_in_service now pkt ord m = Some (b, ms, m', cs) \<and> mshr_ok m' \<and> inserted (mk_id pkt) (pending m) (pending m')"
proof -
  define wr where "wr = (pendingModified m \<and> needsResponse (mk_cmd pkt) \<and> \<not> isClean (mk_cmd pkt))"
  obtain m' cs where "(if pendingModified m \<or> isInvalidate (mk_cmd pkt) then save_snoop now pkt ord wr m else Some (m, [])) = Some (m', cs)"
    "mshr_ok m'" "inserted (mk_id pkt) (pending m) (pending m')"
    using save_snoop_ok [OF assms, of now pkt ord wr] assms(1) by (cases "pendingModified m \<or> isInvalidate (mk_cmd pkt)") auto
  then show ?thesis unfolding snoop_in_service_def Let_def wr_def [symmetric] by (simp add: mshr_ok_def pending_def)
qed

lemma replace_deferred_ok:
  assumes "mshr_ok m" "replaceUpgrades (deferredTargets m) = Some d"
  shows "mshr_ok (m\<lparr>deferredTargets := d\<rparr>) \<and> ids d = ids (deferredTargets m)"
proof -
  have D: "list_ok (qe_blkSize m) (deferredTargets m)" "nw_sound (deferredTargets m)" using assms(1) by (simp_all add: mshr_ok_def)
  have nw: "isReset (deferredTargets m) \<Longrightarrow> isReset d" using assms(2)
    by (auto simp: replaceUpgrades_def isReset_def split: if_splits bind_splits)
  from replaceUpgrades_ok [OF D] assms(2) have d: "list_ok (qe_blkSize m) d" "nw_sound d" "ids d = ids (deferredTargets m)"
    "map t_source (tl_targets d) = map t_source (tl_targets (deferredTargets m))" by (simp_all add: ids_def)
  from d(4) have "tl_targets d = [] \<longleftrightarrow> tl_targets (deferredTargets m) = []" by (metis map_is_Nil_conv)
  then show ?thesis using assms(1) d nw unfolding mshr_ok_def by simp
qed

lemma handleSnoop_ok:
  assumes ok: "mshr_ok m" and pkt: "needsWritable (mk_cmd pkt) = isInvalidate (mk_cmd pkt) \<or> isCacheMaintenance pkt"
    and tg: "qe_inService m \<longrightarrow> tl_targets (mh_targets m) \<noteq> []"
  shows "\<exists>b ms m' cs. handleSnoop now pkt ord m = Some (b, ms, m', cs) \<and> mshr_ok m' \<and> inserted (mk_id pkt) (pending m) (pending m')"
proof -
  let ?takes = "needsWritable (mk_cmd pkt) \<or> mk_cacheInvalidate pkt"
  have T: "list_ok (qe_blkSize m) (mh_targets m)" "nw_sound (mh_targets m)" "list_ok (qe_blkSize m) (deferredTargets m)" "nw_sound (deferredTargets m)"
    using ok by (simp_all add: mshr_ok_def)
  obtain d where d: "replaceUpgrades (deferredTargets m) = Some d" using replaceUpgrades_ok [OF T(3,4)] by blast
  note R = replace_deferred_ok [OF ok d]
  show ?thesis
  proof (cases "\<not> qe_inService m \<or> (mk_expressSnoop pkt \<and> downstreamPending m)")
    case True
    obtain l where l: "replaceUpgrades (mh_targets m) = Some l" "list_ok (qe_blkSize m) l" "nw_sound l" "ids l = ids (mh_targets m)"
      "map t_source (tl_targets l) = map t_source (tl_targets (mh_targets m))" using replaceUpgrades_ok [OF T(1,2)] unfolding ids_def by blast
    have "mshr_ok (m\<lparr>mh_targets := l, deferredTargets := d\<rparr>)" "pending (m\<lparr>mh_targets := l, deferredTargets := d\<rparr>) = pending m"
      using R l(2-5) by (simp_all add: mshr_ok_def pending_def)
    then show ?thesis using True d l(1) ok pkt by (auto simp: handleSnoop_def)
  next
    case False
    define d1 where "d1 = (if ?takes then d else deferredTargets m)"
    have d1: "(if ?takes then replaceUpgrades (deferredTargets m) else Some (deferredTargets m)) = Some d1" using d by (simp add: d1_def)
    have m1: "mshr_ok (m\<lparr>deferredTargets := d1\<rparr>)" "pending (m\<lparr>deferredTargets := d1\<rparr>) = pending m"
      using R ok by (simp_all add: d1_def pending_def)
    have ne: "tl_targets (mh_targets (m\<lparr>deferredTargets := d1\<rparr>)) \<noteq> []" using False tg by simp
    have "front_target (mh_targets m) = Some (hd (tl_targets (mh_targets m)))" using ne by (simp add: front_target_hd)
    moreover have "c_assert (\<not> (needsWritable (mk_cmd pkt) \<noteq> isInvalidate (mk_cmd pkt) \<and> \<not> isCacheMaintenance pkt)) = Some ()"
      using pkt by auto
    ultimately have "handleSnoop now pkt ord m =
      (if postInvalidate m \<or> mk_cacheInvalidate (t_pkt (hd (tl_targets (mh_targets m)))) then Some (True, no_marks, m\<lparr>deferredTargets := d1\<rparr>, [])
       else snoop_in_service now pkt ord (m\<lparr>deferredTargets := d1\<rparr>))"
      using False d1 by (cases "mk_expressSnoop pkt") (simp_all add: handleSnoop_def Let_def)
    moreover have "qe_inService (m\<lparr>deferredTargets := d1\<rparr>)" using False by simp
    ultimately show ?thesis using snoop_in_service_ok [OF m1(1) ne, of now pkt ord] m1 by auto
  qed
qed

subsection \<open>Serving and promoting keep the order\<close>

definition served :: "nat list \<Rightarrow> nat list \<Rightarrow> nat list \<Rightarrow> bool" where
  "served r q q' \<longleftrightarrow> r \<noteq> [] \<and> q \<noteq> [] \<and> hd r = hd q \<and> mset q = mset r + mset q' \<and> subseq q' q"

lemma filter_parts: "mset (map f (filter P xs)) + mset (map f (filter (\<lambda>x. \<not> P x) xs)) = mset (map f xs)"
  by (induction xs) auto

lemma subseq_map_filter: "subseq (map f (filter P xs)) (map f xs)"
  by (simp add: subseq_map)

lemma sources_ok_append_CPU: "sources_ok ss \<Longrightarrow> set us \<subseteq> {FromCPU} \<Longrightarrow> sources_ok (ss @ us)"
  by (rule sources_ok_append) auto

lemma sources_ok_CPU: "set ss \<subseteq> {FromCPU} \<Longrightarrow> sources_ok ss"
  by (cases ss) (auto simp: sources_ok_def)

lemma extract_ok:
  assumes ok: "mshr_ok m" and ne: "tl_targets (mh_targets m) \<noteq> []"
  shows "\<exists>l m'. extractServiceableTargets c m = Some (l, m') \<and> mshr_ok m' \<and> served (ids l) (pending m) (pending m') \<and>
    qe_inService m' = qe_inService m \<and> no_snoops (map t_source (tl_targets (mh_targets m')))"
proof -
  let ?l = "mh_targets m" and ?fresh = "tl_init (qe_blkAddr m) (qe_blkSize m) TargetList_new"
  have F: "list_ok (qe_blkSize m) ?fresh \<and> nw_sound ?fresh \<and> tl_targets ?fresh = []" by (rule tl_init_ok) (simp add: TargetList_new_def)
  have L: "list_ok (qe_blkSize m) ?l" using ok by (simp add: mshr_ok_def)
  obtain f ts where fts: "tl_targets ?l = f # ts" using ne by (cases "tl_targets ?l") auto
  show ?thesis
  proof (cases "c = ReadRespWithInvalidate")
    case True
    have "sources_ok (map t_source (f # ts))" using ok fts by (simp add: mshr_ok_def)
    then have src: "t_source f \<noteq> FromSnoop" "\<forall>t \<in> set ts. t_source t \<noteq> FromPrefetcher" by (auto simp: sources_ok_def image_iff)
    have "list_ok (qe_blkSize m) (?fresh\<lparr>tl_targets := f # filter (\<lambda>t. t_source t \<noteq> FromCPU) ts\<rparr>)" using F L fts by (auto simp: list_ok_def)
    from populate_ok [OF this] obtain r where r: "populateFlags (?fresh\<lparr>tl_targets := f # filter (\<lambda>t. t_source t \<noteq> FromCPU) ts\<rparr>) = Some r"
      "tl_targets r = f # filter (\<lambda>t. t_source t \<noteq> FromCPU) ts" by auto
    have "list_ok (qe_blkSize m) (?l\<lparr>tl_targets := filter (\<lambda>t. t_source t = FromCPU) ts\<rparr>)" using L fts by (auto simp: list_ok_def)
    from populate_ok [OF this] obtain k where k: "populateFlags (?l\<lparr>tl_targets := filter (\<lambda>t. t_source t = FromCPU) ts\<rparr>) = Some k"
      "tl_targets k = filter (\<lambda>t. t_source t = FromCPU) ts" "list_ok (qe_blkSize m) k" "nw_sound k" by auto
    have "t_source f = FromCPU \<or> t_source f = FromPrefetcher" using src(1) by (cases "t_source f") auto
    moreover have "list_all (\<lambda>t. t_source t = FromCPU \<or> t_source t = FromSnoop) ts" using src(2) by (auto simp: list_all_iff intro: Source.exhaust)
    ultimately have "extractServiceableTargets c m = Some (r, m\<lparr>mh_targets := k\<rparr>)"
      using True fts r(1) k(1) by (simp add: extractServiceableTargets_def front_target_def)
    moreover have "set (map t_source (tl_targets k)) \<subseteq> {FromCPU}" unfolding k(2) by auto
    then have "mshr_ok (m\<lparr>mh_targets := k\<rparr>)" using ok k(3,4) sources_ok_CPU no_snoops_CPU by (simp add: mshr_ok_def)
    moreover have "served (ids r) (pending m) (pending (m\<lparr>mh_targets := k\<rparr>))"
      using fts r(2) k(2) filter_parts [of "\<lambda>t. mk_id (t_pkt t)" "\<lambda>t. t_source t = FromCPU" ts]
        subseq_map_filter [of "\<lambda>t. mk_id (t_pkt t)" "\<lambda>t. t_source t = FromCPU" ts]
      by (auto simp: served_def pending_def ids_def ac_simps intro: list_emb_append_mono)
    moreover have "no_snoops (map t_source (tl_targets k))" unfolding k(2) by (auto simp: no_snoops_def)
    ultimately show ?thesis by simp
  next
    case False
    obtain k where k: "populateFlags ?fresh = Some k" "tl_targets k = []" "list_ok (qe_blkSize m) k" "nw_sound k" using populate_ok [OF conjunct1 [OF F]] F by auto
    have "extractServiceableTargets c m = Some (?l, m\<lparr>mh_targets := k\<rparr>)" using False k(1) by (simp add: extractServiceableTargets_def)
    moreover have "mshr_ok (m\<lparr>mh_targets := k\<rparr>)" using ok k(2-4) by (simp add: mshr_ok_def sources_ok_def)
    moreover have "served (ids ?l) (pending m) (pending (m\<lparr>mh_targets := k\<rparr>))" using fts k(2) by (auto simp: served_def pending_def ids_def)
    ultimately show ?thesis using k(2) by simp
  qed
qed

lemma promoteDeferred_ok:
  assumes ok: "mshr_ok m"
  shows "\<exists>b m'. promoteDeferredTargets now m = Some (b, m') \<and> mshr_ok m' \<and> pending m' = pending m \<and>
    b = (pending m \<noteq> []) \<and> (b \<longrightarrow> tl_targets (mh_targets m') \<noteq> []) \<and> qe_inService m' = qe_inService m \<and>
    (no_snoops (map t_source (tl_targets (mh_targets m))) \<longrightarrow> no_snoops (map t_source (tl_targets (mh_targets m'))))"
proof (cases "tl_targets (mh_targets m) = [] \<and> tl_targets (deferredTargets m) = []")
  case True
  then show ?thesis using ok by (auto simp: promoteDeferredTargets_def pending_def ids_def)
next
  case False
  let ?ts = "tl_targets (mh_targets m)" and ?ds = "tl_targets (deferredTargets m)"
  define it where "it = find_index (\<lambda>t. isCacheMaintenance (t_pkt t)) ?ds"
  define k where "k = (if it = 0 then (if ?ts = [] then 1 else 0) else it)"
  have A: "list_ok (qe_blkSize m) ((deferredTargets m)\<lparr>tl_targets := drop k ?ds\<rparr>)" using ok by (auto simp: mshr_ok_def list_ok_def dest: in_set_dropD)
  have B: "list_ok (qe_blkSize m) ((mh_targets m)\<lparr>tl_targets := ?ts @ take k ?ds\<rparr>)" using ok by (auto simp: mshr_ok_def list_ok_def dest: in_set_takeD)
  obtain d where d: "populateFlags ((deferredTargets m)\<lparr>tl_targets := drop k ?ds\<rparr>) = Some d" "list_ok (qe_blkSize m) d" "nw_sound d"
    "tl_targets d = drop k ?ds" "drop k ?ds = [] \<longrightarrow> isReset d" using populate_ok [OF A] by auto
  obtain l where l: "populateFlags ((mh_targets m)\<lparr>tl_targets := ?ts @ take k ?ds\<rparr>) = Some l" "list_ok (qe_blkSize m) l" "nw_sound l"
    "tl_targets l = ?ts @ take k ?ds" using populate_ok [OF B] by auto
  have ne: "tl_targets l \<noteq> []" using False by (auto simp: l(4) k_def)
  have cpu: "set (map t_source ?ds) \<subseteq> {FromCPU}" using ok by (simp add: mshr_ok_def)
  have "sources_ok (map t_source (tl_targets l))" using ok cpu unfolding l(4) map_append
    by (intro sources_ok_append) (auto simp: mshr_ok_def dest!: in_set_takeD)
  moreover have "set (map t_source (tl_targets d)) \<subseteq> {FromCPU}" using cpu set_drop_subset [of k ?ds] unfolding d(4) by auto
  moreover have ns: "no_snoops (map t_source (tl_targets (mh_targets m))) \<Longrightarrow> no_snoops (map t_source (tl_targets l))"
    using cpu set_take_subset [of k ?ds] no_snoops_CPU [of "map t_source (take k ?ds)"] unfolding l(4) by auto
  ultimately have "mshr_ok (m\<lparr>mh_targets := l, deferredTargets := d, qe_order := u, qe_readyTime := v\<rparr>)" for u v
    using ok d(2,3,5) l(2,3) unfolding mshr_ok_def by (simp add: d(4))
  moreover have "pending (m\<lparr>mh_targets := l, deferredTargets := d, qe_order := u, qe_readyTime := v\<rparr>) = pending m" for u v
    using d(4) l(4) by (simp add: pending_def ids_def flip: map_append)
  moreover have "\<exists>u v. promoteDeferredTargets now m = Some (True, m\<lparr>mh_targets := l, deferredTargets := d, qe_order := u, qe_readyTime := v\<rparr>)"
    using False d(1) l(1) front_target_hd [OF ne] by (auto simp: promoteDeferredTargets_def Let_def it_def [symmetric] k_def [symmetric])
  moreover have "pending m \<noteq> []" using False by (auto simp: pending_def ids_def)
  ultimately show ?thesis using ne ns by fastforce
qed

lemma find_index_take: "x \<in> set (take (find_index (\<lambda>t. \<not> P t) xs) xs) \<Longrightarrow> P x"
  by (induction xs) (auto split: if_splits)

lemma promoteIf_ok:
  assumes ok: "mshr_ok m" and dp: "\<not> downstreamPending m"
    and nw: "\<And>t. pred t \<Longrightarrow> wants_writable t \<Longrightarrow> tl_needsWritable (mh_targets m)"
  shows "\<exists>m' cs. promoteIf pred m = Some (m', cs) \<and> mshr_ok m' \<and> pending m' = pending m"
proof -
  let ?ds = "tl_targets (deferredTargets m)"
  define k where "k = find_index (\<lambda>t. \<not> pred t) ?ds"
  obtain ps cs where ps: "clear_pending (take k ?ds) = (ps, cs)" by fastforce
  have same: "list_all2 same_request (take k ?ds) ps" using clear_pending_same [of "take k ?ds"] ps by simp
  let ?P = "(deferredTargets m)\<lparr>tl_targets := take k ?ds\<rparr>"
  have D: "list_ok (qe_blkSize m) (deferredTargets m)" "set (map t_source ?ds) \<subseteq> {FromCPU}" using ok by (simp_all add: mshr_ok_def)
  have "list_ok (qe_blkSize m) ?P" using D(1) by (auto simp: list_ok_def dest: in_set_takeD)
  moreover have "list_all2 same_request (tl_targets ?P) ps" using same by simp
  ultimately have lp: "list_ok (qe_blkSize m) (?P\<lparr>tl_targets := ps\<rparr>)" using same_request_list(1) by blast
  have srcs: "map t_source ps = map t_source (take k ?ds)" and idp: "map (\<lambda>t. mk_id (t_pkt t)) ps = map (\<lambda>t. mk_id (t_pkt t)) (take k ?ds)"
    using same_request_list(3,4) [of ?P ps] same by simp_all
  have "nw_sound (?P\<lparr>tl_needsWritable := tl_needsWritable (mh_targets m)\<rparr>)"
    using nw by (auto simp: nw_sound_def k_def dest: find_index_take)
  from same_request_list(2) [of _ ps, OF _ this] have np: "\<forall>t \<in> set ps. wants_writable t \<longrightarrow> tl_needsWritable (mh_targets m)"
    using same by (simp add: nw_sound_def)
  have A: "list_ok (qe_blkSize m) ((deferredTargets m)\<lparr>tl_targets := drop k ?ds\<rparr>)" using D(1) by (auto simp: list_ok_def dest: in_set_dropD)
  obtain d where d: "populateFlags ((deferredTargets m)\<lparr>tl_targets := drop k ?ds\<rparr>) = Some d" "list_ok (qe_blkSize m) d" "nw_sound d"
    "tl_targets d = drop k ?ds" "drop k ?ds = [] \<longrightarrow> isReset d" using populate_ok [OF A] by auto
  define l where "l = (mh_targets m)\<lparr>tl_targets := tl_targets (mh_targets m) @ ps\<rparr>"
  have "list_all (\<lambda>t. t_source t = FromCPU) (take (Suc k) ?ds)" using D(2) by (auto simp: list_all_iff dest: in_set_takeD)
  then have "promoteIf pred m = Some (m\<lparr>mh_targets := l, deferredTargets := d\<rparr>, cs)"
    using dp ps d(1) by (simp add: promoteIf_def Let_def k_def [symmetric] l_def)
  moreover have "mshr_ok (m\<lparr>mh_targets := l, deferredTargets := d\<rparr>)"
  proof -
    have "set (map t_source ps) \<subseteq> {FromCPU}" using D(2) set_take_subset [of k ?ds] unfolding srcs by auto
    then have "sources_ok (map t_source (tl_targets l))" using ok sources_ok_append_CPU [of _ "map t_source ps"] by (simp add: l_def mshr_ok_def)
    moreover have "set (map t_source (tl_targets d)) \<subseteq> {FromCPU}" using D(2) set_drop_subset [of k ?ds] unfolding d(4) by auto
    moreover have "list_ok (qe_blkSize m) l" "nw_sound l" using ok lp np by (auto simp: l_def mshr_ok_def list_ok_def nw_sound_def)
    moreover have "no_snoops (map t_source ps)" using \<open>set (map t_source ps) \<subseteq> {FromCPU}\<close> by (rule no_snoops_CPU)
    ultimately show ?thesis using ok d(2,3,5) unfolding mshr_ok_def by (simp add: d(4) l_def)
  qed
  moreover have "pending (m\<lparr>mh_targets := l, deferredTargets := d\<rparr>) = pending m"
  proof -
    have "map (\<lambda>t. mk_id (t_pkt t)) ps @ map (\<lambda>t. mk_id (t_pkt t)) (drop k ?ds) = map (\<lambda>t. mk_id (t_pkt t)) ?ds"
      unfolding idp by (simp flip: map_append)
    then show ?thesis using d(4) by (simp add: pending_def ids_def l_def)
  qed
  ultimately show ?thesis by blast
qed

lemma promoteReadable_ok:
  assumes "mshr_ok m" "qe_inService m" "\<not> downstreamPending m"
  shows "\<exists>m' cs. promoteReadable m = Some (m', cs) \<and> mshr_ok m' \<and> pending m' = pending m"
proof -
  have "\<exists>m' cs. promoteIf (\<lambda>t. \<not> mk_cacheInvalidate (t_pkt t) \<and> \<not> needsWritable (mk_cmd (t_pkt t))) m = Some (m', cs) \<and> mshr_ok m' \<and> pending m' = pending m"
    by (rule promoteIf_ok [OF assms(1,3)]) (simp add: wants_writable_def)
  then show ?thesis using assms(1,2) by (auto simp: promoteReadable_def hasPostInvalidate_def)
qed

lemma promoteWritable_ok:
  assumes ok: "mshr_ok m" and "qe_inService m" "\<not> downstreamPending m"
    and "tl_needsWritable (deferredTargets m) \<longrightarrow> \<not> tl_needsWritable (mh_targets m)"
  shows "\<exists>m' cs. promoteWritable m = Some (m', cs) \<and> mshr_ok m' \<and> pending m' = pending m"
proof -
  let ?m = "m\<lparr>mh_targets := (mh_targets m)\<lparr>tl_needsWritable := True\<rparr>\<rparr>"
  have "mshr_ok ?m" using ok by (simp add: mshr_ok_def list_ok_def nw_sound_def)
  then have "\<exists>m' cs. promoteIf (\<lambda>t. \<not> mk_cacheInvalidate (t_pkt t)) ?m = Some (m', cs) \<and> mshr_ok m' \<and> pending m' = pending ?m"
    by (rule promoteIf_ok) (use assms in simp_all)
  moreover have "pending ?m = pending m" by (simp add: pending_def ids_def)
  moreover have "tl_needsWritable (deferredTargets m) \<Longrightarrow> front_target (deferredTargets m) = Some (hd (tl_targets (deferredTargets m)))"
    using ok by (intro front_target_hd) (auto simp: mshr_ok_def isReset_def)
  ultimately show ?thesis using assms by (auto simp: promoteWritable_def hasPostInvalidate_def hasPostDowngrade_def)
qed

subsection \<open>The life of a register\<close>

datatype mshr_event =
  ME_target u64 mpkt u64 u64 bool
| ME_snoop u64 mpkt u64
| ME_send bool
| ME_downstream
| ME_cleared
| ME_response MemCmd
| ME_promote u64
| ME_readable
| ME_writable

text \<open>The state is the register together with the requests it has handed out to be served.\<close>

fun mshr_step :: "mshr_event \<Rightarrow> mshr \<times> nat list \<Rightarrow> (mshr \<times> nat list) option" where
  "mshr_step (ME_target now pkt when_ready ord al) (m, sv) = do { (m', _) \<leftarrow> allocateTarget now pkt when_ready ord al m; Some (m', sv) }"
| "mshr_step (ME_snoop now pkt ord) (m, sv) = do { (_, _, m', _) \<leftarrow> handleSnoop now pkt ord m; Some (m', sv) }"
| "mshr_step (ME_send pm) (m, sv) = do { (m', _) \<leftarrow> MSHR_markInService pm m; Some (m', sv) }"
| "mshr_step ME_downstream (m, sv) = do { m' \<leftarrow> set_downstreamPending m; Some (m', sv) }"
| "mshr_step ME_cleared (m, sv) = do { (m', _) \<leftarrow> clearDownstreamPending m; Some (m', sv) }"
| "mshr_step (ME_response c) (m, sv) = do { (l, m') \<leftarrow> extractServiceableTargets c m; Some (m', sv @ ids l) }"
| "mshr_step (ME_promote now) (m, sv) = do { (_, m') \<leftarrow> promoteDeferredTargets now m; Some (m', sv) }"
| "mshr_step ME_readable (m, sv) = do { (m', _) \<leftarrow> promoteReadable m; Some (m', sv) }"
| "mshr_step ME_writable (m, sv) = do { (m', _) \<leftarrow> promoteWritable m; Some (m', sv) }"

fun mshr_env :: "mshr_event \<Rightarrow> mshr \<times> nat list \<Rightarrow> bool" where
  "mshr_env (ME_target now pkt when_ready ord al) (m, sv) \<longleftrightarrow>
     mk_cmd pkt \<noteq> HardPFReq \<and> hasTargets m \<and> pkt_fits (qe_blkSize m) pkt"
| "mshr_env (ME_snoop now pkt ord) (m, sv) \<longleftrightarrow>
     (needsWritable (mk_cmd pkt) = isInvalidate (mk_cmd pkt) \<or> isCacheMaintenance pkt) \<and> (qe_inService m \<longrightarrow> hasTargets m)"
| "mshr_env (ME_send pm) (m, sv) \<longleftrightarrow> \<not> qe_inService m"
| "mshr_env ME_downstream (m, sv) \<longleftrightarrow> \<not> downstreamPending m"
| "mshr_env ME_cleared (m, sv) \<longleftrightarrow> downstreamPending m"
| "mshr_env (ME_response c) (m, sv) \<longleftrightarrow> hasTargets m"
| "mshr_env (ME_promote now) (m, sv) \<longleftrightarrow> True"
| "mshr_env ME_readable (m, sv) \<longleftrightarrow> qe_inService m \<and> \<not> downstreamPending m"
| "mshr_env ME_writable (m, sv) \<longleftrightarrow> qe_inService m \<and> \<not> downstreamPending m \<and>
     (tl_needsWritable (deferredTargets m) \<longrightarrow> \<not> tl_needsWritable (mh_targets m))"

text \<open>The specification: requests wait in a queue \<open>q\<close>; \<open>sv\<close> are the ones handed out.\<close>

fun mshr_spec :: "mshr_event \<Rightarrow> nat list \<times> nat list \<Rightarrow> nat list \<times> nat list \<Rightarrow> bool" where
  "mshr_spec (ME_target now pkt when_ready ord al) (q, sv) (q', sv') \<longleftrightarrow> q' = q @ [mk_id pkt] \<and> sv' = sv"
| "mshr_spec (ME_snoop now pkt ord) (q, sv) (q', sv') \<longleftrightarrow> inserted (mk_id pkt) q q' \<and> sv' = sv"
| "mshr_spec (ME_response c) (q, sv) (q', sv') \<longleftrightarrow> (\<exists>r. served r q q' \<and> sv' = sv @ r)"
| "mshr_spec _ (q, sv) (q', sv') \<longleftrightarrow> q' = q \<and> sv' = sv"

definition mshr_inv :: "mshr \<times> nat list \<Rightarrow> bool" where
  "mshr_inv s \<longleftrightarrow> mshr_ok (fst s)"

definition mshr_abs :: "mshr \<times> nat list \<Rightarrow> nat list \<times> nat list" where
  "mshr_abs s = (pending (fst s), snd s)"

lemma mshr_step_ok:
  assumes "mshr_inv s" "mshr_env e s"
  shows "\<exists>s'. mshr_step e s = Some s' \<and> mshr_inv s' \<and> mshr_spec e (mshr_abs s) (mshr_abs s')"
proof -
  obtain m sv where s: "s = (m, sv)" by fastforce
  have ok: "mshr_ok m" using assms(1) s by (simp add: mshr_inv_def)
  note defs = mshr_inv_def mshr_abs_def hasTargets_def s
  show ?thesis
  proof (cases e)
    case (ME_target now pkt when_ready ord al)
    then show ?thesis using allocateTarget_ok [OF ok, of pkt now when_ready ord al] assms(2) by (auto simp: defs)
  next
    case (ME_snoop now pkt ord)
    then show ?thesis using handleSnoop_ok [OF ok, of pkt now ord] assms(2) by (auto simp: defs)
  next
    case (ME_send pm)
    then show ?thesis using markInService_ok [OF ok, of pm] assms(2) by (auto simp: defs)
  next
    case ME_downstream
    then show ?thesis using ok assms(2) by (auto simp: defs set_downstreamPending_def mshr_ok_def pending_def)
  next
    case ME_cleared
    then show ?thesis using clearDownstream_ok [OF ok] assms(2) by (auto simp: defs)
  next
    case (ME_response c)
    then show ?thesis using extract_ok [OF ok, of c] assms(2) by (auto simp: defs)
  next
    case (ME_promote now)
    then show ?thesis using promoteDeferred_ok [OF ok, of now] assms(2) by (auto simp: defs)
  next
    case ME_readable
    then show ?thesis using promoteReadable_ok [OF ok] assms(2) by (auto simp: defs)
  next
    case ME_writable
    then show ?thesis using promoteWritable_ok [OF ok] assms(2) by (auto simp: defs)
  qed
qed

interpretation mshr_machine: refined_machine mshr_step mshr_env mshr_inv mshr_abs mshr_spec
  by unfold_locales (use mshr_step_ok in fastforce)+

subsection \<open>Properties\<close>


definition example_pkt :: "nat \<Rightarrow> MemCmd \<Rightarrow> bool \<Rightarrow> mpkt" where
  "example_pkt i c clean = \<lparr>mk_id = i, mk_cmd = c, mk_addr = 64, mk_size = 8, mk_secure = False, mk_no_merge = False, mk_uncacheable = False,
     mk_cacheClean = clean, mk_cacheInvalidate = False, mk_expressSnoop = False, mk_upstream = None\<rparr>"

definition example_events :: "mshr_event list" where
  "example_events = [ME_send False, ME_target 2 (example_pkt 2 ReadReq False) 3 2 True, ME_snoop 4 (example_pkt 9 ReadExReq False) 3,
     ME_target 5 (example_pkt 3 WriteReq False) 6 4 True, ME_response ReadRespWithInvalidate, ME_promote 8]"



end
