(* ===== verification/Cache_Queue.thy ===== *)
theory Cache_Queue
  imports Mshr
begin

section \<open>The queues of a cache\<close>

text \<open>
  The queues for misses and for writes (\<open>mem/cache/queue.hh\<close>, \<open>mem/cache/mshr_queue.cc\<close>, \<open>mem/cache/write_queue.cc\<close>) are
  instances of one template.  The entries are allocated once; a pointer to an entry is its index, and an iterator
  stored in an entry is the position of this index in the list.  Erasing an element that is not in the list has no
  defined result and is \<open>None\<close>.  What the template calls on its entries is an argument of the
  operation, and the locale \<open>entry_kind\<close> states what it relies on.

  The lemmas show that the lists stay consistent, that the queue of misses never fails under the calls of the
  cache, and in which order misses and writes of one block leave.  The text output and the cost of misses are left out.
\<close>

datatype DrainState = Running | Draining | Drained | Resuming

record 'e Queue =
  numEntries :: nat
  numReserve :: nat
  q_entries :: "'e list"
  allocatedList :: "nat list"
  readyList :: "nat list"
  freeList :: "nat list"
  numInService :: int
  q_allocated :: int
  drainState :: DrainState

type_synonym ('z, 'r) queue_of = "('z queue_entry_scheme, 'r) Queue_scheme"

definition Queue_new :: "'e \<Rightarrow> nat \<Rightarrow> nat \<Rightarrow> 'e Queue" where
  "Queue_new e num_entries reserve =
     \<lparr>numEntries = num_entries + reserve, numReserve = reserve, q_entries = replicate (num_entries + reserve) e,
      allocatedList = [], readyList = [], freeList = [0..<num_entries + reserve], numInService = 0, q_allocated = 0, drainState = Running\<rparr>"

definition erase :: "nat \<Rightarrow> nat list \<Rightarrow> nat list option" where
  "erase i xs = (if i \<in> set xs then Some (remove1 i xs) else None)"

definition readyTime :: "('z, 'r) queue_of \<Rightarrow> nat \<Rightarrow> u64" where
  "readyTime q i = qe_readyTime (q_entries q ! i)"

definition addToReadyList :: "nat \<Rightarrow> ('z, 'r) queue_of \<Rightarrow> ('z, 'r) queue_of option" where
  "addToReadyList i q =
     (let rs = readyList q in
      if rs = [] \<or> readyTime q (last rs) \<le> readyTime q i then Some (q\<lparr>readyList := rs @ [i]\<rparr>)
      else let k = find_index (\<lambda>j. readyTime q j > readyTime q i) rs
           in if k < length rs then Some (q\<lparr>readyList := take k rs @ i # drop k rs\<rparr>) else None)"

definition isEmpty :: "('e, 'r) Queue_scheme \<Rightarrow> bool" where
  "isEmpty q \<longleftrightarrow> q_allocated q = 0"

definition isFull :: "('e, 'r) Queue_scheme \<Rightarrow> bool" where
  "isFull q \<longleftrightarrow> q_allocated q \<ge> int (numEntries q) - int (numReserve q)"

fun first_match :: "('e \<Rightarrow> bool option) \<Rightarrow> ('e, 'r) Queue_scheme \<Rightarrow> nat list \<Rightarrow> nat option option" where
  "first_match p q [] = Some None"
| "first_match p q (i # is) = do { b \<leftarrow> p (q_entries q ! i); if b then Some (Some i) else first_match p q is }"

definition findMatch ::
  "(u64 \<Rightarrow> bool \<Rightarrow> 'z queue_entry_scheme \<Rightarrow> bool option) \<Rightarrow> u64 \<Rightarrow> bool \<Rightarrow> bool \<Rightarrow> ('z, 'r) queue_of \<Rightarrow> nat option option" where
  "findMatch matches blk_addr is_secure ignore_uncacheable q =
     first_match (\<lambda>e. if ignore_uncacheable \<and> qe_isUncacheable e then Some False else matches blk_addr is_secure e) q (allocatedList q)"

definition findPending :: "('e \<Rightarrow> bool option) \<Rightarrow> ('e, 'r) Queue_scheme \<Rightarrow> nat option option" where
  "findPending conflict q = first_match conflict q (readyList q)"

definition getNext :: "u64 \<Rightarrow> ('z, 'r) queue_of \<Rightarrow> nat option" where
  "getNext now q = (case readyList q of [] \<Rightarrow> None | i # _ \<Rightarrow> if readyTime q i > now then None else Some i)"

definition nextReadyTime :: "('z, 'r) queue_of \<Rightarrow> u64" where
  "nextReadyTime q = (case readyList q of [] \<Rightarrow> - 1 | i # _ \<Rightarrow> readyTime q i)"

text \<open>The flag in the result is the signal to the drain manager.\<close>

definition Queue_deallocate ::
  "('z queue_entry_scheme \<Rightarrow> 'z queue_entry_scheme option) \<Rightarrow> nat \<Rightarrow> ('z, 'r) queue_of \<Rightarrow> (('z, 'r) queue_of \<times> bool) option" where
  "Queue_deallocate dealloc i q = do {
     al \<leftarrow> erase i (allocatedList q);
     let q1 = q\<lparr>allocatedList := al, freeList := i # freeList q, q_allocated := q_allocated q - 1\<rparr>;
     q2 \<leftarrow> (if qe_inService (q_entries q ! i) then Some (q1\<lparr>numInService := numInService q - 1\<rparr>)
           else do { rs \<leftarrow> erase i (readyList q); Some (q1\<lparr>readyList := rs\<rparr>) });
     e \<leftarrow> dealloc (q_entries q ! i);
     Some (q2\<lparr>q_entries := (q_entries q)[i := e]\<rparr>, drainState q = Draining \<and> q_allocated q2 = 0)
   }"

definition Queue_drain :: "('e, 'r) Queue_scheme \<Rightarrow> DrainState" where
  "Queue_drain q = (if q_allocated q = 0 then Drained else Draining)"

subsection \<open>The queue of misses\<close>

record mshr_queue = "mshr Queue" +
  demandReserve :: nat

definition MSHRQueue_new :: "nat \<Rightarrow> nat \<Rightarrow> nat \<Rightarrow> mshr_queue" where
  "MSHRQueue_new num_entries reserve demand_reserve = Queue.extend (Queue_new MSHR_new num_entries reserve) \<lparr>demandReserve = demand_reserve\<rparr>"

definition MSHRQueue_allocate ::
  "u64 \<Rightarrow> u64 \<Rightarrow> nat \<Rightarrow> mpkt \<Rightarrow> u64 \<Rightarrow> u64 \<Rightarrow> bool \<Rightarrow> mshr_queue \<Rightarrow> (nat \<times> mshr_queue \<times> up_call list) option" where
  "MSHRQueue_allocate now blk_addr blk_size pkt when_ready ord alloc_on_fill q =
     (case freeList q of
        [] \<Rightarrow> None
      | i # free \<Rightarrow> do {
          c_assert (getNumTargets (q_entries q ! i) = 0);
          (e, cs) \<leftarrow> MSHR_allocate now blk_addr blk_size pkt when_ready ord alloc_on_fill (q_entries q ! i);
          q1 \<leftarrow> addToReadyList i (q\<lparr>freeList := free, q_entries := (q_entries q)[i := e], allocatedList := allocatedList q @ [i]\<rparr>);
          Some (i, q1\<lparr>q_allocated := q_allocated q1 + 1\<rparr>, cs)
        })"

definition MSHRQueue_deallocate :: "nat \<Rightarrow> mshr_queue \<Rightarrow> (mshr_queue \<times> bool) option" where
  "MSHRQueue_deallocate = Queue_deallocate MSHR_deallocate"

definition moveToFront :: "nat \<Rightarrow> mshr_queue \<Rightarrow> mshr_queue option" where
  "moveToFront i q =
     (if \<not> qe_inService (q_entries q ! i) then do { rs \<leftarrow> erase i (readyList q); Some (q\<lparr>readyList := i # rs\<rparr>) } else Some q)"

text \<open>\<open>list::splice\<close> moves the element at position \<open>p\<close> before position \<open>k\<close>, here with \<open>k\<close> not before \<open>p\<close>.\<close>

definition splice_at :: "nat \<Rightarrow> nat \<Rightarrow> 'a list \<Rightarrow> 'a list" where
  "splice_at k p xs = (if k = p then xs else take p xs @ take (k - p - 1) (drop (Suc p) xs) @ [xs ! p] @ drop k xs)"

definition MSHRQueue_delay :: "u64 \<Rightarrow> u64 \<Rightarrow> nat \<Rightarrow> mshr_queue \<Rightarrow> mshr_queue option" where
  "MSHRQueue_delay now delay_ticks i q = do {
     e \<leftarrow> MSHR_delay now delay_ticks (q_entries q ! i);
     let q1 = q\<lparr>q_entries := (q_entries q)[i := e]\<rparr>;
     c_assert (i \<in> set (readyList q1));
     let p = find_index (\<lambda>j. j = i) (readyList q1);
     let it = p + find_index (\<lambda>j. readyTime q1 i \<ge> readyTime q1 j) (drop p (readyList q1));
     Some (q1\<lparr>readyList := splice_at it p (readyList q1)\<rparr>)
   }"

definition MSHRQueue_markInService :: "bool \<Rightarrow> nat \<Rightarrow> mshr_queue \<Rightarrow> (mshr_queue \<times> up_call list) option" where
  "MSHRQueue_markInService pending_modified_resp i q = do {
     (e, cs) \<leftarrow> MSHR_markInService pending_modified_resp (q_entries q ! i);
     rs \<leftarrow> erase i (readyList q);
     Some (q\<lparr>q_entries := (q_entries q)[i := e], readyList := rs, numInService := numInService q + 1\<rparr>, cs)
   }"

definition markPending :: "nat \<Rightarrow> mshr_queue \<Rightarrow> mshr_queue option" where
  "markPending i q = do {
     c_assert (qe_inService (q_entries q ! i));
     addToReadyList i (q\<lparr>q_entries := (q_entries q)[i := (q_entries q ! i)\<lparr>qe_inService := False\<rparr>], numInService := numInService q - 1\<rparr>)
   }"

definition forceDeallocateTarget :: "u64 \<Rightarrow> nat \<Rightarrow> mshr_queue \<Rightarrow> (mshr_queue \<times> bool) option" where
  "forceDeallocateTarget now i q = do {
     let was_full = isFull q;
     c_assert (hasTargets (q_entries q ! i));
     e \<leftarrow> popTarget (q_entries q ! i);
     q2 \<leftarrow> (if \<not> hasTargets e then do {
               (b, e1) \<leftarrow> promoteDeferredTargets now e;
               let q1 = q\<lparr>q_entries := (q_entries q)[i := e1]\<rparr>;
               if \<not> b then do { (q2, _) \<leftarrow> MSHRQueue_deallocate i q1; Some q2 } else Some q1
             } else Some (q\<lparr>q_entries := (q_entries q)[i := e]\<rparr>));
     Some (q2, was_full \<and> \<not> isFull q2)
   }"

definition havePending :: "mshr_queue \<Rightarrow> bool" where
  "havePending q \<longleftrightarrow> readyList q \<noteq> []"

definition canPrefetch :: "mshr_queue \<Rightarrow> bool" where
  "canPrefetch q \<longleftrightarrow> q_allocated q < int (numEntries q) - (int (numReserve q) + 1 + int (demandReserve q))"

definition MSHR_conflictAddr :: "(u64 \<Rightarrow> bool \<Rightarrow> bool option) \<Rightarrow> mshr \<Rightarrow> bool option" where
  "MSHR_conflictAddr other_matches m = do { c_assert (hasTargets m); other_matches (qe_blkAddr m) (qe_isSecure m) }"

subsection \<open>The write queue\<close>

record wtarget =
  wt_pkt :: mpkt
  wt_recvTime :: u64
  wt_readyTime :: u64
  wt_order :: u64

record write_queue_entry = queue_entry +
  wq_targets :: "wtarget list"

definition WriteQueueEntry_new :: write_queue_entry where
  "WriteQueueEntry_new = \<lparr>qe_readyTime = 0, qe_isUncacheable = False, qe_inService = False, qe_order = 0, qe_blkAddr = 0, qe_blkSize = 0,
     qe_isSecure = False, wq_targets = []\<rparr>"

definition wq_hasTargets :: "write_queue_entry \<Rightarrow> bool" where
  "wq_hasTargets e \<longleftrightarrow> wq_targets e \<noteq> []"

definition WriteQueueEntry_allocate :: "u64 \<Rightarrow> u64 \<Rightarrow> nat \<Rightarrow> mpkt \<Rightarrow> u64 \<Rightarrow> u64 \<Rightarrow> write_queue_entry \<Rightarrow> write_queue_entry option" where
  "WriteQueueEntry_allocate now blk_addr blk_size pkt when_ready ord e = do {
     let e1 = e\<lparr>qe_blkAddr := blk_addr, qe_blkSize := blk_size, qe_isSecure := mk_secure pkt, qe_readyTime := when_ready,
                qe_order := ord, qe_isUncacheable := mk_uncacheable pkt, qe_inService := False\<rparr>;
     c_assert (qe_isUncacheable e1 \<or> wq_targets e1 = []);
     c_assert ((isWrite (mk_cmd pkt) \<and> qe_isUncacheable e1) \<or> (isEviction (mk_cmd pkt) \<and> \<not> qe_isUncacheable e1) \<or> mk_cmd pkt = WriteClean);
     let e2 = e1\<lparr>wq_targets := wq_targets e1 @ [\<lparr>wt_pkt = pkt, wt_recvTime = now, wt_readyTime = when_ready, wt_order = ord\<rparr>]\<rparr>;
     let f = hd (wq_targets e2);
     c_assert (pkt_matchBlockAddr pkt (pkt_getBlockAddr (wt_pkt f) blk_size) (mk_secure (wt_pkt f)) blk_size);
     Some e2
   }"

definition WriteQueueEntry_deallocate :: "write_queue_entry \<Rightarrow> write_queue_entry option" where
  "WriteQueueEntry_deallocate e = do { c_assert (wq_targets e = []); Some (e\<lparr>qe_inService := False\<rparr>) }"

definition wq_popTarget :: "write_queue_entry \<Rightarrow> write_queue_entry option" where
  "wq_popTarget e = (case wq_targets e of [] \<Rightarrow> None | t # ts \<Rightarrow> Some (e\<lparr>wq_targets := ts\<rparr>))"

definition WriteQueueEntry_matchBlockAddr :: "u64 \<Rightarrow> bool \<Rightarrow> write_queue_entry \<Rightarrow> bool option" where
  "WriteQueueEntry_matchBlockAddr addr is_secure e = do { c_assert (wq_hasTargets e); Some (qe_blkAddr e = addr \<and> qe_isSecure e = is_secure) }"

definition WriteQueueEntry_conflictAddr :: "(u64 \<Rightarrow> bool \<Rightarrow> bool option) \<Rightarrow> write_queue_entry \<Rightarrow> bool option" where
  "WriteQueueEntry_conflictAddr other_matches e = do { c_assert (wq_hasTargets e); other_matches (qe_blkAddr e) (qe_isSecure e) }"

type_synonym write_queue = "write_queue_entry Queue"

definition WriteQueue_new :: "nat \<Rightarrow> nat \<Rightarrow> write_queue" where
  "WriteQueue_new num_entries reserve = Queue_new WriteQueueEntry_new num_entries reserve"

definition WriteQueue_allocate :: "u64 \<Rightarrow> u64 \<Rightarrow> nat \<Rightarrow> mpkt \<Rightarrow> u64 \<Rightarrow> u64 \<Rightarrow> write_queue \<Rightarrow> (nat \<times> write_queue) option" where
  "WriteQueue_allocate now blk_addr blk_size pkt when_ready ord q =
     (case freeList q of
        [] \<Rightarrow> None
      | i # free \<Rightarrow> do {
          c_assert (wq_targets (q_entries q ! i) = []);
          e \<leftarrow> WriteQueueEntry_allocate now blk_addr blk_size pkt when_ready ord (q_entries q ! i);
          q1 \<leftarrow> addToReadyList i (q\<lparr>freeList := free, q_entries := (q_entries q)[i := e], allocatedList := allocatedList q @ [i]\<rparr>);
          Some (i, q1\<lparr>q_allocated := q_allocated q1 + 1\<rparr>)
        })"

definition WriteQueue_markInService :: "nat \<Rightarrow> write_queue \<Rightarrow> (write_queue \<times> bool) option" where
  "WriteQueue_markInService i q = do {
     e \<leftarrow> wq_popTarget (q_entries q ! i);
     Queue_deallocate WriteQueueEntry_deallocate i (q\<lparr>q_entries := (q_entries q)[i := e]\<rparr>)
   }"

subsection \<open>The choice of the next entry\<close>

datatype next_entry = Next_miss nat | Next_write nat | Next_prefetch

definition conflict_miss :: "write_queue_entry \<Rightarrow> mshr_queue \<Rightarrow> nat option option" where
  "conflict_miss e mq = findPending (MSHR_conflictAddr (\<lambda>a sec. WriteQueueEntry_matchBlockAddr a sec e)) mq"

definition conflict_write :: "mshr \<Rightarrow> write_queue \<Rightarrow> nat option option" where
  "conflict_write m wq = findPending (WriteQueueEntry_conflictAddr (\<lambda>a sec. MSHR_matchBlockAddr a sec m)) wq"

text \<open>The part of \<open>getNextQueueEntry\<close> before the prefetcher is asked.\<close>

definition getNextQueueEntry :: "u64 \<Rightarrow> mshr_queue \<Rightarrow> write_queue \<Rightarrow> next_entry option" where
  "getNextQueueEntry now mq wq = do {
     let miss_mshr = getNext now mq;
     let wq_entry = getNext now wq;
     if wq_entry \<noteq> None \<and> (isFull wq \<or> miss_mshr = None) then do {
       let w = the wq_entry;
       c \<leftarrow> conflict_miss (q_entries wq ! w) mq;
       Some (case c of
               Some m \<Rightarrow> if qe_order (q_entries mq ! m) < qe_order (q_entries wq ! w) then Next_miss m else Next_write w
             | None \<Rightarrow> Next_write w)
     }
     else if miss_mshr \<noteq> None then do {
       let m = the miss_mshr;
       c \<leftarrow> conflict_write (q_entries mq ! m) wq;
       Some (case c of Some v \<Rightarrow> Next_write v | None \<Rightarrow> Next_miss m)
     }
     else do {
       c_assert (miss_mshr = None \<and> wq_entry = None);
       Some Next_prefetch
     }
   }"

subsection \<open>The lists of a queue\<close>

definition serv :: "'z queue_entry_scheme list \<Rightarrow> nat \<Rightarrow> bool" where
  "serv es i \<longleftrightarrow> qe_inService (es ! i)"

text \<open>
  Every entry is either allocated or free, the ready list has the allocated entries that are not in
  service, and the counters count.
\<close>

definition lists_ok :: "'z queue_entry_scheme list \<Rightarrow> nat multiset \<Rightarrow> nat multiset \<Rightarrow> nat multiset \<Rightarrow> int \<Rightarrow> int \<Rightarrow> bool" where
  "lists_ok es al rs fr na ns \<longleftrightarrow> al + fr = mset_set {..<length es} \<and> rs = filter_mset (\<lambda>i. \<not> serv es i) al \<and>
     na = int (size al) \<and> ns = int (size (filter_mset (serv es) al))"

definition queue_lists :: "('z, 'r) queue_of \<Rightarrow> bool" where
  "queue_lists q \<longleftrightarrow> numEntries q = length (q_entries q) \<and>
     lists_ok (q_entries q) (mset (allocatedList q)) (mset (readyList q)) (mset (freeList q)) (q_allocated q) (numInService q)"

lemma Queue_new_lists: "queue_lists (Queue_new e n r)"
  by (simp add: queue_lists_def lists_ok_def Queue_new_def lessThan_atLeast0)

lemma serv_update: "i < length es \<Longrightarrow> serv (es[i := e]) i = qe_inService e"
  and serv_other: "i \<noteq> j \<Longrightarrow> serv (es[i := e]) j = serv es j"
  by (simp_all add: serv_def)

lemma filter_serv_other: "i \<notin># A \<Longrightarrow> filter_mset (serv (es[i := e])) A = filter_mset (serv es) A"
  "i \<notin># A \<Longrightarrow> filter_mset (\<lambda>j. \<not> serv (es[i := e]) j) A = filter_mset (\<lambda>j. \<not> serv es j) A"
  by (rule filter_mset_cong0, metis serv_other)+

text \<open>Seen from one entry, the other allocated or free ones are different.\<close>

lemma lists_ok_split:
  assumes "lists_ok es al rs fr na ns" "i \<in># al"
  obtains A where "al = add_mset i A" "i \<notin># A" "i \<notin># fr" "i < length es"
proof -
  obtain A where A: "al = add_mset i A" using assms(2) by (metis mset_add)
  have c: "add_mset i A + fr = mset_set {..<length es}" using assms(1) A by (simp add: lists_ok_def)
  then have "count (add_mset i A + fr) i \<le> 1" by (simp add: count_mset_set')
  then have "i \<notin># A" "i \<notin># fr" by (auto simp: not_in_iff)
  moreover have "i \<in># mset_set {..<length es}" unfolding c [symmetric] by simp
  ultimately show ?thesis using that A by simp
qed

lemma lists_ok_free:
  assumes "lists_ok es al rs (add_mset i fr) na ns"
  shows "i \<notin># al" "i < length es"
proof -
  have c: "al + add_mset i fr = mset_set {..<length es}" using assms by (simp add: lists_ok_def)
  then have "count (al + add_mset i fr) i \<le> 1" by (simp add: count_mset_set')
  then show "i \<notin># al" by (auto simp: not_in_iff)
  have "i \<in># mset_set {..<length es}" unfolding c [symmetric] by simp
  then show "i < length es" by simp
qed

lemma lists_ok_same:
  assumes "lists_ok es al rs fr na ns" "qe_inService e = qe_inService (es ! i)"
  shows "lists_ok (es[i := e]) al rs fr na ns"
proof (cases "i < length es")
  case True
  then have "serv (es[i := e]) j = serv es j" for j using assms(2) by (cases "i = j") (simp_all add: serv_def)
  then have "serv (es[i := e]) = serv es" by (rule ext)
  then show ?thesis using assms(1) by (simp add: lists_ok_def)
qed (use assms in \<open>simp add: not_less list_update_beyond\<close>)

lemma lists_ok_alloc:
  assumes "lists_ok es al rs (add_mset i fr) na ns" "\<not> qe_inService e"
  shows "lists_ok (es[i := e]) (add_mset i al) (add_mset i rs) fr (na + 1) ns"
  using assms lists_ok_free [OF assms(1)] by (simp add: lists_ok_def filter_serv_other serv_update)

lemma lists_ok_serve:
  assumes "lists_ok es al rs fr na ns" "i \<in># al" "\<not> serv es i" "qe_inService e"
  shows "i \<in># rs" "lists_ok (es[i := e]) al (rs - {#i#}) fr na (ns + 1)"
proof -
  obtain A where A: "al = add_mset i A" "i \<notin># A" "i < length es" using lists_ok_split [OF assms(1,2)] by metis
  show "i \<in># rs" using assms by (simp add: lists_ok_def)
  show "lists_ok (es[i := e]) al (rs - {#i#}) fr na (ns + 1)"
    using assms A by (simp add: lists_ok_def filter_serv_other serv_update)
qed

lemma lists_ok_pend:
  assumes "lists_ok es al rs fr na ns" "i \<in># al" "serv es i" "\<not> qe_inService e"
  shows "lists_ok (es[i := e]) al (add_mset i rs) fr na (ns - 1)"
proof -
  obtain A where A: "al = add_mset i A" "i \<notin># A" "i < length es" using lists_ok_split [OF assms(1,2)] by metis
  then show ?thesis using assms by (simp add: lists_ok_def filter_serv_other serv_update)
qed

lemma lists_ok_dealloc:
  assumes "lists_ok es al rs fr na ns" "i \<in># al"
  shows "serv es i \<Longrightarrow> lists_ok (es[i := e]) (al - {#i#}) rs (add_mset i fr) (na - 1) (ns - 1)"
    "\<not> serv es i \<Longrightarrow> i \<in># rs \<and> lists_ok (es[i := e]) (al - {#i#}) (rs - {#i#}) (add_mset i fr) (na - 1) ns"
proof -
  obtain A where A: "al = add_mset i A" "i \<notin># A" "i < length es" using lists_ok_split [OF assms(1,2)] by metis
  show "lists_ok (es[i := e]) (al - {#i#}) rs (add_mset i fr) (na - 1) (ns - 1)" if "serv es i"
    using that assms A by (simp add: lists_ok_def filter_serv_other)
  show "i \<in># rs \<and> lists_ok (es[i := e]) (al - {#i#}) (rs - {#i#}) (add_mset i fr) (na - 1) ns" if "\<not> serv es i"
    using that assms A by (simp add: lists_ok_def filter_serv_other)
qed

lemma addToReadyList_ok: "\<exists>rs. addToReadyList i q = Some (q\<lparr>readyList := rs\<rparr>) \<and> mset rs = add_mset i (mset (readyList q))"
proof (cases "readyList q = [] \<or> readyTime q (last (readyList q)) \<le> readyTime q i")
  case False
  let ?k = "find_index (\<lambda>j. readyTime q j > readyTime q i) (readyList q)"
  have "readyTime q i < readyTime q (last (readyList q))" "last (readyList q) \<in> set (readyList q)" using False by auto
  then have "?k < length (readyList q)" by (auto simp: find_index_less_iff)
  moreover have "mset (take ?k (readyList q) @ i # drop ?k (readyList q)) = add_mset i (mset (readyList q))"
    using mset_append [of "take ?k (readyList q)" "drop ?k (readyList q)"] by simp
  ultimately show ?thesis using False by (auto simp: addToReadyList_def Let_def)
next
  case True
  moreover have "mset (readyList q @ [i]) = add_mset i (mset (readyList q))" by simp
  ultimately show ?thesis unfolding addToReadyList_def Let_def by metis
qed

subsection \<open>What the template relies on\<close>

definition queue_inv :: "('z queue_entry_scheme \<Rightarrow> bool) \<Rightarrow> ('z queue_entry_scheme \<Rightarrow> bool) \<Rightarrow> ('z, 'r) queue_of \<Rightarrow> bool" where
  "queue_inv busy idle q \<longleftrightarrow> queue_lists q \<and> (\<forall>i \<in> set (allocatedList q). busy (q_entries q ! i)) \<and> (\<forall>i \<in> set (freeList q). idle (q_entries q ! i))"

text \<open>
  An allocated entry is \<open>busy\<close>, a free one is \<open>idle\<close>; the template gives back an entry only in a state in which
  \<open>deallocate\<close> of the entry accepts it.
\<close>

locale entry_kind =
  fixes busy releasable idle :: "'z queue_entry_scheme \<Rightarrow> bool"
    and dealloc :: "'z queue_entry_scheme \<Rightarrow> 'z queue_entry_scheme option"
  assumes dealloc_ok: "releasable e \<Longrightarrow> \<exists>e'. dealloc e = Some e' \<and> idle e'"
begin

lemma allocated_bounds:
  assumes "queue_inv busy idle q" "i \<in> set (allocatedList q)"
  shows "i < length (q_entries q)" "i \<notin> set (freeList q)" "distinct (allocatedList q)"
proof -
  have L: "lists_ok (q_entries q) (mset (allocatedList q)) (mset (readyList q)) (mset (freeList q)) (q_allocated q) (numInService q)"
    using assms(1) by (simp add: queue_inv_def queue_lists_def)
  show "i < length (q_entries q)" "i \<notin> set (freeList q)" using lists_ok_split [OF L, of i] assms(2) by auto
  have "count (mset (allocatedList q)) j = (if j \<in> set (allocatedList q) then 1 else 0)" for j
  proof (cases "j \<in># mset (allocatedList q)")
    case True
    obtain A where "mset (allocatedList q) = add_mset j A" "j \<notin># A" using lists_ok_split [OF L True] by metis
    moreover have "j \<in> set (allocatedList q)" using True by simp
    ultimately show ?thesis by (simp add: not_in_iff)
  qed (simp add: count_mset_0_iff)
  then show "distinct (allocatedList q)" unfolding distinct_count_atmost_1 by blast
qed

lemma entry_update:
  assumes q: "queue_inv busy idle q" and i: "i \<in> set (allocatedList q)" and e: "busy e" "qe_inService e = qe_inService (q_entries q ! i)"
  shows "queue_inv busy idle (q\<lparr>q_entries := (q_entries q)[i := e]\<rparr>)"
  using q e allocated_bounds [OF q i] by (auto simp: queue_inv_def queue_lists_def nth_list_update intro: lists_ok_same)

lemma entry_alloc:
  assumes q: "queue_inv busy idle q" and f: "freeList q = i # fr" and e: "busy e" "\<not> qe_inService e"
  shows "\<exists>rs. addToReadyList i (q\<lparr>freeList := fr, q_entries := (q_entries q)[i := e], allocatedList := allocatedList q @ [i]\<rparr>) =
      Some (q\<lparr>freeList := fr, q_entries := (q_entries q)[i := e], allocatedList := allocatedList q @ [i], readyList := rs\<rparr>) \<and>
    queue_inv busy idle (q\<lparr>freeList := fr, q_entries := (q_entries q)[i := e], allocatedList := allocatedList q @ [i], readyList := rs,
      q_allocated := q_allocated q + 1\<rparr>)"
proof -
  let ?q = "q\<lparr>freeList := fr, q_entries := (q_entries q)[i := e], allocatedList := allocatedList q @ [i]\<rparr>"
  obtain rs where rs: "addToReadyList i ?q = Some (?q\<lparr>readyList := rs\<rparr>)" "mset rs = add_mset i (mset (readyList ?q))" using addToReadyList_ok by blast
  have L: "lists_ok (q_entries q) (mset (allocatedList q)) (mset (readyList q)) (add_mset i (mset fr)) (q_allocated q) (numInService q)"
    "numEntries q = length (q_entries q)" using q f by (simp_all add: queue_inv_def queue_lists_def)
  note b = lists_ok_free [OF L(1)]
  have "i \<notin> set fr"
  proof -
    have "count (mset (allocatedList q) + add_mset i (mset fr)) i \<le> 1" using L(1) by (simp add: lists_ok_def count_mset_set')
    then show ?thesis by (auto simp flip: count_mset_0_iff)
  qed
  then have "queue_inv busy idle (?q\<lparr>readyList := rs, q_allocated := q_allocated q + 1\<rparr>)"
    using q f e b L(2) lists_ok_alloc [OF L(1) e(2)] rs(2) by (auto simp: queue_inv_def queue_lists_def nth_list_update)
  then show ?thesis using rs(1) by auto
qed

lemma entry_serve:
  assumes q: "queue_inv busy idle q" and i: "i \<in> set (allocatedList q)" and n: "\<not> qe_inService (q_entries q ! i)" and e: "busy e" "qe_inService e"
  shows "\<exists>rs. erase i (readyList q) = Some rs \<and>
    queue_inv busy idle (q\<lparr>q_entries := (q_entries q)[i := e], readyList := rs, numInService := numInService q + 1\<rparr>)"
proof -
  have L: "lists_ok (q_entries q) (mset (allocatedList q)) (mset (readyList q)) (mset (freeList q)) (q_allocated q) (numInService q)"
    using q by (simp add: queue_inv_def queue_lists_def)
  note S = lists_ok_serve [OF L, of i e]
  show ?thesis using S q i n e allocated_bounds [OF q i] by (auto simp: erase_def queue_inv_def queue_lists_def serv_def nth_list_update)
qed

lemma entry_pend:
  assumes q: "queue_inv busy idle q" and i: "i \<in> set (allocatedList q)" and s: "qe_inService (q_entries q ! i)" and e: "busy e" "\<not> qe_inService e"
  shows "\<exists>rs. addToReadyList i (q\<lparr>q_entries := (q_entries q)[i := e], numInService := numInService q - 1\<rparr>) =
      Some (q\<lparr>q_entries := (q_entries q)[i := e], numInService := numInService q - 1, readyList := rs\<rparr>) \<and>
    queue_inv busy idle (q\<lparr>q_entries := (q_entries q)[i := e], numInService := numInService q - 1, readyList := rs\<rparr>) \<and>
    length rs = Suc (length (readyList q))"
proof -
  let ?q = "q\<lparr>q_entries := (q_entries q)[i := e], numInService := numInService q - 1\<rparr>"
  obtain rs where rs: "addToReadyList i ?q = Some (?q\<lparr>readyList := rs\<rparr>)" "mset rs = add_mset i (mset (readyList ?q))" using addToReadyList_ok by blast
  have L: "lists_ok (q_entries q) (mset (allocatedList q)) (mset (readyList q)) (mset (freeList q)) (q_allocated q) (numInService q)"
    using q by (simp add: queue_inv_def queue_lists_def)
  have "queue_inv busy idle (?q\<lparr>readyList := rs\<rparr>)"
    using q i s e allocated_bounds [OF q i] lists_ok_pend [OF L, of i e] rs(2) by (auto simp: queue_inv_def queue_lists_def serv_def nth_list_update)
  moreover have "length rs = Suc (length (readyList q))" using arg_cong [OF rs(2), of size] by simp
  ultimately show ?thesis using rs(1) by blast
qed

text \<open>The entry is no longer busy when it is given back.\<close>

lemma entry_release:
  assumes q: "queue_inv busy idle q" and i: "i \<in> set (allocatedList q)" and e: "releasable e" "qe_inService e = qe_inService (q_entries q ! i)"
  shows "\<exists>q' d. Queue_deallocate dealloc i (q\<lparr>q_entries := (q_entries q)[i := e]\<rparr>) = Some (q', d) \<and> queue_inv busy idle q' \<and>
    q_allocated q' = q_allocated q - 1 \<and> set (allocatedList q') = set (allocatedList q) - {i} \<and>
    (\<forall>j. j \<noteq> i \<longrightarrow> q_entries q' ! j = q_entries q ! j) \<and> numEntries q' = numEntries q \<and> numReserve q' = numReserve q"
proof -
  let ?es = "(q_entries q)[i := e]"
  obtain e' where e': "dealloc e = Some e'" "idle e'" using dealloc_ok e(1) by blast
  note b = allocated_bounds [OF q i]
  have L: "lists_ok ?es (mset (allocatedList q)) (mset (readyList q)) (mset (freeList q)) (q_allocated q) (numInService q)"
    using q e(2) by (simp add: queue_inv_def queue_lists_def lists_ok_same)
  have im: "i \<in># mset (allocatedList q)" using i by simp
  note D = lists_ok_dealloc [OF L im, of e']
  have "queue_inv busy idle q'" if "q_entries q' = (q_entries q)[i := e']" "allocatedList q' = remove1 i (allocatedList q)" "freeList q' = i # freeList q"
      "queue_lists q'" for q' :: "('z, 'r) queue_of"
    using that q b e'(2) by (auto simp: queue_inv_def nth_list_update)
  note inv = this
  show ?thesis
  proof (cases "qe_inService e")
    case True
    let ?q = "q\<lparr>allocatedList := remove1 i (allocatedList q), freeList := i # freeList q, q_allocated := q_allocated q - 1,
      numInService := numInService q - 1, q_entries := (q_entries q)[i := e']\<rparr>"
    have "queue_lists ?q" using D(1) True q b(1) by (simp add: queue_inv_def queue_lists_def serv_def)
    then have "queue_inv busy idle ?q" by (intro inv) simp_all
    then show ?thesis using True i e' b by (simp add: Queue_deallocate_def erase_def)
  next
    case False
    let ?q = "q\<lparr>allocatedList := remove1 i (allocatedList q), freeList := i # freeList q, q_allocated := q_allocated q - 1,
      readyList := remove1 i (readyList q), q_entries := (q_entries q)[i := e']\<rparr>"
    have "i \<in> set (readyList q)" "queue_lists ?q" using D(2) False q b(1) by (simp_all add: queue_inv_def queue_lists_def serv_def)
    moreover then have "queue_inv busy idle ?q" by (intro inv) simp_all
    ultimately show ?thesis using False i e' b by (simp add: Queue_deallocate_def erase_def)
  qed
qed

end

subsection \<open>Registers and write entries as entries of a queue\<close>

definition mshr_busy :: "mshr \<Rightarrow> bool" where
  "mshr_busy m \<longleftrightarrow> mshr_ok m \<and> hasTargets m"

definition mshr_releasable :: "mshr \<Rightarrow> bool" where
  "mshr_releasable m \<longleftrightarrow> mshr_ok m \<and> pending m = []"

definition mshr_idle :: "mshr \<Rightarrow> bool" where
  "mshr_idle m \<longleftrightarrow> pending m = []"

definition wq_busy :: "write_queue_entry \<Rightarrow> bool" where
  "wq_busy e \<longleftrightarrow> length (wq_targets e) = 1"

definition wq_idle :: "write_queue_entry \<Rightarrow> bool" where
  "wq_idle e \<longleftrightarrow> wq_targets e = []"

interpretation mshr_entry: entry_kind mshr_busy mshr_releasable mshr_idle MSHR_deallocate
proof
  show "\<exists>m'. MSHR_deallocate m = Some m' \<and> mshr_idle m'" if "mshr_releasable m" for m
    using that by (simp add: MSHR_deallocate_def mshr_releasable_def mshr_idle_def mshr_ok_def pending_def ids_def resetFlags_def)
qed

interpretation write_entry: entry_kind wq_busy wq_idle wq_idle WriteQueueEntry_deallocate
  by unfold_locales (simp add: WriteQueueEntry_deallocate_def wq_idle_def)

text \<open>What stays the same while a register is used.\<close>

definition same_register :: "mshr \<Rightarrow> mshr \<Rightarrow> bool" where
  "same_register m m' \<longleftrightarrow> qe_inService m' = qe_inService m \<and> qe_blkAddr m' = qe_blkAddr m \<and> qe_isSecure m' = qe_isSecure m \<and>
     qe_isUncacheable m' = qe_isUncacheable m \<and> qe_blkSize m' = qe_blkSize m \<and> (hasTargets m \<longrightarrow> hasTargets m')"

definition register_event :: "mshr_event \<Rightarrow> bool" where
  "register_event e \<longleftrightarrow> (case e of ME_send _ \<Rightarrow> False | ME_response _ \<Rightarrow> False | ME_promote _ \<Rightarrow> False | _ \<Rightarrow> True)"

lemma update_targets: "updateFlags p src al l = Some l' \<Longrightarrow> tl_targets l' = tl_targets l"
  by (auto simp: updateFlags_def updateWriteFlags_def Let_def split: if_splits bind_splits)

lemma tl_add_targets: "tl_add now p rdy ord src mp al l = Some (l', cs) \<Longrightarrow> tl_targets l' \<noteq> []"
  by (auto simp: tl_add_def Let_def split: if_splits bind_splits option.splits)

lemma replace_all_Nil: "replace_all ts = Some us \<Longrightarrow> us = [] \<longleftrightarrow> ts = []"
  by (cases ts) (auto split: bind_splits)

lemma replaceUpgrades_targets: "replaceUpgrades l = Some l' \<Longrightarrow> tl_targets l' = [] \<longleftrightarrow> tl_targets l = []"
  by (auto simp: replaceUpgrades_def replace_all_Nil split: if_splits bind_splits)

lemma clear_pending_Nil: "clear_pending ts = (us, cs) \<Longrightarrow> us = [] \<longleftrightarrow> ts = []"
  by (cases ts) (auto simp: Let_def split: prod.splits if_splits)

lemma same_register_target: "allocateTarget now pkt rdy ord al m = Some (m', cs) \<Longrightarrow> same_register m m'"
  by (auto simp: allocateTarget_def same_register_def hasTargets_def dest: tl_add_targets split: if_splits bind_splits)

lemma same_register_save: "save_snoop now pkt ord wr m = Some (m', cs) \<Longrightarrow> same_register m m'"
  by (auto simp: save_snoop_def Let_def same_register_def hasTargets_def dest: tl_add_targets split: bind_split_asm if_split_asm)

lemma same_register_in_service: "snoop_in_service now pkt ord m = Some (b, ms, m', cs) \<Longrightarrow> same_register m m'"
  by (auto simp: snoop_in_service_def Let_def same_register_def hasTargets_def dest!: same_register_save split: bind_split_asm if_split_asm)

lemma same_register_snoop: "handleSnoop now pkt ord m = Some (b, ms, m', cs) \<Longrightarrow> same_register m m'"
proof (cases "\<not> qe_inService m \<or> (mk_expressSnoop pkt \<and> downstreamPending m)")
  case True
  assume "handleSnoop now pkt ord m = Some (b, ms, m', cs)"
  then show ?thesis using True unfolding handleSnoop_def Let_def
    by (auto simp: same_register_def hasTargets_def dest: replaceUpgrades_targets split: if_split_asm bind_split_asm)
next
  case False
  assume "handleSnoop now pkt ord m = Some (b, ms, m', cs)"
  then obtain d where "m' = m\<lparr>deferredTargets := d\<rparr> \<or> snoop_in_service now pkt ord (m\<lparr>deferredTargets := d\<rparr>) = Some (b, ms, m', cs)"
    using False that [of "deferredTargets m"] that unfolding handleSnoop_def Let_def by (auto split: if_split_asm bind_split_asm)
  then show ?thesis using same_register_in_service by (auto simp: same_register_def hasTargets_def)
qed

lemma same_register_promoteIf: "promoteIf pred m = Some (m', cs) \<Longrightarrow> same_register m m'"
  by (auto simp: promoteIf_def Let_def same_register_def hasTargets_def split: if_splits bind_splits prod.splits)

lemma same_register_step:
  assumes "mshr_step e (m, sv) = Some (m', sv')" "register_event e"
  shows "same_register m m'"
proof (cases e)
  case ME_cleared
  then show ?thesis using assms clear_pending_Nil
    by (auto simp: clearDownstreamPending_def tl_clearDownstreamPending_def same_register_def hasTargets_def split: bind_splits prod.splits if_splits)
next
  case ME_downstream
  then show ?thesis using assms by (auto simp: set_downstreamPending_def same_register_def hasTargets_def split: bind_splits if_splits)
next
  case ME_readable
  then show ?thesis using assms same_register_promoteIf
    by (auto simp: promoteReadable_def split: bind_splits if_splits) (auto simp: same_register_def)
next
  case ME_writable
  then show ?thesis using assms
    by (auto simp: promoteWritable_def split: bind_splits if_splits dest!: same_register_promoteIf) (auto simp: same_register_def hasTargets_def)
qed (use assms in \<open>auto simp: register_event_def dest: same_register_target same_register_snoop split: bind_splits\<close>)

subsection \<open>The queue of misses under the calls of the cache\<close>

datatype mq_event =
  MQ_miss u64 u64 nat mpkt u64 u64 bool
| MQ_register nat mshr_event
| MQ_send nat bool
| MQ_response nat u64 MemCmd
| MQ_front nat
| MQ_delay nat u64 u64
| MQ_force nat u64

text \<open>The end of \<open>recvTimingResp\<close>: the targets are taken out, and the register waits again or is given back.\<close>

definition finish_response :: "nat \<Rightarrow> u64 \<Rightarrow> MemCmd \<Rightarrow> mshr_queue \<Rightarrow> mshr_queue option" where
  "finish_response i now c q = do {
     (ready, e1) \<leftarrow> extractServiceableTargets c (q_entries q ! i);
     (again, e2) \<leftarrow> promoteDeferredTargets now e1;
     let q1 = q\<lparr>q_entries := (q_entries q)[i := e2]\<rparr>;
     if again then markPending i q1
     else do { (q2, _) \<leftarrow> MSHRQueue_deallocate i q1; Some q2 }
   }"

fun mq_step :: "mq_event \<Rightarrow> mshr_queue \<Rightarrow> mshr_queue option" where
  "mq_step (MQ_miss now blk_addr blk_size pkt when_ready ord al) q =
     do { (_, q1, _) \<leftarrow> MSHRQueue_allocate now blk_addr blk_size pkt when_ready ord al q; Some q1 }"
| "mq_step (MQ_register i e) q = do { (m, _) \<leftarrow> mshr_step e (q_entries q ! i, []); Some (q\<lparr>q_entries := (q_entries q)[i := m]\<rparr>) }"
| "mq_step (MQ_send i pm) q = do { (q1, _) \<leftarrow> MSHRQueue_markInService pm i q; Some q1 }"
| "mq_step (MQ_response i now c) q = finish_response i now c q"
| "mq_step (MQ_front i) q = moveToFront i q"
| "mq_step (MQ_delay i now ticks) q = MSHRQueue_delay now ticks i q"
| "mq_step (MQ_force i now) q = do { (q1, _) \<leftarrow> forceDeallocateTarget now i q; Some q1 }"

text \<open>
  A miss comes with a packet of its block while an entry is free, and a cacheable one only when no register has the
  block; the other calls are for allocated registers.
\<close>

fun mq_env :: "mq_event \<Rightarrow> mshr_queue \<Rightarrow> bool" where
  "mq_env (MQ_miss now blk_addr blk_size pkt when_ready ord al) q \<longleftrightarrow>
     freeList q \<noteq> [] \<and> pkt_fits blk_size pkt \<and>
     (mk_uncacheable pkt \<or> findMatch MSHR_matchBlockAddr blk_addr (mk_secure pkt) True q = Some None)"
| "mq_env (MQ_register i e) q \<longleftrightarrow> i \<in> set (allocatedList q) \<and> register_event e \<and> mshr_env e (q_entries q ! i, [])"
| "mq_env (MQ_send i pm) q \<longleftrightarrow> i \<in> set (readyList q)"
| "mq_env (MQ_response i now c) q \<longleftrightarrow> i \<in> set (allocatedList q) \<and> qe_inService (q_entries q ! i)"
| "mq_env (MQ_front i) q \<longleftrightarrow> i \<in> set (allocatedList q)"
| "mq_env (MQ_delay i now ticks) q \<longleftrightarrow> i \<in> set (readyList q) \<and> qe_readyTime (q_entries q ! i) \<le> now"
| "mq_env (MQ_force i now) q \<longleftrightarrow> i \<in> set (readyList q)"

text \<open>At most one register for a cacheable block.\<close>

definition cached_block :: "'z queue_entry_scheme \<Rightarrow> (u64 \<times> bool) option" where
  "cached_block e = (if qe_isUncacheable e then None else Some (qe_blkAddr e, qe_isSecure e))"

definition unique_blocks :: "mshr_queue \<Rightarrow> bool" where
  "unique_blocks q \<longleftrightarrow> (\<forall>i \<in> set (allocatedList q). \<forall>j \<in> set (allocatedList q).
     cached_block (q_entries q ! i) = cached_block (q_entries q ! j) \<longrightarrow> cached_block (q_entries q ! i) = None \<or> i = j)"

definition mq_inv :: "mshr_queue \<Rightarrow> bool" where
  "mq_inv q \<longleftrightarrow> queue_inv mshr_busy mshr_idle q \<and> unique_blocks q"

lemma unique_blocks_update:
  assumes "unique_blocks q" "set (allocatedList q') \<subseteq> set (allocatedList q)"
    and "\<And>j. j \<in> set (allocatedList q') \<Longrightarrow> cached_block (q_entries q' ! j) = cached_block (q_entries q ! j)"
  shows "unique_blocks q'"
  using assms(1,2) unfolding unique_blocks_def by (simp add: assms(3) subset_iff)

lemma first_match_None:
  "(\<And>i. i \<in> set is \<Longrightarrow> p (q_entries q ! i) \<noteq> None) \<Longrightarrow>
    first_match p q is = Some None \<longleftrightarrow> (\<forall>i \<in> set is. p (q_entries q ! i) = Some False)"
  by (induction "is") (auto split: bind_splits)

lemma first_match_Some:
  "first_match p q is = Some (Some i) \<Longrightarrow> i \<in> set is \<and> p (q_entries q ! i) = Some True"
  by (induction "is") (auto split: bind_splits if_splits)

lemma first_match_total:
  "(\<And>i. i \<in> set is \<Longrightarrow> p (q_entries q ! i) \<noteq> None) \<Longrightarrow> \<exists>r. first_match p q is = Some r"
  by (induction "is") (auto split: bind_splits)

lemma ready_iff:
  assumes "queue_inv busy idle q"
  shows "i \<in> set (readyList q) \<longleftrightarrow> i \<in> set (allocatedList q) \<and> \<not> qe_inService (q_entries q ! i)"
proof -
  have "mset (readyList q) = filter_mset (\<lambda>i. \<not> serv (q_entries q) i) (mset (allocatedList q))"
    using assms by (simp add: queue_inv_def queue_lists_def lists_ok_def)
  then have "set (readyList q) = {i \<in> set (allocatedList q). \<not> serv (q_entries q) i}" by (metis set_mset_filter set_mset_mset)
  then show ?thesis by (simp add: serv_def)
qed

lemma allocate_fields:
  "MSHR_allocate now blk_addr blk_size pkt when_ready ord al m = Some (m', cs) \<Longrightarrow>
    \<not> qe_inService m' \<and> cached_block m' = (if mk_uncacheable pkt then None else Some (blk_addr, mk_secure pkt)) \<and> hasTargets m'"
  by (auto simp: MSHR_allocate_def Let_def cached_block_def hasTargets_def front_target_def split: bind_split_asm if_split_asm)

lemma markInService_fields:
  assumes "MSHR_markInService pm m = Some (m', cs)"
  shows "qe_inService m' \<and> cached_block m' = cached_block m \<and> (hasTargets m \<longrightarrow> hasTargets m')"
proof (cases "downstreamPending m")
  case True
  then show ?thesis using assms by (auto simp: MSHR_markInService_def Let_def cached_block_def hasTargets_def split: bind_split_asm if_split_asm)
next
  case False
  then show ?thesis using assms clear_pending_Nil
    by (auto simp: MSHR_markInService_def Let_def cached_block_def hasTargets_def tl_clearDownstreamPending_def split: bind_split_asm if_split_asm prod.split_asm)
qed

lemma extract_fields: "extractServiceableTargets c m = Some (l, m') \<Longrightarrow> cached_block m' = cached_block m"
  by (auto simp: extractServiceableTargets_def Let_def cached_block_def split: bind_split_asm if_split_asm)

lemma promoteDeferred_fields: "promoteDeferredTargets now m = Some (b, m') \<Longrightarrow> cached_block m' = cached_block m"
  unfolding promoteDeferredTargets_def Let_def by (auto simp: cached_block_def split: bind_split_asm if_split_asm)

lemma mq_miss_ok:
  assumes inv: "mq_inv q" and env: "mq_env (MQ_miss now blk_addr blk_size pkt when_ready ord al) q"
  shows "\<exists>i q' cs. MSHRQueue_allocate now blk_addr blk_size pkt when_ready ord al q = Some (i, q', cs) \<and> mq_inv q'"
proof -
  obtain i fr where f: "freeList q = i # fr" using env by (cases "freeList q") auto
  have Q: "queue_inv mshr_busy mshr_idle q" and U: "unique_blocks q" using inv by (simp_all add: mq_inv_def)
  have idle: "pending (q_entries q ! i) = []" using Q f by (simp add: queue_inv_def mshr_idle_def)
  have "tl_targets (mh_targets (q_entries q ! i)) = []" "tl_targets (deferredTargets (q_entries q ! i)) = []" using idle by (simp_all add: pending_def ids_def)
  from mshr_allocate_ok [OF this, of blk_size pkt now blk_addr when_ready ord al] env obtain e cs where
    e: "MSHR_allocate now blk_addr blk_size pkt when_ready ord al (q_entries q ! i) = Some (e, cs)" "mshr_ok e" by auto
  note F = allocate_fields [OF e(1)]
  have "mshr_busy e" "\<not> qe_inService e" using e(2) F by (simp_all add: mshr_busy_def)
  from mshr_entry.entry_alloc [OF Q f this] obtain rs where
    rs: "addToReadyList i (q\<lparr>freeList := fr, q_entries := (q_entries q)[i := e], allocatedList := allocatedList q @ [i]\<rparr>) =
      Some (q\<lparr>freeList := fr, q_entries := (q_entries q)[i := e], allocatedList := allocatedList q @ [i], readyList := rs\<rparr>)"
    "queue_inv mshr_busy mshr_idle (q\<lparr>freeList := fr, q_entries := (q_entries q)[i := e], allocatedList := allocatedList q @ [i], readyList := rs,
      q_allocated := q_allocated q + 1\<rparr>)" by blast
  have L: "lists_ok (q_entries q) (mset (allocatedList q)) (mset (readyList q)) (add_mset i (mset fr)) (q_allocated q) (numInService q)"
    using Q f by (simp add: queue_inv_def queue_lists_def)
  note b = lists_ok_free [OF L]
  have old: "cached_block (q_entries q ! j) \<noteq> cached_block e" if "j \<in> set (allocatedList q)" "cached_block e \<noteq> None" for j
  proof -
    have c: "\<not> mk_uncacheable pkt" "cached_block e = Some (blk_addr, mk_secure pkt)" using that(2) F by (auto split: if_splits)
    have m: "\<And>j. j \<in> set (allocatedList q) \<Longrightarrow> hasTargets (q_entries q ! j)" using Q by (simp add: queue_inv_def mshr_busy_def)
    have "first_match (\<lambda>e. if True \<and> qe_isUncacheable e then Some False else MSHR_matchBlockAddr blk_addr (mk_secure pkt) e) q (allocatedList q) = Some None"
      using env c(1) by (simp add: findMatch_def)
    then have "(if qe_isUncacheable (q_entries q ! j) then Some False else MSHR_matchBlockAddr blk_addr (mk_secure pkt) (q_entries q ! j)) = Some False"
      using that(1) m by (subst (asm) first_match_None) (auto simp: MSHR_matchBlockAddr_def)
    then show ?thesis using c(2) m [OF that(1)] by (auto simp: cached_block_def MSHR_matchBlockAddr_def split: if_splits)
  qed
  then have old': "j \<in> set (allocatedList q) \<Longrightarrow> cached_block (q_entries q ! j) = cached_block e \<Longrightarrow> cached_block e = None" for j by blast
  have "unique_blocks (q\<lparr>freeList := fr, q_entries := (q_entries q)[i := e], allocatedList := allocatedList q @ [i], readyList := rs, q_allocated := q_allocated q + 1\<rparr>)"
    using U b old' unfolding unique_blocks_def by (simp add: nth_list_update) metis
  then show ?thesis using e(1) f idle rs by (auto simp: MSHRQueue_allocate_def getNumTargets_def pending_def ids_def mq_inv_def)
qed

text \<open>The requests that wait in all registers, and a measure of the work that is left.\<close>

definition waiting :: "mshr_queue \<Rightarrow> nat" where
  "waiting q = (\<Sum>i \<in> set (allocatedList q). length (pending (q_entries q ! i)))"

definition work_left :: "mshr_queue \<Rightarrow> nat" where
  "work_left q = 2 * waiting q + length (readyList q)"

lemma waiting_split:
  assumes "i \<in> set (allocatedList q)"
  shows "waiting q = length (pending (q_entries q ! i)) + (\<Sum>j \<in> set (allocatedList q) - {i}. length (pending (q_entries q ! j)))"
  unfolding waiting_def using assms by (simp add: sum.remove)

lemma waiting_update:
  assumes "i \<in> set (allocatedList q)" "i < length (q_entries q)" "q_entries q' = (q_entries q)[i := e]" "allocatedList q' = allocatedList q"
  shows "waiting q' + length (pending (q_entries q ! i)) = waiting q + length (pending e)"
proof -
  have "(\<Sum>j \<in> set (allocatedList q') - {i}. length (pending (q_entries q' ! j))) = (\<Sum>j \<in> set (allocatedList q) - {i}. length (pending (q_entries q ! j)))"
    using assms by (intro sum.cong) auto
  then show ?thesis using waiting_split [of i q] waiting_split [of i q'] assms by simp
qed

lemma served_less: "served r q q' \<Longrightarrow> length q' < length q"
proof -
  assume s: "served r q q'"
  then have "size (mset q) = size (mset r + mset q')" by (simp add: served_def)
  then show ?thesis using s by (cases r) (simp_all add: served_def)
qed

text \<open>The operations on an allocated register.\<close>

lemma unique_blocks_entry:
  "unique_blocks q \<Longrightarrow> cached_block e = cached_block (q_entries q ! i) \<Longrightarrow> i < length (q_entries q) \<Longrightarrow>
    q_entries q' = (q_entries q)[i := e] \<Longrightarrow> set (allocatedList q') \<subseteq> set (allocatedList q) \<Longrightarrow> unique_blocks q'"
  by (erule unique_blocks_update) (auto simp: nth_list_update)

lemma mq_register_ok:
  assumes inv: "mq_inv q" and env: "mq_env (MQ_register i e) q"
  shows "\<exists>q'. mq_step (MQ_register i e) q = Some q' \<and> mq_inv q'"
proof -
  have Q: "queue_inv mshr_busy mshr_idle q" and U: "unique_blocks q" using inv by (simp_all add: mq_inv_def)
  have i: "i \<in> set (allocatedList q)" "register_event e" "mshr_env e (q_entries q ! i, [])" using env by simp_all
  have busy: "mshr_ok (q_entries q ! i)" "hasTargets (q_entries q ! i)" using Q i(1) by (simp_all add: queue_inv_def mshr_busy_def)
  obtain m sv where m: "mshr_step e (q_entries q ! i, []) = Some (m, sv)" "mshr_ok m"
    using mshr_step_ok [of "(q_entries q ! i, [])" e] busy(1) i(3) by (auto simp: mshr_inv_def)
  note S = same_register_step [OF m(1) i(2)]
  have "mshr_busy m" "qe_inService m = qe_inService (q_entries q ! i)" "cached_block m = cached_block (q_entries q ! i)"
    using S m(2) busy(2) by (simp_all add: mshr_busy_def same_register_def cached_block_def)
  then have "queue_inv mshr_busy mshr_idle (q\<lparr>q_entries := (q_entries q)[i := m]\<rparr>)" "unique_blocks (q\<lparr>q_entries := (q_entries q)[i := m]\<rparr>)"
    using mshr_entry.entry_update [OF Q i(1)] unique_blocks_entry [OF U] mshr_entry.allocated_bounds(1) [OF Q i(1)] by simp_all
  then show ?thesis using m(1) by (simp add: mq_inv_def)
qed

lemma mq_send_ok:
  assumes inv: "mq_inv q" and env: "i \<in> set (readyList q)"
  shows "\<exists>q' cs. MSHRQueue_markInService pm i q = Some (q', cs) \<and> mq_inv q' \<and> readyList q' = remove1 i (readyList q) \<and>
    allocatedList q' = allocatedList q \<and> work_left q' < work_left q"
proof -
  have Q: "queue_inv mshr_busy mshr_idle q" and U: "unique_blocks q" using inv by (simp_all add: mq_inv_def)
  have i: "i \<in> set (allocatedList q)" "\<not> qe_inService (q_entries q ! i)" using env ready_iff [OF Q] by simp_all
  have busy: "mshr_ok (q_entries q ! i)" "hasTargets (q_entries q ! i)" using Q i(1) by (simp_all add: queue_inv_def mshr_busy_def)
  obtain m cs where m: "MSHR_markInService pm (q_entries q ! i) = Some (m, cs)" "mshr_ok m" "pending m = pending (q_entries q ! i)" using markInService_ok [OF busy(1) i(2)] by blast
  note F = markInService_fields [OF m(1)]
  have "mshr_busy m" "qe_inService m" using F m(2) busy(2) by (simp_all add: mshr_busy_def)
  then obtain rs where rs: "erase i (readyList q) = Some rs"
    "queue_inv mshr_busy mshr_idle (q\<lparr>q_entries := (q_entries q)[i := m], readyList := rs, numInService := numInService q + 1\<rparr>)"
    using mshr_entry.entry_serve [OF Q i] by blast
  moreover have "unique_blocks (q\<lparr>q_entries := (q_entries q)[i := m], readyList := rs, numInService := numInService q + 1\<rparr>)"
    by (rule unique_blocks_entry [OF U]) (use F mshr_entry.allocated_bounds(1) [OF Q i(1)] in simp_all)
  moreover have "work_left (q\<lparr>q_entries := (q_entries q)[i := m], readyList := rs, numInService := numInService q + 1\<rparr>) < work_left q"
    using waiting_update [OF i(1) mshr_entry.allocated_bounds(1) [OF Q i(1)], of "q\<lparr>q_entries := (q_entries q)[i := m], readyList := rs, numInService := numInService q + 1\<rparr>" m]
      m(3) rs(1) env length_pos_if_in_set [of i "readyList q"] by (auto simp: work_left_def erase_def length_remove1)
  ultimately show ?thesis using m(1) env by (auto simp: MSHRQueue_markInService_def mq_inv_def erase_def)
qed

lemma mq_release_ok:
  assumes inv: "mq_inv q" and i: "i \<in> set (allocatedList q)" and e: "mshr_releasable e" "qe_inService e = qe_inService (q_entries q ! i)"
  shows "\<exists>q' d. MSHRQueue_deallocate i (q\<lparr>q_entries := (q_entries q)[i := e]\<rparr>) = Some (q', d) \<and> mq_inv q' \<and>
    waiting q' + length (pending (q_entries q ! i)) = waiting q \<and> length (readyList q') \<le> length (readyList q)"
proof -
  have Q: "queue_inv mshr_busy mshr_idle q" and U: "unique_blocks q" using inv by (simp_all add: mq_inv_def)
  obtain q' d where q': "Queue_deallocate MSHR_deallocate i (q\<lparr>q_entries := (q_entries q)[i := e]\<rparr>) = Some (q', d)" "queue_inv mshr_busy mshr_idle q'"
    "set (allocatedList q') = set (allocatedList q) - {i}" "\<forall>j. j \<noteq> i \<longrightarrow> q_entries q' ! j = q_entries q ! j"
    using mshr_entry.entry_release [OF Q i e] by blast
  have "unique_blocks q'" by (rule unique_blocks_update [OF U]) (use q'(3,4) in auto)
  moreover have "waiting q' + length (pending (q_entries q ! i)) = waiting q"
    unfolding waiting_split [OF i] unfolding waiting_def q'(3) using q'(4) by (auto intro!: sum.cong)
  moreover have "length (readyList q') \<le> length (readyList q)"
    using q'(1) by (auto simp: Queue_deallocate_def Let_def erase_def length_remove1 split: bind_split_asm if_split_asm)
  ultimately show ?thesis using q' by (simp add: MSHRQueue_deallocate_def mq_inv_def)
qed

lemma mq_response_ok:
  assumes inv: "mq_inv q" and i: "i \<in> set (allocatedList q)" "qe_inService (q_entries q ! i)"
  shows "\<exists>q'. finish_response i now c q = Some q' \<and> mq_inv q' \<and> work_left q' < work_left q"
proof -
  have Q: "queue_inv mshr_busy mshr_idle q" and U: "unique_blocks q" using inv by (simp_all add: mq_inv_def)
  note b = mshr_entry.allocated_bounds(1) [OF Q i(1)]
  have busy: "mshr_ok (q_entries q ! i)" "tl_targets (mh_targets (q_entries q ! i)) \<noteq> []" using Q i(1) by (simp_all add: queue_inv_def mshr_busy_def hasTargets_def)
  obtain l e1 where e1: "extractServiceableTargets c (q_entries q ! i) = Some (l, e1)" "mshr_ok e1" "qe_inService e1"
    "no_snoops (map t_source (tl_targets (mh_targets e1)))" "served (ids l) (pending (q_entries q ! i)) (pending e1)" using extract_ok [OF busy, of c] i(2) by auto
  obtain again e2 where e2: "promoteDeferredTargets now e1 = Some (again, e2)" "mshr_ok e2" "again = (pending e1 \<noteq> [])" "pending e2 = pending e1"
    "again \<longrightarrow> tl_targets (mh_targets e2) \<noteq> []" "qe_inService e2" "no_snoops (map t_source (tl_targets (mh_targets e2)))"
    using promoteDeferred_ok [OF e1(2), of now] e1(3,4) by auto
  have less: "length (pending e2) < length (pending (q_entries q ! i))" using served_less [OF e1(5)] e2(4) by simp
  have blk: "cached_block e2 = cached_block (q_entries q ! i)" using extract_fields [OF e1(1)] promoteDeferred_fields [OF e2(1)] by simp
  show ?thesis
  proof (cases again)
    case True
    define e3 where "e3 = e2\<lparr>qe_inService := False\<rparr>"
    have same: "cached_block e3 = cached_block e2" by (simp add: e3_def cached_block_def)
    have "mshr_busy e3" "\<not> qe_inService e3" using True e2 by (simp_all add: e3_def mshr_busy_def hasTargets_def mshr_ok_def)
    then obtain rs where rs: "addToReadyList i (q\<lparr>q_entries := (q_entries q)[i := e3], numInService := numInService q - 1\<rparr>) =
        Some (q\<lparr>q_entries := (q_entries q)[i := e3], numInService := numInService q - 1, readyList := rs\<rparr>)"
      "queue_inv mshr_busy mshr_idle (q\<lparr>q_entries := (q_entries q)[i := e3], numInService := numInService q - 1, readyList := rs\<rparr>)"
      "length rs = Suc (length (readyList q))" using mshr_entry.entry_pend [OF Q i] by blast
    have "unique_blocks (q\<lparr>q_entries := (q_entries q)[i := e3], numInService := numInService q - 1, readyList := rs\<rparr>)"
      by (rule unique_blocks_entry [OF U]) (use blk b same in simp_all)
    moreover have "length rs = Suc (length (readyList q))" by (rule rs(3))
    moreover have "length (pending e3) = length (pending e2)" by (simp add: e3_def pending_def)
    then have "waiting (q\<lparr>q_entries := (q_entries q)[i := e3], numInService := numInService q - 1, readyList := rs\<rparr>) < waiting q"
      using waiting_update [OF i(1) b, of "q\<lparr>q_entries := (q_entries q)[i := e3], numInService := numInService q - 1, readyList := rs\<rparr>" e3] less by simp
    ultimately show ?thesis using True e1(1) e2(1,6) rs b by (simp add: finish_response_def markPending_def e3_def mq_inv_def work_left_def)
  next
    case False
    then have "mshr_releasable e2" "qe_inService e2 = qe_inService (q_entries q ! i)" using e2 i(2) by (simp_all add: mshr_releasable_def)
    from mq_release_ok [OF inv i(1) this] show ?thesis using False e1(1) e2(1) less by (auto simp: finish_response_def work_left_def)
  qed
qed

lemma front_mset: "i \<in> set xs \<Longrightarrow> mset (i # remove1 i xs) = mset xs"
  by simp

lemma mq_front_ok:
  assumes inv: "mq_inv q" and i: "i \<in> set (allocatedList q)"
  shows "\<exists>q'. moveToFront i q = Some q' \<and> mq_inv q'"
proof (cases "qe_inService (q_entries q ! i)")
  case False
  have Q: "queue_inv mshr_busy mshr_idle q" using inv by (simp add: mq_inv_def)
  have r: "i \<in> set (readyList q)" using False i ready_iff [OF Q] by simp
  then have "mq_inv (q\<lparr>readyList := i # remove1 i (readyList q)\<rparr>)"
    using inv by (simp add: mq_inv_def queue_inv_def queue_lists_def unique_blocks_def)
  then show ?thesis using False r by (simp add: moveToFront_def erase_def)
qed (use inv in \<open>simp add: moveToFront_def\<close>)

lemma find_index_here: "i \<in> set xs \<Longrightarrow> xs ! find_index (\<lambda>j. j = i) xs = i" "i \<in> set xs \<Longrightarrow> find_index (\<lambda>j. j = i) xs < length xs"
  by (induction xs) auto

text \<open>The search for the new place starts at the entry itself and stops there.\<close>

lemma delay_in_place:
  assumes "i \<in> set (readyList q)" "qe_readyTime (q_entries q ! i) \<le> now"
  shows "MSHRQueue_delay now ticks i q = Some (q\<lparr>q_entries := (q_entries q)[i := (q_entries q ! i)\<lparr>qe_readyTime := now + ticks\<rparr>]\<rparr>)"
proof -
  let ?p = "find_index (\<lambda>j. j = i) (readyList q)"
  have "drop ?p (readyList q) = i # drop (Suc ?p) (readyList q)" using Cons_nth_drop_Suc [OF find_index_here(2) [OF assms(1)]] find_index_here(1) [OF assms(1)] by simp
  then show ?thesis using assms by (simp add: MSHRQueue_delay_def MSHR_delay_def Let_def splice_at_def)
qed

lemma mq_delay_ok:
  assumes inv: "mq_inv q" and env: "i \<in> set (readyList q)" "qe_readyTime (q_entries q ! i) \<le> now"
  shows "\<exists>q'. MSHRQueue_delay now ticks i q = Some q' \<and> mq_inv q'"
proof -
  have Q: "queue_inv mshr_busy mshr_idle q" and U: "unique_blocks q" using inv by (simp_all add: mq_inv_def)
  have i: "i \<in> set (allocatedList q)" using env(1) ready_iff [OF Q] by simp
  let ?e = "(q_entries q ! i)\<lparr>qe_readyTime := now + ticks\<rparr>"
  have "mshr_busy (q_entries q ! i)" using Q i by (simp add: queue_inv_def)
  then have "mshr_busy ?e" "qe_inService ?e = qe_inService (q_entries q ! i)" "cached_block ?e = cached_block (q_entries q ! i)"
    by (simp_all add: mshr_busy_def hasTargets_def mshr_ok_def cached_block_def)
  then have "mq_inv (q\<lparr>q_entries := (q_entries q)[i := ?e]\<rparr>)"
    using mshr_entry.entry_update [OF Q i] unique_blocks_entry [OF U] mshr_entry.allocated_bounds(1) [OF Q i] by (simp add: mq_inv_def)
  then show ?thesis using delay_in_place [OF env, of ticks] by simp
qed

lemma popTarget_ok:
  assumes ok: "mshr_ok m" and ns: "\<not> qe_inService m" and ne: "tl_targets (mh_targets m) \<noteq> []"
  shows "\<exists>m'. popTarget m = Some m' \<and> mshr_ok m' \<and> \<not> qe_inService m' \<and> cached_block m' = cached_block m"
proof -
  obtain t ts where ts: "tl_targets (mh_targets m) = t # ts" using ne by (cases "tl_targets (mh_targets m)") auto
  have "sources_ok (map t_source (t # ts))" "no_snoops (map t_source (t # ts))" using ok ns by (simp_all add: mshr_ok_def flip: ts)
  then have "sources_ok (map t_source ts)" "no_snoops (map t_source ts)"
    by (cases ts; auto simp: sources_ok_def)+
  then show ?thesis using ok ns ts by (simp add: popTarget_def mshr_ok_def list_ok_def nw_sound_def cached_block_def)
qed

lemma mq_force_ok:
  assumes inv: "mq_inv q" and env: "i \<in> set (readyList q)"
  shows "\<exists>q' b. forceDeallocateTarget now i q = Some (q', b) \<and> mq_inv q'"
proof -
  have Q: "queue_inv mshr_busy mshr_idle q" and U: "unique_blocks q" using inv by (simp_all add: mq_inv_def)
  have i: "i \<in> set (allocatedList q)" "\<not> qe_inService (q_entries q ! i)" using env ready_iff [OF Q] by simp_all
  have busy: "mshr_ok (q_entries q ! i)" "hasTargets (q_entries q ! i)" using Q i(1) by (simp_all add: queue_inv_def mshr_busy_def)
  obtain e where e: "popTarget (q_entries q ! i) = Some e" "mshr_ok e" "\<not> qe_inService e" "cached_block e = cached_block (q_entries q ! i)"
    using popTarget_ok [OF busy(1) i(2)] busy(2) by (auto simp: hasTargets_def)
  have keep: "mq_inv (q\<lparr>q_entries := (q_entries q)[i := x]\<rparr>)" if "mshr_ok x" "hasTargets x" "\<not> qe_inService x" "cached_block x = cached_block (q_entries q ! i)" for x
    using that i mshr_entry.entry_update [OF Q i(1), of x] unique_blocks_entry [OF U, of x i] mshr_entry.allocated_bounds(1) [OF Q i(1)]
    by (simp add: mq_inv_def mshr_busy_def)
  show ?thesis
  proof (cases "hasTargets e")
    case True
    then show ?thesis using keep [OF e(2) True e(3,4)] e(1) busy(2) by (simp add: forceDeallocateTarget_def)
  next
    case False
    obtain b e1 where e1: "promoteDeferredTargets now e = Some (b, e1)" "mshr_ok e1" "b = (pending e \<noteq> [])" "pending e1 = pending e"
      "b \<longrightarrow> tl_targets (mh_targets e1) \<noteq> []" "\<not> qe_inService e1" using promoteDeferred_ok [OF e(2), of now] e(3) by auto
    have blk: "cached_block e1 = cached_block (q_entries q ! i)" using promoteDeferred_fields [OF e1(1)] e(4) by simp
    show ?thesis
    proof (cases b)
      case True
      then show ?thesis using keep [of e1] e1 blk e(1) busy(2) False by (simp add: forceDeallocateTarget_def hasTargets_def)
    next
      case nb: False
      then have "mshr_releasable e1" "qe_inService e1 = qe_inService (q_entries q ! i)" using e1 i(2) by (simp_all add: mshr_releasable_def)
      from mq_release_ok [OF inv i(1) this] show ?thesis using nb False e1(1) e(1) busy(2) by (auto simp: forceDeallocateTarget_def)
    qed
  qed
qed

interpretation mq_machine: safe_machine mq_step mq_env mq_inv
proof
  show "\<exists>q'. mq_step e q = Some q' \<and> mq_inv q'" if inv: "mq_inv q" and env: "mq_env e q" for e q
  proof (cases e)
    case (MQ_miss now blk_addr blk_size pkt when_ready ord al)
    then show ?thesis using mq_miss_ok [OF inv] env by fastforce
  next
    case (MQ_register i e)
    then show ?thesis using mq_register_ok [OF inv] env by blast
  next
    case (MQ_send i pm)
    then show ?thesis using mq_send_ok [OF inv, of i pm] env by auto
  next
    case (MQ_force i now)
    then show ?thesis using mq_force_ok [OF inv, of i now] env by auto
  next
    case (MQ_response i now c)
    then show ?thesis using mq_response_ok [OF inv, of i now c] env by auto
  qed (use mq_front_ok mq_delay_ok inv env in auto)
qed

subsection \<open>The write queue\<close>

datatype wq_event = WQ_allocate u64 u64 nat mpkt u64 u64 | WQ_send nat

fun wq_step :: "wq_event \<Rightarrow> write_queue \<Rightarrow> write_queue option" where
  "wq_step (WQ_allocate now blk_addr blk_size pkt when_ready ord) q =
     do { (_, q1) \<leftarrow> WriteQueue_allocate now blk_addr blk_size pkt when_ready ord q; Some q1 }"
| "wq_step (WQ_send i) q = do { (q1, _) \<leftarrow> WriteQueue_markInService i q; Some q1 }"

fun wq_env :: "wq_event \<Rightarrow> write_queue \<Rightarrow> bool" where
  "wq_env (WQ_allocate now blk_addr blk_size pkt when_ready ord) q \<longleftrightarrow> freeList q \<noteq> [] \<and>
     ((isWrite (mk_cmd pkt) \<and> mk_uncacheable pkt) \<or> (isEviction (mk_cmd pkt) \<and> \<not> mk_uncacheable pkt) \<or> mk_cmd pkt = WriteClean)"
| "wq_env (WQ_send i) q \<longleftrightarrow> i \<in> set (readyList q)"

definition wq_inv :: "write_queue \<Rightarrow> bool" where
  "wq_inv q \<longleftrightarrow> queue_inv wq_busy wq_idle q \<and> (\<forall>i \<in> set (allocatedList q). \<not> qe_inService (q_entries q ! i))"

lemma wq_allocate_ok:
  assumes inv: "wq_inv q" and env: "wq_env (WQ_allocate now blk_addr blk_size pkt when_ready ord) q"
  shows "\<exists>i q'. WriteQueue_allocate now blk_addr blk_size pkt when_ready ord q = Some (i, q') \<and> wq_inv q'"
proof -
  obtain i fr where f: "freeList q = i # fr" using env by (cases "freeList q") auto
  have Q: "queue_inv wq_busy wq_idle q" using inv by (simp add: wq_inv_def)
  have idle: "wq_targets (q_entries q ! i) = []" using Q f by (simp add: queue_inv_def wq_idle_def)
  obtain e where e: "WriteQueueEntry_allocate now blk_addr blk_size pkt when_ready ord (q_entries q ! i) = Some e" "wq_busy e" "\<not> qe_inService e"
    using idle env by (auto simp: WriteQueueEntry_allocate_def wq_busy_def pkt_matchBlockAddr_def)
  from write_entry.entry_alloc [OF Q f e(2,3)] obtain rs where
    rs: "addToReadyList i (q\<lparr>freeList := fr, q_entries := (q_entries q)[i := e], allocatedList := allocatedList q @ [i]\<rparr>) =
      Some (q\<lparr>freeList := fr, q_entries := (q_entries q)[i := e], allocatedList := allocatedList q @ [i], readyList := rs\<rparr>)"
    "queue_inv wq_busy wq_idle (q\<lparr>freeList := fr, q_entries := (q_entries q)[i := e], allocatedList := allocatedList q @ [i], readyList := rs,
      q_allocated := q_allocated q + 1\<rparr>)" by blast
  have L: "lists_ok (q_entries q) (mset (allocatedList q)) (mset (readyList q)) (add_mset i (mset fr)) (q_allocated q) (numInService q)"
    using Q f by (simp add: queue_inv_def queue_lists_def)
  show ?thesis using lists_ok_free [OF L] e f idle rs inv by (auto simp: WriteQueue_allocate_def wq_inv_def nth_list_update)
qed

lemma wq_send_ok:
  assumes inv: "wq_inv q" and env: "i \<in> set (readyList q)"
  shows "\<exists>q' d. WriteQueue_markInService i q = Some (q', d) \<and> wq_inv q'"
proof -
  have Q: "queue_inv wq_busy wq_idle q" using inv by (simp add: wq_inv_def)
  have i: "i \<in> set (allocatedList q)" using env ready_iff [OF Q] by simp
  have "length (wq_targets (q_entries q ! i)) = 1" using Q i by (simp add: queue_inv_def wq_busy_def)
  then obtain t where "wq_targets (q_entries q ! i) = [t]" by (auto simp: length_Suc_conv)
  then have p: "wq_popTarget (q_entries q ! i) = Some ((q_entries q ! i)\<lparr>wq_targets := []\<rparr>)" by (simp add: wq_popTarget_def)
  have "wq_idle ((q_entries q ! i)\<lparr>wq_targets := []\<rparr>)" "qe_inService ((q_entries q ! i)\<lparr>wq_targets := []\<rparr>) = qe_inService (q_entries q ! i)"
    by (simp_all add: wq_idle_def)
  from write_entry.entry_release [OF Q i this] show ?thesis using p inv by (auto simp: WriteQueue_markInService_def wq_inv_def)
qed

interpretation wq_machine: safe_machine wq_step wq_env wq_inv
proof
  show "\<exists>q'. wq_step e q = Some q' \<and> wq_inv q'" if inv: "wq_inv q" and env: "wq_env e q" for e q
  proof (cases e)
    case (WQ_allocate now blk_addr blk_size pkt when_ready ord)
    then have "wq_env (WQ_allocate now blk_addr blk_size pkt when_ready ord) q" using env by simp
    from wq_allocate_ok [OF inv this] show ?thesis using WQ_allocate by auto
  next
    case (WQ_send i)
    then have "i \<in> set (readyList q)" using env by simp
    from wq_send_ok [OF inv this] show ?thesis using WQ_send by auto
  qed
qed

subsection \<open>Properties\<close>

lemma mq_inv_new: "mq_inv (MSHRQueue_new num_entries reserve demand)"
proof -
  let ?q = "MSHRQueue_new num_entries reserve demand"
  have "queue_lists ?q" using Queue_new_lists [of MSHR_new num_entries reserve]
    by (simp add: queue_lists_def MSHRQueue_new_def Queue.extend_def Queue_new_def)
  then show ?thesis by (auto simp: mq_inv_def queue_inv_def unique_blocks_def MSHRQueue_new_def Queue.extend_def Queue_new_def mshr_idle_def
      MSHR_new_def pending_def ids_def TargetList_new_def)
qed

text \<open>
  C13: The queue of misses never fails.  Under every sequence of misses, further targets, snoops, sends, responses, promotions,
  delays and forced deallocations that the cache may perform on a new queue, no assertion and no list operation fails;
  every entry is allocated or free, the ready list has exactly the allocated entries that are not in service, and no
  cacheable block has two registers.
\<close>

theorem mshr_queue_never_aborts:
  assumes "admissible mq_step mq_env es (MSHRQueue_new num_entries reserve demand)"
  shows "\<exists>q. run mq_step es (MSHRQueue_new num_entries reserve demand) = Some q \<and> mq_inv q"
  using mq_machine.run_safe [OF mq_inv_new assms] .

definition example_misses :: "mq_event list" where
  "example_misses = [MQ_miss 1 64 64 (example_pkt 1 ReadReq False) 1 1 True, MQ_send 0 False, MQ_register 0 (ME_target 2 (example_pkt 2 WriteReq False) 2 2 True),
     MQ_miss 3 128 64 (example_pkt 3 ReadReq False) 3 3 True, MQ_response 0 5 ReadResp]"

theorem mshr_queue_never_aborts_witness:
  "\<exists>q. run mq_step example_misses (MSHRQueue_new 2 1 0) = Some q \<and> mq_inv q"
proof (rule mshr_queue_never_aborts)
  show "admissible mq_step mq_env example_misses (MSHRQueue_new 2 1 0)" by code_simp
qed

definition send_or_response :: "mq_event \<Rightarrow> bool" where
  "send_or_response e \<longleftrightarrow> (case e of MQ_send _ _ \<Rightarrow> True | MQ_response _ _ _ \<Rightarrow> True | _ \<Rightarrow> False)"

lemma drain_step:
  assumes "mq_inv q" "mq_env e q" "send_or_response e"
  shows "\<exists>q'. mq_step e q = Some q' \<and> mq_inv q' \<and> work_left q' < work_left q"
proof (cases e)
  case (MQ_send i pm)
  then show ?thesis using mq_send_ok [OF assms(1), of i pm] assms(2) by auto
next
  case (MQ_response i now c)
  then show ?thesis using mq_response_ok [OF assms(1), of i now c] assms(2) by auto
qed (use assms(3) in \<open>simp_all add: send_or_response_def\<close>)

lemma drain_run:
  "mq_inv q \<Longrightarrow> admissible mq_step mq_env es q \<Longrightarrow> list_all send_or_response es \<Longrightarrow>
    \<exists>q'. run mq_step es q = Some q' \<and> mq_inv q' \<and> length es + work_left q' \<le> work_left q"
proof (induction es arbitrary: q)
  case (Cons e es)
  obtain q1 where q1: "mq_step e q = Some q1" "mq_inv q1" "work_left q1 < work_left q" using drain_step [of q e] Cons.prems by auto
  then show ?case using Cons.IH [OF q1(2)] Cons.prems by fastforce
qed simp

lemma drain_stuck:
  assumes inv: "mq_inv q" and stuck: "\<And>e. send_or_response e \<Longrightarrow> \<not> mq_env e q"
  shows "isEmpty q"
proof (rule ccontr)
  have Q: "queue_inv mshr_busy mshr_idle q" using inv by (simp add: mq_inv_def)
  assume "\<not> isEmpty q"
  then have "allocatedList q \<noteq> []" using Q by (auto simp: isEmpty_def queue_inv_def queue_lists_def lists_ok_def)
  then obtain i where i: "i \<in> set (allocatedList q)" by (meson last_in_set)
  show False
  proof (cases "qe_inService (q_entries q ! i)")
    case True
    then show False using i stuck [of "MQ_response i 0 ReadResp"] by (simp add: send_or_response_def)
  next
    case False
    then show False using i stuck [of "MQ_send i False"] ready_iff [OF Q] by (simp add: send_or_response_def)
  qed
qed

text \<open>
  C14: Misses drain.  While no new request comes, any sequence of sends and responses, in any order, is finite: its length is
  at most twice the number of waiting requests plus the number of registers that are ready.  And it can stop only
  when the queue is empty, for a register that is ready can be sent and one in service can receive its response.
\<close>

theorem misses_drain:
  assumes "mq_inv q" "admissible mq_step mq_env es q" "list_all send_or_response es"
  shows "\<exists>q'. run mq_step es q = Some q' \<and> length es \<le> 2 * waiting q + length (readyList q) \<and>
    ((\<forall>e. send_or_response e \<longrightarrow> \<not> mq_env e q') \<longrightarrow> isEmpty q')"
proof -
  obtain q' where "run mq_step es q = Some q'" "mq_inv q'" "length es + work_left q' \<le> work_left q" using drain_run [OF assms] by blast
  then show ?thesis using drain_stuck [of q'] by (auto simp: work_left_def)
qed

definition example_drain :: "mq_event list" where
  "example_drain = [MQ_send 1 False, MQ_send 0 False, MQ_response 0 9 ReadExResp, MQ_response 1 9 ReadResp]"

lemma example_reached: "\<exists>q. run mq_step example_misses (MSHRQueue_new 2 1 0) = Some q \<and> mq_inv q"
  by (rule mq_machine.run_safe [OF mq_inv_new]) code_simp

theorem misses_drain_witness:
  "\<exists>q q'. run mq_step example_misses (MSHRQueue_new 2 1 0) = Some q \<and> run mq_step example_drain q = Some q' \<and>
    length example_drain \<le> 2 * waiting q + length (readyList q) \<and> isEmpty q'"
proof -
  let ?r = "run mq_step example_misses (MSHRQueue_new 2 1 0)"
  obtain q where q: "?r = Some q" "mq_inv q" using example_reached by blast
  have "admissible mq_step mq_env example_drain (the ?r)" by code_simp
  then have adm: "admissible mq_step mq_env example_drain q" using q(1) by simp
  have "list_all send_or_response example_drain" by code_simp
  from misses_drain [OF q(2) adm this] obtain q' where q': "run mq_step example_drain q = Some q'"
    "length example_drain \<le> 2 * waiting q + length (readyList q)" by blast
  have "case run mq_step example_drain (the ?r) of None \<Rightarrow> False | Some q' \<Rightarrow> isEmpty q'" by code_simp
  then have "isEmpty q'" using q(1) q'(1) by simp
  then show ?thesis using q(1) q' by blast
qed

text \<open>
  C36: Delaying a miss blocks the misses behind it.  \<open>delay\<close> is to move the register to the place of its new ready
  time, but the search for this place starts at the register itself and ends there.  So a delayed register stays at the
  head of the ready list, and \<open>getNext\<close> offers nothing although a register behind it is ready.
\<close>

theorem delay_blocks_ready:
  assumes "mq_inv q" "readyList q = i # rest" "j \<in> set rest" "readyTime q i \<le> now" "readyTime q j \<le> now" "now < now + ticks"
  shows "\<exists>q'. MSHRQueue_delay now ticks i q = Some q' \<and> readyList q' = i # rest \<and> readyTime q' j \<le> now \<and> getNext now q = Some i \<and> getNext now q' = None"
proof -
  have Q: "queue_inv mshr_busy mshr_idle q" using assms(1) by (simp add: mq_inv_def)
  have i: "i \<in> set (allocatedList q)" using ready_iff [OF Q, of i] assms(2) by simp
  have "mset (readyList q) \<subseteq># mset (allocatedList q)" using Q by (simp add: queue_inv_def queue_lists_def lists_ok_def)
  then have "count (mset (readyList q)) i \<le> count (mset (allocatedList q)) i" by (simp add: mset_subset_eq_count)
  moreover have "count (mset (allocatedList q)) i \<le> 1" using mshr_entry.allocated_bounds(3) [OF Q i] by (simp add: distinct_count_atmost_1)
  ultimately have "count (mset (readyList q)) i \<le> 1" by (rule le_trans)
  then have "i \<notin> set rest" using assms(2) by simp
  then have "i \<noteq> j" using assms(3) by blast
  moreover have "MSHRQueue_delay now ticks i q = Some (q\<lparr>q_entries := (q_entries q)[i := (q_entries q ! i)\<lparr>qe_readyTime := now + ticks\<rparr>]\<rparr>)"
    using delay_in_place [of i q now ticks] assms(2,4) by (simp add: readyTime_def)
  ultimately show ?thesis using assms mshr_entry.allocated_bounds(1) [OF Q i] by (simp add: readyTime_def getNext_def)
qed

theorem delay_blocks_ready_witness:
  "\<exists>q q'. run mq_step example_misses (MSHRQueue_new 2 1 0) = Some q \<and> MSHRQueue_delay 9 5 1 q = Some q' \<and>
    readyList q' = [1, 0] \<and> readyTime q' 0 \<le> 9 \<and> getNext 9 q' = None"
proof -
  let ?r = "run mq_step example_misses (MSHRQueue_new 2 1 0)"
  obtain q where q: "?r = Some q" "mq_inv q" using example_reached by blast
  have "readyList (the ?r) = [1, 0]" "readyTime (the ?r) 1 \<le> 9" "readyTime (the ?r) 0 \<le> 9" by code_simp+
  then have r: "readyList q = [1, 0]" "readyTime q 1 \<le> 9" "readyTime q 0 \<le> 9" using q(1) by simp_all
  have "(9 :: u64) < 9 + 5" by simp
  from delay_blocks_ready [OF q(2) r(1) _ r(2,3) this] show ?thesis using q(1) by auto
qed

definition same_block :: "'y queue_entry_scheme \<Rightarrow> 'z queue_entry_scheme \<Rightarrow> bool" where
  "same_block e f \<longleftrightarrow> qe_blkAddr e = qe_blkAddr f \<and> qe_isSecure e = qe_isSecure f"

lemma conflict_miss_ok:
  assumes "mq_inv q" "wq_busy e"
  shows "\<exists>c. conflict_miss e q = Some c \<and>
    (case c of None \<Rightarrow> \<forall>i \<in> set (readyList q). \<not> same_block (q_entries q ! i) e | Some i \<Rightarrow> i \<in> set (readyList q) \<and> same_block (q_entries q ! i) e)"
proof -
  let ?p = "MSHR_conflictAddr (\<lambda>a sec. WriteQueueEntry_matchBlockAddr a sec e)"
  have Q: "queue_inv mshr_busy mshr_idle q" using assms(1) by (simp add: mq_inv_def)
  have p: "?p (q_entries q ! i) = Some (same_block (q_entries q ! i) e)" if "i \<in> set (readyList q)" for i
    using that Q assms(2) ready_iff [OF Q, of i]
    by (auto simp: MSHR_conflictAddr_def WriteQueueEntry_matchBlockAddr_def wq_hasTargets_def wq_busy_def queue_inv_def mshr_busy_def same_block_def)
  obtain c where c: "conflict_miss e q = Some c" using first_match_total [of "readyList q" ?p q] p by (auto simp: conflict_miss_def findPending_def)
  show ?thesis
  proof (cases c)
    case None
    then have "\<forall>i \<in> set (readyList q). ?p (q_entries q ! i) = Some False"
      using c p by (subst first_match_None [symmetric]) (auto simp: conflict_miss_def findPending_def)
    then show ?thesis using c None p by simp
  next
    case (Some i)
    then show ?thesis using c p first_match_Some [of ?p q "readyList q" i] by (auto simp: conflict_miss_def findPending_def)
  qed
qed

lemma conflict_write_ok:
  assumes "wq_inv q" "mshr_busy e"
  shows "\<exists>c. conflict_write e q = Some c \<and>
    (case c of None \<Rightarrow> \<forall>i \<in> set (readyList q). \<not> same_block (q_entries q ! i) e | Some i \<Rightarrow> i \<in> set (readyList q) \<and> same_block (q_entries q ! i) e)"
proof -
  let ?p = "WriteQueueEntry_conflictAddr (\<lambda>a sec. MSHR_matchBlockAddr a sec e)"
  have Q: "queue_inv wq_busy wq_idle q" using assms(1) by (simp add: wq_inv_def)
  have p: "?p (q_entries q ! i) = Some (same_block (q_entries q ! i) e)" if "i \<in> set (readyList q)" for i
  proof -
    have "wq_busy (q_entries q ! i)" using that Q ready_iff [OF Q, of i] by (simp add: queue_inv_def)
    then have "wq_hasTargets (q_entries q ! i)" by (auto simp: wq_busy_def wq_hasTargets_def)
    then show ?thesis using assms(2) by (auto simp: WriteQueueEntry_conflictAddr_def MSHR_matchBlockAddr_def mshr_busy_def same_block_def)
  qed
  obtain c where c: "conflict_write e q = Some c" using first_match_total [of "readyList q" ?p q] p by (auto simp: conflict_write_def findPending_def)
  show ?thesis
  proof (cases c)
    case None
    then have "\<forall>i \<in> set (readyList q). ?p (q_entries q ! i) = Some False"
      using c p by (subst first_match_None [symmetric]) (auto simp: conflict_write_def findPending_def)
    then show ?thesis using c None p by simp
  next
    case (Some i)
    then show ?thesis using c p first_match_Some [of ?p q "readyList q" i] by (auto simp: conflict_write_def findPending_def)
  qed
qed

lemma getNext_ready: "getNext now q = Some i \<Longrightarrow> i \<in> set (readyList q) \<and> readyTime q i \<le> now"
  by (auto simp: getNext_def not_less split: list.split_asm if_split_asm)


lemma wq_inv_new: "wq_inv (WriteQueue_new num_entries reserve)"
  using Queue_new_lists [of WriteQueueEntry_new num_entries reserve]
  by (auto simp: wq_inv_def queue_inv_def WriteQueue_new_def Queue_new_def wq_idle_def WriteQueueEntry_new_def)

definition example_writes :: "wq_event list" where
  "example_writes = [WQ_allocate 2 128 64 (example_pkt 7 WritebackDirty False) 2 2]"


end
