(* ===== verification/Packets.thy ===== *)
theory Packets
  imports Cache_Blk Mem_Cmd
begin

section \<open>Packets of the coherence protocol\<close>

text \<open>
  A packet (\<open>mem/packet.hh\<close>) with the request it belongs to, as far as the protocol between
  caches, crossbar and memory looks at them: the command, the place in the block, the flags of
  the request and of the packet.  The contents of a block are of any type \<open>'d\<close>; what a write, an
  atomic operation or a swap does to them is a function in the packet.
\<close>

record 'd apkt =
  ap_cmd :: MemCmd
  ap_id :: nat
  ap_offset :: nat
  ap_size :: nat
  ap_masked :: bool
  ap_uncacheable :: bool
  ap_cacheMaintenance :: bool
  ap_cacheInvalidate :: bool
  ap_toPOC :: bool
  ap_toPOU :: bool
  ap_atomicOp :: bool
  ap_condSwap :: bool
  ap_lock :: lock_req
  ap_update :: "'d \<Rightarrow> 'd"
  ap_overwrites :: "'d \<Rightarrow> bool"
  ap_extraData :: bool
  ap_data :: 'd
  ap_hasSharers :: bool
  ap_cacheResponding :: bool
  ap_responderHadWritable :: bool
  ap_satisfied :: bool
  ap_blockCached :: bool
  ap_writeThrough :: bool

subsection \<open>Operations\<close>

definition setCacheResponding :: "'d apkt \<Rightarrow> 'd apkt option" where
  "setCacheResponding p = do {
     _ \<leftarrow> c_assert (isRequest (ap_cmd p));
     _ \<leftarrow> c_assert (\<not> ap_cacheResponding p);
     Some (p\<lparr>ap_cacheResponding := True\<rparr>) }"

definition setHasSharers :: "'d apkt \<Rightarrow> 'd apkt" where
  "setHasSharers p = p\<lparr>ap_hasSharers := True\<rparr>"

definition setResponderHadWritable :: "'d apkt \<Rightarrow> 'd apkt option" where
  "setResponderHadWritable p = do {
     _ \<leftarrow> c_assert (ap_cacheResponding p);
     _ \<leftarrow> c_assert (\<not> ap_responderHadWritable p);
     Some (p\<lparr>ap_responderHadWritable := True\<rparr>) }"

definition setWriteThrough :: "'d apkt \<Rightarrow> 'd apkt option" where
  "setWriteThrough p = do {
     _ \<leftarrow> c_assert (isWrite (ap_cmd p) \<and> (isEviction (ap_cmd p) \<or> ap_cmd p = WriteClean));
     Some (p\<lparr>ap_writeThrough := True\<rparr>) }"

definition setSatisfied :: "'d apkt \<Rightarrow> 'd apkt option" where
  "setSatisfied p = do {
     _ \<leftarrow> c_assert (isClean (ap_cmd p));
     _ \<leftarrow> c_assert (\<not> ap_satisfied p);
     Some (p\<lparr>ap_satisfied := True\<rparr>) }"

definition makeResponse :: "'d apkt \<Rightarrow> 'd apkt option" where
  "makeResponse p = do {
     _ \<leftarrow> c_assert (needsResponse (ap_cmd p));
     _ \<leftarrow> c_assert (isRequest (ap_cmd p));
     Some (p\<lparr>ap_cmd := responseCommand (ap_cmd p)\<rparr>) }"

definition mustCheckAbove :: "MemCmd \<Rightarrow> bool" where
  "mustCheckAbove c \<longleftrightarrow> c = HardPFReq \<or> isEviction c"

definition isCleanEviction :: "MemCmd \<Rightarrow> bool" where
  "isCleanEviction c \<longleftrightarrow> c = CleanEvict \<or> c = WritebackClean"

definition isMaskedWrite :: "'d apkt \<Rightarrow> bool" where
  "isMaskedWrite p \<longleftrightarrow> ap_cmd p = WriteReq \<and> ap_masked p"

definition isWholeLineWrite :: "nat \<Rightarrow> 'd apkt \<Rightarrow> bool" where
  "isWholeLineWrite blkSize p \<longleftrightarrow>
     (ap_cmd p = WriteReq \<or> ap_cmd p = WriteLineReq) \<and> ap_offset p = 0 \<and> ap_size p = blkSize"

definition no_lock_req :: lock_req where
  "no_lock_req = \<lparr>lr_paddr = 0, lr_size = 0, lr_contextId = 0\<rparr>"

text \<open>
  A packet a cache makes for a block: it covers the block, no flag is set, and it writes (if it
  carries data) the contents given.
\<close>

definition new_packet :: "MemCmd \<Rightarrow> nat \<Rightarrow> nat \<Rightarrow> 'd \<Rightarrow> 'd apkt" where
  "new_packet c i sz d = \<lparr>ap_cmd = c, ap_id = i, ap_offset = 0, ap_size = sz, ap_masked = False,
     ap_uncacheable = False, ap_cacheMaintenance = False, ap_cacheInvalidate = False, ap_toPOC = False,
     ap_toPOU = False, ap_atomicOp = False, ap_condSwap = False, ap_lock = no_lock_req, ap_update = (\<lambda>_. d), ap_overwrites = (\<lambda>_. True),
     ap_extraData = False, ap_data = d, ap_hasSharers = False, ap_cacheResponding = False,
     ap_responderHadWritable = False, ap_satisfied = False, ap_blockCached = False, ap_writeThrough = False\<rparr>"

end
