(* ===== verification/Snoop_Filter.thy ===== *)
theory Snoop_Filter
  imports Packets
begin

section \<open>The snoop filter of the crossbar\<close>

text \<open>
  The filter (\<open>mem/snoop_filter.cc\<close>) keeps for each line the ports with an outstanding request
  and the ports that may hold the line, so that the crossbar can leave the others alone.  An
  entry is modelled for one line: None if the line has no entry.  All ports belong to caches and
  snoop, so their local numbers are the numbers of the caches.
\<close>

unbundle bit_operations_syntax

type_synonym snoop_mask = "256 word"

record snoop_item =
  si_requested :: snoop_mask
  si_holder :: snoop_mask

definition SnoopItem_new :: snoop_item where
  "SnoopItem_new = \<lparr>si_requested = 0, si_holder = 0\<rparr>"

definition portToMask :: "nat \<Rightarrow> snoop_mask" where
  "portToMask i = push_bit i 1"

definition maskToPortList :: "nat \<Rightarrow> snoop_mask \<Rightarrow> nat list" where
  "maskToPortList n m = filter (\<lambda>p. m AND portToMask p \<noteq> 0) [0..<n]"

definition eraseIfNullEntry :: "snoop_item \<Rightarrow> snoop_item option" where
  "eraseIfNullEntry x = (if si_requested x OR si_holder x = 0 then None else Some x)"

text \<open>The change an allocating request makes to its entry.\<close>

definition note_request :: "nat \<Rightarrow> 'd apkt \<Rightarrow> snoop_item \<Rightarrow> snoop_item option" where
  "note_request src p x =
     (let req_port = portToMask src in
      if needsResponse (ap_cmd p) then
        (if \<not> ap_cacheResponding p then do {
           _ \<leftarrow> c_assert (si_requested x AND req_port = 0);
           Some (x\<lparr>si_requested := si_requested x OR req_port\<rparr>) }
         else do {
           _ \<leftarrow> c_assert (si_holder x AND req_port \<noteq> 0);
           Some x })
      else do {
        _ \<leftarrow> c_assert (isEviction (ap_cmd p));
        _ \<leftarrow> c_assert (si_holder x AND req_port \<noteq> 0);
        Some (if \<not> ap_blockCached p then x\<lparr>si_holder := si_holder x AND NOT req_port\<rparr> else x) })"

text \<open>The result is the list of ports to snoop, the entry, and the entry before the change (for a retry).\<close>

definition lookupRequest ::
  "nat \<Rightarrow> nat \<Rightarrow> 'd apkt \<Rightarrow> snoop_item option \<Rightarrow> (nat list \<times> snoop_item option \<times> snoop_item) option" where
  "lookupRequest n src p entry =
     (let allocate = (\<not> ap_uncacheable p \<and> fromCache (ap_cmd p)) in
      if entry = None \<and> \<not> allocate then Some ([], None, SnoopItem_new)
      else do {
        let x = (case entry of None \<Rightarrow> SnoopItem_new | Some x \<Rightarrow> x);
        let interested = si_holder x OR si_requested x;
        x1 \<leftarrow> (if allocate then note_request src p x else Some x);
        Some (maskToPortList n (interested AND NOT (portToMask src)), Some x1, x) })"

definition finishRequest :: "bool \<Rightarrow> snoop_item \<Rightarrow> snoop_item option \<Rightarrow> snoop_item option" where
  "finishRequest will_retry retryItem entry =
     (case entry of None \<Rightarrow> None | Some x \<Rightarrow> eraseIfNullEntry (if will_retry then retryItem else x))"

text \<open>A snoop from below; \<open>full\<close> says that the filter has as many entries as it may.\<close>

definition lookupSnoop ::
  "nat \<Rightarrow> bool \<Rightarrow> 'd apkt \<Rightarrow> snoop_item option \<Rightarrow> (nat list \<times> snoop_item option) option" where
  "lookupSnoop n full p entry = do {
     _ \<leftarrow> c_assert (isRequest (ap_cmd p));
     _ \<leftarrow> c_assert (\<not> (entry = None \<and> full));
     case entry of
       None \<Rightarrow> Some ([], None)
     | Some x \<Rightarrow> do {
         let interested = si_holder x OR si_requested x;
         _ \<leftarrow> c_assert (isWriteback (ap_cmd p) \<or> ap_uncacheable p \<or> isInvalidate (ap_cmd p) = needsWritable (ap_cmd p) \<or>
                ap_cacheMaintenance p);
         Some (maskToPortList n interested,
               if isInvalidate (ap_cmd p) \<and> si_requested x = 0 then eraseIfNullEntry (x\<lparr>si_holder := 0\<rparr>) else entry) } }"

definition updateSnoopResponse :: "nat \<Rightarrow> nat \<Rightarrow> 'd apkt \<Rightarrow> snoop_item option \<Rightarrow> snoop_item option option" where
  "updateSnoopResponse rsp req p entry = do {
     _ \<leftarrow> c_assert (isResponse (ap_cmd p));
     _ \<leftarrow> c_assert (ap_cacheResponding p);
     if ap_uncacheable p then Some entry
     else do {
       let rsp_mask = portToMask rsp;
       let req_mask = portToMask req;
       let x = (case entry of None \<Rightarrow> SnoopItem_new | Some x \<Rightarrow> x);
       _ \<leftarrow> c_assert (si_holder x AND rsp_mask \<noteq> 0);
       _ \<leftarrow> c_assert (si_requested x AND req_mask \<noteq> 0);
       let x1 = (if \<not> ap_hasSharers p then x\<lparr>si_holder := 0\<rparr> else x);
       _ \<leftarrow> c_assert (\<not> isWriteback (ap_cmd p));
       let x2 = x1\<lparr>si_holder := si_holder x1 OR req_mask, si_requested := si_requested x1 AND NOT req_mask\<rparr>;
       _ \<leftarrow> c_assert (si_requested x2 OR si_holder x2 \<noteq> 0);
       Some (Some x2) } }"

definition updateSnoopForward :: "'d apkt \<Rightarrow> snoop_item option \<Rightarrow> snoop_item option option" where
  "updateSnoopForward p entry = do {
     _ \<leftarrow> c_assert (isResponse (ap_cmd p));
     _ \<leftarrow> c_assert (ap_cacheResponding p);
     Some (case entry of
       None \<Rightarrow> None
     | Some x \<Rightarrow> if \<not> ap_hasSharers p then eraseIfNullEntry (x\<lparr>si_holder := 0\<rparr>) else entry) }"

definition updateResponse :: "nat \<Rightarrow> 'd apkt \<Rightarrow> snoop_item option \<Rightarrow> snoop_item option option" where
  "updateResponse src p entry = do {
     _ \<leftarrow> c_assert (isResponse (ap_cmd p));
     if ap_uncacheable p then Some entry
     else case entry of
       None \<Rightarrow> Some None
     | Some x \<Rightarrow> do {
         let response_mask = portToMask src;
         _ \<leftarrow> c_assert (si_requested x AND response_mask \<noteq> 0);
         let x1 = x\<lparr>si_requested := si_requested x AND NOT response_mask\<rparr>;
         if ap_cacheMaintenance p then
           Some (eraseIfNullEntry (if isInvalidate (ap_cmd p) then x1\<lparr>si_holder := si_holder x1 AND NOT response_mask\<rparr> else x1))
         else do {
           let x2 = x1\<lparr>si_holder := si_holder x1 OR response_mask\<rparr>;
           _ \<leftarrow> c_assert (si_holder x2 OR si_requested x2 \<noteq> 0);
           Some (Some x2) } } }"

subsection \<open>What the filter guarantees\<close>

text \<open>
  An entry covers a set of caches if no request is outstanding and all of them are holders; a
  missing entry covers the empty set only.
\<close>

definition covers :: "snoop_item option \<Rightarrow> nat set \<Rightarrow> bool" where
  "covers entry S \<longleftrightarrow> (case entry of None \<Rightarrow> S = {} | Some x \<Rightarrow> si_requested x = 0 \<and> (\<forall>k \<in> S. bit (si_holder x) k))"

lemma bit_portToMask: "bit (portToMask i) k \<longleftrightarrow> k = i \<and> k < 256"
  by (auto simp: portToMask_def bit_simps)

lemma mask_port_0: "i < 256 \<Longrightarrow> m AND portToMask i = 0 \<longleftrightarrow> \<not> bit m i"
  by (auto simp: bit_eq_iff [where ?'a = snoop_mask] bit_and_iff bit_portToMask)

lemma bit_256: "bit (m :: snoop_mask) k \<Longrightarrow> k < 256"
  using bit_imp_le_length by fastforce

lemma set_maskToPortList: "n \<le> 256 \<Longrightarrow> k \<in> set (maskToPortList n m) \<longleftrightarrow> k < n \<and> bit m k"
  by (auto simp: maskToPortList_def mask_port_0)

lemma eraseIfNull_covers:
  assumes "si_requested x = 0" "\<forall>k \<in> S. bit (si_holder x) k"
  shows "covers (eraseIfNullEntry x) S"
  using assms by (auto simp: covers_def eraseIfNullEntry_def)

lemma port_clears: "portToMask i AND NOT (portToMask i) = 0" "i < 256 \<Longrightarrow> portToMask i \<noteq> 0"
  by (auto simp: bit_eq_iff bit_and_iff bit_not_iff bit_portToMask)

text \<open>The entry while a request of a port is under way.\<close>

definition requesting :: "nat \<Rightarrow> snoop_item option \<Rightarrow> nat set \<Rightarrow> bool" where
  "requesting i entry S \<longleftrightarrow>
     (case entry of None \<Rightarrow> False | Some x \<Rightarrow> si_requested x = portToMask i \<and> (\<forall>k \<in> S. bit (si_holder x) k))"

lemma lookup_request:
  assumes "covers entry S" "i < n" "n \<le> 256" "\<not> ap_uncacheable p" "fromCache (ap_cmd p)" "needsResponse (ap_cmd p)" "\<not> ap_cacheResponding p"
    and "S \<subseteq> {..<n}"
  shows "\<exists>ds e r. lookupRequest n i p entry = Some (ds, e, r) \<and> S - {i} \<subseteq> set ds \<and> requesting i (finishRequest False r e) S"
proof -
  let ?x = "case entry of None \<Rightarrow> SnoopItem_new | Some x \<Rightarrow> x"
  have x: "si_requested ?x = 0" "\<forall>k \<in> S. bit (si_holder ?x) k"
    using assms(1) by (auto simp: covers_def SnoopItem_new_def split: option.splits)
  have "portToMask i \<noteq> 0" using assms(2,3) by (simp add: port_clears)
  then have "requesting i (eraseIfNullEntry (?x\<lparr>si_requested := portToMask i\<rparr>)) S"
    using x by (simp add: requesting_def eraseIfNullEntry_def or_eq_0_iff)
  moreover have "S - {i} \<subseteq> set (maskToPortList n (si_holder ?x AND NOT (portToMask i)))"
    using x assms(2,3,8) bit_256 by (auto simp: set_maskToPortList bit_and_iff bit_not_iff bit_portToMask)
  ultimately show ?thesis using assms(4-7) x
    by (simp add: lookupRequest_def note_request_def finishRequest_def c_assert_def Let_def)
qed

lemma lookup_evict:
  assumes "covers entry S" "i \<in> S" "n \<le> 256" "\<not> ap_uncacheable p" "fromCache (ap_cmd p)" "\<not> needsResponse (ap_cmd p)"
    and "isEviction (ap_cmd p)" "\<not> ap_blockCached p" "S \<subseteq> {..<n}"
  shows "\<exists>ds e r. lookupRequest n i p entry = Some (ds, e, r) \<and> S - {i} \<subseteq> set ds \<and> covers (finishRequest False r e) (S - {i})"
proof -
  obtain x where x: "entry = Some x" "si_requested x = 0" "\<forall>k \<in> S. bit (si_holder x) k"
    using assms(1,2) by (auto simp: covers_def split: option.splits)
  have i: "i < 256" using assms(2,3,9) by auto
  have "covers (eraseIfNullEntry (x\<lparr>si_holder := si_holder x AND NOT (portToMask i)\<rparr>)) (S - {i})"
    using x bit_256 by (intro eraseIfNull_covers) (auto simp: bit_and_iff bit_not_iff bit_portToMask)
  moreover have "S - {i} \<subseteq> set (maskToPortList n (si_holder x AND NOT (portToMask i)))"
    using x assms(3,9) bit_256 by (auto simp: set_maskToPortList bit_and_iff bit_not_iff bit_portToMask)
  ultimately show ?thesis using assms(2,4-8) x i
    by (simp add: lookupRequest_def note_request_def finishRequest_def mask_port_0 c_assert_def Let_def)
qed

lemma snoop_response:
  assumes "requesting i entry S" "j \<in> S" "i < 256" "isResponse (ap_cmd p)" "ap_cacheResponding p" "\<not> ap_uncacheable p"
    and "\<not> isWriteback (ap_cmd p)"
  shows "\<exists>e. updateSnoopResponse j i p entry = Some e \<and> covers e (if ap_hasSharers p then insert i S else {i})"
proof -
  obtain x where x: "entry = Some x" "si_requested x = portToMask i" "\<forall>k \<in> S. bit (si_holder x) k"
    using assms(1) by (auto simp: requesting_def split: option.splits)
  have j: "si_holder x AND portToMask j \<noteq> 0" using x(3) assms(2) bit_256 mask_port_0 by blast
  have i: "portToMask i AND portToMask i \<noteq> 0" using assms(3) by (simp add: port_clears)
  have "portToMask i \<noteq> 0" using assms(3) by (simp add: port_clears)
  then show ?thesis using x j i assms(3-7)
    by (cases "ap_hasSharers p")
      (auto simp: updateSnoopResponse_def covers_def port_clears c_assert_def or_eq_0_iff bit_or_iff bit_portToMask)
qed

lemma response:
  assumes "requesting i entry S" "i < 256" "isResponse (ap_cmd p)" "\<not> ap_uncacheable p" "\<not> ap_cacheMaintenance p"
  shows "\<exists>e. updateResponse i p entry = Some e \<and> covers e (insert i S)"
proof -
  obtain x where x: "entry = Some x" "si_requested x = portToMask i" "\<forall>k \<in> S. bit (si_holder x) k"
    using assms(1) by (auto simp: requesting_def split: option.splits)
  have "portToMask i \<noteq> 0" "portToMask i AND portToMask i \<noteq> 0" using assms(2) by (simp_all add: port_clears)
  then show ?thesis using x assms(2-5)
    by (auto simp: updateResponse_def covers_def port_clears c_assert_def or_eq_0_iff bit_or_iff bit_portToMask)
qed

lemma clean_response:
  assumes "requesting i entry S" "i < 256" "isResponse (ap_cmd p)" "\<not> ap_uncacheable p" "ap_cacheMaintenance p"
  shows "\<exists>e. updateResponse i p entry = Some e \<and> covers e (if isInvalidate (ap_cmd p) then S - {i} else S)"
proof -
  obtain x where x: "entry = Some x" "si_requested x = portToMask i" "\<forall>k \<in> S. bit (si_holder x) k"
    using assms(1) by (auto simp: requesting_def split: option.splits)
  have "portToMask i AND portToMask i \<noteq> 0" using assms(2) by (simp add: port_clears)
  then show ?thesis using x assms(2-5) bit_256
    by (auto simp: updateResponse_def port_clears c_assert_def intro!: eraseIfNull_covers simp: bit_and_iff bit_not_iff bit_portToMask)
qed

end
