(* ===== verification/Atomic_Protocol.thy ===== *)
theory Atomic_Protocol
  imports Snoop_Filter
begin

section \<open>The coherence protocol in atomic mode\<close>

text \<open>
  A system of first level caches above one coherent crossbar and a memory, in atomic mode: a
  request of a processor goes through \<open>Cache::recvAtomic\<close>, which sends packets to
  \<open>CoherentXBar::recvAtomicBackdoor\<close>, which snoops the other caches
  (\<open>Cache::recvAtomicSnoop\<close>) and then turns to \<open>AbstractMemory::access\<close>, all within one call.

  The handlers look up the block of their packet and nothing else, so the state is kept by
  block: a \<open>line\<close> has the copy of the block in each of the caches (None: the cache has no valid
  block), what the memory holds of it, the identifiers of the maintenance operations the
  crossbar waits for, and the entry of the snoop filter, if there is a filter.  A \<open>copy\<close> is the part of a \<open>CacheBlk\<close> the protocol reads.  The contents
  of a block are of any type; what a write, an atomic operation or a swap does to them is
  a function in the packet.  There is no compressor and no cache above the first level
  (\<open>forwardSnoops\<close> is false), and the blocks are of one address space.  Failed assertions and
  panics are None.
\<close>

record 'd copy =
  cp_readable :: bool
  cp_writable :: bool
  cp_dirty :: bool
  cp_locks :: "cache_lock list"
  cp_data :: 'd

record protocol_cfg =
  cf_isReadOnly :: bool
  cf_writebackClean :: bool
  cf_mostly_excl :: bool

record xbar_cfg =
  xb_pointOfCoherency :: bool
  xb_pointOfUnification :: bool
  xb_snoopFilter :: bool

record 'd below =
  be_mem :: 'd
  be_outstandingCMO :: "nat list"
  be_filter :: "snoop_item option"

record 'd line =
  ln_copies :: "'d copy option list"
  ln_below :: "'d below"

subsection \<open>The memory\<close>

text \<open>
  \<open>AbstractMemory::access\<close>, reached through \<open>SimpleMemory::recvAtomic\<close>.  The memory keeps no
  locks of its own here (load locked requests that reach it are None), so a store conditional
  fails in it.
\<close>

definition memory_access :: "'d apkt \<Rightarrow> 'd \<Rightarrow> ('d apkt \<times> 'd) option" where
  "memory_access p m = do {
     _ \<leftarrow> c_assert (\<not> ap_cacheResponding p);
     if ap_cmd p = CleanEvict \<or> ap_cmd p = WritebackClean then Some (p, m)
     else do {
       (p1, m1) \<leftarrow>
         (if ap_cmd p = SwapReq then
            (if ap_atomicOp p then Some (p\<lparr>ap_data := m\<rparr>, ap_update p m)
             else do {
               _ \<leftarrow> c_assert (ap_condSwap p \<longrightarrow> ap_size p = 8 \<or> ap_size p = 4);
               Some (p\<lparr>ap_data := m\<rparr>, if ap_condSwap p \<and> \<not> ap_overwrites p m then m else ap_update p m) })
          else if isRead (ap_cmd p) then do {
            _ \<leftarrow> c_assert (\<not> isWrite (ap_cmd p));
            _ \<leftarrow> c_assert (\<not> isLLSC (ap_cmd p));
            Some (p\<lparr>ap_data := m\<rparr>, m) }
          else if isInvalidate (ap_cmd p) \<or> isClean (ap_cmd p) then do {
            _ \<leftarrow> c_assert (\<not> isWrite (ap_cmd p));
            Some (p, m) }
          else if isWrite (ap_cmd p) then
            (if isLLSC (ap_cmd p) then Some (p\<lparr>ap_extraData := False\<rparr>, m) else Some (p, ap_update p m))
          else None);
       if needsResponse (ap_cmd p1) then do { p2 \<leftarrow> makeResponse p1; Some (p2, m1) } else Some (p1, m1) } }"

subsection \<open>The crossbar below the snoops\<close>

definition isDestination :: "xbar_cfg \<Rightarrow> 'd apkt \<Rightarrow> bool" where
  "isDestination xb p \<longleftrightarrow> ap_toPOC p \<and> xb_pointOfCoherency xb \<or> ap_toPOU p \<and> xb_pointOfUnification xb"

definition sinkPacket :: "xbar_cfg \<Rightarrow> 'd apkt \<Rightarrow> bool" where
  "sinkPacket xb p \<longleftrightarrow>
     (xb_pointOfCoherency xb \<and> ap_cacheResponding p) \<or>
     (xb_pointOfCoherency xb \<and> \<not> (isRead (ap_cmd p) \<or> isWrite (ap_cmd p)) \<and> \<not> needsResponse (ap_cmd p)) \<or>
     (isCleanEviction (ap_cmd p) \<and> ap_blockCached p) \<or>
     (ap_cacheResponding p \<and> (\<not> needsWritable (ap_cmd p) \<or> ap_responderHadWritable p))"

definition forwardPacket :: "xbar_cfg \<Rightarrow> 'd apkt \<Rightarrow> bool" where
  "forwardPacket xb p =
     (if isClean (ap_cmd p) then \<not> isDestination xb p
      else isRead (ap_cmd p) \<or> isWrite (ap_cmd p) \<or> \<not> xb_pointOfCoherency xb)"

text \<open>The request at its destination: the second half of \<open>recvAtomicBackdoor\<close>, once the caches are snooped.\<close>

definition xbar_forward :: "xbar_cfg \<Rightarrow> 'd apkt \<Rightarrow> 'd \<Rightarrow> ('d apkt \<times> 'd) option" where
  "xbar_forward xb p m =
     (if sinkPacket xb p then Some (p, m)
      else if forwardPacket xb p then
        memory_access (if isWrite (ap_cmd p) \<and> isDestination xb p then p\<lparr>ap_writeThrough := False\<rparr> else p) m
      else do {
        _ \<leftarrow> c_assert (needsResponse (ap_cmd p));
        p1 \<leftarrow> makeResponse p;
        Some (p1, m) })"

definition restore_response :: "MemCmd \<Rightarrow> 'd apkt \<Rightarrow> 'd apkt option" where
  "restore_response rc p =
     (if rc \<noteq> InvalidCmd then do { _ \<leftarrow> c_assert (\<not> isResponse (ap_cmd p)); Some (p\<lparr>ap_cmd := rc\<rparr>) }
      else Some p)"

definition settle_CMO :: "xbar_cfg \<Rightarrow> 'd apkt \<Rightarrow> nat list \<Rightarrow> nat list option" where
  "settle_CMO xb p cmo =
     (if isClean (ap_cmd p) \<and> isDestination xb p \<and> ap_satisfied p then do {
        _ \<leftarrow> c_assert (ap_id p \<in> set cmo);
        Some (removeAll (ap_id p) cmo) }
      else if ap_cmd p = WriteClean \<and> isDestination xb p then do {
        _ \<leftarrow> c_assert (ap_id p \<notin> set cmo);
        Some (ap_id p # cmo) }
      else Some cmo)"

text \<open>The filter learns of a response from below.\<close>

definition filter_response :: "xbar_cfg \<Rightarrow> nat \<Rightarrow> 'd apkt \<Rightarrow> snoop_item option \<Rightarrow> snoop_item option option" where
  "filter_response xb src p entry =
     (if xb_snoopFilter xb \<and> isResponse (ap_cmd p) then updateResponse src p entry else Some entry)"

definition xbar_serve :: "xbar_cfg \<Rightarrow> nat \<Rightarrow> MemCmd \<Rightarrow> 'd apkt \<Rightarrow> 'd below \<Rightarrow> ('d apkt \<times> 'd below) option" where
  "xbar_serve xb src rc p be = do {
     (p1, m1) \<leftarrow> xbar_forward xb p (be_mem be);
     entry \<leftarrow> filter_response xb src p1 (be_filter be);
     p2 \<leftarrow> restore_response rc p1;
     cmo1 \<leftarrow> settle_CMO xb p2 (be_outstandingCMO be);
     Some (p2, \<lparr>be_mem = m1, be_outstandingCMO = cmo1, be_filter = entry\<rparr>) }"

subsection \<open>Blocks that leave a cache\<close>

definition co_writebackBlk :: "nat \<Rightarrow> protocol_cfg \<Rightarrow> 'd copy \<Rightarrow> ('d apkt \<times> 'd copy) option" where
  "co_writebackBlk blkSize cf b = do {
     _ \<leftarrow> c_assert (\<not> cf_isReadOnly cf \<or> cf_writebackClean cf);
     _ \<leftarrow> c_assert (cp_dirty b \<or> cf_writebackClean cf);
     let p = new_packet (if cp_dirty b then WritebackDirty else WritebackClean) 0 blkSize (cp_data b);
         p1 = (if cp_writable b then p else setHasSharers p);
         b1 = (if cp_writable b then b\<lparr>cp_writable := False\<rparr> else b)
     in Some (p1, b1\<lparr>cp_dirty := False\<rparr>) }"

definition co_writecleanBlk :: "nat \<Rightarrow> 'd apkt \<Rightarrow> 'd copy \<Rightarrow> ('d apkt \<times> 'd copy) option" where
  "co_writecleanBlk blkSize q b = do {
     let p = new_packet WriteClean (ap_id q) blkSize (cp_data b);
     p1 \<leftarrow> (if ap_toPOC q \<or> ap_toPOU q
            then setWriteThrough (p\<lparr>ap_toPOC := ap_toPOC q, ap_toPOU := ap_toPOU q\<rparr>) else Some p);
     let p2 = (if cp_writable b then p1 else setHasSharers p1);
         b1 = (if cp_writable b then b\<lparr>cp_writable := False\<rparr> else b)
     in Some (p2, b1\<lparr>cp_dirty := False\<rparr>) }"

definition co_cleanEvictBlk :: "nat \<Rightarrow> protocol_cfg \<Rightarrow> 'd copy \<Rightarrow> 'd apkt option" where
  "co_cleanEvictBlk blkSize cf b = do {
     _ \<leftarrow> c_assert (\<not> cf_writebackClean cf);
     _ \<leftarrow> c_assert (\<not> cp_dirty b);
     Some (new_packet CleanEvict 0 blkSize (cp_data b)) }"

text \<open>The block is invalid afterwards, so only the packet is returned.\<close>

definition co_evictBlock :: "nat \<Rightarrow> protocol_cfg \<Rightarrow> 'd copy \<Rightarrow> 'd apkt option" where
  "co_evictBlock blkSize cf b =
     (if cp_dirty b \<or> cf_writebackClean cf then map_option fst (co_writebackBlk blkSize cf b)
      else co_cleanEvictBlk blkSize cf b)"

subsection \<open>Snoops\<close>

text \<open>
  \<open>Cache::handleSnoop\<close> in atomic mode, on the block found (None: no valid block).  The last
  component of the result is what it hands to \<open>doWritebacksAtomic\<close>.
\<close>

definition snoop_reply :: "bool \<Rightarrow> 'd apkt \<Rightarrow> 'd copy \<Rightarrow> ('d apkt \<times> 'd copy option) option" where
  "snoop_reply respond p b = do {
     let invalidate = isInvalidate (ap_cmd p);
     (p1, b1) \<leftarrow>
       (if isRead (ap_cmd p) \<and> \<not> invalidate then do {
          _ \<leftarrow> c_assert (\<not> needsWritable (ap_cmd p));
          Some (setHasSharers p, if \<not> ap_uncacheable p then b\<lparr>cp_writable := False\<rparr> else b) }
        else Some (p, b));
     p2 \<leftarrow>
       (if respond then do {
          q \<leftarrow> setCacheResponding p1;
          q1 \<leftarrow> (if \<not> isClean (ap_cmd q) \<and> cp_writable b1 then setResponderHadWritable q else Some q);
          _ \<leftarrow> c_assert (invalidate \<or> ap_hasSharers q1);
          q2 \<leftarrow> makeResponse q1;
          Some (if hasData (ap_cmd q2) then q2\<lparr>ap_data := cp_data b1\<rparr> else q2) }
        else Some p1);
     Some (p2, if invalidate then None else Some b1) }"

definition Cache_handleSnoop ::
  "nat \<Rightarrow> protocol_cfg \<Rightarrow> 'd apkt \<Rightarrow> 'd copy option \<Rightarrow> ('d apkt \<times> 'd copy option \<times> 'd apkt list) option" where
  "Cache_handleSnoop blkSize cf p blk = do {
     _ \<leftarrow> c_assert (isRequest (ap_cmd p));
     _ \<leftarrow> c_assert (\<not> (isInvalidate (ap_cmd p) \<and> ap_uncacheable p));
     case blk of
       None \<Rightarrow> Some (p, None, [])
     | Some b \<Rightarrow>
         if isClean (ap_cmd p) then
           (if cp_dirty b then do {
              (wb, b1) \<leftarrow> co_writecleanBlk blkSize p b;
              p1 \<leftarrow> setSatisfied p;
              (p2, blk2) \<leftarrow> snoop_reply False p1 b1;
              Some (p2, blk2, [wb]) }
            else do { (p2, blk2) \<leftarrow> snoop_reply False p b; Some (p2, blk2, []) })
         else do {
           _ \<leftarrow> c_assert (\<not> (cf_isReadOnly cf \<and> cp_dirty b));
           if mustCheckAbove (ap_cmd p) then Some (p\<lparr>ap_blockCached := True\<rparr>, Some b, [])
           else do {
             (p2, blk2) \<leftarrow> snoop_reply (cp_dirty b \<and> needsResponse (ap_cmd p)) p b;
             Some (p2, blk2, []) } } }"

text \<open>
  A snooped cache writes a block back with a \<open>WriteClean\<close>, which the crossbar takes without
  snooping anyone.
\<close>

fun xbar_writecleans :: "xbar_cfg \<Rightarrow> nat \<Rightarrow> 'd apkt list \<Rightarrow> 'd below \<Rightarrow> 'd below option" where
  "xbar_writecleans xb j [] be = Some be"
| "xbar_writecleans xb j (w # ws) be = do {
     _ \<leftarrow> c_assert (ap_cmd w = WriteClean);
     (_, be1) \<leftarrow> xbar_serve xb j InvalidCmd w be;
     xbar_writecleans xb j ws be1 }"

text \<open>
  \<open>CoherentXBar::forwardAtomic\<close>: the copies from cache \<open>j\<close> on are snooped in order, if they are
  destinations and except the one of the source.  A response is put aside, the filter learns of
  it, and the command is restored.
\<close>

fun forwardAtomic :: "nat \<Rightarrow> (nat \<Rightarrow> protocol_cfg) \<Rightarrow> xbar_cfg \<Rightarrow> nat \<Rightarrow> nat list \<Rightarrow> nat \<Rightarrow> 'd copy option list \<Rightarrow> 'd apkt
    \<Rightarrow> MemCmd \<Rightarrow> 'd below \<Rightarrow> ('d copy option list \<times> 'd apkt \<times> MemCmd \<times> 'd below) option" where
  "forwardAtomic blkSize cfs xb src dests j [] p rc be = Some ([], p, rc, be)"
| "forwardAtomic blkSize cfs xb src dests j (blk # blks) p rc be =
     (if j = src \<or> j \<notin> set dests then do {
        (blks1, p1, rc1, be1) \<leftarrow> forwardAtomic blkSize cfs xb src dests (Suc j) blks p rc be;
        Some (blk # blks1, p1, rc1, be1) }
      else do {
        (q, blk1, ws) \<leftarrow> Cache_handleSnoop blkSize (cfs j) p blk;
        be1 \<leftarrow> xbar_writecleans xb j ws be;
        (q1, rc1, be2) \<leftarrow>
          (if \<not> isResponse (ap_cmd q) then Some (q, rc, be1)
           else do {
             _ \<leftarrow> c_assert (ap_cmd q \<noteq> ap_cmd p);
             _ \<leftarrow> c_assert (ap_cacheResponding q);
             _ \<leftarrow> c_assert (rc = InvalidCmd);
             entry \<leftarrow> (if xb_snoopFilter xb then updateSnoopResponse j src q (be_filter be1) else Some (be_filter be1));
             Some (q\<lparr>ap_cmd := ap_cmd p\<rparr>, ap_cmd q, be1\<lparr>be_filter := entry\<rparr>) });
        (blks1, p1, rc2, be3) \<leftarrow> forwardAtomic blkSize cfs xb src dests (Suc j) blks q1 rc1 be2;
        Some (blk1 # blks1, p1, rc2, be3) })"

text \<open>
  The snoops of a request.  With a filter the destinations are those it names, and evictions do not
  snoop at all: that the block is cached elsewhere is what the filter says.
\<close>

definition xbar_snoop :: "nat \<Rightarrow> (nat \<Rightarrow> protocol_cfg) \<Rightarrow> xbar_cfg \<Rightarrow> nat \<Rightarrow> 'd apkt \<Rightarrow> 'd line
    \<Rightarrow> ('d copy option list \<times> 'd apkt \<times> MemCmd \<times> 'd below) option" where
  "xbar_snoop blkSize cfs xb src p ln =
     (let blks = ln_copies ln; be = ln_below ln; n = length blks in
      if xb_snoopFilter xb then do {
        (dests, entry, retryItem) \<leftarrow> lookupRequest n src p (be_filter be);
        let be1 = be\<lparr>be_filter := finishRequest False retryItem entry\<rparr>;
        if isEviction (ap_cmd p)
        then Some (blks, if dests \<noteq> [] then p\<lparr>ap_blockCached := True\<rparr> else p, InvalidCmd, be1)
        else forwardAtomic blkSize cfs xb src dests 0 blks p InvalidCmd be1 }
      else forwardAtomic blkSize cfs xb src [0..<n] 0 blks p InvalidCmd be)"

definition xbar_recvAtomic ::
  "nat \<Rightarrow> (nat \<Rightarrow> protocol_cfg) \<Rightarrow> xbar_cfg \<Rightarrow> nat \<Rightarrow> 'd apkt \<Rightarrow> 'd line \<Rightarrow> ('d apkt \<times> 'd line) option" where
  "xbar_recvAtomic blkSize cfs xb src p ln = do {
     (blks, p1, rc, be) \<leftarrow>
       (if ap_cmd p \<noteq> WriteClean then xbar_snoop blkSize cfs xb src p ln
        else Some (ln_copies ln, p, InvalidCmd, ln_below ln));
     (p2, be1) \<leftarrow> xbar_serve xb src rc p1 be;
     Some (p2, \<lparr>ln_copies = blks, ln_below = be1\<rparr>) }"

fun doWritebacksAtomic ::
  "nat \<Rightarrow> (nat \<Rightarrow> protocol_cfg) \<Rightarrow> xbar_cfg \<Rightarrow> nat \<Rightarrow> 'd apkt list \<Rightarrow> 'd line \<Rightarrow> 'd line option" where
  "doWritebacksAtomic blkSize cfs xb i [] ln = Some ln"
| "doWritebacksAtomic blkSize cfs xb i (w # ws) ln = do {
     (_, ln1) \<leftarrow> xbar_recvAtomic blkSize cfs xb i w ln;
     doWritebacksAtomic blkSize cfs xb i ws ln1 }"

subsection \<open>Requests in a cache\<close>

definition cmpAndSwap :: "'d apkt \<Rightarrow> 'd copy \<Rightarrow> ('d apkt \<times> 'd copy) option" where
  "cmpAndSwap p b = do {
     _ \<leftarrow> c_assert (isRequest (ap_cmd p));
     _ \<leftarrow> c_assert (ap_size p \<le> 8);
     _ \<leftarrow> c_assert (ap_condSwap p \<longrightarrow> ap_size p = 8 \<or> ap_size p = 4);
     Some (p\<lparr>ap_data := cp_data b\<rparr>,
           if ap_condSwap p \<and> \<not> ap_overwrites p (cp_data b) then b
           else b\<lparr>cp_data := ap_update p (cp_data b), cp_dirty := True\<rparr>) }"

text \<open>\<open>checkWrite\<close> leaves the outcome of a store conditional in the extra data of the request.\<close>

definition satisfy_write :: "'d apkt \<Rightarrow> 'd copy \<Rightarrow> ('d apkt \<times> 'd copy) option" where
  "satisfy_write p b = do {
     _ \<leftarrow> c_assert (cp_writable b);
     let (ok, locks) = checkWrite (isLLSC (ap_cmd p)) (ap_lock p) (cp_locks b);
         p1 = (if isLLSC (ap_cmd p) then p\<lparr>ap_extraData := ok\<rparr> else p);
         b1 = b\<lparr>cp_locks := locks\<rparr>
     in Some (p1, (if ok then b1\<lparr>cp_data := ap_update p (cp_data b1)\<rparr> else b1)\<lparr>cp_dirty := True\<rparr>) }"

definition satisfyRequest :: "nat \<Rightarrow> 'd apkt \<Rightarrow> 'd copy \<Rightarrow> ('d apkt \<times> 'd copy option) option" where
  "satisfyRequest blkSize p b = do {
     _ \<leftarrow> c_assert (isRequest (ap_cmd p));
     _ \<leftarrow> c_assert (ap_offset p + ap_size p \<le> blkSize);
     if ap_cmd p = SwapReq then
       (if ap_atomicOp p
        then Some (p\<lparr>ap_data := cp_data b\<rparr>, Some (b\<lparr>cp_data := ap_update p (cp_data b), cp_dirty := True\<rparr>))
        else do { (p1, b1) \<leftarrow> cmpAndSwap p b; Some (p1, Some b1) })
     else if isWrite (ap_cmd p) then do { (p1, b1) \<leftarrow> satisfy_write p b; Some (p1, Some b1) }
     else if isRead (ap_cmd p) then do {
       let b1 = (if isLLSC (ap_cmd p) then b\<lparr>cp_locks := trackLoadLocked (ap_lock p) (cp_locks b)\<rparr> else b);
       _ \<leftarrow> c_assert (hasRespData (ap_cmd p));
       Some (p\<lparr>ap_data := cp_data b1\<rparr>, Some b1) }
     else if isUpgrade (ap_cmd p) then do {
       _ \<leftarrow> c_assert (\<not> ap_hasSharers p);
       if cp_dirty b then do { p1 \<leftarrow> setCacheResponding p; Some (p1, Some (b\<lparr>cp_dirty := False\<rparr>)) }
       else Some (p, Some b) }
     else if isClean (ap_cmd p) then Some (p, Some (b\<lparr>cp_dirty := False\<rparr>))
     else do { _ \<leftarrow> c_assert (isInvalidate (ap_cmd p)); Some (p, None) } }"

text \<open>\<open>Cache::satisfyRequest\<close>; in atomic mode no response is deferred and no downgrade pends.\<close>

definition pass_ownership :: "'d apkt \<Rightarrow> 'd copy \<Rightarrow> ('d apkt \<times> 'd copy) option" where
  "pass_ownership p b =
     (if needsWritable (ap_cmd p) then do {
        _ \<leftarrow> c_assert (ap_cmd p = ReadExReq \<or> ap_cmd p = SCUpgradeFailReq);
        _ \<leftarrow> c_assert (\<not> ap_hasSharers p);
        if cp_dirty b then do { p1 \<leftarrow> setCacheResponding p; Some (p1, b\<lparr>cp_dirty := False\<rparr>) } else Some (p, b) }
      else if cp_writable b \<and> \<not> ap_hasSharers p \<and> ap_cmd p \<noteq> ReadCleanReq then
        (if cp_dirty b then do { p1 \<leftarrow> setCacheResponding p; Some (p1, b\<lparr>cp_dirty := False\<rparr>) } else Some (p, b))
      else Some (setHasSharers p, b))"

definition Cache_satisfyRequest :: "nat \<Rightarrow> 'd apkt \<Rightarrow> 'd copy \<Rightarrow> ('d apkt \<times> 'd copy option) option" where
  "Cache_satisfyRequest blkSize p b = do {
     (p1, blk1) \<leftarrow> satisfyRequest blkSize p b;
     case blk1 of
       Some b1 \<Rightarrow>
         if isRead (ap_cmd p1) \<and> fromCache (ap_cmd p1) then do {
           _ \<leftarrow> c_assert (ap_size p1 = blkSize);
           (p2, b2) \<leftarrow> pass_ownership p1 b1;
           Some (p2, Some b2) }
         else Some (p1, blk1)
     | None \<Rightarrow> Some (p1, blk1) }"

definition maintainClusivity :: "protocol_cfg \<Rightarrow> bool \<Rightarrow> 'd copy option \<Rightarrow> 'd copy option" where
  "maintainClusivity cf from_cache blk =
     (case blk of
        Some b \<Rightarrow> if from_cache \<and> \<not> cp_dirty b \<and> cf_mostly_excl cf then None else blk
      | None \<Rightarrow> None)"

text \<open>
  What \<open>allocateBlock\<close> hands over: a block with no coherence bit and no lock, whose contents
  are what the frame held before.
\<close>

definition fresh_copy :: "'d \<Rightarrow> 'd copy" where
  "fresh_copy d = \<lparr>cp_readable = False, cp_writable = False, cp_dirty = False, cp_locks = [], cp_data = d\<rparr>"

text \<open>
  The result of \<open>access\<close>: whether the request is satisfied, the packet, the block, the
  writebacks of this block, and whether \<open>allocateBlock\<close> was used.
\<close>

record 'd access_result =
  ar_satisfied :: bool
  ar_pkt :: "'d apkt"
  ar_blk :: "'d copy option"
  ar_writebacks :: "'d apkt list"
  ar_allocated :: bool

text \<open>
  A writeback from above.  In atomic mode neither the write buffer nor the miss queue holds an
  entry.  The argument \<open>alloc\<close> is the answer of \<open>allocateBlock\<close> (None: nothing replaceable).
\<close>

definition access_writeback :: "nat \<Rightarrow> 'd option \<Rightarrow> 'd apkt \<Rightarrow> 'd copy option \<Rightarrow> 'd access_result option" where
  "access_writeback blkSize alloc p blk = do {
     _ \<leftarrow> c_assert (blkSize = ap_size p);
     let target = (case blk of Some b \<Rightarrow> Some b | None \<Rightarrow> map_option (\<lambda>d. (fresh_copy d)\<lparr>cp_readable := True\<rparr>) alloc);
     case target of
       None \<Rightarrow> Some \<lparr>ar_satisfied = False, ar_pkt = p, ar_blk = None, ar_writebacks = [], ar_allocated = False\<rparr>
     | Some b \<Rightarrow> do {
         let b1 = (if ap_cmd p = WritebackDirty then b\<lparr>cp_dirty := True\<rparr> else b);
         let b2 = (if \<not> ap_hasSharers p then b1\<lparr>cp_writable := True\<rparr> else b1);
         _ \<leftarrow> c_assert (\<not> needsResponse (ap_cmd p));
         Some \<lparr>ar_satisfied = True, ar_pkt = p, ar_blk = Some (b2\<lparr>cp_data := ap_update p (cp_data b2)\<rparr>),
               ar_writebacks = [], ar_allocated = (blk = None)\<rparr> } }"

definition access_writeclean :: "nat \<Rightarrow> 'd option \<Rightarrow> 'd apkt \<Rightarrow> 'd copy option \<Rightarrow> 'd access_result option" where
  "access_writeclean blkSize alloc p blk = do {
     _ \<leftarrow> c_assert (blkSize = ap_size p);
     let target = (case blk of
           Some b \<Rightarrow> Some b
         | None \<Rightarrow> if ap_writeThrough p then None
                   else map_option (\<lambda>d. (fresh_copy d)\<lparr>cp_readable := True\<rparr>) alloc);
     case target of
       None \<Rightarrow> Some \<lparr>ar_satisfied = False, ar_pkt = p, ar_blk = None, ar_writebacks = [], ar_allocated = False\<rparr>
     | Some b \<Rightarrow> do {
         let b1 = (if \<not> ap_writeThrough p then b\<lparr>cp_dirty := True\<rparr> else b);
         _ \<leftarrow> c_assert (\<not> needsResponse (ap_cmd p));
         Some \<lparr>ar_satisfied = \<not> ap_writeThrough p, ar_pkt = p, ar_blk = Some (b1\<lparr>cp_data := ap_update p (cp_data b1)\<rparr>),
               ar_writebacks = [], ar_allocated = (blk = None)\<rparr> } }"

definition BaseCache_access ::
  "nat \<Rightarrow> protocol_cfg \<Rightarrow> 'd option \<Rightarrow> 'd apkt \<Rightarrow> 'd copy option \<Rightarrow> 'd access_result option" where
  "BaseCache_access blkSize cf alloc p blk = do {
     _ \<leftarrow> c_assert (isRequest (ap_cmd p));
     _ \<leftarrow> c_assert (\<not> (cf_isReadOnly cf \<and> isWrite (ap_cmd p)));
     let answer = (\<lambda>ok q blk1.
           Some \<lparr>ar_satisfied = ok, ar_pkt = q, ar_blk = blk1, ar_writebacks = [], ar_allocated = False\<rparr>);
     if ap_cacheMaintenance p then answer False p blk
     else if isWriteback (ap_cmd p) then access_writeback blkSize alloc p blk
     else if ap_cmd p = CleanEvict then answer (blk \<noteq> None) p blk
     else if ap_cmd p = WriteClean then access_writeclean blkSize alloc p blk
     else (case blk of
       Some b \<Rightarrow>
         if (if needsWritable (ap_cmd p) then cp_writable b else cp_readable b) then do {
           (p1, blk1) \<leftarrow> Cache_satisfyRequest blkSize p b;
           answer True p1 (maintainClusivity cf (fromCache (ap_cmd p1)) blk1) }
         else answer False p blk
     | None \<Rightarrow>
         if isLLSC (ap_cmd p) \<and> isWrite (ap_cmd p) then answer True (p\<lparr>ap_extraData := False\<rparr>) None
         else answer False p None) }"

definition Cache_access ::
  "nat \<Rightarrow> protocol_cfg \<Rightarrow> 'd option \<Rightarrow> 'd apkt \<Rightarrow> 'd copy option \<Rightarrow> 'd access_result option" where
  "Cache_access blkSize cf alloc p blk =
     (if ap_uncacheable p then do {
        _ \<leftarrow> c_assert (isRequest (ap_cmd p));
        _ \<leftarrow> c_assert (\<not> (cf_isReadOnly cf \<and> isWrite (ap_cmd p)));
        wbs \<leftarrow> (case blk of
          Some b \<Rightarrow> map_option (\<lambda>w. [w]) (co_evictBlock blkSize cf b)
        | None \<Rightarrow> Some []);
        Some \<lparr>ar_satisfied = False, ar_pkt = p, ar_blk = None, ar_writebacks = wbs, ar_allocated = False\<rparr> }
      else BaseCache_access blkSize cf alloc p blk)"

definition promoteWholeLineWrites :: "nat \<Rightarrow> 'd apkt \<Rightarrow> 'd apkt" where
  "promoteWholeLineWrites blkSize p =
     (if ap_cmd p = WriteReq \<and> ap_size p = blkSize \<and> ap_offset p = 0 \<and> \<not> isMaskedWrite p
      then p\<lparr>ap_cmd := WriteLineReq\<rparr> else p)"

definition allocOnFill :: "protocol_cfg \<Rightarrow> MemCmd \<Rightarrow> bool" where
  "allocOnFill cf c \<longleftrightarrow>
     \<not> cf_mostly_excl cf \<or> c = WriteLineReq \<or> c = ReadReq \<or> c = WriteReq \<or> isPrefetch c \<or> isLLSC c"

text \<open>
  The packet a miss sends below: the request of the processor's packet with another command, for
  the whole block and with no flag set.  None inside Some: the packet itself is passed on.
\<close>

definition miss_packet :: "nat \<Rightarrow> MemCmd \<Rightarrow> 'd apkt \<Rightarrow> 'd apkt" where
  "miss_packet blkSize c p = p\<lparr>ap_cmd := c, ap_offset := 0, ap_size := blkSize, ap_hasSharers := False,
     ap_cacheResponding := False, ap_responderHadWritable := False, ap_satisfied := False,
     ap_blockCached := False, ap_writeThrough := False\<rparr>"

definition miss_command ::
  "protocol_cfg \<Rightarrow> 'd apkt \<Rightarrow> 'd copy option \<Rightarrow> bool \<Rightarrow> bool \<Rightarrow> MemCmd option" where
  "miss_command cf p blk needs_writable is_whole_line_write = do {
     _ \<leftarrow> c_assert (needsResponse (ap_cmd p));
     _ \<leftarrow> c_assert (ap_cmd p \<noteq> WriteLineReq \<or> is_whole_line_write);
     if is_whole_line_write then do {
       _ \<leftarrow> c_assert (case blk of Some b \<Rightarrow> \<not> cp_writable b | None \<Rightarrow> True);
       Some InvalidateReq }
     else case blk of
       Some b \<Rightarrow> do {
         _ \<leftarrow> c_assert needs_writable;
         _ \<leftarrow> c_assert (\<not> cp_writable b);
         Some (if isLLSC (ap_cmd p) then SCUpgradeReq else UpgradeReq) }
     | None \<Rightarrow>
         if ap_cmd p = SCUpgradeFailReq \<or> ap_cmd p = StoreCondFailReq then Some SCUpgradeFailReq
         else if needs_writable then Some ReadExReq
         else if cf_isReadOnly cf \<or> cf_mostly_excl cf then Some ReadCleanReq
         else Some ReadSharedReq }"

definition createMissPacket ::
  "nat \<Rightarrow> protocol_cfg \<Rightarrow> 'd apkt \<Rightarrow> 'd copy option \<Rightarrow> bool \<Rightarrow> bool \<Rightarrow> 'd apkt option option" where
  "createMissPacket blkSize cf p blk needs_writable is_whole_line_write = do {
     _ \<leftarrow> c_assert (\<not> isEviction (ap_cmd p));
     if ap_uncacheable p \<or> (blk = None \<and> isUpgrade (ap_cmd p)) \<or> ap_cmd p = InvalidateReq \<or> isClean (ap_cmd p)
     then Some None
     else do {
       c \<leftarrow> miss_command cf p blk needs_writable is_whole_line_write;
       let q = miss_packet blkSize c p;
       Some (Some (if ap_hasSharers p \<and> \<not> needs_writable then setHasSharers q else q)) } }"

text \<open>
  \<open>handleFill\<close> gives the block that is filled and whether it is the temporary one, whose old
  contents are \<open>temp\<close>.  The argument \<open>alloc\<close> is None also if the block is not to be allocated.
\<close>

definition handleFill ::
  "protocol_cfg \<Rightarrow> nat \<Rightarrow> 'd option \<Rightarrow> 'd \<Rightarrow> 'd apkt \<Rightarrow> 'd copy option \<Rightarrow> ('d copy \<times> bool) option" where
  "handleFill cf blkSize alloc temp p blk = do {
     _ \<leftarrow> c_assert (isResponse (ap_cmd p));
     (b, is_temp) \<leftarrow>
       (case blk of
          None \<Rightarrow> do {
            _ \<leftarrow> c_assert (hasData (ap_cmd p) \<or> ap_cmd p = InvalidateResp);
            Some (case alloc of Some d \<Rightarrow> (fresh_copy d, False) | None \<Rightarrow> (fresh_copy temp, True)) }
        | Some b \<Rightarrow> Some (b, False));
     let b1 = b\<lparr>cp_readable := True\<rparr>;
     _ \<leftarrow> c_assert (ap_cmd p = InvalidateResp \<longrightarrow> \<not> ap_hasSharers p);
     b2 \<leftarrow> (if \<not> ap_hasSharers p then do {
              let b2 = b1\<lparr>cp_writable := True\<rparr>;
              if ap_cacheResponding p then do {
                _ \<leftarrow> c_assert (\<not> cf_isReadOnly cf);
                Some (b2\<lparr>cp_dirty := True\<rparr>) }
              else Some b2 }
            else Some b1);
     if isRead (ap_cmd p) then do {
       _ \<leftarrow> c_assert (hasData (ap_cmd p));
       _ \<leftarrow> c_assert (ap_size p = blkSize);
       Some (b2\<lparr>cp_data := ap_data p\<rparr>, is_temp) }
     else Some (b2, is_temp) }"

subsection \<open>Misses and the entry point of a cache\<close>

text \<open>
  What the tags answer during one request: the contents of the block \<open>allocateBlock\<close> hands over
  if it is asked (None: nothing replaceable), those of the temporary block, and whether the
  write allocator (if there is one) allocates.
\<close>

record 'd tag_answer =
  ta_alloc :: "'d option"
  ta_temp :: 'd
  ta_writeAllocates :: bool

definition own_copy :: "nat \<Rightarrow> 'd line \<Rightarrow> 'd copy option" where
  "own_copy i ln = (if i < length (ln_copies ln) then ln_copies ln ! i else None)"

definition set_copy :: "nat \<Rightarrow> 'd copy option \<Rightarrow> 'd line \<Rightarrow> 'd line" where
  "set_copy i blk ln = ln\<lparr>ln_copies := (ln_copies ln)[i := blk]\<rparr>"

text \<open>
  The result of a miss: the packet, the line, whether the block is the temporary one and
  whether \<open>allocateBlock\<close> gave it.
\<close>

record 'd miss_result =
  mr_pkt :: "'d apkt"
  mr_line :: "'d line"
  mr_temp :: bool
  mr_allocated :: bool

definition plain_result :: "'d apkt \<Rightarrow> 'd line \<Rightarrow> 'd miss_result" where
  "plain_result p ln = \<lparr>mr_pkt = p, mr_line = ln, mr_temp = False, mr_allocated = False\<rparr>"

definition invalidate_own :: "bool \<Rightarrow> nat \<Rightarrow> 'd line \<Rightarrow> 'd line" where
  "invalidate_own is_invalidate i ln = (if is_invalidate then set_copy i None ln else ln)"

definition fill_and_satisfy ::
  "nat \<Rightarrow> protocol_cfg \<Rightarrow> nat \<Rightarrow> bool \<Rightarrow> 'd tag_answer \<Rightarrow> bool \<Rightarrow> 'd apkt \<Rightarrow> 'd apkt \<Rightarrow> 'd line \<Rightarrow> 'd miss_result option" where
  "fill_and_satisfy blkSize cf i allocate ta clusivity p q ln = do {
     let blk = own_copy i ln;
     let alloc = (if allocate then ta_alloc ta else None);
     (b, is_temp) \<leftarrow> handleFill cf blkSize alloc (ta_temp ta) q blk;
     (p1, blk1) \<leftarrow> Cache_satisfyRequest blkSize p b;
     let blk2 = (if clusivity then maintainClusivity cf (fromCache (ap_cmd p1)) blk1 else blk1);
     Some \<lparr>mr_pkt = p1, mr_line = set_copy i blk2 ln, mr_temp = is_temp,
           mr_allocated = (blk = None \<and> alloc \<noteq> None)\<rparr> }"

definition handleAtomicReqMiss ::
  "nat \<Rightarrow> (nat \<Rightarrow> protocol_cfg) \<Rightarrow> xbar_cfg \<Rightarrow> nat \<Rightarrow> 'd tag_answer \<Rightarrow> 'd apkt \<Rightarrow> 'd line \<Rightarrow> 'd miss_result option" where
  "handleAtomicReqMiss blkSize cfs xb i ta p ln =
     (if isEviction (ap_cmd p) \<or> ap_cmd p = WriteClean \<or> (ap_uncacheable p \<and> isWrite (ap_cmd p)) then do {
        (p1, ln1) \<leftarrow> xbar_recvAtomic blkSize cfs xb i p ln;
        _ \<leftarrow> c_assert (\<not> (ap_uncacheable p1 \<and> isWrite (ap_cmd p1)) \<or> isResponse (ap_cmd p1));
        Some (plain_result p1 ln1) }
      else do {
        bus_pkt \<leftarrow> createMissPacket blkSize (cfs i) p (own_copy i ln) (needsWritable (ap_cmd p)) (isWholeLineWrite blkSize p);
        case bus_pkt of
          None \<Rightarrow> do {
            (p1, ln1) \<leftarrow> xbar_recvAtomic blkSize cfs xb i p ln;
            Some (plain_result p1 (invalidate_own (isInvalidate (ap_cmd p1)) i ln1)) }
        | Some q \<Rightarrow> do {
            (q1, ln1) \<leftarrow> xbar_recvAtomic blkSize cfs xb i q ln;
            if needsResponse (ap_cmd p) then do {
              _ \<leftarrow> c_assert (isResponse (ap_cmd q1));
              if isError (ap_cmd q1) then do {
                p1 \<leftarrow> makeResponse p;
                Some (plain_result (p1\<lparr>ap_cmd := ap_cmd q1\<rparr>) (invalidate_own (isInvalidate (ap_cmd q1)) i ln1)) }
              else if isWholeLineWrite blkSize p then
                fill_and_satisfy blkSize (cfs i) i (allocOnFill (cfs i) (ap_cmd p) \<and> ta_writeAllocates ta) ta False p q1 ln1
              else if isRead (ap_cmd q1) \<or> ap_cmd q1 = UpgradeResp then do {
                r \<leftarrow> fill_and_satisfy blkSize (cfs i) i (allocOnFill (cfs i) (ap_cmd p)) ta True p q1 ln1;
                Some (r\<lparr>mr_line := invalidate_own (isInvalidate (ap_cmd q1)) i (mr_line r)\<rparr>) }
              else do {
                p1 \<leftarrow> makeResponse p;
                Some (plain_result p1 (invalidate_own (isInvalidate (ap_cmd q1)) i ln1)) } }
            else Some (plain_result p (invalidate_own (isInvalidate (ap_cmd q1)) i ln1)) } })"

text \<open>A clean operation writes a dirty block back before it goes on.\<close>

definition clean_own ::
  "nat \<Rightarrow> 'd apkt \<Rightarrow> 'd copy option \<Rightarrow> ('d apkt \<times> 'd copy option \<times> 'd apkt list) option" where
  "clean_own blkSize p blk =
     (case blk of
        Some b \<Rightarrow>
          if isClean (ap_cmd p) \<and> cp_dirty b then do {
            (wb, b1) \<leftarrow> co_writecleanBlk blkSize p b;
            p1 \<leftarrow> setSatisfied p;
            Some (p1, Some b1, [wb]) }
          else Some (p, blk, [])
      | None \<Rightarrow> Some (p, blk, []))"

text \<open>The temporary block is written back once the request is finished, before the next one.\<close>

definition drop_temp ::
  "nat \<Rightarrow> (nat \<Rightarrow> protocol_cfg) \<Rightarrow> xbar_cfg \<Rightarrow> nat \<Rightarrow> 'd line \<Rightarrow> 'd line option" where
  "drop_temp blkSize cfs xb i ln =
     (case own_copy i ln of
        None \<Rightarrow> Some ln
      | Some b \<Rightarrow> do {
          wb \<leftarrow> co_evictBlock blkSize (cfs i) b;
          doWritebacksAtomic blkSize cfs xb i [wb] (set_copy i None ln) })"

definition BaseCache_recvAtomic ::
  "nat \<Rightarrow> (nat \<Rightarrow> protocol_cfg) \<Rightarrow> xbar_cfg \<Rightarrow> nat \<Rightarrow> 'd tag_answer \<Rightarrow> 'd apkt \<Rightarrow> 'd line \<Rightarrow> 'd miss_result option" where
  "BaseCache_recvAtomic blkSize cfs xb i ta p ln = do {
     a \<leftarrow> Cache_access blkSize (cfs i) (ta_alloc ta) p (own_copy i ln);
     (p1, blk1, wbs) \<leftarrow> clean_own blkSize (ar_pkt a) (ar_blk a);
     ln1 \<leftarrow> doWritebacksAtomic blkSize cfs xb i (ar_writebacks a @ wbs) (set_copy i blk1 ln);
     r \<leftarrow> (if ar_satisfied a then Some (plain_result p1 ln1)
          else handleAtomicReqMiss blkSize cfs xb i ta p1 ln1);
     ln2 \<leftarrow> (if mr_temp r then drop_temp blkSize cfs xb i (mr_line r) else Some (mr_line r));
     p2 \<leftarrow> (if needsResponse (ap_cmd (mr_pkt r)) then makeResponse (mr_pkt r) else Some (mr_pkt r));
     Some \<lparr>mr_pkt = p2, mr_line = ln2, mr_temp = mr_temp r, mr_allocated = ar_allocated a \<or> mr_allocated r\<rparr> }"

definition Cache_recvAtomic ::
  "nat \<Rightarrow> (nat \<Rightarrow> protocol_cfg) \<Rightarrow> xbar_cfg \<Rightarrow> nat \<Rightarrow> 'd tag_answer \<Rightarrow> 'd apkt \<Rightarrow> 'd line \<Rightarrow> 'd miss_result option" where
  "Cache_recvAtomic blkSize cfs xb i ta p0 ln = do {
     let p = promoteWholeLineWrites blkSize p0;
     if ap_cacheResponding p then do {
       _ \<leftarrow> c_assert (\<not> ap_cacheInvalidate p);
       _ \<leftarrow> c_assert (needsWritable (ap_cmd p) \<and> \<not> ap_responderHadWritable p);
       (p1, ln1) \<leftarrow> xbar_recvAtomic blkSize cfs xb i p ln;
       Some (plain_result p1 ln1) }
     else BaseCache_recvAtomic blkSize cfs xb i ta p ln }"

subsection \<open>The system\<close>

text \<open>
  The system has a line for every block address and the response to the last request.  A request
  of a processor reaches the cache of its number; if a block is allocated for it, the victims
  the tags choose are evicted.  (Their lines are not the one of the request, so it does not
  matter that the source removes them before the request is satisfied and sends the
  writebacks afterwards.)
\<close>

record 'd co_system =
  sy_line :: "u64 \<Rightarrow> 'd line"
  sy_response :: "'d apkt"

record 'd co_event =
  ev_cache :: nat
  ev_addr :: u64
  ev_pkt :: "'d apkt"
  ev_tags :: "'d tag_answer"
  ev_victims :: "u64 list"

definition evict_line :: "nat \<Rightarrow> (nat \<Rightarrow> protocol_cfg) \<Rightarrow> xbar_cfg \<Rightarrow> nat \<Rightarrow> 'd line \<Rightarrow> 'd line option" where
  "evict_line blkSize cfs xb i ln = do {
     b \<leftarrow> own_copy i ln;
     wb \<leftarrow> co_evictBlock blkSize (cfs i) b;
     doWritebacksAtomic blkSize cfs xb i [wb] (set_copy i None ln) }"

fun evict_victims :: "nat \<Rightarrow> (nat \<Rightarrow> protocol_cfg) \<Rightarrow> xbar_cfg \<Rightarrow> nat \<Rightarrow> u64 list \<Rightarrow> (u64 \<Rightarrow> 'd line)
    \<Rightarrow> (u64 \<Rightarrow> 'd line) option" where
  "evict_victims blkSize cfs xb i [] lns = Some lns"
| "evict_victims blkSize cfs xb i (a # as) lns = do {
     ln \<leftarrow> evict_line blkSize cfs xb i (lns a);
     evict_victims blkSize cfs xb i as (lns(a := ln)) }"

definition co_step ::
  "nat \<Rightarrow> (nat \<Rightarrow> protocol_cfg) \<Rightarrow> xbar_cfg \<Rightarrow> 'd co_event \<Rightarrow> 'd co_system \<Rightarrow> 'd co_system option" where
  "co_step blkSize cfs xb e s = do {
     r \<leftarrow> Cache_recvAtomic blkSize cfs xb (ev_cache e) (ev_tags e) (ev_pkt e) (sy_line s (ev_addr e));
     lns \<leftarrow> evict_victims blkSize cfs xb (ev_cache e) (if mr_allocated r then ev_victims e else [])
             ((sy_line s)(ev_addr e := mr_line r));
     Some \<lparr>sy_line = lns, sy_response = mr_pkt r\<rparr> }"

end
