(* ===== verification/Snoops.thy ===== *)
theory Snoops
  imports Atomic_Protocol
begin

section \<open>Snoops and coherent lines\<close>

text \<open>
  What the crossbar makes of a line.  The snoops fall into four kinds (reads,
  invalidations, evictions, clean operations); the locale \<open>snoop_kind\<close> has the induction over
  the caches that the first three share.  Then follow the invariant of a line, its
  value, and what each kind of request to the crossbar returns on a coherent line.
\<close>

subsection \<open>What a snoop of all caches does\<close>

text \<open>The valid copies outside the source, with the numbers of their caches.\<close>

fun others :: "nat \<Rightarrow> nat \<Rightarrow> 'd copy option list \<Rightarrow> (nat \<times> 'd copy) list" where
  "others src j [] = []"
| "others src j (blk # blks) =
     (if j = src then [] else case blk of None \<Rightarrow> [] | Some b \<Rightarrow> [(j, b)]) @ others src (Suc j) blks"

fun snooped :: "('d copy option \<Rightarrow> 'd copy option) \<Rightarrow> nat \<Rightarrow> nat \<Rightarrow> 'd copy option list \<Rightarrow> 'd copy option list" where
  "snooped f src j [] = []"
| "snooped f src j (blk # blks) = (if j = src then blk else f blk) # snooped f src (Suc j) blks"

abbreviation dirty_others :: "nat \<Rightarrow> nat \<Rightarrow> 'd copy option list \<Rightarrow> (nat \<times> 'd copy) list" where
  "dirty_others src j blks \<equiv> filter (\<lambda>x. cp_dirty (snd x)) (others src j blks)"

definition read_only_clean :: "(nat \<Rightarrow> protocol_cfg) \<Rightarrow> (nat \<times> 'd copy) list \<Rightarrow> bool" where
  "read_only_clean cfs xs \<longleftrightarrow> (\<forall>x \<in> set xs. cf_isReadOnly (cfs (fst x)) \<longrightarrow> \<not> cp_dirty (snd x))"

lemma read_only_clean_simps [simp]:
  "read_only_clean cfs []"
  "read_only_clean cfs (x # xs) \<longleftrightarrow> (cf_isReadOnly (cfs (fst x)) \<longrightarrow> \<not> cp_dirty (snd x)) \<and> read_only_clean cfs xs"
  by (auto simp: read_only_clean_def)

lemma length_snooped [simp]: "length (snooped f src j blks) = length blks"
  by (induction blks arbitrary: j) auto

lemma nth_snooped: "k < length blks \<Longrightarrow> snooped f src j blks ! k = (if j + k = src then blks ! k else f (blks ! k))"
  by (induction blks arbitrary: j k) (auto simp: nth_Cons split: nat.split)

lemma set_others:
  "(k, b) \<in> set (others src j blks) \<longleftrightarrow> k \<noteq> src \<and> (\<exists>m < length blks. k = j + m \<and> blks ! m = Some b)"
proof (induction blks arbitrary: j)
  case (Cons blk blks)
  show ?case by (cases blk) (auto simp: Cons.IH Ex_less_Suc2)
qed simp

lemma distinct_others: "distinct (map fst (others src j blks))"
proof (induction blks arbitrary: j)
  case (Cons blk blks)
  show ?case by (cases blk) (auto simp: Cons.IH set_others)
qed simp

lemma snoop_miss:
  "isRequest (ap_cmd p) \<Longrightarrow> \<not> ap_uncacheable p \<Longrightarrow> Cache_handleSnoop blkSize cf p None = Some (p, None, [])"
  by (simp add: Cache_handleSnoop_def c_assert_def)

lemma response_no_writeback: "isResponse c \<Longrightarrow> \<not> isWriteback c"
  by (cases c) (simp_all add: cmd_attribs)

text \<open>What a snoop does to the filter: a reply makes the source a holder, the only one if nobody shares.\<close>

definition filter_after :: "xbar_cfg \<Rightarrow> nat \<Rightarrow> bool \<Rightarrow> bool \<Rightarrow> nat set \<Rightarrow> 'd below \<Rightarrow> 'd below \<Rightarrow> bool" where
  "filter_after xb src shares replied H be be' \<longleftrightarrow>
     be_mem be' = be_mem be \<and> be_outstandingCMO be' = be_outstandingCMO be \<and>
     (if replied \<and> xb_snoopFilter xb then covers (be_filter be') (if shares then insert src H else {src}) else be' = be)"

text \<open>
  A kind of snoops: what they leave of a copy (\<open>f\<close>), what they do to the packet given the copies
  they found (\<open>after\<close>), whether a dirty copy answers, and whether the source shares the block then.
\<close>

locale snoop_kind =
  fixes kind :: "MemCmd \<Rightarrow> bool" and after :: "(nat \<times> 'd copy) list \<Rightarrow> 'd apkt \<Rightarrow> 'd apkt"
    and f :: "'d copy option \<Rightarrow> 'd copy option" and replies :: bool and shares :: bool
  assumes request: "kind c \<Longrightarrow> isRequest c \<and> \<not> isResponse c"
    and reply: "replies \<Longrightarrow> kind c \<Longrightarrow> isResponse (responseCommand c)"
    and after_cmd: "ap_cmd (after xs p) = ap_cmd p" "ap_uncacheable (after xs p) = ap_uncacheable p"
    and after_Nil: "after [] p = p"
    and after_Cons: "(replies \<and> cp_dirty (snd x) \<longrightarrow> filter (\<lambda>x. cp_dirty (snd x)) xs = []) \<Longrightarrow>
      after xs (after [x] p) = after (x # xs) p"
    and after_responds: "replies \<Longrightarrow> cp_dirty b \<Longrightarrow> ap_cacheResponding (after [(j, b)] p)"
    and after_silent: "\<not> cp_dirty b \<Longrightarrow> ap_cacheResponding (after [(j, b)] p) = ap_cacheResponding p \<and>
      ap_responderHadWritable (after [(j, b)] p) = ap_responderHadWritable p"
    and after_shares: "ap_hasSharers (after [(j, b)] p) \<longleftrightarrow> shares \<or> ap_hasSharers p"
    and miss: "f None = None"
    and hit: "kind (ap_cmd p) \<Longrightarrow> \<not> ap_uncacheable p \<Longrightarrow>
      (replies \<and> cp_dirty b \<longrightarrow> \<not> ap_cacheResponding p \<and> \<not> ap_responderHadWritable p) \<Longrightarrow>
      (cf_isReadOnly cf \<longrightarrow> \<not> cp_dirty b) \<Longrightarrow>
      Cache_handleSnoop blkSize cf p (Some b) =
        Some ((after [(j, b)] p)\<lparr>ap_cmd := if replies \<and> cp_dirty b then responseCommand (ap_cmd p) else ap_cmd p\<rparr>,
              f (Some b), [])"
begin

text \<open>The filter accepts the reply of a dirty copy.\<close>

lemma filter_reply:
  assumes "kind (ap_cmd p)" "\<not> ap_uncacheable p" "replies" "cp_dirty b" "shares \<or> \<not> ap_hasSharers p"
    and "xb_snoopFilter xb \<longrightarrow> requesting src (be_filter be) H \<and> src < 256 \<and> j \<in> H"
  shows "\<exists>e. (if xb_snoopFilter xb then updateSnoopResponse j src ((after [(j, b)] p)\<lparr>ap_cmd := responseCommand (ap_cmd p)\<rparr>) (be_filter be)
      else Some (be_filter be)) = Some e \<and> filter_after xb src shares True H be (be\<lparr>be_filter := e\<rparr>)"
proof (cases "xb_snoopFilter xb")
  case True
  let ?q = "(after [(j, b)] p)\<lparr>ap_cmd := responseCommand (ap_cmd p)\<rparr>"
  have "isResponse (ap_cmd ?q)" "ap_cacheResponding ?q" "\<not> ap_uncacheable ?q" "\<not> isWriteback (ap_cmd ?q)" "ap_hasSharers ?q \<longleftrightarrow> shares"
    using reply [OF assms(3,1)] after_responds [OF assms(3,4)] assms(2,5) response_no_writeback after_shares [of j b p] by (auto simp: after_cmd)
  then show ?thesis using True snoop_response [of src "be_filter be" H j ?q] assms(6) by (auto simp: filter_after_def)
qed (simp add: filter_after_def)

lemma forward:
  assumes "kind (ap_cmd p)" "\<not> ap_uncacheable p" "replies \<longrightarrow> length (dirty_others src j blks) \<le> 1"
    and "replies \<and> dirty_others src j blks \<noteq> [] \<longrightarrow>
      \<not> ap_cacheResponding p \<and> \<not> ap_responderHadWritable p \<and> rc = InvalidCmd"
    and "read_only_clean cfs (others src j blks)" "fst ` set (others src j blks) \<subseteq> set dests" "replies \<longrightarrow> shares \<or> \<not> ap_hasSharers p"
    and "replies \<and> dirty_others src j blks \<noteq> [] \<and> xb_snoopFilter xb \<longrightarrow>
      requesting src (be_filter be) H \<and> src < 256 \<and> fst ` set (others src j blks) \<subseteq> H"
  shows "\<exists>be'. forwardAtomic blkSize cfs xb src dests j blks p rc be =
    Some (snooped f src j blks, after (others src j blks) p,
          if replies \<and> dirty_others src j blks \<noteq> [] then responseCommand (ap_cmd p) else rc, be') \<and>
    filter_after xb src shares (replies \<and> dirty_others src j blks \<noteq> []) H be be'"
  using assms
proof (induction blks arbitrary: j p rc be)
  case Nil
  then show ?case by (simp add: after_Nil filter_after_def)
next
  case (Cons blk blks)
  note req = request [OF Cons.prems(1)]
  show ?case
  proof (cases "j = src \<or> blk = None")
    case True
    then have oth: "others src j (blk # blks) = others src (Suc j) blks" by auto
    obtain be' where IH: "forwardAtomic blkSize cfs xb src dests (Suc j) blks p rc be =
        Some (snooped f src (Suc j) blks, after (others src (Suc j) blks) p,
              if replies \<and> dirty_others src (Suc j) blks \<noteq> [] then responseCommand (ap_cmd p) else rc, be')"
      "filter_after xb src shares (replies \<and> dirty_others src (Suc j) blks \<noteq> []) H be be'"
      using Cons.IH [OF Cons.prems [unfolded oth]] by blast
    have "forwardAtomic blkSize cfs xb src dests j (blk # blks) p rc be =
        Some (snooped f src j (blk # blks), after (others src (Suc j) blks) p,
              if replies \<and> dirty_others src (Suc j) blks \<noteq> [] then responseCommand (ap_cmd p) else rc, be')"
      using True IH(1) req Cons.prems(2) by (cases "j = src") (simp_all add: snoop_miss miss)
    then show ?thesis using IH(2) unfolding oth by blast
  next
    case False
    then obtain b where b: "blk = Some b" "j \<noteq> src" by auto
    define q where "q = after [(j, b)] p"
    define rd where "rd \<longleftrightarrow> replies \<and> cp_dirty b"
    have q: "ap_cmd q = ap_cmd p" "\<not> ap_uncacheable q" "replies \<longrightarrow> shares \<or> \<not> ap_hasSharers q"
      using Cons.prems(2,7) by (auto simp: q_def after_cmd after_shares)
    have upd: "q\<lparr>ap_cmd := ap_cmd p\<rparr> = q" using q(1) by simp
    have dest: "j \<in> set dests" using Cons.prems(6) b by simp
    have sn: "Cache_handleSnoop blkSize (cfs j) p blk =
      Some (q\<lparr>ap_cmd := if rd then responseCommand (ap_cmd p) else ap_cmd p\<rparr>, f (Some b), [])"
      using Cons.prems b hit [of p b "cfs j" blkSize j] by (auto simp: rd_def q_def)
    have later: "rd \<Longrightarrow> dirty_others src (Suc j) blks = [] \<and> rc = InvalidCmd \<and> ap_cacheResponding q"
      using Cons.prems(3,4) b by (auto simp: rd_def q_def after_responds)
    have diff: "rd \<Longrightarrow> isResponse (responseCommand (ap_cmd p)) \<and> responseCommand (ap_cmd p) \<noteq> ap_cmd p"
      using req reply [OF _ Cons.prems(1)] by (auto simp: rd_def)
    have comp: "after (others src (Suc j) blks) q = after (others src j (blk # blks)) p"
      using later b by (simp add: q_def rd_def after_Cons)
    have "\<exists>e. rd \<longrightarrow> (if xb_snoopFilter xb then updateSnoopResponse j src (q\<lparr>ap_cmd := responseCommand (ap_cmd p)\<rparr>) (be_filter be)
        else Some (be_filter be)) = Some e \<and> filter_after xb src shares True H be (be\<lparr>be_filter := e\<rparr>)"
    proof (cases rd)
      case True
      then have "replies" "cp_dirty b" by (simp_all add: rd_def)
      then have "xb_snoopFilter xb \<longrightarrow> requesting src (be_filter be) H \<and> src < 256 \<and> j \<in> H" using Cons.prems(8) b by auto
      from filter_reply [OF Cons.prems(1,2) \<open>replies\<close> \<open>cp_dirty b\<close> mp [OF Cons.prems(7) \<open>replies\<close>] this] show ?thesis unfolding q_def by blast
    qed simp
    then obtain e where e: "rd \<Longrightarrow> (if xb_snoopFilter xb then updateSnoopResponse j src (q\<lparr>ap_cmd := responseCommand (ap_cmd p)\<rparr>) (be_filter be)
        else Some (be_filter be)) = Some e \<and> filter_after xb src shares True H be (be\<lparr>be_filter := e\<rparr>)" by blast
    define be1 where "be1 = (if rd then be\<lparr>be_filter := e\<rparr> else be)"
    obtain be' where IH: "forwardAtomic blkSize cfs xb src dests (Suc j) blks q (if rd then responseCommand (ap_cmd p) else rc) be1 =
      Some (snooped f src (Suc j) blks, after (others src (Suc j) blks) q,
            if replies \<and> dirty_others src (Suc j) blks \<noteq> [] then responseCommand (ap_cmd q)
            else if rd then responseCommand (ap_cmd p) else rc, be')"
      "filter_after xb src shares (replies \<and> dirty_others src (Suc j) blks \<noteq> []) H be1 be'"
    proof (atomize_elim, rule Cons.IH)
      show "replies \<and> dirty_others src (Suc j) blks \<noteq> [] \<longrightarrow> \<not> ap_cacheResponding q \<and> \<not> ap_responderHadWritable q \<and>
        (if rd then responseCommand (ap_cmd p) else rc) = InvalidCmd"
        using later Cons.prems(4) b after_silent [of b j p] by (auto simp: rd_def q_def)
      show "replies \<and> dirty_others src (Suc j) blks \<noteq> [] \<and> xb_snoopFilter xb \<longrightarrow>
          requesting src (be_filter be1) H \<and> src < 256 \<and> fst ` set (others src (Suc j) blks) \<subseteq> H"
        using later Cons.prems(8) b by (auto simp: rd_def be1_def)
    qed (use Cons.prems b q in \<open>auto split: if_split_asm\<close>)
    show ?thesis
    proof (cases rd)
      case True
      then have "be' = be1" using IH(2) later by (simp add: filter_after_def)
      then show ?thesis using True b sn IH(1) req comp later diff e dest by (simp add: c_assert_def upd rd_def be1_def)
    next
      case False
      then show ?thesis using b sn IH req comp q dest by (auto simp: upd rd_def be1_def)
    qed
  qed
qed

end

subsubsection \<open>Reads\<close>

definition snoop_read_cmd :: "MemCmd \<Rightarrow> bool" where
  "snoop_read_cmd c \<longleftrightarrow> c = ReadSharedReq \<or> c = ReadCleanReq"

definition after_read :: "(nat \<times> 'd copy) list \<Rightarrow> 'd apkt \<Rightarrow> 'd apkt" where
  "after_read xs p =
     p\<lparr>ap_hasSharers := ap_hasSharers p \<or> xs \<noteq> [],
       ap_cacheResponding := ap_cacheResponding p \<or> filter (\<lambda>x. cp_dirty (snd x)) xs \<noteq> [],
       ap_data := (case filter (\<lambda>x. cp_dirty (snd x)) xs of [] \<Rightarrow> ap_data p | x # _ \<Rightarrow> cp_data (snd x))\<rparr>"

definition downgrade :: "'d copy option \<Rightarrow> 'd copy option" where
  "downgrade = map_option (\<lambda>b. b\<lparr>cp_writable := False\<rparr>)"

lemmas snoop_defs = Cache_handleSnoop_def snoop_reply_def setHasSharers_def setCacheResponding_def
  setResponderHadWritable_def makeResponse_def mustCheckAbove_def c_assert_def Let_def

text \<open>A read leaves the other copies without write permission, and the dirty one gives its contents.\<close>

interpretation read_snoop: snoop_kind snoop_read_cmd after_read downgrade True True
proof unfold_locales
  show "after_read xs (after_read [x] p) = after_read (x # xs) p"
    if "True \<and> cp_dirty (snd x) \<longrightarrow> filter (\<lambda>x. cp_dirty (snd x)) xs = []" for xs x and p :: "'a apkt"
    using that by (cases "cp_dirty (snd x)"; cases "filter (\<lambda>x. cp_dirty (snd x)) xs") (simp_all add: after_read_def)
  show "Cache_handleSnoop blkSize cf p (Some b) =
      Some ((after_read [(j, b)] p)\<lparr>ap_cmd := if True \<and> cp_dirty b then responseCommand (ap_cmd p) else ap_cmd p\<rparr>,
            downgrade (Some b), [])"
    if "snoop_read_cmd (ap_cmd p)" "\<not> ap_uncacheable p"
      "True \<and> cp_dirty b \<longrightarrow> \<not> ap_cacheResponding p \<and> \<not> ap_responderHadWritable p"
      "cf_isReadOnly cf \<longrightarrow> \<not> cp_dirty b" for p :: "'a apkt" and b cf blkSize j
    using that unfolding snoop_read_cmd_def
    by (elim disjE; cases "cp_dirty b") (simp_all add: snoop_defs after_read_def downgrade_def cmd_attribs)
qed (auto simp: snoop_read_cmd_def after_read_def downgrade_def cmd_attribs)

subsubsection \<open>Invalidations\<close>

definition snoop_inv_cmd :: "MemCmd \<Rightarrow> bool" where
  "snoop_inv_cmd c \<longleftrightarrow> c = ReadExReq \<or> c = UpgradeReq \<or> c = SCUpgradeReq \<or> c = InvalidateReq"

definition after_inv :: "(nat \<times> 'd copy) list \<Rightarrow> 'd apkt \<Rightarrow> 'd apkt" where
  "after_inv xs p = (case filter (\<lambda>x. cp_dirty (snd x)) xs of
     [] \<Rightarrow> p
   | x # _ \<Rightarrow> p\<lparr>ap_cacheResponding := True,
       ap_responderHadWritable := ap_responderHadWritable p \<or> cp_writable (snd x),
       ap_data := if hasRespData (ap_cmd p) then cp_data (snd x) else ap_data p\<rparr>)"

definition drop_copy :: "'d copy option \<Rightarrow> 'd copy option" where
  "drop_copy blk = None"

text \<open>A request for a writable copy leaves no other copy, and the dirty one hands on the ownership.\<close>

interpretation inv_snoop: snoop_kind snoop_inv_cmd after_inv drop_copy True False
proof unfold_locales
  show "after_inv xs (after_inv [x] p) = after_inv (x # xs) p"
    if "True \<and> cp_dirty (snd x) \<longrightarrow> filter (\<lambda>x. cp_dirty (snd x)) xs = []" for xs x and p :: "'a apkt"
    using that by (cases "cp_dirty (snd x)"; cases "filter (\<lambda>x. cp_dirty (snd x)) xs") (simp_all add: after_inv_def)
  show "Cache_handleSnoop blkSize cf p (Some b) =
      Some ((after_inv [(j, b)] p)\<lparr>ap_cmd := if True \<and> cp_dirty b then responseCommand (ap_cmd p) else ap_cmd p\<rparr>,
            drop_copy (Some b), [])"
    if "snoop_inv_cmd (ap_cmd p)" "\<not> ap_uncacheable p"
      "True \<and> cp_dirty b \<longrightarrow> \<not> ap_cacheResponding p \<and> \<not> ap_responderHadWritable p"
      "cf_isReadOnly cf \<longrightarrow> \<not> cp_dirty b" for p :: "'a apkt" and b cf blkSize j
    using that unfolding snoop_inv_cmd_def
    by (elim disjE; cases "cp_dirty b"; cases "cp_writable b")
      (simp_all add: snoop_defs after_inv_def drop_copy_def cmd_attribs)
qed (auto simp: snoop_inv_cmd_def after_inv_def drop_copy_def cmd_attribs split: list.split)

subsubsection \<open>Evictions\<close>

definition after_evict :: "(nat \<times> 'd copy) list \<Rightarrow> 'd apkt \<Rightarrow> 'd apkt" where
  "after_evict xs p = p\<lparr>ap_blockCached := ap_blockCached p \<or> xs \<noteq> []\<rparr>"

definition keep_copy :: "'d copy option \<Rightarrow> 'd copy option" where
  "keep_copy blk = blk"

definition snoop_evict_cmd :: "MemCmd \<Rightarrow> bool" where
  "snoop_evict_cmd c \<longleftrightarrow> c = WritebackDirty \<or> c = WritebackClean \<or> c = CleanEvict"

text \<open>An eviction changes no other copy; it learns whether there is one.\<close>

interpretation evict_snoop: snoop_kind snoop_evict_cmd after_evict keep_copy False False
proof unfold_locales
  show "Cache_handleSnoop blkSize cf p (Some b) =
      Some ((after_evict [(j, b)] p)\<lparr>ap_cmd := if False \<and> cp_dirty b then responseCommand (ap_cmd p) else ap_cmd p\<rparr>,
            keep_copy (Some b), [])"
    if "snoop_evict_cmd (ap_cmd p)" "\<not> ap_uncacheable p" "cf_isReadOnly cf \<longrightarrow> \<not> cp_dirty b"
    for p :: "'a apkt" and b cf blkSize j
    using that unfolding snoop_evict_cmd_def
    by (elim disjE) (simp_all add: snoop_defs after_evict_def keep_copy_def cmd_attribs)
qed (auto simp: snoop_evict_cmd_def after_evict_def keep_copy_def cmd_attribs)

lemma snooped_keep [simp]: "snooped keep_copy src j blks = blks"
  by (induction blks arbitrary: j) (auto simp: keep_copy_def)

subsubsection \<open>Clean operations\<close>

definition snoop_clean_cmd :: "MemCmd \<Rightarrow> bool" where
  "snoop_clean_cmd c \<longleftrightarrow> c = CleanSharedReq \<or> c = CleanInvalidReq"

definition clean_copy :: "MemCmd \<Rightarrow> 'd copy option \<Rightarrow> 'd copy option" where
  "clean_copy c blk =
     (if c = CleanInvalidReq then None
      else map_option (\<lambda>b. if cp_dirty b then b\<lparr>cp_writable := False, cp_dirty := False\<rparr> else b) blk)"

definition written_below :: "'d copy \<Rightarrow> 'd apkt \<Rightarrow> 'd below \<Rightarrow> 'd below" where
  "written_below b p be = be\<lparr>be_mem := cp_data b, be_outstandingCMO := ap_id p # be_outstandingCMO be\<rparr>"

lemmas xbar_defs = xbar_serve_def xbar_forward_def sinkPacket_def forwardPacket_def isDestination_def
  isCleanEviction_def memory_access_def restore_response_def settle_CMO_def filter_response_def makeResponse_def c_assert_def

lemmas leave_defs = co_writebackBlk_def co_writecleanBlk_def co_cleanEvictBlk_def co_evictBlock_def
  setWriteThrough_def setHasSharers_def new_packet_def

lemma writeclean_ok:
  assumes "ap_toPOC p" "xb_pointOfCoherency xb" "ap_id p \<notin> set (be_outstandingCMO be)"
  shows "\<exists>w w1. co_writecleanBlk blkSize p b = Some (w, b\<lparr>cp_writable := False, cp_dirty := False\<rparr>) \<and>
    ap_cmd w = WriteClean \<and> xbar_serve xb j InvalidCmd w be = Some (w1, written_below b p be)"
  using assms by (cases "cp_writable b") (simp_all add: leave_defs xbar_defs written_below_def cmd_attribs)

lemma clean_snoop_dirty:
  assumes "snoop_clean_cmd (ap_cmd p)" "\<not> ap_uncacheable p" "ap_toPOC p" "xb_pointOfCoherency xb" "cp_dirty b"
    and "\<not> ap_satisfied p" "ap_id p \<notin> set (be_outstandingCMO be)"
  shows "\<exists>ws. Cache_handleSnoop blkSize cf p (Some b) =
    Some (p\<lparr>ap_satisfied := True\<rparr>, clean_copy (ap_cmd p) (Some b), ws) \<and>
    xbar_writecleans xb j ws be = Some (written_below b p be)"
proof -
  obtain w w1 where w: "co_writecleanBlk blkSize p b = Some (w, b\<lparr>cp_writable := False, cp_dirty := False\<rparr>)"
    "ap_cmd w = WriteClean" "xbar_serve xb j InvalidCmd w be = Some (w1, written_below b p be)"
    using writeclean_ok [OF assms(3,4,7)] by blast
  have "Cache_handleSnoop blkSize cf p (Some b) = Some (p\<lparr>ap_satisfied := True\<rparr>, clean_copy (ap_cmd p) (Some b), [w])"
    using assms w(1) unfolding snoop_clean_cmd_def
    by (elim disjE) (simp_all add: snoop_defs setSatisfied_def clean_copy_def cmd_attribs)
  moreover have "xbar_writecleans xb j [w] be = Some (written_below b p be)" using w(2,3) by (simp add: c_assert_def)
  ultimately show ?thesis by blast
qed

lemma clean_snoop_clean:
  assumes "snoop_clean_cmd (ap_cmd p)" "\<not> ap_uncacheable p" "\<not> cp_dirty b"
  shows "Cache_handleSnoop blkSize cf p (Some b) = Some (p, clean_copy (ap_cmd p) (Some b), [])"
  using assms unfolding snoop_clean_cmd_def
  by (elim disjE) (simp_all add: snoop_defs clean_copy_def cmd_attribs)

definition after_clean :: "(nat \<times> 'd copy) list \<Rightarrow> 'd apkt \<Rightarrow> 'd apkt" where
  "after_clean ds p = p\<lparr>ap_satisfied := ap_satisfied p \<or> ds \<noteq> []\<rparr>"

definition below_clean :: "(nat \<times> 'd copy) list \<Rightarrow> 'd apkt \<Rightarrow> 'd below \<Rightarrow> 'd below" where
  "below_clean ds p be = (case ds of [] \<Rightarrow> be | x # _ \<Rightarrow> written_below (snd x) p be)"

lemma below_clean_simps [simp]:
  "below_clean [] p be = be" "below_clean (x # xs) p be = written_below (snd x) p be"
  by (simp_all add: below_clean_def)

lemma forward_clean:
  assumes "snoop_clean_cmd (ap_cmd p)" "\<not> ap_uncacheable p" "ap_toPOC p" "xb_pointOfCoherency xb"
    and "length (dirty_others src j blks) \<le> 1"
    and "dirty_others src j blks \<noteq> [] \<longrightarrow> \<not> ap_satisfied p \<and> ap_id p \<notin> set (be_outstandingCMO be)"
    and "fst ` set (others src j blks) \<subseteq> set dests"
  shows "forwardAtomic blkSize cfs xb src dests j blks p rc be =
    Some (snooped (clean_copy (ap_cmd p)) src j blks, after_clean (dirty_others src j blks) p, rc,
          below_clean (dirty_others src j blks) p be)"
  using assms
proof (induction blks arbitrary: j p be)
  case Nil
  then show ?case by (simp add: after_clean_def)
next
  case (Cons blk blks)
  have req: "isRequest (ap_cmd p)" "\<not> isResponse (ap_cmd p)"
    using Cons.prems(1) by (auto simp: snoop_clean_cmd_def cmd_attribs)
  consider "j = src \<or> blk = None" | b where "j \<noteq> src" "blk = Some b" "\<not> cp_dirty b" | b where "j \<noteq> src" "blk = Some b" "cp_dirty b"
    by auto
  then show ?case
  proof cases
    case 1
    then have oth: "others src j (blk # blks) = others src (Suc j) blks" by auto
    show ?thesis using 1 Cons.prems(2) Cons.IH [OF Cons.prems [unfolded oth]] req unfolding oth
      by (cases "j = src") (simp_all add: snoop_miss clean_copy_def)
  next
    case 2
    then show ?thesis using Cons.prems Cons.IH [of p "Suc j" be] req by (simp add: clean_snoop_clean)
  next
    case 3
    then have rest: "dirty_others src (Suc j) blks = []" and free: "\<not> ap_satisfied p" "ap_id p \<notin> set (be_outstandingCMO be)"
      using Cons.prems(5,6) by auto
    obtain ws where "Cache_handleSnoop blkSize (cfs j) p (Some b) =
        Some (p\<lparr>ap_satisfied := True\<rparr>, clean_copy (ap_cmd p) (Some b), ws)"
      "xbar_writecleans xb j ws be = Some (written_below b p be)"
      using clean_snoop_dirty [OF Cons.prems(1-4) 3(3) free] by blast
    then show ?thesis using 3 rest req Cons.prems Cons.IH [of "p\<lparr>ap_satisfied := True\<rparr>" "Suc j" "written_below b p be"]
      by (simp add: after_clean_def)
  qed
qed

subsection \<open>Coherent lines\<close>

text \<open>
  All copies hold the value \<open>v\<close> and may be read; a copy that may be written is the only one, and
  at most one is dirty, never one of a read-only cache; if none is, the memory
  holds \<open>v\<close> too; and no maintenance operation is outstanding.
\<close>

definition coherent :: "(nat \<Rightarrow> protocol_cfg) \<Rightarrow> 'd \<Rightarrow> 'd line \<Rightarrow> bool" where
  "coherent cfs v ln \<longleftrightarrow>
     (\<forall>k b. own_copy k ln = Some b \<longrightarrow> cp_readable b \<and> cp_data b = v \<and> (cf_isReadOnly (cfs k) \<longrightarrow> \<not> cp_dirty b)) \<and>
     (\<forall>k l b c. own_copy k ln = Some b \<longrightarrow> own_copy l ln = Some c \<longrightarrow> k \<noteq> l \<longrightarrow>
        \<not> cp_writable b \<and> \<not> (cp_dirty b \<and> cp_dirty c)) \<and>
     ((\<forall>k b. own_copy k ln = Some b \<longrightarrow> \<not> cp_dirty b) \<longrightarrow> be_mem (ln_below ln) = v) \<and>
     be_outstandingCMO (ln_below ln) = []"

lemma coherentI:
  assumes "\<And>k b. own_copy k ln = Some b \<Longrightarrow> cp_readable b \<and> cp_data b = v \<and> (cf_isReadOnly (cfs k) \<longrightarrow> \<not> cp_dirty b)"
    and "\<And>k l b c. own_copy k ln = Some b \<Longrightarrow> own_copy l ln = Some c \<Longrightarrow> k \<noteq> l \<Longrightarrow> \<not> cp_writable b \<and> \<not> (cp_dirty b \<and> cp_dirty c)"
    and "(\<And>k b. own_copy k ln = Some b \<Longrightarrow> \<not> cp_dirty b) \<Longrightarrow> be_mem (ln_below ln) = v"
    and "be_outstandingCMO (ln_below ln) = []"
  shows "coherent cfs v ln"
  using assms unfolding coherent_def by blast

lemma coherent_copy:
  "coherent cfs v ln \<Longrightarrow> own_copy k ln = Some b \<Longrightarrow> cp_readable b \<and> cp_data b = v \<and> (cf_isReadOnly (cfs k) \<longrightarrow> \<not> cp_dirty b)"
  by (simp add: coherent_def)

lemma coherent_two:
  "coherent cfs v ln \<Longrightarrow> own_copy k ln = Some b \<Longrightarrow> own_copy l ln = Some c \<Longrightarrow> k \<noteq> l \<Longrightarrow>
   \<not> cp_writable b \<and> \<not> (cp_dirty b \<and> cp_dirty c)"
  unfolding coherent_def by blast

lemma coherent_mem:
  "coherent cfs v ln \<Longrightarrow> (\<And>k b. own_copy k ln = Some b \<Longrightarrow> \<not> cp_dirty b) \<Longrightarrow> be_mem (ln_below ln) = v"
  unfolding coherent_def by blast

text \<open>The value of a block: what the owner holds, or else the memory.\<close>

definition line_value :: "'d line \<Rightarrow> 'd" where
  "line_value ln = (case filter cp_dirty (List.map_filter id (ln_copies ln)) of [] \<Rightarrow> be_mem (ln_below ln) | b # _ \<Rightarrow> cp_data b)"

lemma own_copyD: "own_copy k ln = Some b \<Longrightarrow> k < length (ln_copies ln) \<and> ln_copies ln ! k = Some b"
  by (simp add: own_copy_def split: if_split_asm)

lemma own_copy_in: "Some b \<in> set (ln_copies ln) \<longleftrightarrow> (\<exists>k. own_copy k ln = Some b)"
  by (auto simp: own_copy_def in_set_conv_nth split: if_split_asm)

lemma coherent_value: "coherent cfs v ln \<Longrightarrow> line_value ln = v"
proof (cases "filter cp_dirty (List.map_filter id (ln_copies ln))")
  case Nil
  assume c: "coherent cfs v ln"
  have "\<not> cp_dirty b" if "own_copy k ln = Some b" for k b
    using Nil own_copyD [OF that] nth_mem by (fastforce simp: filter_empty_conv map_filter_def)
  then show ?thesis using c Nil by (simp add: coherent_def line_value_def)
next
  case (Cons b bs)
  assume c: "coherent cfs v ln"
  have "b \<in> set (filter cp_dirty (List.map_filter id (ln_copies ln)))" using Cons by simp
  then have "Some b \<in> set (ln_copies ln)" by (auto simp: map_filter_def)
  then show ?thesis using c Cons by (auto simp: own_copy_in coherent_def line_value_def)
qed

lemma others_own: "(k, b) \<in> set (others src 0 (ln_copies ln)) \<longleftrightarrow> k \<noteq> src \<and> own_copy k ln = Some b"
  by (auto simp: set_others own_copy_def split: if_split_asm)

lemma others_Nil: "others src 0 (ln_copies ln) = [] \<longleftrightarrow> (\<forall>k. k \<noteq> src \<longrightarrow> own_copy k ln = None)"
proof -
  have "others src 0 (ln_copies ln) = [] \<longleftrightarrow> (\<forall>k b. (k, b) \<notin> set (others src 0 (ln_copies ln)))"
    by (metis length_greater_0_conv nth_mem surj_pair list.set_intros(1) neq_Nil_conv emptyE list.set(1))
  then show ?thesis by (auto simp: others_own)
qed

lemma coherent_clean_others: "coherent cfs v ln \<Longrightarrow> read_only_clean cfs (others src 0 (ln_copies ln))"
  by (auto simp: read_only_clean_def others_own coherent_def)

lemma coherent_one_dirty:
  assumes "coherent cfs v ln"
  shows "length (dirty_others src 0 (ln_copies ln)) \<le> 1"
proof (rule ccontr)
  assume "\<not> ?thesis"
  then obtain x y zs where D: "dirty_others src 0 (ln_copies ln) = x # y # zs"
    by (cases "dirty_others src 0 (ln_copies ln)"; cases "tl (dirty_others src 0 (ln_copies ln))") auto
  have "distinct (map fst (dirty_others src 0 (ln_copies ln)))" using distinct_others distinct_map_filter by blast
  then have "fst x \<noteq> fst y" by (simp add: D)
  moreover have "x \<in> set (dirty_others src 0 (ln_copies ln))" "y \<in> set (dirty_others src 0 (ln_copies ln))" by (simp_all add: D)
  then have "own_copy (fst x) ln = Some (snd x)" "cp_dirty (snd x)" "own_copy (fst y) ln = Some (snd y)" "cp_dirty (snd y)"
    using others_own [of "fst x" "snd x" src ln] others_own [of "fst y" "snd y" src ln] by auto
  ultimately show False using assms unfolding coherent_def by blast
qed

lemma coherent_dirty_value:
  assumes "coherent cfs v ln" "dirty_others src 0 (ln_copies ln) = x # xs"
  shows "cp_data (snd x) = v" "others src 0 (ln_copies ln) \<noteq> []"
proof -
  have "x \<in> set (dirty_others src 0 (ln_copies ln))" using assms(2) by simp
  then have mem: "x \<in> set (others src 0 (ln_copies ln))" by simp
  then have "own_copy (fst x) ln = Some (snd x)" using others_own [of "fst x" "snd x" src ln] by simp
  then show "cp_data (snd x) = v" using assms(1) by (simp add: coherent_def)
  show "others src 0 (ln_copies ln) \<noteq> []" using mem by auto
qed

lemma coherent_memory:
  assumes "coherent cfs v ln" "dirty_others src 0 (ln_copies ln) = []"
    and "\<And>b. own_copy src ln = Some b \<Longrightarrow> \<not> cp_dirty b"
  shows "be_mem (ln_below ln) = v"
proof -
  have "\<not> cp_dirty b" if "own_copy k ln = Some b" for k b
  proof (cases "k = src")
    case False
    then have "(k, b) \<in> set (others src 0 (ln_copies ln))" using that others_own by blast
    then show ?thesis using assms(2) by (fastforce simp: filter_empty_conv)
  qed (use assms(3) that in auto)
  then show ?thesis using assms(1) by (simp add: coherent_def)
qed

subsection \<open>The crossbar on a coherent line\<close>

text \<open>The filter of a line, if there is one, covers the caches that have a copy.\<close>

definition holders :: "'d line \<Rightarrow> nat set" where
  "holders ln = {k. own_copy k ln \<noteq> None}"

definition filter_ok :: "xbar_cfg \<Rightarrow> 'd line \<Rightarrow> bool" where
  "filter_ok xb ln \<longleftrightarrow>
     (xb_snoopFilter xb \<longrightarrow> length (ln_copies ln) \<le> 256 \<and> covers (be_filter (ln_below ln)) (holders ln))"

lemma covers_mono: "covers e S \<Longrightarrow> T \<subseteq> S \<Longrightarrow> covers e T"
  by (auto simp: covers_def split: option.splits)

lemma holders_bound: "holders ln \<subseteq> {..<length (ln_copies ln)}"
  using own_copyD by (fastforce simp: holders_def)

lemma others_holders: "fst ` set (others src 0 (ln_copies ln)) = holders ln - {src}"
proof -
  have "k \<in> fst ` set (others src 0 (ln_copies ln)) \<longleftrightarrow> (\<exists>b. (k, b) \<in> set (others src 0 (ln_copies ln)))" for k by force
  then show ?thesis by (auto simp: others_own holders_def)
qed

context snoop_kind
begin

text \<open>With or without a filter, a request reaches all copies of a coherent line.\<close>

lemma snoop_line:
  assumes "coherent cfs v ln" "filter_ok xb ln" "src < length (ln_copies ln)" "kind (ap_cmd p)" "\<not> ap_uncacheable p"
    and "replies" "fromCache (ap_cmd p)" "needsResponse (ap_cmd p)" "\<not> isEviction (ap_cmd p)"
    and "\<not> ap_cacheResponding p" "\<not> ap_responderHadWritable p" "\<not> ap_hasSharers p"
  shows "\<exists>be. xbar_snoop blkSize cfs xb src p ln =
      Some (snooped f src 0 (ln_copies ln), after (others src 0 (ln_copies ln)) p,
            if dirty_others src 0 (ln_copies ln) \<noteq> [] then responseCommand (ap_cmd p) else InvalidCmd, be) \<and>
    be_mem be = be_mem (ln_below ln) \<and> be_outstandingCMO be = be_outstandingCMO (ln_below ln) \<and>
    (xb_snoopFilter xb \<longrightarrow> src < 256 \<and>
       (if dirty_others src 0 (ln_copies ln) \<noteq> [] then covers (be_filter be) (if shares then insert src (holders ln) else {src})
        else requesting src (be_filter be) (holders ln)))"
proof (cases "xb_snoopFilter xb")
  case True
  let ?n = "length (ln_copies ln)"
  have sz: "?n \<le> 256" "covers (be_filter (ln_below ln)) (holders ln)" using True assms(2) by (simp_all add: filter_ok_def)
  obtain ds e r where l: "lookupRequest ?n src p (be_filter (ln_below ln)) = Some (ds, e, r)" "holders ln - {src} \<subseteq> set ds"
      "requesting src (finishRequest False r e) (holders ln)"
    using lookup_request [OF sz(2) assms(3) sz(1) assms(5,7,8,10) holders_bound] by blast
  let ?be = "ln_below ln\<lparr>be_filter := finishRequest False r e\<rparr>"
  have "\<exists>be'. forwardAtomic blkSize cfs xb src ds 0 (ln_copies ln) p InvalidCmd ?be =
    Some (snooped f src 0 (ln_copies ln), after (others src 0 (ln_copies ln)) p,
          if replies \<and> dirty_others src 0 (ln_copies ln) \<noteq> [] then responseCommand (ap_cmd p) else InvalidCmd, be') \<and>
    filter_after xb src shares (replies \<and> dirty_others src 0 (ln_copies ln) \<noteq> []) (holders ln) ?be be'"
    by (rule forward)
      (use assms l sz coherent_one_dirty [OF assms(1)] coherent_clean_others [OF assms(1)] others_holders [of src ln] in auto)
  then obtain be' where "forwardAtomic blkSize cfs xb src ds 0 (ln_copies ln) p InvalidCmd ?be =
      Some (snooped f src 0 (ln_copies ln), after (others src 0 (ln_copies ln)) p,
          if replies \<and> dirty_others src 0 (ln_copies ln) \<noteq> [] then responseCommand (ap_cmd p) else InvalidCmd, be')"
    "filter_after xb src shares (replies \<and> dirty_others src 0 (ln_copies ln) \<noteq> []) (holders ln) ?be be'" by blast
  then show ?thesis using True l(1,3) assms(3,6,9) sz(1)
    by (auto simp: xbar_snoop_def filter_after_def Let_def split: if_split_asm)
next
  case False
  have "\<exists>be'. forwardAtomic blkSize cfs xb src [0..<length (ln_copies ln)] 0 (ln_copies ln) p InvalidCmd (ln_below ln) =
    Some (snooped f src 0 (ln_copies ln), after (others src 0 (ln_copies ln)) p,
          if replies \<and> dirty_others src 0 (ln_copies ln) \<noteq> [] then responseCommand (ap_cmd p) else InvalidCmd, be') \<and>
    filter_after xb src shares (replies \<and> dirty_others src 0 (ln_copies ln) \<noteq> []) (holders ln) (ln_below ln) be'"
    by (rule forward)
      (use assms False coherent_one_dirty [OF assms(1)] coherent_clean_others [OF assms(1)] others_holders [of src ln]
        holders_bound [of ln] in auto)
  then show ?thesis using False assms(6) by (auto simp: xbar_snoop_def filter_after_def Let_def)
qed

end

definition flags_clear :: "'d apkt \<Rightarrow> bool" where
  "flags_clear p \<longleftrightarrow> \<not> ap_hasSharers p \<and> \<not> ap_cacheResponding p \<and> \<not> ap_responderHadWritable p \<and>
     \<not> ap_satisfied p \<and> \<not> ap_blockCached p \<and> \<not> ap_uncacheable p"

lemma filter_response_ok:
  assumes "xb_snoopFilter xb \<longrightarrow> src < 256 \<and> requesting src entry S" "isResponse (ap_cmd q)" "\<not> ap_uncacheable q"
    and "\<not> ap_cacheMaintenance q"
  shows "\<exists>e. filter_response xb src q entry = Some e \<and> (xb_snoopFilter xb \<longrightarrow> covers e (insert src S))"
  using response [of src entry S q] assms by (cases "xb_snoopFilter xb") (auto simp: filter_response_def)

text \<open>
  A read of a block the source does not have returns its value, and says that there are
  sharers exactly if there are other copies, which lose their write permission.
\<close>

lemma xbar_read:
  assumes "coherent cfs v ln" "own_copy src ln = None" "xb_pointOfCoherency xb" "filter_ok xb ln" "src < length (ln_copies ln)"
    and "snoop_read_cmd (ap_cmd p)" "flags_clear p" "\<not> ap_cacheMaintenance p"
  shows "\<exists>p' be. xbar_recvAtomic blkSize cfs xb src p ln =
      Some (p', \<lparr>ln_copies = snooped downgrade src 0 (ln_copies ln), ln_below = be\<rparr>) \<and>
    be_mem be = be_mem (ln_below ln) \<and> be_outstandingCMO be = [] \<and>
    (xb_snoopFilter xb \<longrightarrow> covers (be_filter be) (insert src (holders ln))) \<and>
    ap_cmd p' = ReadResp \<and> ap_data p' = v \<and> ap_size p' = ap_size p \<and>
    (ap_hasSharers p' \<longleftrightarrow> others src 0 (ln_copies ln) \<noteq> []) \<and> (\<not> ap_hasSharers p' \<longrightarrow> \<not> ap_cacheResponding p')"
proof -
  let ?O = "others src 0 (ln_copies ln)" and ?D = "dirty_others src 0 (ln_copies ln)"
  have cmd: "fromCache (ap_cmd p)" "needsResponse (ap_cmd p)" "\<not> isEviction (ap_cmd p)" "ap_cmd p \<noteq> WriteClean" "responseCommand (ap_cmd p) = ReadResp"
    "\<not> isClean (ap_cmd p)" "isRead (ap_cmd p)" "\<not> isWrite (ap_cmd p)" "ap_cmd p \<noteq> SwapReq" "\<not> isLLSC (ap_cmd p)" "ap_cmd p \<noteq> CleanEvict"
    "ap_cmd p \<noteq> WritebackClean" "\<not> isResponse (ap_cmd p)" "isRequest (ap_cmd p)"
    using assms(6) by (auto simp: snoop_read_cmd_def cmd_attribs)
  have flags: "\<not> ap_uncacheable p" "\<not> ap_cacheResponding p" "\<not> ap_responderHadWritable p" "\<not> ap_hasSharers p"
    using assms(7) by (simp_all add: flags_clear_def)
  have cmo: "be_outstandingCMO (ln_below ln) = []" using assms(1) by (simp add: coherent_def)
  obtain be where sn: "xbar_snoop blkSize cfs xb src p ln = Some (snooped downgrade src 0 (ln_copies ln), after_read ?O p,
            if ?D \<noteq> [] then ReadResp else InvalidCmd, be)"
    "be_mem be = be_mem (ln_below ln)" "be_outstandingCMO be = []"
    "xb_snoopFilter xb \<longrightarrow> src < 256 \<and> (if ?D \<noteq> [] then covers (be_filter be) (insert src (holders ln)) else requesting src (be_filter be) (holders ln))"
    using read_snoop.snoop_line [OF assms(1,4,5,6) flags(1) TrueI cmd(1-3) flags(2-4), of blkSize, unfolded cmd(5) cmo if_True] by blast
  show ?thesis
  proof (cases ?D)
    case Nil
    let ?p = "(after_read ?O p)\<lparr>ap_data := v, ap_cmd := ReadResp\<rparr>"
    have mem: "be_mem (ln_below ln) = v" using coherent_memory [OF assms(1) Nil] assms(2) by simp
    have fw: "xbar_forward xb (after_read ?O p) (be_mem be) = Some (?p, v)"
      using cmd flags Nil mem sn(2) assms(3) by (simp add: xbar_defs after_read_def)
    have "isResponse (ap_cmd ?p)" "\<not> ap_uncacheable ?p" "\<not> ap_cacheMaintenance ?p"
      using flags assms(8) by (simp_all add: after_read_def cmd_attribs)
    then obtain e where e: "filter_response xb src ?p (be_filter be) = Some e" "xb_snoopFilter xb \<longrightarrow> covers e (insert src (holders ln))"
      using filter_response_ok [of xb src "be_filter be" "holders ln" ?p] sn(4) Nil by auto
    have "xbar_serve xb src InvalidCmd (after_read ?O p) be = Some (?p, \<lparr>be_mem = v, be_outstandingCMO = [], be_filter = e\<rparr>)"
      using fw e(1) sn(3) by (simp add: xbar_serve_def restore_response_def settle_CMO_def cmd_attribs)
    then show ?thesis using sn(1) Nil cmd(4) mem e(2) flags by (simp add: xbar_recvAtomic_def after_read_def)
  next
    case (Cons x xs)
    note v = coherent_dirty_value [OF assms(1) Cons]
    have fw: "xbar_forward xb (after_read ?O p) (be_mem be) = Some (after_read ?O p, be_mem be)"
      using Cons assms(3) by (simp add: xbar_forward_def sinkPacket_def after_read_def)
    have "xbar_serve xb src ReadResp (after_read ?O p) be = Some ((after_read ?O p)\<lparr>ap_cmd := ReadResp\<rparr>, be)"
      using fw cmd(13) sn(3)
      by (simp add: xbar_serve_def restore_response_def settle_CMO_def filter_response_def after_read_def c_assert_def cmd_attribs)
    then show ?thesis using sn Cons cmd(4) v flags by (simp add: xbar_recvAtomic_def after_read_def)
  qed
qed

text \<open>A request for a writable copy leaves the source alone with the block; a new copy gets its value.\<close>

lemma xbar_inv:
  assumes "coherent cfs v ln" "ap_cmd p = ReadExReq \<longrightarrow> own_copy src ln = None" "xb_pointOfCoherency xb" "filter_ok xb ln"
    and "src < length (ln_copies ln)" "snoop_inv_cmd (ap_cmd p)" "flags_clear p" "\<not> ap_cacheMaintenance p"
  shows "\<exists>p' be. xbar_recvAtomic blkSize cfs xb src p ln =
      Some (p', \<lparr>ln_copies = snooped drop_copy src 0 (ln_copies ln), ln_below = be\<rparr>) \<and>
    be_mem be = be_mem (ln_below ln) \<and> be_outstandingCMO be = [] \<and> (xb_snoopFilter xb \<longrightarrow> covers (be_filter be) {src}) \<and>
    ap_cmd p' = responseCommand (ap_cmd p) \<and> ap_size p' = ap_size p \<and> \<not> ap_hasSharers p' \<and>
    (ap_cmd p = ReadExReq \<longrightarrow> ap_data p' = v) \<and>
    (\<not> ap_cacheResponding p' \<longrightarrow> (\<forall>b. own_copy src ln = Some b \<longrightarrow> \<not> cp_dirty b) \<longrightarrow> be_mem (ln_below ln) = v)"
proof -
  let ?O = "others src 0 (ln_copies ln)" and ?D = "dirty_others src 0 (ln_copies ln)"
  have cmd: "fromCache (ap_cmd p)" "needsResponse (ap_cmd p)" "\<not> isEviction (ap_cmd p)" "ap_cmd p \<noteq> WriteClean"
    "\<not> isClean (ap_cmd p)" "\<not> isResponse (ap_cmd p)" "isRequest (ap_cmd p)" "isResponse (responseCommand (ap_cmd p))"
    "\<not> isClean (responseCommand (ap_cmd p))" "responseCommand (ap_cmd p) \<noteq> WriteClean"
    "responseCommand (ap_cmd p) \<noteq> InvalidCmd" "hasRespData (ap_cmd p) \<longleftrightarrow> ap_cmd p = ReadExReq"
    using assms(6) by (auto simp: snoop_inv_cmd_def cmd_attribs)
  have flags: "\<not> ap_uncacheable p" "\<not> ap_cacheResponding p" "\<not> ap_responderHadWritable p" "\<not> ap_hasSharers p"
    using assms(7) by (simp_all add: flags_clear_def)
  have cmo: "be_outstandingCMO (ln_below ln) = []" using assms(1) by (simp add: coherent_def)
  obtain be where sn: "xbar_snoop blkSize cfs xb src p ln = Some (snooped drop_copy src 0 (ln_copies ln), after_inv ?O p,
            if ?D \<noteq> [] then responseCommand (ap_cmd p) else InvalidCmd, be)"
    "be_mem be = be_mem (ln_below ln)" "be_outstandingCMO be = []"
    "xb_snoopFilter xb \<longrightarrow> src < 256 \<and> (if ?D \<noteq> [] then covers (be_filter be) {src} else requesting src (be_filter be) (holders ln))"
    using inv_snoop.snoop_line [OF assms(1,4,5,6) flags(1) TrueI cmd(1-3) flags(2-4), of blkSize, unfolded cmo if_False] by blast
  show ?thesis
  proof (cases ?D)
    case Nil
    note mem = coherent_memory [OF assms(1) Nil]
    have ex: "ap_cmd p = ReadExReq \<Longrightarrow> be_mem (ln_below ln) = v" using mem assms(2) by simp
    define q where "q = (if ap_cmd p = ReadExReq then p\<lparr>ap_data := v\<rparr> else p)\<lparr>ap_cmd := responseCommand (ap_cmd p)\<rparr>"
    have fw: "xbar_forward xb (after_inv ?O p) (be_mem be) = Some (q, be_mem be)"
      using assms(3,6) flags Nil ex sn(2) unfolding snoop_inv_cmd_def
      by (elim disjE) (simp_all add: xbar_defs after_inv_def q_def cmd_attribs)
    have q: "isResponse (ap_cmd q)" "\<not> ap_uncacheable q" "\<not> ap_cacheMaintenance q"
      using flags assms(8) cmd(8) by (simp_all add: q_def)
    then obtain e where e: "filter_response xb src q (be_filter be) = Some e" "xb_snoopFilter xb \<longrightarrow> covers e (insert src (holders ln))"
      using filter_response_ok [of xb src "be_filter be" "holders ln" q] sn(4) Nil by auto
    have "xbar_serve xb src InvalidCmd (after_inv ?O p) be = Some (q, \<lparr>be_mem = be_mem be, be_outstandingCMO = [], be_filter = e\<rparr>)"
      using fw e(1) sn(3) cmd(9,10) by (simp add: xbar_serve_def restore_response_def settle_CMO_def q_def)
    moreover have "xb_snoopFilter xb \<longrightarrow> covers e {src}" using e(2) covers_mono by blast
    ultimately show ?thesis using sn(1,2) Nil cmd(4) flags mem by (auto simp: xbar_recvAtomic_def q_def)
  next
    case (Cons x xs)
    note v = coherent_dirty_value [OF assms(1) Cons]
    have fw: "xbar_forward xb (after_inv ?O p) (be_mem be) = Some (after_inv ?O p, be_mem be)"
      using Cons assms(3) by (simp add: xbar_forward_def sinkPacket_def after_inv_def)
    have "xbar_serve xb src (responseCommand (ap_cmd p)) (after_inv ?O p) be =
        Some ((after_inv ?O p)\<lparr>ap_cmd := responseCommand (ap_cmd p)\<rparr>, be)"
      using fw cmd(6,9-11) sn(3) Cons
      by (simp add: xbar_serve_def restore_response_def settle_CMO_def filter_response_def after_inv_def c_assert_def)
    then show ?thesis using sn Cons cmd(4,12) v flags by (simp add: xbar_recvAtomic_def after_inv_def)
  qed
qed

text \<open>An eviction writes a dirty block to the memory and changes nothing else.\<close>

lemma others_update: "others src j (blks[k := x]) = others src j blks" if "j + k = src"
  using that
proof (induction blks arbitrary: j k)
  case (Cons blk blks)
  then show ?case by (cases k) auto
qed simp

lemma serve_evict:
  assumes "snoop_evict_cmd (ap_cmd q)" "ap_update q = (\<lambda>_. v)" "\<not> ap_cacheResponding q" "xb_pointOfCoherency xb"
  shows "\<exists>q'. xbar_serve xb i InvalidCmd q be =
    Some (q', be\<lparr>be_mem := if ap_cmd q = WritebackDirty then v else be_mem be\<rparr>)"
  using assms unfolding snoop_evict_cmd_def
  by (elim disjE; cases "ap_blockCached q"; cases "isDestination xb q") (simp_all add: xbar_defs cmd_attribs)

lemma snoop_evict:
  assumes "coherent cfs v ln" "filter_ok xb ln" "own_copy i ln = Some b" "snoop_evict_cmd (ap_cmd wb)" "\<not> ap_uncacheable wb"
    and "\<not> ap_blockCached wb"
  shows "\<exists>c be. xbar_snoop blkSize cfs xb i wb (set_copy i None ln) =
      Some (ln_copies (set_copy i None ln), wb\<lparr>ap_blockCached := c\<rparr>, InvalidCmd, be) \<and>
    be_mem be = be_mem (ln_below ln) \<and> be_outstandingCMO be = be_outstandingCMO (ln_below ln) \<and>
    (xb_snoopFilter xb \<longrightarrow> covers (be_filter be) (holders ln - {i}))"
proof (cases "xb_snoopFilter xb")
  case True
  have cmd: "fromCache (ap_cmd wb)" "\<not> needsResponse (ap_cmd wb)" "isEviction (ap_cmd wb)"
    using assms(4) by (auto simp: snoop_evict_cmd_def cmd_attribs)
  have f: "length (ln_copies ln) \<le> 256" "covers (be_filter (ln_below ln)) (holders ln)" "i \<in> holders ln"
    using True assms(2,3) by (simp_all add: filter_ok_def holders_def)
  obtain ds e r where "lookupRequest (length (ln_copies ln)) i wb (be_filter (ln_below ln)) = Some (ds, e, r)"
      "covers (finishRequest False r e) (holders ln - {i})"
    using lookup_evict [OF f(2,3,1) assms(5) cmd assms(6) holders_bound] by blast
  then show ?thesis using True cmd(3) assms(6)
    by (intro exI [of _ "ds \<noteq> []"] exI [of _ "ln_below ln\<lparr>be_filter := finishRequest False r e\<rparr>"])
      (auto simp: xbar_snoop_def set_copy_def Let_def)
next
  case False
  let ?L = "set_copy i None ln"
  have "\<exists>be'. forwardAtomic blkSize cfs xb i [0..<length (ln_copies ?L)] 0 (ln_copies ?L) wb InvalidCmd (ln_below ?L) =
    Some (snooped keep_copy i 0 (ln_copies ?L), after_evict (others i 0 (ln_copies ?L)) wb,
          if False \<and> dirty_others i 0 (ln_copies ?L) \<noteq> [] then responseCommand (ap_cmd wb) else InvalidCmd, be') \<and>
    filter_after xb i False (False \<and> dirty_others i 0 (ln_copies ?L) \<noteq> []) {} (ln_below ?L) be'"
    using assms(4,5) coherent_clean_others [OF assms(1), of i] others_holders [of i ?L] holders_bound [of ?L]
    by (intro evict_snoop.forward) (auto simp: set_copy_def others_update)
  then show ?thesis using False by (auto simp: xbar_snoop_def filter_after_def after_evict_def set_copy_def Let_def)
qed

lemma xbar_evict:
  assumes "coherent cfs v ln" "filter_ok xb ln" "xb_pointOfCoherency xb" "own_copy i ln = Some b"
  shows "\<exists>wb be. co_evictBlock blkSize (cfs i) b = Some wb \<and>
    doWritebacksAtomic blkSize cfs xb i [wb] (set_copy i None ln) = Some ((set_copy i None ln)\<lparr>ln_below := be\<rparr>) \<and>
    be_mem be = (if cp_dirty b then v else be_mem (ln_below ln)) \<and> be_outstandingCMO be = [] \<and>
    (xb_snoopFilter xb \<longrightarrow> covers (be_filter be) (holders ln - {i}))"
proof -
  have b: "cp_data b = v" "cf_isReadOnly (cfs i) \<longrightarrow> \<not> cp_dirty b" and cmo: "be_outstandingCMO (ln_below ln) = []"
    using assms(1,4) by (auto simp: coherent_def)
  obtain wb where wb: "co_evictBlock blkSize (cfs i) b = Some wb" "ap_update wb = (\<lambda>_. v)" "\<not> ap_uncacheable wb"
      "\<not> ap_cacheResponding wb" "snoop_evict_cmd (ap_cmd wb)" "cp_dirty b \<longleftrightarrow> ap_cmd wb = WritebackDirty" "\<not> ap_blockCached wb"
    using b by (cases "cp_dirty b"; cases "cf_writebackClean (cfs i)"; cases "cp_writable b")
      (simp_all add: leave_defs snoop_evict_cmd_def c_assert_def)
  obtain c be where sn: "xbar_snoop blkSize cfs xb i wb (set_copy i None ln) =
      Some (ln_copies (set_copy i None ln), wb\<lparr>ap_blockCached := c\<rparr>, InvalidCmd, be)"
    "be_mem be = be_mem (ln_below ln)" "be_outstandingCMO be = be_outstandingCMO (ln_below ln)"
    "xb_snoopFilter xb \<longrightarrow> covers (be_filter be) (holders ln - {i})"
    using snoop_evict [OF assms(1,2,4) wb(5,3,7)] by blast
  obtain q where "xbar_serve xb i InvalidCmd (wb\<lparr>ap_blockCached := c\<rparr>) be =
      Some (q, be\<lparr>be_mem := if cp_dirty b then v else be_mem be\<rparr>)"
    using serve_evict [of "wb\<lparr>ap_blockCached := c\<rparr>" v xb i be] wb assms(3) by auto
  moreover have "ap_cmd wb \<noteq> WriteClean" using wb(5) by (auto simp: snoop_evict_cmd_def)
  ultimately show ?thesis using wb(1) sn cmo
    by (intro exI [of _ wb] exI [of _ "be\<lparr>be_mem := if cp_dirty b then v else be_mem be\<rparr>"])
      (simp add: xbar_recvAtomic_def set_copy_def)
qed

text \<open>A clean operation brings the value of the block to the memory.\<close>

lemma snoop_clean:
  assumes "snoop_clean_cmd (ap_cmd p)" "\<not> ap_uncacheable p" "ap_toPOC p" "xb_pointOfCoherency xb" "\<not> ap_cacheResponding p"
    and "length (dirty_others src 0 (ln_copies ln)) \<le> 1" "filter_ok xb ln" "src < length (ln_copies ln)"
    and "be_outstandingCMO (ln_below ln) = (if ap_satisfied p then [ap_id p] else [])"
    and "ap_satisfied p \<longrightarrow> dirty_others src 0 (ln_copies ln) = []"
  shows "\<exists>e. xbar_snoop blkSize cfs xb src p ln =
      Some (snooped (clean_copy (ap_cmd p)) src 0 (ln_copies ln), after_clean (dirty_others src 0 (ln_copies ln)) p, InvalidCmd,
            below_clean (dirty_others src 0 (ln_copies ln)) p (ln_below ln\<lparr>be_filter := e\<rparr>)) \<and>
    (xb_snoopFilter xb \<longrightarrow> src < 256 \<and> requesting src e (holders ln))"
proof (cases "xb_snoopFilter xb")
  case True
  have cmd: "fromCache (ap_cmd p)" "needsResponse (ap_cmd p)" "\<not> isEviction (ap_cmd p)"
    using assms(1) by (auto simp: snoop_clean_cmd_def cmd_attribs)
  have f: "length (ln_copies ln) \<le> 256" "covers (be_filter (ln_below ln)) (holders ln)"
    using True assms(7) by (simp_all add: filter_ok_def)
  obtain ds e r where l: "lookupRequest (length (ln_copies ln)) src p (be_filter (ln_below ln)) = Some (ds, e, r)"
      "holders ln - {src} \<subseteq> set ds" "requesting src (finishRequest False r e) (holders ln)"
    using lookup_request [OF f(2) assms(8) f(1) assms(2) cmd(1,2) assms(5) holders_bound] by blast
  let ?be = "ln_below ln\<lparr>be_filter := finishRequest False r e\<rparr>"
  have "forwardAtomic blkSize cfs xb src ds 0 (ln_copies ln) p InvalidCmd ?be =
    Some (snooped (clean_copy (ap_cmd p)) src 0 (ln_copies ln), after_clean (dirty_others src 0 (ln_copies ln)) p, InvalidCmd,
          below_clean (dirty_others src 0 (ln_copies ln)) p ?be)"
    using assms(1-4,6,9,10) l(2) by (intro forward_clean) (auto simp: others_holders)
  then show ?thesis using True l cmd(3) f(1) assms(8) by (auto simp: xbar_snoop_def Let_def)
next
  case False
  have "forwardAtomic blkSize cfs xb src [0..<length (ln_copies ln)] 0 (ln_copies ln) p InvalidCmd (ln_below ln) =
    Some (snooped (clean_copy (ap_cmd p)) src 0 (ln_copies ln), after_clean (dirty_others src 0 (ln_copies ln)) p, InvalidCmd,
          below_clean (dirty_others src 0 (ln_copies ln)) p (ln_below ln))"
    using assms(1-4,6,9,10) holders_bound [of ln] by (intro forward_clean) (auto simp: others_holders)
  then show ?thesis using False by (intro exI [of _ "be_filter (ln_below ln)"]) (simp add: xbar_snoop_def Let_def)
qed

lemma clean_filter_response:
  assumes "xb_snoopFilter xb \<longrightarrow> src < 256 \<and> requesting src entry S" "isResponse (ap_cmd q)" "\<not> ap_uncacheable q"
    and "ap_cacheMaintenance q"
  shows "\<exists>e. filter_response xb src q entry = Some e \<and> (xb_snoopFilter xb \<longrightarrow> covers e (if isInvalidate (ap_cmd q) then S - {src} else S))"
  using clean_response [of src entry S q] assms by (cases "xb_snoopFilter xb") (auto simp: filter_response_def)

lemma xbar_clean:
  assumes "snoop_clean_cmd (ap_cmd p)" "\<not> ap_uncacheable p" "ap_toPOC p" "xb_pointOfCoherency xb" "\<not> ap_cacheResponding p"
    and "length (dirty_others src 0 (ln_copies ln)) \<le> 1" "filter_ok xb ln" "src < length (ln_copies ln)"
    and "be_outstandingCMO (ln_below ln) = (if ap_satisfied p then [ap_id p] else [])"
    and "ap_satisfied p \<longrightarrow> dirty_others src 0 (ln_copies ln) = []" "ap_cacheMaintenance p"
  shows "\<exists>p' be. xbar_recvAtomic blkSize cfs xb src p ln =
      Some (p', \<lparr>ln_copies = snooped (clean_copy (ap_cmd p)) src 0 (ln_copies ln), ln_below = be\<rparr>) \<and>
    be_mem be = (case dirty_others src 0 (ln_copies ln) of [] \<Rightarrow> be_mem (ln_below ln) | x # _ \<Rightarrow> cp_data (snd x)) \<and>
    be_outstandingCMO be = [] \<and>
    (xb_snoopFilter xb \<longrightarrow> covers (be_filter be) (if ap_cmd p = CleanInvalidReq then holders ln - {src} else holders ln)) \<and>
    ap_cmd p' = responseCommand (ap_cmd p)"
proof -
  let ?D = "dirty_others src 0 (ln_copies ln)"
  obtain e where sn: "xbar_snoop blkSize cfs xb src p ln =
      Some (snooped (clean_copy (ap_cmd p)) src 0 (ln_copies ln), after_clean ?D p, InvalidCmd,
            below_clean ?D p (ln_below ln\<lparr>be_filter := e\<rparr>))"
    "xb_snoopFilter xb \<longrightarrow> src < 256 \<and> requesting src e (holders ln)"
    using snoop_clean [OF assms(1-10)] by blast
  have cmd: "ap_cmd p \<noteq> WriteClean" "isResponse (responseCommand (ap_cmd p))"
    "isInvalidate (responseCommand (ap_cmd p)) \<longleftrightarrow> ap_cmd p = CleanInvalidReq"
    using assms(1) by (auto simp: snoop_clean_cmd_def cmd_attribs)
  let ?q = "(after_clean ?D p)\<lparr>ap_cmd := responseCommand (ap_cmd p)\<rparr>"
  obtain e' where e': "filter_response xb src ?q e = Some e'"
    "xb_snoopFilter xb \<longrightarrow> covers e' (if ap_cmd p = CleanInvalidReq then holders ln - {src} else holders ln)"
    using clean_filter_response [OF sn(2), of ?q] assms(2,11) cmd by (auto simp: after_clean_def)
  have be: "be_filter (below_clean ?D p (ln_below ln\<lparr>be_filter := e\<rparr>)) = e"
    by (cases ?D) (simp_all add: written_below_def)
  have "xbar_forward xb (after_clean ?D p) m = Some (?q, m)" for m
    using assms(1-5) unfolding snoop_clean_cmd_def
    by (elim disjE) (simp_all add: xbar_defs after_clean_def cmd_attribs)
  moreover have "settle_CMO xb ?q (be_outstandingCMO (below_clean ?D p (ln_below ln\<lparr>be_filter := e\<rparr>))) = Some []"
    using assms(1,3,4,9,10) unfolding snoop_clean_cmd_def
    by (elim disjE; cases ?D; cases "ap_satisfied p")
      (simp_all add: settle_CMO_def isDestination_def after_clean_def written_below_def c_assert_def cmd_attribs)
  ultimately have "xbar_serve xb src InvalidCmd (after_clean ?D p) (below_clean ?D p (ln_below ln\<lparr>be_filter := e\<rparr>)) =
      Some (?q, \<lparr>be_mem = be_mem (below_clean ?D p (ln_below ln\<lparr>be_filter := e\<rparr>)), be_outstandingCMO = [], be_filter = e'\<rparr>)"
    using e'(1) be by (simp add: xbar_serve_def restore_response_def)
  then show ?thesis using sn(1) cmd(1) e'(2)
    by (cases ?D) (simp_all add: xbar_recvAtomic_def written_below_def)
qed

end
