(* ===== verification/Coherence.thy ===== *)
theory Coherence
  imports Snoops Safe_Machine
begin

section \<open>Coherence in atomic mode\<close>

text \<open>
  What the protocol of \<open>Atomic_Protocol\<close> guarantees: a request keeps its line coherent
  and returns the value of the block, whatever state the caches are in, and so a system
  of caches behaves as one memory.  The last two theorems are inputs on which the code does
  not do what it should.
\<close>

subsection \<open>Changes of a line that keep it coherent\<close>

lemma ln_copies_set [simp]: "length (ln_copies (set_copy i blk ln)) = length (ln_copies ln)"
  "ln_below (set_copy i blk ln) = ln_below ln"
  by (simp_all add: set_copy_def)

lemma own_set_copy: "own_copy k (set_copy i blk ln) = (if k = i \<and> i < length (ln_copies ln) then blk else own_copy k ln)"
  by (auto simp: own_copy_def set_copy_def)

lemma own_snooped: "f None = None \<Longrightarrow> own_copy k \<lparr>ln_copies = snooped f src 0 (ln_copies ln), ln_below = be\<rparr> =
    (if k = src then own_copy k ln else f (own_copy k ln))"
  by (simp add: own_copy_def nth_snooped)

lemma own_below [simp]: "own_copy k (ln\<lparr>ln_below := be\<rparr>) = own_copy k ln"
  by (simp add: own_copy_def)

lemmas line_simps = own_set_copy own_snooped own_copyD

lemma downgrade_None [simp]: "downgrade None = None" by (simp add: downgrade_def)
lemma drop_copy_None [simp]: "drop_copy blk = None" by (simp add: drop_copy_def)
lemma clean_copy_None [simp]: "clean_copy c None = None" by (simp add: clean_copy_def)

lemma coherent_sole:
  assumes "\<And>k. k \<noteq> i \<Longrightarrow> own_copy k ln = None" "i < length (ln_copies ln)" "cp_readable b" "cp_data b = v"
    and "cf_isReadOnly (cfs i) \<longrightarrow> \<not> cp_dirty b" "\<not> cp_dirty b \<longrightarrow> be_mem (ln_below ln) = v"
    and "be_outstandingCMO (ln_below ln) = []"
  shows "coherent cfs v (set_copy i (Some b) ln)"
proof -
  have own: "own_copy k (set_copy i (Some b) ln) = (if k = i then Some b else None)" for k
    using assms(1,2) by (simp add: own_set_copy)
  show ?thesis unfolding coherent_def own using assms by (simp split: if_split_asm)
qed

lemma coherent_join:
  assumes "coherent cfs v ln" "own_copy i ln = None" "i < length (ln_copies ln)"
    and "cp_readable b" "\<not> cp_writable b" "\<not> cp_dirty b" "cp_data b = v"
    and "be_mem be = be_mem (ln_below ln)" "be_outstandingCMO be = []"
  shows "coherent cfs v (set_copy i (Some b) \<lparr>ln_copies = snooped downgrade i 0 (ln_copies ln), ln_below = be\<rparr>)"
    (is "coherent _ _ ?L")
proof -
  have own: "own_copy k ?L = (if k = i then Some b else downgrade (own_copy k ln))" for k
    using assms(2,3) by (simp add: own_set_copy own_snooped)
  have old: "\<exists>d. own_copy k ln = Some d \<and> c = d\<lparr>cp_writable := False\<rparr>" if "own_copy k ?L = Some c" "k \<noteq> i" for k c
    using that unfolding own by (auto simp: downgrade_def)
  show ?thesis
  proof (rule coherentI)
    fix k c assume "own_copy k ?L = Some c"
    then show "cp_readable c \<and> cp_data c = v \<and> (cf_isReadOnly (cfs k) \<longrightarrow> \<not> cp_dirty c)"
      using old [of k c] coherent_copy [OF assms(1), of k] assms(4-7) by (cases "k = i") (auto simp: own)
  next
    fix k l c d assume "own_copy k ?L = Some c" "own_copy l ?L = Some d" "k \<noteq> l"
    note kl = this
    consider "k = i" | "l = i" "k \<noteq> i" | "k \<noteq> i" "l \<noteq> i" by blast
    then show "\<not> cp_writable c \<and> \<not> (cp_dirty c \<and> cp_dirty d)"
    proof cases
      case 1
      then show ?thesis using kl(1) assms(5,6) by (simp add: own)
    next
      case 2
      then show ?thesis using kl(2) old [OF kl(1)] assms(6) by (auto simp: own)
    next
      case 3
      then obtain c0 d0 where "own_copy k ln = Some c0" "own_copy l ln = Some d0"
        "c = c0\<lparr>cp_writable := False\<rparr>" "d = d0\<lparr>cp_writable := False\<rparr>" using old [OF kl(1)] old [OF kl(2)] by auto
      then show ?thesis using coherent_two [OF assms(1), of k c0 l d0] kl(3) by simp
    qed
  next
    assume clean: "\<And>k c. own_copy k ?L = Some c \<Longrightarrow> \<not> cp_dirty c"
    have "\<not> cp_dirty d" if "own_copy k ln = Some d" for k d
    proof -
      have "own_copy k ?L = Some (d\<lparr>cp_writable := False\<rparr>)" unfolding own using that assms(2) by (auto simp: downgrade_def)
      then show ?thesis using clean by fastforce
    qed
    then show "be_mem (ln_below ?L) = v" using coherent_mem [OF assms(1)] assms(8) by simp
  qed (use assms(9) in simp)
qed

lemma coherent_hit:
  assumes "coherent cfs v ln" "own_copy i ln = Some c" "cp_readable b" "cp_writable b = cp_writable c" "cp_data b = v'"
    and "v' = v \<or> cp_writable c" "cf_isReadOnly (cfs i) \<longrightarrow> \<not> cp_dirty b" "cp_dirty b \<longrightarrow> cp_dirty c \<or> cp_writable c"
    and "\<not> cp_dirty b \<longrightarrow> \<not> cp_dirty c \<and> v' = v"
  shows "coherent cfs v' (set_copy i (Some b) ln)" (is "coherent _ _ ?L")
proof -
  have own: "own_copy k ?L = (if k = i then Some b else own_copy k ln)" for k
    using own_copyD [OF assms(2)] by (simp add: own_set_copy)
  have sole: "own_copy k ln = Some d \<Longrightarrow> k \<noteq> i \<Longrightarrow> \<not> cp_writable c \<and> \<not> (cp_dirty c \<and> cp_dirty d) \<and> \<not> cp_writable d" for k d
    using coherent_two [OF assms(1,2), of k d] coherent_two [OF assms(1) _ assms(2), of k d] by auto
  show ?thesis
  proof (rule coherentI)
    fix k d assume "own_copy k ?L = Some d"
    then show "cp_readable d \<and> cp_data d = v' \<and> (cf_isReadOnly (cfs k) \<longrightarrow> \<not> cp_dirty d)"
      using coherent_copy [OF assms(1), of k d] sole [of k d] assms(3,5,6,7) by (cases "k = i") (auto simp: own)
  next
    fix k l d e assume "own_copy k ?L = Some d" "own_copy l ?L = Some e" "k \<noteq> l"
    note kl = this
    consider "k = i" | "l = i" "k \<noteq> i" | "k \<noteq> i" "l \<noteq> i" by blast
    then show "\<not> cp_writable d \<and> \<not> (cp_dirty d \<and> cp_dirty e)"
    proof cases
      case 1
      then show ?thesis using kl sole [of l e] assms(4,8) unfolding own by auto
    next
      case 2
      then show ?thesis using kl sole [of k d] assms(4,8) unfolding own by auto
    next
      case 3
      then show ?thesis using kl coherent_two [OF assms(1), of k d l e] by (simp add: own)
    qed
  next
    assume clean: "\<And>k d. own_copy k ?L = Some d \<Longrightarrow> \<not> cp_dirty d"
    have "\<not> cp_dirty b" using clean [of i b] by (simp add: own)
    then have "\<not> cp_dirty d" if "own_copy k ln = Some d" for k d
      using that clean [of k d] assms(2,9) by (cases "k = i") (auto simp: own)
    then show "be_mem (ln_below ?L) = v'" using coherent_mem [OF assms(1)] assms(9) \<open>\<not> cp_dirty b\<close> by simp
  qed (use assms(1) in \<open>simp add: coherent_def\<close>)
qed

lemma coherent_evict:
  assumes "coherent cfs v ln" "own_copy i ln = Some b"
    and "be_mem be = (if cp_dirty b then v else be_mem (ln_below ln))" "be_outstandingCMO be = []"
  shows "coherent cfs v ((set_copy i None ln)\<lparr>ln_below := be\<rparr>)"
    (is "coherent _ _ ?L")
proof -
  have own: "own_copy k (set_copy i None ln) = (if k = i then None else own_copy k ln)" for k
    using own_copyD [OF assms(2)] by (simp add: own_set_copy)
  show ?thesis
  proof (rule coherentI)
    assume clean: "\<And>k d. own_copy k ?L = Some d \<Longrightarrow> \<not> cp_dirty d"
    have "\<not> cp_dirty d" if "own_copy k ln = Some d" "\<not> cp_dirty b" for k d
      using that clean [of k d] assms(2) by (cases "k = i") (auto simp: own)
    then show "be_mem (ln_below ?L) = v" using coherent_mem [OF assms(1)] assms(3) by simp
  qed (use assms(4) coherent_copy [OF assms(1)] coherent_two [OF assms(1)] in
      \<open>auto simp: own split: if_split_asm\<close>)
qed

text \<open>A line is in order if it is coherent and the filter, if there is one, covers its copies.\<close>

definition line_ok :: "(nat \<Rightarrow> protocol_cfg) \<Rightarrow> xbar_cfg \<Rightarrow> 'd \<Rightarrow> 'd line \<Rightarrow> bool" where
  "line_ok cfs xb v ln \<longleftrightarrow> coherent cfs v ln \<and> filter_ok xb ln"

lemma line_okD: "line_ok cfs xb v ln \<Longrightarrow> coherent cfs v ln" "line_ok cfs xb v ln \<Longrightarrow> filter_ok xb ln"
  by (simp_all add: line_ok_def)

lemma filter_size: "filter_ok xb ln \<Longrightarrow> xb_snoopFilter xb \<longrightarrow> length (ln_copies ln) \<le> 256"
  by (simp add: filter_ok_def)

lemma filter_okI:
  "xb_snoopFilter xb \<longrightarrow> length (ln_copies ln) \<le> 256 \<Longrightarrow> xb_snoopFilter xb \<longrightarrow> covers (be_filter (ln_below ln)) S \<Longrightarrow>
   (\<And>k. own_copy k ln \<noteq> None \<Longrightarrow> k \<in> S) \<Longrightarrow> filter_ok xb ln"
  using covers_mono [of "be_filter (ln_below ln)" S "holders ln"] by (auto simp: filter_ok_def holders_def)

lemma filter_hit: "filter_ok xb ln \<Longrightarrow> own_copy i ln \<noteq> None \<Longrightarrow> filter_ok xb (set_copy i blk ln)"
  by (rule filter_okI [where S = "holders ln"])
    (auto simp: filter_ok_def holders_def own_set_copy split: if_split_asm)

subsection \<open>Requests of a processor\<close>

definition cpu_read_cmd :: "MemCmd \<Rightarrow> bool" where
  "cpu_read_cmd c \<longleftrightarrow> c = ReadReq \<or> c = SoftPFReq \<or> c = SoftPFExReq \<or> c = LoadLockedReq"

definition cpu_cmd :: "MemCmd \<Rightarrow> bool" where
  "cpu_cmd c \<longleftrightarrow> cpu_read_cmd c \<or> c = WriteReq \<or> c = WriteLineReq \<or> c = StoreCondReq \<or> c = SwapReq"

definition cpu_request :: "nat \<Rightarrow> 'd apkt \<Rightarrow> bool" where
  "cpu_request blkSize p \<longleftrightarrow> cpu_cmd (ap_cmd p) \<and> flags_clear p \<and> \<not> ap_cacheMaintenance p \<and>
     ap_offset p + ap_size p \<le> blkSize \<and>
     (ap_cmd p = WriteLineReq \<longrightarrow> ap_offset p = 0 \<and> ap_size p = blkSize) \<and>
     (ap_cmd p = SwapReq \<and> \<not> ap_atomicOp p \<longrightarrow> ap_size p \<le> 8 \<and> (ap_condSwap p \<longrightarrow> ap_size p = 8 \<or> ap_size p = 4))"

text \<open>What a request makes of the value of its block, given the outcome of a store conditional.\<close>

definition new_value :: "'d apkt \<Rightarrow> bool \<Rightarrow> 'd \<Rightarrow> 'd" where
  "new_value p sc v =
     (if ap_cmd p = SwapReq then (if \<not> ap_atomicOp p \<and> ap_condSwap p \<and> \<not> ap_overwrites p v then v else ap_update p v)
      else if ap_cmd p = StoreCondReq then (if sc then ap_update p v else v)
      else if isWrite (ap_cmd p) then ap_update p v
      else v)"

lemma fst_checkWrite_plain: "fst (checkWrite False r ls)"
  by (simp add: checkWrite_def)

text \<open>A block with enough permission satisfies the request.\<close>

definition satisfied_as :: "'d apkt \<Rightarrow> 'd copy \<Rightarrow> 'd apkt \<Rightarrow> 'd copy \<Rightarrow> bool" where
  "satisfied_as p b p1 b1 \<longleftrightarrow>
     ap_cmd p1 = ap_cmd p \<and> cp_data b1 = new_value p (ap_extraData p1) (cp_data b) \<and>
     (isRead (ap_cmd p) \<longrightarrow> ap_data p1 = cp_data b) \<and>
     cp_readable b1 = cp_readable b \<and> cp_writable b1 = cp_writable b \<and>
     (cp_dirty b1 \<longrightarrow> cp_dirty b \<or> isWrite (ap_cmd p)) \<and>
     (isWrite (ap_cmd p) \<and> ap_cmd p \<noteq> SwapReq \<longrightarrow> cp_dirty b1) \<and>
     (\<not> cp_dirty b1 \<longrightarrow> \<not> cp_dirty b \<and> cp_data b1 = cp_data b)"

lemma satisfy_ok:
  assumes "cpu_request blkSize p" "needsWritable (ap_cmd p) \<longrightarrow> cp_writable b"
  shows "\<exists>p1 b1. Cache_satisfyRequest blkSize p b = Some (p1, Some b1) \<and> satisfied_as p b p1 b1"
proof -
  have len: "ap_offset p + ap_size p \<le> blkSize" and
    sz: "ap_cmd p = SwapReq \<and> \<not> ap_atomicOp p \<longrightarrow> ap_size p \<le> 8 \<and> (ap_condSwap p \<longrightarrow> ap_size p = 8 \<or> ap_size p = 4)"
    using assms(1) by (simp_all add: cpu_request_def)
  consider "cpu_read_cmd (ap_cmd p)" | "ap_cmd p = WriteReq \<or> ap_cmd p = WriteLineReq" | "ap_cmd p = StoreCondReq" | "ap_cmd p = SwapReq"
    using assms(1) by (auto simp: cpu_request_def cpu_cmd_def)
  then show ?thesis
  proof cases
    case 1
    then show ?thesis using len unfolding cpu_read_cmd_def
      by (elim disjE) (simp_all add: Cache_satisfyRequest_def satisfyRequest_def satisfied_as_def new_value_def c_assert_def
        cmd_attribs Let_def)
  next
    case 2
    then show ?thesis using len assms(2) fst_checkWrite_plain [of "ap_lock p" "cp_locks b"]
      by (elim disjE) (simp_all add: Cache_satisfyRequest_def satisfyRequest_def satisfy_write_def satisfied_as_def
        new_value_def c_assert_def cmd_attribs Let_def case_prod_beta)
  next
    case 3
    then show ?thesis using len assms(2)
      by (cases "fst (checkWrite True (ap_lock p) (cp_locks b))")
        (simp_all add: Cache_satisfyRequest_def satisfyRequest_def satisfy_write_def satisfied_as_def
        new_value_def c_assert_def cmd_attribs Let_def case_prod_beta)
  next
    case 4
    then show ?thesis using len assms(2) sz
      by (cases "ap_atomicOp p"; cases "ap_condSwap p"; cases "ap_overwrites p (cp_data b)")
        (simp_all add: Cache_satisfyRequest_def satisfyRequest_def cmpAndSwap_def satisfied_as_def
        new_value_def c_assert_def cmd_attribs Let_def)
  qed
qed

subsection \<open>Misses\<close>

text \<open>The block a response fills: a new one (or the temporary block), or the one that is upgraded.\<close>

lemma fill_read:
  assumes "ap_cmd q = ReadResp \<or> ap_cmd q = ReadExResp" "ap_size q = blkSize"
    and "\<not> ap_hasSharers q \<and> ap_cacheResponding q \<longrightarrow> \<not> cf_isReadOnly cf"
  shows "\<exists>b. handleFill cf blkSize alloc temp q None = Some (b, alloc = None) \<and> cp_readable b \<and> cp_data b = ap_data q \<and>
    cp_writable b = (\<not> ap_hasSharers q) \<and> cp_dirty b = (\<not> ap_hasSharers q \<and> ap_cacheResponding q)"
  using assms
  by (elim disjE; cases alloc; cases "ap_hasSharers q"; cases "ap_cacheResponding q")
    (simp_all add: handleFill_def fresh_copy_def c_assert_def cmd_attribs Let_def)

lemma fill_line:
  assumes "ap_cmd q = InvalidateResp" "\<not> ap_hasSharers q" "\<not> cf_isReadOnly cf"
  shows "\<exists>b. handleFill cf blkSize alloc temp q None = Some (b, alloc = None) \<and> cp_readable b \<and> cp_writable b"
  using assms
  by (cases alloc; cases "ap_cacheResponding q")
    (simp_all add: handleFill_def fresh_copy_def c_assert_def cmd_attribs Let_def)

lemma fill_upgrade:
  assumes "ap_cmd q = UpgradeResp \<or> ap_cmd q = InvalidateResp" "\<not> ap_hasSharers q" "\<not> cf_isReadOnly cf"
  shows "\<exists>b. handleFill cf blkSize alloc temp q (Some c) = Some (b, False) \<and> cp_readable b \<and> cp_writable b \<and>
    cp_data b = cp_data c \<and> cp_dirty b = (cp_dirty c \<or> ap_cacheResponding q)"
  using assms
  by (elim disjE; cases "ap_cacheResponding q") (simp_all add: handleFill_def c_assert_def cmd_attribs Let_def)

lemma cpu_cmd_attribs:
  assumes "cpu_cmd c"
  shows "\<not> isEviction c" "\<not> isUpgrade c" "\<not> isClean c" "\<not> fromCache c" "needsResponse c" "isRequest c"
    "c \<noteq> InvalidateReq" "c \<noteq> WriteClean" "\<not> isWriteback c" "c \<noteq> CleanEvict" "c \<noteq> StoreCondFailReq" "c \<noteq> SCUpgradeFailReq"
    "isWrite c \<Longrightarrow> needsWritable c" "\<not> isWrite c \<Longrightarrow> cpu_read_cmd c" "isLLSC c \<and> isWrite c \<longleftrightarrow> c = StoreCondReq"
  using assms unfolding cpu_cmd_def cpu_read_cmd_def by (elim disjE; simp add: cmd_attribs)+

lemma fill_and_satisfy_ok:
  assumes "cpu_request blkSize p" "handleFill cf blkSize (if allocate then ta_alloc ta else None) (ta_temp ta) q (own_copy i ln) = Some (b, t)"
    and "needsWritable (ap_cmd p) \<longrightarrow> cp_writable b"
  shows "\<exists>r b1. fill_and_satisfy blkSize cf i allocate ta clu p q ln = Some r \<and> satisfied_as p b (mr_pkt r) b1 \<and>
    mr_line r = set_copy i (Some b1) ln \<and> mr_temp r = t"
proof -
  obtain p1 b1 where s: "Cache_satisfyRequest blkSize p b = Some (p1, Some b1)" "satisfied_as p b p1 b1"
    using satisfy_ok [OF assms(1,3)] by blast
  have "\<not> fromCache (ap_cmd p1)" using s(2) assms(1) cpu_cmd_attribs(4) by (simp add: satisfied_as_def cpu_request_def)
  then show ?thesis using s assms(2) by (auto simp: fill_and_satisfy_def maintainClusivity_def Let_def)
qed

text \<open>The request is served: the line has the new value, and the packet the old one if it reads.\<close>

definition co_served :: "(nat \<Rightarrow> protocol_cfg) \<Rightarrow> xbar_cfg \<Rightarrow> 'd \<Rightarrow> nat \<Rightarrow> 'd apkt \<Rightarrow> 'd miss_result \<Rightarrow> bool" where
  "co_served cfs xb v n p r \<longleftrightarrow>
     line_ok cfs xb (new_value p (ap_extraData (mr_pkt r)) v) (mr_line r) \<and> length (ln_copies (mr_line r)) = n \<and>
     (isRead (ap_cmd p) \<longrightarrow> ap_data (mr_pkt r) = v)"

lemma flags_clear_miss [simp]: "flags_clear (miss_packet blkSize c p) \<longleftrightarrow> \<not> ap_uncacheable p"
  by (simp add: flags_clear_def miss_packet_def)

lemma miss_packet_simps [simp]: "ap_cmd (miss_packet blkSize c p) = c" "ap_size (miss_packet blkSize c p) = blkSize"
  "ap_cacheMaintenance (miss_packet blkSize c p) = ap_cacheMaintenance p"
  by (simp_all add: miss_packet_def)

text \<open>A miss that sends a packet and fills the block with the answer.\<close>

lemma miss_fill:
  assumes "cpu_request blkSize p" "miss_command (cfs i) p (own_copy i ln) (needsWritable (ap_cmd p)) (isWholeLineWrite blkSize p) = Some c"
    and "xbar_recvAtomic blkSize cfs xb i (miss_packet blkSize c p) ln = Some (q, ln1)"
    and "ap_cmd q = responseCommand c"
    and "isWholeLineWrite blkSize p \<and> c = InvalidateReq \<or> \<not> isWholeLineWrite blkSize p \<and>
      (c = ReadSharedReq \<or> c = ReadCleanReq \<or> c = ReadExReq \<or> c = UpgradeReq \<or> c = SCUpgradeReq)"
    and "\<And>alloc. \<exists>b t. handleFill (cfs i) blkSize alloc (ta_temp ta) q (own_copy i ln1) = Some (b, t) \<and>
      (needsWritable (ap_cmd p) \<longrightarrow> cp_writable b) \<and> Q b"
  shows "\<exists>r b b1. handleAtomicReqMiss blkSize cfs xb i ta p ln = Some r \<and> Q b \<and> satisfied_as p b (mr_pkt r) b1 \<and>
    mr_line r = set_copy i (Some b1) ln1"
proof -
  note at = cpu_cmd_attribs [of "ap_cmd p"]
  have cpu: "cpu_cmd (ap_cmd p)" "\<not> ap_uncacheable p" "\<not> ap_hasSharers p"
    using assms(1) by (auto simp: cpu_request_def flags_clear_def)
  have cm: "createMissPacket blkSize (cfs i) p (own_copy i ln) (needsWritable (ap_cmd p)) (isWholeLineWrite blkSize p) =
      Some (Some (miss_packet blkSize c p))"
    using assms(2) cpu at by (simp add: createMissPacket_def c_assert_def)
  have resp: "isResponse (ap_cmd q)" "\<not> isError (ap_cmd q)"
    using assms(4,5) by (elim disjE conjE; simp add: cmd_attribs)+
  have fs: "\<exists>r b b1. fill_and_satisfy blkSize (cfs i) i al ta clu p q ln1 = Some r \<and> Q b \<and>
      satisfied_as p b (mr_pkt r) b1 \<and> mr_line r = set_copy i (Some b1) ln1" for al clu
    using assms(6) [of "if al then ta_alloc ta else None"] fill_and_satisfy_ok [OF assms(1), of "cfs i" al ta q i ln1] by blast
  show ?thesis
  proof (cases "isWholeLineWrite blkSize p")
    case True
    then show ?thesis using cm cpu at resp assms(3) fs by (simp add: handleAtomicReqMiss_def c_assert_def)
  next
    case False
    then have "isRead (ap_cmd q) \<or> ap_cmd q = UpgradeResp" "\<not> isInvalidate (ap_cmd q)"
      using assms(4,5) by (elim disjE conjE; simp add: cmd_attribs)+
    moreover obtain r b b1 where "fill_and_satisfy blkSize (cfs i) i (allocOnFill (cfs i) (ap_cmd p)) ta True p q ln1 = Some r"
      "Q b" "satisfied_as p b (mr_pkt r) b1" "mr_line r = set_copy i (Some b1) ln1" using fs by blast
    ultimately show ?thesis using False cm cpu at resp assms(3)
      by (auto simp: handleAtomicReqMiss_def c_assert_def invalidate_own_def)
  qed
qed

lemma satisfied_value: "satisfied_as p b p1 b1 \<Longrightarrow> cp_data b1 = new_value p (ap_extraData p1) (cp_data b)"
  by (simp add: satisfied_as_def)

lemma miss_read:
  assumes "line_ok cfs xb v ln" "own_copy i ln = None" "i < length (ln_copies ln)" "xb_pointOfCoherency xb"
    and "cpu_request blkSize p" "\<not> needsWritable (ap_cmd p)"
  shows "\<exists>r. handleAtomicReqMiss blkSize cfs xb i ta p ln = Some r \<and> ap_cmd (mr_pkt r) = ap_cmd p \<and>
    co_served cfs xb v (length (ln_copies ln)) p r"
proof -
  note coh = line_okD(1) [OF assms(1)] and flt = line_okD(2) [OF assms(1)]
  have cpu: "cpu_cmd (ap_cmd p)" "\<not> ap_uncacheable p" "\<not> ap_cacheMaintenance p"
    using assms(5) by (simp_all add: cpu_request_def flags_clear_def)
  have nw: "\<not> isWrite (ap_cmd p)" "\<not> isWholeLineWrite blkSize p" "ap_cmd p \<noteq> WriteLineReq"
    using assms(6) cpu_cmd_attribs(13) [OF cpu(1)] by (auto simp: isWholeLineWrite_def cmd_attribs)
  define c where "c = (if cf_isReadOnly (cfs i) \<or> cf_mostly_excl (cfs i) then ReadCleanReq else ReadSharedReq)"
  have c: "miss_command (cfs i) p (own_copy i ln) (needsWritable (ap_cmd p)) (isWholeLineWrite blkSize p) = Some c"
    "snoop_read_cmd c"
    using assms(2,6) nw cpu_cmd_attribs [OF cpu(1)] by (simp_all add: miss_command_def c_assert_def snoop_read_cmd_def c_def)
  obtain q be where q: "xbar_recvAtomic blkSize cfs xb i (miss_packet blkSize c p) ln =
      Some (q, \<lparr>ln_copies = snooped downgrade i 0 (ln_copies ln), ln_below = be\<rparr>)"
    "ap_cmd q = ReadResp" "ap_data q = v" "ap_size q = blkSize" "ap_hasSharers q \<longleftrightarrow> others i 0 (ln_copies ln) \<noteq> []"
    "\<not> ap_hasSharers q \<longrightarrow> \<not> ap_cacheResponding q" and be: "be_mem be = be_mem (ln_below ln)" "be_outstandingCMO be = []"
    "xb_snoopFilter xb \<longrightarrow> covers (be_filter be) (insert i (holders ln))"
    using xbar_read [OF coh assms(2,4) flt assms(3), of "miss_packet blkSize c p" blkSize] c(2) cpu by auto
  let ?L = "\<lparr>ln_copies = snooped downgrade i 0 (ln_copies ln), ln_below = be\<rparr>"
  let ?Q = "\<lambda>b. cp_readable b \<and> cp_data b = v \<and> \<not> cp_dirty b \<and> cp_writable b = (\<not> ap_hasSharers q)"
  have fillable: "\<exists>b t. handleFill (cfs i) blkSize alloc (ta_temp ta) q (own_copy i ?L) = Some (b, t) \<and>
      (needsWritable (ap_cmd p) \<longrightarrow> cp_writable b) \<and> ?Q b" for alloc
    using fill_read [of q blkSize "cfs i" alloc "ta_temp ta"] q assms(2,6) by (auto simp: own_snooped)
  have "\<exists>r b b1. handleAtomicReqMiss blkSize cfs xb i ta p ln = Some r \<and> ?Q b \<and> satisfied_as p b (mr_pkt r) b1 \<and>
      mr_line r = set_copy i (Some b1) ?L"
    by (rule miss_fill [OF assms(5) c(1) q(1) _ _ fillable]) (use c(2) nw(2) q(2) in \<open>auto simp: snoop_read_cmd_def responseCommand_def\<close>)
  then obtain r b b1 where r: "handleAtomicReqMiss blkSize cfs xb i ta p ln = Some r" "satisfied_as p b (mr_pkt r) b1"
      "mr_line r = set_copy i (Some b1) ?L" "cp_readable b" "cp_data b = v" "\<not> cp_dirty b" "cp_writable b = (\<not> ap_hasSharers q)"
    by blast
  have b1: "cp_readable b1" "\<not> cp_dirty b1" "cp_data b1 = v" "cp_writable b1 = (\<not> ap_hasSharers q)"
    "new_value p (ap_extraData (mr_pkt r)) v = v" "ap_cmd (mr_pkt r) = ap_cmd p" "isRead (ap_cmd p) \<longrightarrow> ap_data (mr_pkt r) = v"
    using r nw by (auto simp: satisfied_as_def)
  have "coherent cfs v (set_copy i (Some b1) ?L)"
  proof (cases "ap_hasSharers q")
    case True
    then show ?thesis using coherent_join [OF coh assms(2,3)] b1 be by simp
  next
    case False
    then have none: "others i 0 (ln_copies ln) = []" using q(5) by simp
    then have "be_mem be = v" using coherent_memory [OF coh, of i] assms(2) be(1) by simp
    then show ?thesis using none b1 assms(3) be(2) by (intro coherent_sole) (auto simp: others_Nil own_snooped)
  qed
  moreover have "filter_ok xb (set_copy i (Some b1) ?L)"
    by (rule filter_okI [where S = "insert i (holders ln)"])
      (use be(3) filter_size [OF flt] in \<open>auto simp: own_set_copy own_snooped holders_def downgrade_def split: if_split_asm\<close>)
  ultimately show ?thesis using r(1,3) b1(5-7) by (simp add: co_served_def line_ok_def)
qed

text \<open>The end of a miss that made the source the only holder of the block.\<close>

lemma sole_served:
  assumes "filter_ok xb ln" "i < length (ln_copies ln)" "\<not> cf_isReadOnly (cfs i)"
    and "mr_line r = set_copy i (Some b1) \<lparr>ln_copies = snooped drop_copy i 0 (ln_copies ln), ln_below = be\<rparr>"
    and "satisfied_as p b (mr_pkt r) b1" "be_outstandingCMO be = []" "xb_snoopFilter xb \<longrightarrow> covers (be_filter be) {i}" "cp_readable b"
    and "new_value p (ap_extraData (mr_pkt r)) (cp_data b) = new_value p (ap_extraData (mr_pkt r)) v"
    and "isRead (ap_cmd p) \<longrightarrow> cp_data b = v" "\<not> cp_dirty b1 \<longrightarrow> cp_data b = v \<and> be_mem be = v"
  shows "ap_cmd (mr_pkt r) = ap_cmd p \<and> co_served cfs xb v (length (ln_copies ln)) p r"
proof -
  let ?L = "\<lparr>ln_copies = snooped drop_copy i 0 (ln_copies ln), ln_below = be\<rparr>"
  have "coherent cfs (new_value p (ap_extraData (mr_pkt r)) v) (mr_line r)"
    unfolding assms(4)
  proof (rule coherent_sole)
    show "\<not> cp_dirty b1 \<longrightarrow> be_mem (ln_below ?L) = new_value p (ap_extraData (mr_pkt r)) v"
      using assms(5,9,11) by (auto simp: satisfied_as_def)
  qed (use assms in \<open>auto simp: satisfied_as_def own_snooped\<close>)
  moreover have "filter_ok xb (mr_line r)" unfolding assms(4)
    by (rule filter_okI [where S = "{i}"])
      (use assms(7) filter_size [OF assms(1)] in \<open>auto simp: own_set_copy own_snooped split: if_split_asm\<close>)
  ultimately show ?thesis using assms(4,5,10) by (auto simp: co_served_def line_ok_def satisfied_as_def)
qed

lemma miss_write_new:
  assumes "line_ok cfs xb v ln" "own_copy i ln = None" "i < length (ln_copies ln)" "xb_pointOfCoherency xb"
    and "cpu_request blkSize p" "needsWritable (ap_cmd p)" "\<not> isWholeLineWrite blkSize p" "\<not> cf_isReadOnly (cfs i)"
  shows "\<exists>r. handleAtomicReqMiss blkSize cfs xb i ta p ln = Some r \<and> ap_cmd (mr_pkt r) = ap_cmd p \<and>
    co_served cfs xb v (length (ln_copies ln)) p r"
proof -
  note coh = line_okD(1) [OF assms(1)] and flt = line_okD(2) [OF assms(1)]
  have cpu: "cpu_cmd (ap_cmd p)" "\<not> ap_uncacheable p" "\<not> ap_cacheMaintenance p" using assms(5) by (simp_all add: cpu_request_def flags_clear_def)
  have "ap_cmd p \<noteq> WriteLineReq" using assms(5,7) by (auto simp: cpu_request_def isWholeLineWrite_def)
  then have c: "miss_command (cfs i) p (own_copy i ln) (needsWritable (ap_cmd p)) (isWholeLineWrite blkSize p) = Some ReadExReq"
    using assms(2,6,7) cpu_cmd_attribs [OF cpu(1)] by (simp add: miss_command_def c_assert_def)
  obtain q be where q: "xbar_recvAtomic blkSize cfs xb i (miss_packet blkSize ReadExReq p) ln =
      Some (q, \<lparr>ln_copies = snooped drop_copy i 0 (ln_copies ln), ln_below = be\<rparr>)"
    "ap_cmd q = ReadExResp" "ap_data q = v" "ap_size q = blkSize" "\<not> ap_hasSharers q"
    "\<not> ap_cacheResponding q \<longrightarrow> be_mem (ln_below ln) = v"
    and be: "be_mem be = be_mem (ln_below ln)" "be_outstandingCMO be = []" "xb_snoopFilter xb \<longrightarrow> covers (be_filter be) {i}"
    using xbar_inv [OF coh _ assms(4) flt assms(3), of "miss_packet blkSize ReadExReq p" blkSize] assms(2) cpu
    by (auto simp: snoop_inv_cmd_def responseCommand_def)
  let ?L = "\<lparr>ln_copies = snooped drop_copy i 0 (ln_copies ln), ln_below = be\<rparr>"
  let ?Q = "\<lambda>b. cp_readable b \<and> cp_data b = v \<and> cp_dirty b = ap_cacheResponding q"
  have fillable: "\<exists>b t. handleFill (cfs i) blkSize alloc (ta_temp ta) q (own_copy i ?L) = Some (b, t) \<and>
      (needsWritable (ap_cmd p) \<longrightarrow> cp_writable b) \<and> ?Q b" for alloc
    using fill_read [of q blkSize "cfs i" alloc "ta_temp ta"] q assms(2,8) by (auto simp: own_snooped)
  have "\<exists>r b b1. handleAtomicReqMiss blkSize cfs xb i ta p ln = Some r \<and> ?Q b \<and> satisfied_as p b (mr_pkt r) b1 \<and>
      mr_line r = set_copy i (Some b1) ?L"
    by (rule miss_fill [OF assms(5) c q(1) _ _ fillable]) (use assms(7) q(2) in \<open>auto simp: responseCommand_def\<close>)
  then obtain r b b1 where r: "handleAtomicReqMiss blkSize cfs xb i ta p ln = Some r" "satisfied_as p b (mr_pkt r) b1"
      "mr_line r = set_copy i (Some b1) ?L" "?Q b" by blast
  have "\<not> cp_dirty b1 \<longrightarrow> cp_data b = v \<and> be_mem be = v" using r(2,4) q(6) be(1) by (auto simp: satisfied_as_def)
  then show ?thesis using r sole_served [where cfs = cfs and i = i, OF flt assms(3,8) r(3,2) be(2,3)] by auto
qed

lemma miss_upgrade:
  assumes "line_ok cfs xb v ln" "own_copy i ln = Some d" "\<not> cp_writable d" "xb_pointOfCoherency xb"
    and "cpu_request blkSize p" "needsWritable (ap_cmd p)" "\<not> isWholeLineWrite blkSize p" "\<not> cf_isReadOnly (cfs i)"
  shows "\<exists>r. handleAtomicReqMiss blkSize cfs xb i ta p ln = Some r \<and> ap_cmd (mr_pkt r) = ap_cmd p \<and>
    co_served cfs xb v (length (ln_copies ln)) p r"
proof -
  note coh = line_okD(1) [OF assms(1)] and flt = line_okD(2) [OF assms(1)]
  have cpu: "cpu_cmd (ap_cmd p)" "\<not> ap_uncacheable p" "\<not> ap_cacheMaintenance p" using assms(5) by (simp_all add: cpu_request_def flags_clear_def)
  have i: "i < length (ln_copies ln)" and d: "cp_data d = v" using own_copyD [OF assms(2)] coherent_copy [OF coh assms(2)] by simp_all
  define c where "c = (if isLLSC (ap_cmd p) then SCUpgradeReq else UpgradeReq)"
  have ci: "snoop_inv_cmd c" "c \<noteq> ReadExReq" "responseCommand c = UpgradeResp"
    by (simp_all add: c_def snoop_inv_cmd_def responseCommand_def)
  have "ap_cmd p \<noteq> WriteLineReq" using assms(5,7) by (auto simp: cpu_request_def isWholeLineWrite_def)
  then have c: "miss_command (cfs i) p (own_copy i ln) (needsWritable (ap_cmd p)) (isWholeLineWrite blkSize p) = Some c"
    using assms(2,3,6,7) cpu_cmd_attribs [OF cpu(1)] by (simp add: miss_command_def c_assert_def c_def)
  obtain q be where q: "xbar_recvAtomic blkSize cfs xb i (miss_packet blkSize c p) ln =
      Some (q, \<lparr>ln_copies = snooped drop_copy i 0 (ln_copies ln), ln_below = be\<rparr>)"
    "ap_cmd q = UpgradeResp" "\<not> ap_hasSharers q" "\<not> ap_cacheResponding q \<longrightarrow> \<not> cp_dirty d \<longrightarrow> be_mem (ln_below ln) = v"
    and be: "be_mem be = be_mem (ln_below ln)" "be_outstandingCMO be = []" "xb_snoopFilter xb \<longrightarrow> covers (be_filter be) {i}"
    using xbar_inv [OF coh _ assms(4) flt i, of "miss_packet blkSize c p" blkSize] assms(2) cpu ci by auto
  let ?L = "\<lparr>ln_copies = snooped drop_copy i 0 (ln_copies ln), ln_below = be\<rparr>"
  let ?Q = "\<lambda>b. cp_readable b \<and> cp_data b = v \<and> cp_dirty b = (cp_dirty d \<or> ap_cacheResponding q)"
  have fillable: "\<exists>b t. handleFill (cfs i) blkSize alloc (ta_temp ta) q (own_copy i ?L) = Some (b, t) \<and>
      (needsWritable (ap_cmd p) \<longrightarrow> cp_writable b) \<and> ?Q b" for alloc
    using fill_upgrade [of q "cfs i" blkSize alloc "ta_temp ta" d] q assms(2,8) d by (auto simp: own_snooped)
  have "\<exists>r b b1. handleAtomicReqMiss blkSize cfs xb i ta p ln = Some r \<and> ?Q b \<and> satisfied_as p b (mr_pkt r) b1 \<and>
      mr_line r = set_copy i (Some b1) ?L"
    by (rule miss_fill [OF assms(5) c q(1) _ _ fillable]) (use assms(7) q(2) in \<open>auto simp: responseCommand_def c_def\<close>)
  then obtain r b b1 where r: "handleAtomicReqMiss blkSize cfs xb i ta p ln = Some r" "satisfied_as p b (mr_pkt r) b1"
      "mr_line r = set_copy i (Some b1) ?L" "?Q b" by blast
  have "\<not> cp_dirty b1 \<longrightarrow> cp_data b = v \<and> be_mem be = v" using r(2,4) q(4) be(1) by (auto simp: satisfied_as_def)
  then show ?thesis using r sole_served [where cfs = cfs and i = i, OF flt i assms(8) r(3,2) be(2,3)] by auto
qed

text \<open>A write of the whole block does not fetch it: the other copies are dropped and the contents overwritten.\<close>

definition replaces_line :: "nat \<Rightarrow> 'd apkt \<Rightarrow> bool" where
  "replaces_line blkSize p \<longleftrightarrow> (isWholeLineWrite blkSize p \<longrightarrow> (\<forall>x y. ap_update p x = ap_update p y))"

lemma miss_whole_line:
  assumes "line_ok cfs xb v ln" "\<And>d. own_copy i ln = Some d \<Longrightarrow> \<not> cp_writable d" "xb_pointOfCoherency xb"
    and "cpu_request blkSize p" "isWholeLineWrite blkSize p" "replaces_line blkSize p" "\<not> cf_isReadOnly (cfs i)"
    and i: "i < length (ln_copies ln)"
  shows "\<exists>r. handleAtomicReqMiss blkSize cfs xb i ta p ln = Some r \<and> ap_cmd (mr_pkt r) = ap_cmd p \<and>
    co_served cfs xb v (length (ln_copies ln)) p r"
proof -
  note coh = line_okD(1) [OF assms(1)] and flt = line_okD(2) [OF assms(1)]
  have cpu: "cpu_cmd (ap_cmd p)" "\<not> ap_uncacheable p" "\<not> ap_cacheMaintenance p" using assms(4) by (simp_all add: cpu_request_def flags_clear_def)
  have cmd: "ap_cmd p = WriteReq \<or> ap_cmd p = WriteLineReq" using assms(5) by (auto simp: isWholeLineWrite_def)
  then have wr: "isWrite (ap_cmd p)" "\<not> isRead (ap_cmd p)" "ap_cmd p \<noteq> SwapReq" "ap_cmd p \<noteq> StoreCondReq" "needsWritable (ap_cmd p)"
    by (auto simp: cmd_attribs)
  have c: "miss_command (cfs i) p (own_copy i ln) (needsWritable (ap_cmd p)) (isWholeLineWrite blkSize p) = Some InvalidateReq"
    using assms(2,5) cpu_cmd_attribs [OF cpu(1)] by (auto simp: miss_command_def c_assert_def split: option.split)
  obtain q be where q: "xbar_recvAtomic blkSize cfs xb i (miss_packet blkSize InvalidateReq p) ln =
      Some (q, \<lparr>ln_copies = snooped drop_copy i 0 (ln_copies ln), ln_below = be\<rparr>)"
    "ap_cmd q = InvalidateResp" "\<not> ap_hasSharers q"
    and be: "be_mem be = be_mem (ln_below ln)" "be_outstandingCMO be = []" "xb_snoopFilter xb \<longrightarrow> covers (be_filter be) {i}"
    using xbar_inv [OF coh _ assms(3) flt i, of "miss_packet blkSize InvalidateReq p" blkSize] cpu
    by (auto simp: snoop_inv_cmd_def responseCommand_def)
  let ?L = "\<lparr>ln_copies = snooped drop_copy i 0 (ln_copies ln), ln_below = be\<rparr>"
  have fillable: "\<exists>b t. handleFill (cfs i) blkSize alloc (ta_temp ta) q (own_copy i ?L) = Some (b, t) \<and>
      (needsWritable (ap_cmd p) \<longrightarrow> cp_writable b) \<and> cp_readable b" for alloc
  proof (cases "own_copy i ln")
    case None
    then show ?thesis using fill_line [of q "cfs i" blkSize alloc "ta_temp ta"] q assms(7) by (auto simp: own_snooped)
  next
    case (Some d)
    then show ?thesis using fill_upgrade [of q "cfs i" blkSize alloc "ta_temp ta" d] q assms(7) by (auto simp: own_snooped)
  qed
  have "\<exists>r b b1. handleAtomicReqMiss blkSize cfs xb i ta p ln = Some r \<and> cp_readable b \<and> satisfied_as p b (mr_pkt r) b1 \<and>
      mr_line r = set_copy i (Some b1) ?L"
    by (rule miss_fill [OF assms(4) c q(1) _ _ fillable]) (use assms(5) q(2) in \<open>auto simp: responseCommand_def\<close>)
  then obtain r b b1 where r: "handleAtomicReqMiss blkSize cfs xb i ta p ln = Some r" "satisfied_as p b (mr_pkt r) b1"
      "mr_line r = set_copy i (Some b1) ?L" "cp_readable b" by blast
  have "new_value p sc (cp_data b) = new_value p sc v" for sc
    using assms(5,6) wr unfolding new_value_def replaces_line_def by simp
  then show ?thesis using r wr sole_served [where cfs = cfs and i = i, OF flt i assms(7) r(3,2) be(2,3)] by (auto simp: satisfied_as_def)
qed

subsection \<open>Every request is served\<close>

lemma own_same [simp]: "set_copy i (own_copy i ln) ln = ln"
  by (simp add: set_copy_def own_copy_def list_update_beyond)

lemma access_hit:
  assumes "line_ok cfs xb v ln" "own_copy i ln = Some d" "cpu_request blkSize p" "needsWritable (ap_cmd p) \<longrightarrow> cp_writable d"
    and "cf_isReadOnly (cfs i) \<longrightarrow> \<not> needsWritable (ap_cmd p)"
  shows "\<exists>p1 b1. Cache_access blkSize (cfs i) alloc p (own_copy i ln) =
      Some \<lparr>ar_satisfied = True, ar_pkt = p1, ar_blk = Some b1, ar_writebacks = [], ar_allocated = False\<rparr> \<and>
    ap_cmd p1 = ap_cmd p \<and> co_served cfs xb v (length (ln_copies ln)) p (plain_result p1 (set_copy i (Some b1) ln))"
proof -
  have cpu: "cpu_cmd (ap_cmd p)" "\<not> ap_uncacheable p" "\<not> ap_cacheMaintenance p"
    using assms(3) by (simp_all add: cpu_request_def flags_clear_def)
  note coh = line_okD(1) [OF assms(1)]
  note at = cpu_cmd_attribs [OF cpu(1)] and d = coherent_copy [OF coh assms(2)]
  obtain p1 b1 where s: "Cache_satisfyRequest blkSize p d = Some (p1, Some b1)" "satisfied_as p d p1 b1"
    using satisfy_ok [OF assms(3,4)] by blast
  have acc: "Cache_access blkSize (cfs i) alloc p (own_copy i ln) =
      Some \<lparr>ar_satisfied = True, ar_pkt = p1, ar_blk = Some b1, ar_writebacks = [], ar_allocated = False\<rparr>"
    using s assms(2,4,5) cpu at d
    by (cases "needsWritable (ap_cmd p)")
      (auto simp: Cache_access_def BaseCache_access_def c_assert_def maintainClusivity_def satisfied_as_def)
  have same: "\<not> cp_writable d \<Longrightarrow> new_value p (ap_extraData p1) v = v \<and> \<not> isWrite (ap_cmd p)"
    using assms(4) at(13,14) by (auto simp: new_value_def cpu_read_cmd_def cmd_attribs)
  have "coherent cfs (new_value p (ap_extraData p1) v) (set_copy i (Some b1) ln)"
    by (rule coherent_hit [OF coh assms(2)]) (use s(2) d same assms(5) at(13) in \<open>auto simp: satisfied_as_def\<close>)
  then show ?thesis using acc s(2) d filter_hit [OF line_okD(2) [OF assms(1)], of i] assms(2)
    by (auto simp: co_served_def line_ok_def satisfied_as_def plain_result_def)
qed

lemma access_miss:
  assumes "cpu_request blkSize p" "cf_isReadOnly cf \<longrightarrow> \<not> needsWritable (ap_cmd p)"
    and "\<And>d. blk = Some d \<Longrightarrow> cp_readable d \<and> needsWritable (ap_cmd p) \<and> \<not> cp_writable d"
  shows "Cache_access blkSize cf alloc p blk =
    Some (if blk = None \<and> ap_cmd p = StoreCondReq
          then \<lparr>ar_satisfied = True, ar_pkt = p\<lparr>ap_extraData := False\<rparr>, ar_blk = None, ar_writebacks = [], ar_allocated = False\<rparr>
          else \<lparr>ar_satisfied = False, ar_pkt = p, ar_blk = blk, ar_writebacks = [], ar_allocated = False\<rparr>)"
proof -
  have cpu: "cpu_cmd (ap_cmd p)" "\<not> ap_uncacheable p" "\<not> ap_cacheMaintenance p"
    using assms(1) by (simp_all add: cpu_request_def flags_clear_def)
  note at = cpu_cmd_attribs [OF cpu(1)]
  have ro: "\<not> (cf_isReadOnly cf \<and> isWrite (ap_cmd p))" using assms(2) at(13) by auto
  show ?thesis
  proof (cases blk)
    case None
    then show ?thesis using ro cpu at by (simp add: Cache_access_def BaseCache_access_def c_assert_def)
  next
    case (Some d)
    then show ?thesis using ro cpu at assms(3) [of d] by (simp add: Cache_access_def BaseCache_access_def c_assert_def)
  qed
qed

lemma evicted_ok:
  assumes "line_ok cfs xb v ln" "xb_pointOfCoherency xb" "own_copy i ln = Some b"
  shows "\<exists>wb ln'. co_evictBlock blkSize (cfs i) b = Some wb \<and>
    doWritebacksAtomic blkSize cfs xb i [wb] (set_copy i None ln) = Some ln' \<and> line_ok cfs xb v ln' \<and>
    length (ln_copies ln') = length (ln_copies ln)"
proof -
  note coh = line_okD(1) [OF assms(1)] and flt = line_okD(2) [OF assms(1)]
  obtain wb be where e: "co_evictBlock blkSize (cfs i) b = Some wb"
    "doWritebacksAtomic blkSize cfs xb i [wb] (set_copy i None ln) = Some ((set_copy i None ln)\<lparr>ln_below := be\<rparr>)"
    "be_mem be = (if cp_dirty b then v else be_mem (ln_below ln))" "be_outstandingCMO be = []"
    "xb_snoopFilter xb \<longrightarrow> covers (be_filter be) (holders ln - {i})"
    using xbar_evict [OF coh flt assms(2,3)] by blast
  have "filter_ok xb ((set_copy i None ln)\<lparr>ln_below := be\<rparr>)"
    by (rule filter_okI [where S = "holders ln - {i}"])
      (use e(5) filter_size [OF flt] own_copyD [OF assms(3)] in \<open>auto simp: own_set_copy holders_def split: if_split_asm\<close>)
  then have "line_ok cfs xb v ((set_copy i None ln)\<lparr>ln_below := be\<rparr>)"
    using coherent_evict [OF coh assms(3) e(3,4)] by (simp add: line_ok_def)
  then show ?thesis using e(1,2) by simp
qed

lemma drop_temp_ok:
  assumes "line_ok cfs xb v ln" "xb_pointOfCoherency xb"
  shows "\<exists>ln'. drop_temp blkSize cfs xb i ln = Some ln' \<and> line_ok cfs xb v ln' \<and> length (ln_copies ln') = length (ln_copies ln)"
proof (cases "own_copy i ln")
  case (Some b)
  then show ?thesis using evicted_ok [OF assms Some, of blkSize] by (auto simp: drop_temp_def)
qed (use assms in \<open>simp add: drop_temp_def\<close>)

text \<open>The miss path as a whole.\<close>

lemma miss_served:
  assumes "line_ok cfs xb v ln" "i < length (ln_copies ln)" "xb_pointOfCoherency xb" "cpu_request blkSize p" "replaces_line blkSize p"
    and "cf_isReadOnly (cfs i) \<longrightarrow> \<not> needsWritable (ap_cmd p)"
    and "\<And>d. own_copy i ln = Some d \<Longrightarrow> needsWritable (ap_cmd p) \<and> \<not> cp_writable d"
  shows "\<exists>r. handleAtomicReqMiss blkSize cfs xb i ta p ln = Some r \<and> ap_cmd (mr_pkt r) = ap_cmd p \<and>
    co_served cfs xb v (length (ln_copies ln)) p r"
proof (cases "isWholeLineWrite blkSize p")
  case True
  then have "needsWritable (ap_cmd p)" by (auto simp: isWholeLineWrite_def cmd_attribs)
  then show ?thesis using True assms by (intro miss_whole_line) auto
next
  case whole: False
  show ?thesis
  proof (cases "own_copy i ln")
    case none: None
    show ?thesis
    proof (cases "needsWritable (ap_cmd p)")
      case True
      then have "\<not> cf_isReadOnly (cfs i)" using assms(6) by simp
      then show ?thesis using miss_write_new [OF assms(1) none assms(2-4) True whole] by blast
    next
      case False
      then show ?thesis using miss_read [OF assms(1) none assms(2-4) False] by blast
    qed
  next
    case (Some d)
    then have d: "needsWritable (ap_cmd p)" "\<not> cp_writable d" using assms(7) by auto
    then have "\<not> cf_isReadOnly (cfs i)" using assms(6) by simp
    then show ?thesis using miss_upgrade [OF assms(1) Some d(2) assms(3,4) d(1) whole] by blast
  qed
qed

lemma base_recv_ok:
  assumes "line_ok cfs xb v ln" "i < length (ln_copies ln)" "xb_pointOfCoherency xb" "cpu_request blkSize p" "replaces_line blkSize p"
    and "cf_isReadOnly (cfs i) \<longrightarrow> \<not> needsWritable (ap_cmd p)"
  shows "\<exists>r. BaseCache_recvAtomic blkSize cfs xb i ta p ln = Some r \<and> ap_cmd (mr_pkt r) = responseCommand (ap_cmd p) \<and>
    co_served cfs xb v (length (ln_copies ln)) p r"
proof -
  have cpu: "cpu_cmd (ap_cmd p)" using assms(4) by (simp add: cpu_request_def)
  note at = cpu_cmd_attribs [OF cpu]
  have clean: "clean_own blkSize q blk = Some (q, blk, [])" if "ap_cmd q = ap_cmd p" for q :: "'a apkt" and blk
    using that at(3) by (simp add: clean_own_def split: option.split)
  have resp: "makeResponse q = Some (q\<lparr>ap_cmd := responseCommand (ap_cmd p)\<rparr>)" if "ap_cmd q = ap_cmd p" for q :: "'a apkt"
    using that at(5,6) by (simp add: makeResponse_def c_assert_def)
  let ?hit = "\<exists>d. own_copy i ln = Some d \<and> (needsWritable (ap_cmd p) \<longrightarrow> cp_writable d)"
  show ?thesis
  proof (cases ?hit)
    case True
    then obtain d where d: "own_copy i ln = Some d" "needsWritable (ap_cmd p) \<longrightarrow> cp_writable d" by blast
    obtain p1 b1 where a: "Cache_access blkSize (cfs i) (ta_alloc ta) p (own_copy i ln) =
        Some \<lparr>ar_satisfied = True, ar_pkt = p1, ar_blk = Some b1, ar_writebacks = [], ar_allocated = False\<rparr>"
      "ap_cmd p1 = ap_cmd p" "co_served cfs xb v (length (ln_copies ln)) p (plain_result p1 (set_copy i (Some b1) ln))"
      using access_hit [OF assms(1) d(1) assms(4) d(2) assms(6)] by blast
    then show ?thesis using clean [OF a(2)] resp [OF a(2)] at(5)
      by (simp add: BaseCache_recvAtomic_def plain_result_def co_served_def)
  next
    case False
    have acc: "Cache_access blkSize (cfs i) (ta_alloc ta) p (own_copy i ln) =
      Some (if own_copy i ln = None \<and> ap_cmd p = StoreCondReq
          then \<lparr>ar_satisfied = True, ar_pkt = p\<lparr>ap_extraData := False\<rparr>, ar_blk = None, ar_writebacks = [], ar_allocated = False\<rparr>
          else \<lparr>ar_satisfied = False, ar_pkt = p, ar_blk = own_copy i ln, ar_writebacks = [], ar_allocated = False\<rparr>)"
      using access_miss [OF assms(4,6), of "own_copy i ln"] False coherent_copy [OF line_okD(1) [OF assms(1)], of i] by auto
    show ?thesis
    proof (cases "own_copy i ln = None \<and> ap_cmd p = StoreCondReq")
      case True
      have ln: "set_copy i None ln = ln" using True own_same [of i ln] by simp
      show ?thesis using acc True clean [of "p\<lparr>ap_extraData := False\<rparr>"] resp [of "p\<lparr>ap_extraData := False\<rparr>"] at(5) assms(1) ln
        by (simp add: BaseCache_recvAtomic_def plain_result_def co_served_def new_value_def cmd_attribs)
    next
      case sc: False
      obtain r where r: "handleAtomicReqMiss blkSize cfs xb i ta p ln = Some r" "ap_cmd (mr_pkt r) = ap_cmd p"
          "co_served cfs xb v (length (ln_copies ln)) p r"
        using miss_served [OF assms] False by blast
      obtain ln2 where "drop_temp blkSize cfs xb i (mr_line r) = Some ln2"
          "line_ok cfs xb (new_value p (ap_extraData (mr_pkt r)) v) ln2" "length (ln_copies ln2) = length (ln_copies ln)"
        using drop_temp_ok [OF _ assms(3), of cfs _ "mr_line r" blkSize i] r(3) by (auto simp: co_served_def)
      then show ?thesis using acc sc clean [of p] resp [OF r(2)] at(5) r
        by (cases "mr_temp r") (simp_all add: BaseCache_recvAtomic_def co_served_def)
    qed
  qed
qed

lemma recv_ok:
  assumes "line_ok cfs xb v ln" "i < length (ln_copies ln)" "xb_pointOfCoherency xb" "cpu_request blkSize p" "replaces_line blkSize p"
    and "cf_isReadOnly (cfs i) \<longrightarrow> \<not> needsWritable (ap_cmd p)"
  shows "\<exists>r. Cache_recvAtomic blkSize cfs xb i ta p ln = Some r \<and> ap_cmd (mr_pkt r) = responseCommand (ap_cmd p) \<and>
    co_served cfs xb v (length (ln_copies ln)) p r"
proof -
  let ?p = "promoteWholeLineWrites blkSize p"
  have q: "cpu_request blkSize ?p" "replaces_line blkSize ?p" "responseCommand (ap_cmd ?p) = responseCommand (ap_cmd p)"
    "needsWritable (ap_cmd ?p) = needsWritable (ap_cmd p)" "new_value ?p = new_value p" "isRead (ap_cmd ?p) = isRead (ap_cmd p)"
    "\<not> ap_cacheResponding ?p"
    using assms(4,5)
    by (auto simp: promoteWholeLineWrites_def cpu_request_def cpu_cmd_def flags_clear_def replaces_line_def isWholeLineWrite_def
      new_value_def cmd_attribs fun_eq_iff)
  then show ?thesis using base_recv_ok [OF assms(1-3) q(1,2), of ta] assms(6)
    by (simp add: Cache_recvAtomic_def co_served_def Let_def)
qed

subsection \<open>Clean operations\<close>

definition clean_request :: "'d apkt \<Rightarrow> bool" where
  "clean_request p \<longleftrightarrow> snoop_clean_cmd (ap_cmd p) \<and> flags_clear p \<and> ap_cacheMaintenance p \<and> ap_toPOC p"

lemma coherent_cleaned:
  assumes "coherent cfs v ln" "\<And>k. own_copy k L = clean_copy c (own_copy k ln)" "be_mem (ln_below L) = v"
    and "be_outstandingCMO (ln_below L) = []"
  shows "coherent cfs v L"
proof -
  have old: "\<exists>d. own_copy k ln = Some d \<and> \<not> cp_dirty b \<and> cp_readable b = cp_readable d \<and> cp_data b = cp_data d \<and>
      (cp_writable b \<longrightarrow> cp_writable d)" if "own_copy k L = Some b" for k b
    using that unfolding assms(2)
    by (cases "own_copy k ln"; cases "c = CleanInvalidReq"; cases "cp_dirty (the (own_copy k ln))") (auto simp: clean_copy_def)
  show ?thesis
  proof (rule coherentI)
    fix k b assume "own_copy k L = Some b"
    then show "cp_readable b \<and> cp_data b = v \<and> (cf_isReadOnly (cfs k) \<longrightarrow> \<not> cp_dirty b)"
      using old [of k b] coherent_copy [OF assms(1), of k] by auto
  next
    fix k l b c assume kl: "own_copy k L = Some b" "own_copy l L = Some c" "k \<noteq> l"
    then obtain d e where "own_copy k ln = Some d" "own_copy l ln = Some e" "cp_writable b \<longrightarrow> cp_writable d" "\<not> cp_dirty b"
      using old [OF kl(1)] old [OF kl(2)] by blast
    then show "\<not> cp_writable b \<and> \<not> (cp_dirty b \<and> cp_dirty c)" using coherent_two [OF assms(1), of k d l e] kl(3) by blast
  qed (use assms in auto)
qed

text \<open>The part of a clean operation in its own cache.\<close>

lemma clean_own_ok:
  assumes "coherent cfs v ln" "i < length (ln_copies ln)" "xb_pointOfCoherency xb" "clean_request p"
  shows "\<exists>blk ws be sat. clean_own blkSize p (own_copy i ln) = Some (p\<lparr>ap_satisfied := sat\<rparr>, blk, ws) \<and>
    doWritebacksAtomic blkSize cfs xb i ws (set_copy i blk ln) = Some ((set_copy i blk ln)\<lparr>ln_below := be\<rparr>) \<and> be_filter be = be_filter (ln_below ln) \<and>
    (own_copy i ln = None \<longrightarrow> blk = None) \<and> (ap_cmd p = CleanSharedReq \<longrightarrow> blk = clean_copy (ap_cmd p) (own_copy i ln)) \<and>
    be_outstandingCMO be = (if sat then [ap_id p] else []) \<and>
    (if sat then be_mem be = v \<and> dirty_others i 0 (ln_copies ln) = []
     else be = ln_below ln \<and> (\<forall>b. own_copy i ln = Some b \<longrightarrow> \<not> cp_dirty b))"
proof (cases "\<exists>b. own_copy i ln = Some b \<and> cp_dirty b")
  case True
  then obtain b where b: "own_copy i ln = Some b" "cp_dirty b" by blast
  have cmo: "be_outstandingCMO (ln_below ln) = []" and p: "isClean (ap_cmd p)" "\<not> ap_satisfied p" "ap_toPOC p"
    using assms(1,4) by (auto simp: coherent_def clean_request_def flags_clear_def snoop_clean_cmd_def cmd_attribs)
  obtain w w1 where w: "co_writecleanBlk blkSize p b = Some (w, b\<lparr>cp_writable := False, cp_dirty := False\<rparr>)"
    "ap_cmd w = WriteClean" "xbar_serve xb i InvalidCmd w (ln_below ln) = Some (w1, written_below b p (ln_below ln))"
    using writeclean_ok [OF p(3) assms(3), of "ln_below ln" blkSize b i] cmo by auto
  have "filter (\<lambda>x. cp_dirty (snd x)) (others i 0 (ln_copies ln)) = []"
    using coherent_two [OF assms(1) b(1)] b(2) by (auto simp: filter_empty_conv others_own)
  moreover have "cp_data b = v" using coherent_copy [OF assms(1) b(1)] by simp
  ultimately show ?thesis using b w p cmo
    by (intro exI [of _ "Some (b\<lparr>cp_writable := False, cp_dirty := False\<rparr>)"] exI [of _ "[w]"]
        exI [of _ "written_below b p (ln_below ln)"] exI [of _ True])
      (simp add: clean_own_def setSatisfied_def c_assert_def xbar_recvAtomic_def written_below_def clean_copy_def set_copy_def)
next
  case False
  have "p\<lparr>ap_satisfied := False\<rparr> = p" "be_outstandingCMO (ln_below ln) = []"
    using assms(1,4) by (auto simp: coherent_def clean_request_def flags_clear_def)
  then show ?thesis using False
    by (intro exI [of _ "own_copy i ln"] exI [of _ "[]"] exI [of _ "ln_below ln"] exI [of _ False])
      (auto simp: clean_own_def clean_copy_def split: option.split)
qed

lemma recv_clean_ok:
  assumes "line_ok cfs xb v ln" "i < length (ln_copies ln)" "xb_pointOfCoherency xb" "clean_request p"
  shows "\<exists>r. Cache_recvAtomic blkSize cfs xb i ta p ln = Some r \<and> ap_cmd (mr_pkt r) = responseCommand (ap_cmd p) \<and>
    line_ok cfs xb v (mr_line r) \<and> length (ln_copies (mr_line r)) = length (ln_copies ln) \<and>
    be_mem (ln_below (mr_line r)) = v \<and> (\<forall>k. own_copy k (mr_line r) = clean_copy (ap_cmd p) (own_copy k ln)) \<and>
    \<not> mr_allocated r"
proof -
  note coh = line_okD(1) [OF assms(1)] and flt = line_okD(2) [OF assms(1)]
  have cmd: "ap_cmd p = CleanSharedReq \<or> ap_cmd p = CleanInvalidReq" and p: "\<not> ap_uncacheable p" "ap_cacheMaintenance p"
      "ap_toPOC p" "\<not> ap_cacheResponding p" "promoteWholeLineWrites blkSize p = p"
    using assms(4) by (auto simp: clean_request_def snoop_clean_cmd_def flags_clear_def promoteWholeLineWrites_def)
  obtain blk ws be sat where o: "clean_own blkSize p (own_copy i ln) = Some (p\<lparr>ap_satisfied := sat\<rparr>, blk, ws)"
      "doWritebacksAtomic blkSize cfs xb i ws (set_copy i blk ln) = Some ((set_copy i blk ln)\<lparr>ln_below := be\<rparr>)"
      "be_filter be = be_filter (ln_below ln)"
      "own_copy i ln = None \<longrightarrow> blk = None" "ap_cmd p = CleanSharedReq \<longrightarrow> blk = clean_copy (ap_cmd p) (own_copy i ln)"
      "be_outstandingCMO be = (if sat then [ap_id p] else [])"
      "if sat then be_mem be = v \<and> dirty_others i 0 (ln_copies ln) = []
       else be = ln_below ln \<and> (\<forall>b. own_copy i ln = Some b \<longrightarrow> \<not> cp_dirty b)"
    using clean_own_ok [OF coh assms(2-4), of blkSize] by (elim exE conjE) (rule that, assumption+)
  let ?p = "p\<lparr>ap_satisfied := sat\<rparr>" and ?L = "(set_copy i blk ln)\<lparr>ln_below := be\<rparr>" and ?D = "dirty_others i 0 (ln_copies ln)"
  have oth: "others i 0 (ln_copies ?L) = others i 0 (ln_copies ln)" by (simp add: set_copy_def others_update)
  have below: "ln_below ?L = be" by simp
  have hold: "holders ?L \<subseteq> holders ln" using o(4) by (auto simp: holders_def own_set_copy split: if_split_asm)
  have fltL: "filter_ok xb ?L"
    by (rule filter_okI [where S = "holders ln"])
      (use flt hold o(3) in \<open>auto simp: filter_ok_def holders_def\<close>)
  have iL: "i < length (ln_copies ?L)" using assms(2) by simp
  obtain q be' where q: "xbar_recvAtomic blkSize cfs xb i ?p ?L =
      Some (q, \<lparr>ln_copies = snooped (clean_copy (ap_cmd p)) i 0 (ln_copies ?L), ln_below = be'\<rparr>)"
      "be_mem be' = (case ?D of [] \<Rightarrow> be_mem be | x # _ \<Rightarrow> cp_data (snd x))" "be_outstandingCMO be' = []"
      "xb_snoopFilter xb \<longrightarrow> covers (be_filter be') (if ap_cmd p = CleanInvalidReq then holders ?L - {i} else holders ?L)"
      "ap_cmd q = responseCommand (ap_cmd p)"
    using xbar_clean [of ?p xb i ?L blkSize cfs, OF _ _ _ _ _ _ fltL iL, unfolded below oth] assms(3,4) p o(6,7)
      coherent_one_dirty [OF coh, of i]
    by (auto simp: clean_request_def split: if_split_asm)
  let ?M = "\<lparr>ln_copies = snooped (clean_copy (ap_cmd p)) i 0 (ln_copies ?L), ln_below = be'\<rparr>"
  let ?R = "invalidate_own (isInvalidate (ap_cmd q)) i ?M"
  have recv: "Cache_recvAtomic blkSize cfs xb i ta p ln = Some \<lparr>mr_pkt = q, mr_line = ?R, mr_temp = False, mr_allocated = False\<rparr>"
    using cmd p o(1,2) q(1,5)
    by (elim disjE) (simp_all add: Cache_recvAtomic_def BaseCache_recvAtomic_def Cache_access_def BaseCache_access_def
      handleAtomicReqMiss_def createMissPacket_def plain_result_def c_assert_def cmd_attribs)
  have own: "own_copy k ?R = clean_copy (ap_cmd p) (own_copy k ln)" for k
    using cmd q(5) o(5) assms(2)
    by (elim disjE; cases "k = i") (simp_all add: invalidate_own_def own_set_copy own_snooped clean_copy_def cmd_attribs)
  have R: "ln_below ?R = be'" "length (ln_copies ?R) = length (ln_copies ln)" by (simp_all add: invalidate_own_def set_copy_def)
  have mem: "be_mem (ln_below ?R) = v"
    using o(7) q(2) coherent_memory [OF coh, of i] coherent_dirty_value(1) [OF coh, of i] unfolding R
    by (cases ?D) (auto split: if_split_asm)
  have "coherent cfs v ?R" by (rule coherent_cleaned [OF coh own mem]) (simp only: R q(3))
  moreover have "filter_ok xb ?R"
  proof (rule filter_okI [where S = "if ap_cmd p = CleanInvalidReq then holders ?L - {i} else holders ?L"])
    fix k assume k: "own_copy k ?R \<noteq> None"
    then have "ap_cmd p = CleanSharedReq" "own_copy k ln \<noteq> None" using cmd unfolding own by (auto simp: clean_copy_def split: option.splits)
    then show "k \<in> (if ap_cmd p = CleanInvalidReq then holders ?L - {i} else holders ?L)"
      using o(5) by (auto simp: holders_def own_set_copy clean_copy_def)
  qed (use q(4) filter_size [OF flt] in \<open>simp_all only: R\<close>)
  ultimately show ?thesis using recv q(5) own mem R by (simp add: line_ok_def)
qed

subsection \<open>The system implements a memory\<close>

text \<open>
  The promise of the environment: requests of processors or clean operations at an existing
  cache, no request for a writable copy at a read-only cache, whole-line writes that overwrite
  the block, and victims that are other blocks of the cache.
\<close>

definition co_env :: "nat \<Rightarrow> (nat \<Rightarrow> protocol_cfg) \<Rightarrow> nat \<Rightarrow> 'd co_event \<Rightarrow> 'd co_system \<Rightarrow> bool" where
  "co_env blkSize cfs n e s \<longleftrightarrow> ev_cache e < n \<and>
     (cpu_request blkSize (ev_pkt e) \<and> replaces_line blkSize (ev_pkt e) \<and>
        (cf_isReadOnly (cfs (ev_cache e)) \<longrightarrow> \<not> needsWritable (ap_cmd (ev_pkt e))) \<or>
      clean_request (ev_pkt e)) \<and>
     distinct (ev_victims e) \<and> ev_addr e \<notin> set (ev_victims e) \<and>
     list_all (\<lambda>a. own_copy (ev_cache e) (sy_line s a) \<noteq> None) (ev_victims e)"

definition co_inv :: "(nat \<Rightarrow> protocol_cfg) \<Rightarrow> xbar_cfg \<Rightarrow> nat \<Rightarrow> 'd co_system \<Rightarrow> bool" where
  "co_inv cfs xb n s \<longleftrightarrow> xb_pointOfCoherency xb \<and>
     (\<forall>a. line_ok cfs xb (line_value (sy_line s a)) (sy_line s a) \<and> length (ln_copies (sy_line s a)) = n)"

text \<open>The abstract memory has one value for each block and the last response.\<close>

definition co_abs :: "'d co_system \<Rightarrow> (u64 \<Rightarrow> 'd) \<times> 'd apkt" where
  "co_abs s = (\<lambda>a. line_value (sy_line s a), sy_response s)"

definition memory_spec :: "'d co_event \<Rightarrow> (u64 \<Rightarrow> 'd) \<times> 'd apkt \<Rightarrow> (u64 \<Rightarrow> 'd) \<times> 'd apkt \<Rightarrow> bool" where
  "memory_spec e m m' \<longleftrightarrow>
     (let p = ev_pkt e; a = ev_addr e; v = fst m a; r = snd m' in
      fst m' = (fst m)(a := new_value p (ap_extraData r) v) \<and>
      ap_cmd r = responseCommand (ap_cmd p) \<and> (isRead (ap_cmd p) \<longrightarrow> ap_data r = v))"

lemma evict_line_ok:
  assumes "line_ok cfs xb v ln" "own_copy i ln \<noteq> None" "xb_pointOfCoherency xb"
  shows "\<exists>ln'. evict_line blkSize cfs xb i ln = Some ln' \<and> line_ok cfs xb v ln' \<and> length (ln_copies ln') = length (ln_copies ln)"
proof -
  obtain b where b: "own_copy i ln = Some b" using assms(2) by blast
  then show ?thesis using evicted_ok [OF assms(1,3) b, of blkSize] by (auto simp: evict_line_def)
qed

definition lines_ok :: "(nat \<Rightarrow> protocol_cfg) \<Rightarrow> xbar_cfg \<Rightarrow> nat \<Rightarrow> (u64 \<Rightarrow> 'd) \<Rightarrow> (u64 \<Rightarrow> 'd line) \<Rightarrow> bool" where
  "lines_ok cfs xb n V lns \<longleftrightarrow> (\<forall>a. line_ok cfs xb (V a) (lns a) \<and> length (ln_copies (lns a)) = n)"

lemma lines_ok_update: "lines_ok cfs xb n V lns \<Longrightarrow> line_ok cfs xb v ln \<Longrightarrow> length (ln_copies ln) = n \<Longrightarrow>
   lines_ok cfs xb n (V(a := v)) (lns(a := ln))"
  by (simp add: lines_ok_def)

lemma evict_victims_ok:
  assumes "lines_ok cfs xb n V lns" "xb_pointOfCoherency xb" "distinct as" "list_all (\<lambda>a. own_copy i (lns a) \<noteq> None) as"
  shows "\<exists>lns'. evict_victims blkSize cfs xb i as lns = Some lns' \<and> lines_ok cfs xb n V lns'"
  using assms
proof (induction as arbitrary: lns)
  case (Cons a as)
  obtain ln where ln: "evict_line blkSize cfs xb i (lns a) = Some ln" "line_ok cfs xb (V a) ln" "length (ln_copies ln) = n"
    using evict_line_ok [of cfs xb "V a" "lns a" i blkSize] Cons.prems by (auto simp: lines_ok_def)
  define lns1 where "lns1 = lns(a := ln)"
  have "lines_ok cfs xb n V lns1" using lines_ok_update [OF Cons.prems(1) ln(2,3), of a] by (simp add: lns1_def)
  moreover have "list_all (\<lambda>b. own_copy i (lns1 b) \<noteq> None) as" using Cons.prems(3,4) by (auto simp: list_all_iff lns1_def)
  ultimately show ?case using Cons.IH [of lns1] Cons.prems(2,3) ln(1) by (simp flip: lns1_def)
qed simp

lemma lines_ok_value: "lines_ok cfs xb n V lns \<Longrightarrow> line_value (lns a) = V a"
  using coherent_value line_okD(1) by (fastforce simp: lines_ok_def)

lemma co_step_ok:
  assumes "co_inv cfs xb n s" "co_env blkSize cfs n e s"
  shows "\<exists>s'. co_step blkSize cfs xb e s = Some s' \<and> co_inv cfs xb n s' \<and> memory_spec e (co_abs s) (co_abs s')"
proof -
  let ?p = "ev_pkt e" and ?a = "ev_addr e" and ?i = "ev_cache e" and ?V = "\<lambda>a. line_value (sy_line s a)"
  have lines: "lines_ok cfs xb n ?V (sy_line s)" and poc: "xb_pointOfCoherency xb" and coh: "line_ok cfs xb (?V ?a) (sy_line s ?a)"
    and i: "?i < length (ln_copies (sy_line s ?a))" and len: "length (ln_copies (sy_line s ?a)) = n"
    using assms by (auto simp: co_inv_def lines_ok_def co_env_def)
  obtain r where r: "Cache_recvAtomic blkSize cfs xb ?i (ev_tags e) ?p (sy_line s ?a) = Some r"
    "ap_cmd (mr_pkt r) = responseCommand (ap_cmd ?p)" "co_served cfs xb (?V ?a) n ?p r"
  proof (cases "clean_request ?p")
    case True
    then have "ap_cmd ?p = CleanSharedReq \<or> ap_cmd ?p = CleanInvalidReq" by (simp add: clean_request_def snoop_clean_cmd_def)
    then have "new_value ?p sc v = v" "\<not> isRead (ap_cmd ?p)" for sc v by (auto simp: new_value_def cmd_attribs)
    then show thesis using recv_clean_ok [OF coh i poc True, of blkSize "ev_tags e"] len that by (auto simp: co_served_def)
  next
    case False
    then have "cpu_request blkSize ?p" "replaces_line blkSize ?p" "cf_isReadOnly (cfs ?i) \<longrightarrow> \<not> needsWritable (ap_cmd ?p)"
      using assms(2) by (auto simp: co_env_def)
    then show thesis using recv_ok [OF coh i poc, of blkSize ?p "ev_tags e"] len that by auto
  qed
  let ?W = "?V(?a := new_value ?p (ap_extraData (mr_pkt r)) (?V ?a))"
  define lns1 where "lns1 = (sy_line s)(?a := mr_line r)"
  have lines1: "lines_ok cfs xb n ?W lns1" using lines_ok_update [OF lines] r(3) by (simp add: co_served_def lns1_def)
  have vic: "distinct (ev_victims e)" "list_all (\<lambda>b. own_copy ?i (lns1 b) \<noteq> None) (ev_victims e)"
    using assms(2) by (auto simp: co_env_def list_all_iff lns1_def)
  obtain lns where l: "evict_victims blkSize cfs xb ?i (if mr_allocated r then ev_victims e else []) lns1 = Some lns"
    "lines_ok cfs xb n ?W lns"
    using evict_victims_ok [OF lines1 poc vic, of blkSize] lines1 by (cases "mr_allocated r") auto
  have val: "line_value (lns a) = ?W a" for a using lines_ok_value [OF l(2)] by simp
  have step: "co_step blkSize cfs xb e s = Some \<lparr>sy_line = lns, sy_response = mr_pkt r\<rparr>" (is "_ = Some ?s")
    using r(1) l(1) by (simp add: co_step_def flip: lns1_def)
  have "co_inv cfs xb n ?s" using l(2) poc unfolding co_inv_def lines_ok_def by (simp add: val)
  moreover have "fst (co_abs ?s) = ?W" using val by (auto simp: co_abs_def)
  then have "memory_spec e (co_abs s) (co_abs ?s)"
    using r(2,3) by (simp add: memory_spec_def co_abs_def co_served_def Let_def)
  ultimately show ?thesis using step by blast
qed

interpretation co_machine: refined_machine "co_step blkSize cfs xb" "co_env blkSize cfs n" "co_inv cfs xb n" co_abs memory_spec
  for blkSize :: nat and cfs :: "nat \<Rightarrow> protocol_cfg" and xb :: xbar_cfg and n :: nat
proof unfold_locales
  fix s :: "'a co_system" and e
  assume "co_inv cfs xb n s" "co_env blkSize cfs n e s"
  then show "\<exists>s'. co_step blkSize cfs xb e s = Some s' \<and> co_inv cfs xb n s'" using co_step_ok by blast
next
  fix s s' :: "'a co_system" and e
  assume "co_inv cfs xb n s" "co_env blkSize cfs n e s" "co_step blkSize cfs xb e s = Some s'"
  then show "memory_spec e (co_abs s) (co_abs s')" using co_step_ok by fastforce
qed

text \<open>At the start the caches are empty.\<close>

definition co_init :: "nat \<Rightarrow> (u64 \<Rightarrow> 'd) \<Rightarrow> 'd apkt \<Rightarrow> 'd co_system" where
  "co_init n V r = \<lparr>sy_line = (\<lambda>a. \<lparr>ln_copies = replicate n None, ln_below = \<lparr>be_mem = V a, be_outstandingCMO = [], be_filter = None\<rparr>\<rparr>),
     sy_response = r\<rparr>"

lemma co_init_ok:
  assumes "xb_pointOfCoherency xb" "xb_snoopFilter xb \<longrightarrow> n \<le> 256"
  shows "co_inv cfs xb n (co_init n V r)" "co_abs (co_init n V r) = (V, r)"
proof -
  have none: "own_copy k (sy_line (co_init n V r) a) = None" for k a by (simp add: own_copy_def co_init_def)
  have val: "line_value (sy_line (co_init n V r) a) = V a" for a by (simp add: line_value_def co_init_def map_filter_def)
  have "filter_ok xb (sy_line (co_init n V r) a)" for a
    by (rule filter_okI [where S = "{}"]) (use assms(2) none in \<open>auto simp: co_init_def covers_def\<close>)
  then show "co_inv cfs xb n (co_init n V r)"
    using assms(1) by (simp add: co_inv_def line_ok_def coherent_def none val) (simp add: co_init_def)
  show "co_abs (co_init n V r) = (V, r)" by (simp add: co_abs_def val) (simp add: co_init_def)
qed

text \<open>Two caches, blocks of 64 bytes, and contents that are a single truth value, for the examples.\<close>

definition ex_caches :: "nat \<Rightarrow> protocol_cfg" where
  "ex_caches i = \<lparr>cf_isReadOnly = False, cf_writebackClean = False, cf_mostly_excl = False\<rparr>"

definition ex_xbar :: xbar_cfg where
  "ex_xbar = \<lparr>xb_pointOfCoherency = True, xb_pointOfUnification = False, xb_snoopFilter = True\<rparr>"

definition ex_event :: "nat \<Rightarrow> nat \<Rightarrow> MemCmd \<Rightarrow> nat \<Rightarrow> (bool \<Rightarrow> bool) \<Rightarrow> bool co_event" where
  "ex_event i ctx c sz f = \<lparr>ev_cache = i, ev_addr = 0,
     ev_pkt = (new_packet c 1 sz False)\<lparr>ap_update := f, ap_lock := \<lparr>lr_paddr = 0, lr_size = 8, lr_contextId = ctx\<rparr>\<rparr>,
     ev_tags = \<lparr>ta_alloc = Some False, ta_temp = False, ta_writeAllocates = True\<rparr>, ev_victims = []\<rparr>"

definition ex_start :: "bool co_system" where
  "ex_start = co_init 2 (\<lambda>_. False) (new_packet InvalidCmd 0 0 False)"

definition ex_run :: "bool co_event list \<Rightarrow> bool co_system option" where
  "ex_run es = run (co_step 64 ex_caches ex_xbar) es ex_start"

definition ex_masked :: "bool co_event" where
  "ex_masked = (let e = ex_event 1 1 WriteReq 64 id in e\<lparr>ev_pkt := (ev_pkt e)\<lparr>ap_masked := True\<rparr>\<rparr>)"

definition ex_clean :: "bool co_event" where
  "ex_clean = (let e = ex_event 1 1 CleanInvalidReq 64 id
     in e\<lparr>ev_pkt := (ev_pkt e)\<lparr>ap_cacheMaintenance := True, ap_toPOC := True\<rparr>\<rparr>)"

text \<open>
  C8: the caches implement a memory.  From empty caches above a crossbar that is the point of
  coherency, no assertion fails on any sequence of reads, writes, conditional stores, swaps and
  clean operations, with any evictions; the lines stay coherent; and every response is that
  of a single memory: a read returns the value the last write gave to the block.
\<close>

theorem caches_implement_memory:
  assumes "xb_pointOfCoherency xb" "xb_snoopFilter xb \<longrightarrow> n \<le> 256"
    and "admissible (co_step blkSize cfs xb) (co_env blkSize cfs n) es (co_init n V r)"
  shows "\<exists>s. run (co_step blkSize cfs xb) es (co_init n V r) = Some s \<and> co_inv cfs xb n s \<and>
    spec_run memory_spec es (V, r) (co_abs s)"
  using co_machine.run_refines [OF co_init_ok(1) [OF assms(1,2)] assms(3)] co_init_ok(2) [OF assms(1,2), of V r] by simp

theorem caches_implement_memory_witness:
  "\<exists>s. run (co_step 64 ex_caches ex_xbar) [ex_event 0 0 WriteReq 8 Not, ex_event 1 1 ReadReq 8 id, ex_event 1 1 SwapReq 8 Not,
      ex_event 0 0 WriteLineReq 64 (\<lambda>_. True), ex_clean] ex_start = Some s \<and> co_inv ex_caches ex_xbar 2 s"
proof -
  have "xb_pointOfCoherency ex_xbar" "xb_snoopFilter ex_xbar \<longrightarrow> (2 :: nat) \<le> 256" by (simp_all add: ex_xbar_def)
  moreover have "admissible (co_step 64 ex_caches ex_xbar) (co_env 64 ex_caches 2) [ex_event 0 0 WriteReq 8 Not, ex_event 1 1 ReadReq 8 id,
      ex_event 1 1 SwapReq 8 Not, ex_event 0 0 WriteLineReq 64 (\<lambda>_. True), ex_clean]
      (co_init 2 (\<lambda>_. False) (new_packet InvalidCmd 0 0 False))"
    by code_simp
  ultimately show ?thesis using caches_implement_memory unfolding ex_start_def by blast
qed

text \<open>
  C9: single writer.  In every reachable state a cache that may write a block is the only one
  with a copy of it; otherwise all copies have the same contents and at most one is dirty.
\<close>

theorem single_writer:
  assumes "xb_pointOfCoherency xb" "xb_snoopFilter xb \<longrightarrow> n \<le> 256"
    and "admissible (co_step blkSize cfs xb) (co_env blkSize cfs n) es (co_init n V r)"
    and "run (co_step blkSize cfs xb) es (co_init n V r) = Some s" "own_copy i (sy_line s a) = Some b" "j \<noteq> i"
  shows "if cp_writable b then own_copy j (sy_line s a) = None
    else \<forall>c. own_copy j (sy_line s a) = Some c \<longrightarrow> cp_data c = cp_data b \<and> \<not> (cp_dirty b \<and> cp_dirty c)"
proof -
  have coh: "coherent cfs (line_value (sy_line s a)) (sy_line s a)"
    using co_machine.run_inv [OF co_init_ok(1) [OF assms(1,2)] assms(3,4)] by (simp add: co_inv_def line_ok_def)
  have "\<not> cp_writable b \<and> cp_data c = cp_data b \<and> \<not> (cp_dirty b \<and> cp_dirty c)" if "own_copy j (sy_line s a) = Some c" for c
    using coherent_two [OF coh assms(5) that] coherent_copy [OF coh assms(5)] coherent_copy [OF coh that] assms(6) by auto
  then show ?thesis by (cases "own_copy j (sy_line s a)") auto
qed

theorem single_writer_witness:
  "\<exists>s. run (co_step 64 ex_caches ex_xbar) [ex_event 1 1 ReadReq 8 id, ex_event 0 0 WriteReq 8 Not]
     (co_init 2 (\<lambda>_. False) (new_packet InvalidCmd 0 0 False)) = Some s \<and> own_copy 1 (sy_line s 0) = None"
proof -
  let ?es = "[ex_event 1 1 ReadReq 8 id, ex_event 0 0 WriteReq 8 Not]"
    and ?s = "co_init 2 (\<lambda>_. False) (new_packet InvalidCmd 0 0 False)"
  have poc: "xb_pointOfCoherency ex_xbar" "xb_snoopFilter ex_xbar \<longrightarrow> (2 :: nat) \<le> 256" by (simp_all add: ex_xbar_def)
  have adm: "admissible (co_step 64 ex_caches ex_xbar) (co_env 64 ex_caches 2) ?es ?s" by code_simp
  have "map_option (\<lambda>s. map_option cp_writable (own_copy 0 (sy_line s 0))) (run (co_step 64 ex_caches ex_xbar) ?es ?s) = Some (Some True)"
    by code_simp
  then obtain s b where s: "run (co_step 64 ex_caches ex_xbar) ?es ?s = Some s" "own_copy 0 (sy_line s 0) = Some b" "cp_writable b" by auto
  then show ?thesis using single_writer [OF poc(1,2) adm s(1,2), of 1] by auto
qed

text \<open>
  C23: clean operations.  A clean operation to the point of coherency returns; the memory then
  holds the value of the block and no copy is dirty, and a clean and invalidate operation
  leaves no copy at all.
\<close>

theorem clean_reaches_memory:
  assumes "co_inv cfs xb n s" "co_env blkSize cfs n e s" "clean_request (ev_pkt e)"
  shows "\<exists>s'. co_step blkSize cfs xb e s = Some s' \<and>
    be_mem (ln_below (sy_line s' (ev_addr e))) = line_value (sy_line s (ev_addr e)) \<and>
    (\<forall>k. case own_copy k (sy_line s' (ev_addr e)) of
       Some b \<Rightarrow> ap_cmd (ev_pkt e) = CleanSharedReq \<and> \<not> cp_dirty b
     | None \<Rightarrow> ap_cmd (ev_pkt e) = CleanInvalidReq \<or> own_copy k (sy_line s (ev_addr e)) = None)"
proof -
  let ?ln = "sy_line s (ev_addr e)"
  have pre: "line_ok cfs xb (line_value ?ln) ?ln" "ev_cache e < length (ln_copies ?ln)" "xb_pointOfCoherency xb"
    using assms(1,2) by (auto simp: co_inv_def co_env_def)
  obtain r where r: "Cache_recvAtomic blkSize cfs xb (ev_cache e) (ev_tags e) (ev_pkt e) ?ln = Some r" "\<not> mr_allocated r"
    "be_mem (ln_below (mr_line r)) = line_value ?ln" "\<And>k. own_copy k (mr_line r) = clean_copy (ap_cmd (ev_pkt e)) (own_copy k ?ln)"
    using recv_clean_ok [OF pre assms(3), of blkSize "ev_tags e"] by blast
  have "case own_copy k (mr_line r) of
       Some b \<Rightarrow> ap_cmd (ev_pkt e) = CleanSharedReq \<and> \<not> cp_dirty b
     | None \<Rightarrow> ap_cmd (ev_pkt e) = CleanInvalidReq \<or> own_copy k ?ln = None" for k
    using assms(3) unfolding r(4)
    by (cases "own_copy k ?ln") (auto simp: clean_request_def snoop_clean_cmd_def clean_copy_def)
  then show ?thesis using r by (simp add: co_step_def)
qed

theorem clean_reaches_memory_witness:
  "\<exists>s s'. ex_run [ex_event 0 0 WriteReq 8 Not] = Some s \<and> co_step 64 ex_caches ex_xbar ex_clean s = Some s' \<and>
     be_mem (ln_below (sy_line s' 0)) = True"
proof -
  let ?s0 = "co_init 2 (\<lambda>_. False) (new_packet InvalidCmd 0 0 False)"
  have adm: "admissible (co_step 64 ex_caches ex_xbar) (co_env 64 ex_caches 2) [ex_event 0 0 WriteReq 8 Not] ?s0" by code_simp
  have "map_option (\<lambda>s. (line_value (sy_line s 0), co_env 64 ex_caches 2 ex_clean s)) (ex_run [ex_event 0 0 WriteReq 8 Not]) =
      Some (True, True)" by code_simp
  then obtain s where s: "ex_run [ex_event 0 0 WriteReq 8 Not] = Some s" "line_value (sy_line s 0)" "co_env 64 ex_caches 2 ex_clean s"
    by auto
  have "co_inv ex_caches ex_xbar 2 s"
    using co_machine.run_inv [OF co_init_ok(1) adm, of s] s(1) by (simp add: ex_run_def ex_start_def ex_xbar_def)
  moreover have "clean_request (ev_pkt ex_clean)" "ev_addr ex_clean = 0"
    by (simp_all add: ex_clean_def ex_event_def new_packet_def clean_request_def snoop_clean_cmd_def flags_clear_def Let_def)
  ultimately show ?thesis using clean_reaches_memory [OF _ s(3)] s by auto
qed



end
