(* ===== verification/Filter_Equivalence.thy ===== *)
theory Filter_Equivalence
  imports Coherence
begin

section \<open>The snoop filter is transparent\<close>

text \<open>
  The crossbar with a snoop filter asks only the caches the filter names, and asks no cache about an
  eviction.  Here its runs are compared with those of the crossbar that asks every cache:
  every response, the blocks of every cache and the memory are the same.
\<close>

definition without_filter :: "xbar_cfg \<Rightarrow> xbar_cfg" where
  "without_filter xb = xb\<lparr>xb_snoopFilter := False\<rparr>"

definition strip_below :: "'d below \<Rightarrow> 'd below" where
  "strip_below be = be\<lparr>be_filter := None\<rparr>"

definition strip :: "'d line \<Rightarrow> 'd line" where
  "strip ln = ln\<lparr>ln_below := strip_below (ln_below ln)\<rparr>"

definition strip_result :: "'d miss_result \<Rightarrow> 'd miss_result" where
  "strip_result r = r\<lparr>mr_line := strip (mr_line r)\<rparr>"

definition strip_system :: "'d co_system \<Rightarrow> 'd co_system" where
  "strip_system s = s\<lparr>sy_line := \<lambda>a. strip (sy_line s a)\<rparr>"

lemma without_filter_simps [simp]:
  "xb_pointOfCoherency (without_filter xb) = xb_pointOfCoherency xb" "\<not> xb_snoopFilter (without_filter xb)"
  by (simp_all add: without_filter_def)

lemma strip_simps [simp]:
  "be_mem (strip_below be) = be_mem be" "be_outstandingCMO (strip_below be) = be_outstandingCMO be"
  "be_filter (strip_below be) = None" "ln_copies (strip ln) = ln_copies ln" "ln_below (strip ln) = strip_below (ln_below ln)"
  "own_copy i (strip ln) = own_copy i ln" "holders (strip ln) = holders ln"
  "set_copy i blk (strip ln) = strip (set_copy i blk ln)" "invalidate_own c i (strip ln) = strip (invalidate_own c i ln)"
  "plain_result p (strip ln) = strip_result (plain_result p ln)"
  by (simp_all add: strip_below_def strip_def own_copy_def holders_def set_copy_def invalidate_own_def plain_result_def strip_result_def)

lemma strip_result_simps [simp]:
  "mr_line (strip_result r) = strip (mr_line r)" "mr_pkt (strip_result r) = mr_pkt r"
  "mr_temp (strip_result r) = mr_temp r" "mr_allocated (strip_result r) = mr_allocated r"
  by (simp_all add: strip_result_def)

lemma plain_result_simps [simp]:
  "mr_line (plain_result p ln) = ln" "mr_pkt (plain_result p ln) = p" "\<not> mr_temp (plain_result p ln)" "\<not> mr_allocated (plain_result p ln)"
  by (simp_all add: plain_result_def)

lemma strip_belowI: "be_mem be0 = be_mem be \<Longrightarrow> be_outstandingCMO be0 = be_outstandingCMO be \<Longrightarrow> be_filter be0 = None \<Longrightarrow>
   be0 = strip_below be"
  by (simp add: strip_below_def)

lemma coherent_strip [simp]: "coherent cfs v (strip ln) \<longleftrightarrow> coherent cfs v ln"
  by (simp add: coherent_def)

lemma filter_ok_strip [simp]: "filter_ok (without_filter xb) ln"
  by (simp add: filter_ok_def)

subsection \<open>Without a filter its entry stays as it is\<close>

lemma serve_keeps: "\<not> xb_snoopFilter xb \<Longrightarrow> xbar_serve xb src rc p be = Some (q, be') \<Longrightarrow> be_filter be' = be_filter be"
  by (auto simp: xbar_serve_def filter_response_def split: bind_splits)

lemma writecleans_keep: "\<not> xb_snoopFilter xb \<Longrightarrow> xbar_writecleans xb j ws be = Some be' \<Longrightarrow> be_filter be' = be_filter be"
proof (induction ws arbitrary: be)
  case (Cons w ws)
  then obtain q be1 where "xbar_serve xb j InvalidCmd w be = Some (q, be1)" "xbar_writecleans xb j ws be1 = Some be'"
    by (auto split: bind_splits if_split_asm)
  then show ?case using Cons.IH [of be1] Cons.prems(1) serve_keeps by fastforce
qed simp

lemma forward_keeps:
  "\<not> xb_snoopFilter xb \<Longrightarrow> forwardAtomic blkSize cfs xb src ds j blks p rc be = Some (blks', p', rc', be') \<Longrightarrow>
   be_filter be' = be_filter be"
proof (induction blks arbitrary: j p rc be blks' p' rc' be')
  case (Cons blk blks)
  then show ?case using writecleans_keep [OF Cons.prems(1)] by (fastforce split: bind_splits if_split_asm)
qed simp

lemma snoop_keeps:
  "\<not> xb_snoopFilter xb \<Longrightarrow> xbar_snoop blkSize cfs xb src p ln = Some (blks, q, rc, be) \<Longrightarrow> be_filter be = be_filter (ln_below ln)"
  using forward_keeps by (fastforce simp: xbar_snoop_def Let_def)

lemma recv_keeps:
  "\<not> xb_snoopFilter xb \<Longrightarrow> xbar_recvAtomic blkSize cfs xb src p ln = Some (q, ln') \<Longrightarrow>
   be_filter (ln_below ln') = be_filter (ln_below ln)"
  using snoop_keeps [of xb blkSize cfs src p ln] serve_keeps [of xb]
  by (fastforce simp: xbar_recvAtomic_def split: bind_splits if_split_asm)

subsection \<open>The crossbar\<close>

lemma destination_same: "isDestination (without_filter xb) p = isDestination xb p"
  by (simp add: isDestination_def without_filter_def)

lemma forward_same: "xbar_forward (without_filter xb) p m = xbar_forward xb p m"
proof -
  have "sinkPacket (without_filter xb) p = sinkPacket xb p" by (simp only: sinkPacket_def without_filter_simps)
  moreover have "forwardPacket (without_filter xb) p = forwardPacket xb p"
    by (simp only: forwardPacket_def destination_same without_filter_simps)
  ultimately show ?thesis by (simp only: xbar_forward_def destination_same)
qed

lemma settle_same: "settle_CMO (without_filter xb) p cmo = settle_CMO xb p cmo"
  by (simp only: settle_CMO_def destination_same)

lemma serve_same:
  "xbar_serve xb src rc p be = Some (q, be') \<Longrightarrow>
   xbar_serve (without_filter xb) src rc p (strip_below be) = Some (q, strip_below be')"
  by (auto simp: xbar_serve_def forward_same settle_same filter_response_def strip_below_def split: bind_splits)

text \<open>The crossbars agree on a packet.\<close>

definition same_recv :: "nat \<Rightarrow> (nat \<Rightarrow> protocol_cfg) \<Rightarrow> xbar_cfg \<Rightarrow> nat \<Rightarrow> 'd line \<Rightarrow> 'd apkt \<Rightarrow> bool" where
  "same_recv blkSize cfs xb i ln p \<longleftrightarrow>
     xbar_recvAtomic blkSize cfs (without_filter xb) i p (strip ln) = map_option (map_prod id strip) (xbar_recvAtomic blkSize cfs xb i p ln)"

lemma same_recvI:
  assumes "xbar_snoop blkSize cfs xb i p ln = Some (blks, p1, rc, be)"
    and "xbar_snoop blkSize cfs (without_filter xb) i p (strip ln) = Some (blks, p1, rc, be0)"
    and "be_mem be0 = be_mem be" "be_outstandingCMO be0 = be_outstandingCMO be" "ap_cmd p \<noteq> WriteClean"
    and "xbar_recvAtomic blkSize cfs xb i p ln \<noteq> None"
  shows "same_recv blkSize cfs xb i ln p"
proof -
  have "be_filter be0 = None" using snoop_keeps [OF _ assms(2)] by simp
  then have "be0 = strip_below be" using assms(3,4) by (intro strip_belowI)
  then show ?thesis using assms(1,2,5,6) serve_same [of xb i rc p1 be]
    by (auto simp: same_recv_def xbar_recvAtomic_def strip_def split: bind_splits)
qed

text \<open>The requests a cache sends below for a miss.\<close>

definition bus_request :: "nat \<Rightarrow> 'd line \<Rightarrow> 'd apkt \<Rightarrow> bool" where
  "bus_request i ln p \<longleftrightarrow> i < length (ln_copies ln) \<and> flags_clear p \<and> \<not> ap_cacheMaintenance p \<and>
     (snoop_read_cmd (ap_cmd p) \<and> own_copy i ln = None \<or>
      snoop_inv_cmd (ap_cmd p) \<and> (ap_cmd p = ReadExReq \<longrightarrow> own_copy i ln = None))"

lemma request_same:
  assumes "line_ok cfs xb v ln" "xb_pointOfCoherency xb" "bus_request i ln p"
  shows "same_recv blkSize cfs xb i ln p"
proof -
  note coh = line_okD(1) [OF assms(1)] and flt = line_okD(2) [OF assms(1)]
  have coh0: "coherent cfs v (strip ln)" using coh by simp
  have i: "i < length (ln_copies ln)" "i < length (ln_copies (strip ln))" and flags: "\<not> ap_uncacheable p" "\<not> ap_cacheResponding p"
    "\<not> ap_responderHadWritable p" "\<not> ap_hasSharers p" and clear: "flags_clear p" "\<not> ap_cacheMaintenance p"
    using assms(3) by (auto simp: bus_request_def flags_clear_def)
  consider "snoop_read_cmd (ap_cmd p)" "own_copy i ln = None" |
      "snoop_inv_cmd (ap_cmd p)" "ap_cmd p = ReadExReq \<longrightarrow> own_copy i ln = None"
    using assms(3) by (auto simp: bus_request_def)
  then show ?thesis
  proof cases
    case 1
    have cmd: "fromCache (ap_cmd p)" "needsResponse (ap_cmd p)" "\<not> isEviction (ap_cmd p)" "ap_cmd p \<noteq> WriteClean"
      using 1(1) by (auto simp: snoop_read_cmd_def cmd_attribs)
    note sn = read_snoop.snoop_line [OF _ _ _ 1(1) flags(1) TrueI cmd(1-3) flags(2-4), of cfs v _ _ i blkSize]
    have "xbar_recvAtomic blkSize cfs xb i p ln \<noteq> None" using xbar_read [OF coh 1(2) assms(2) flt i(1) 1(1) clear, of blkSize] by auto
    then show ?thesis using sn [OF coh flt i(1)] sn [OF coh0 filter_ok_strip i(2), of xb] same_recvI [OF _ _ _ _ cmd(4)] by fastforce
  next
    case 2
    have cmd: "fromCache (ap_cmd p)" "needsResponse (ap_cmd p)" "\<not> isEviction (ap_cmd p)" "ap_cmd p \<noteq> WriteClean"
      using 2(1) by (auto simp: snoop_inv_cmd_def cmd_attribs)
    note sn = inv_snoop.snoop_line [OF _ _ _ 2(1) flags(1) TrueI cmd(1-3) flags(2-4), of cfs v _ _ i blkSize]
    have "xbar_recvAtomic blkSize cfs xb i p ln \<noteq> None" using xbar_inv [OF coh 2(2) assms(2) flt i(1) 2(1) clear, of blkSize] by auto
    then show ?thesis using sn [OF coh flt i(1)] sn [OF coh0 filter_ok_strip i(2), of xb] same_recvI [OF _ _ _ _ cmd(4)] by fastforce
  qed
qed

lemma writeback_same:
  "same_recv blkSize cfs xb i ln w \<Longrightarrow> doWritebacksAtomic blkSize cfs (without_filter xb) i [w] (strip ln) =
   map_option strip (doWritebacksAtomic blkSize cfs xb i [w] ln)"
  by (cases "xbar_recvAtomic blkSize cfs xb i w ln") (auto simp: same_recv_def)

lemma writeclean_same:
  "ap_cmd w = WriteClean \<Longrightarrow> xbar_recvAtomic blkSize cfs xb i w ln \<noteq> None \<Longrightarrow> same_recv blkSize cfs xb i ln w"
  using serve_same [of xb i InvalidCmd w "ln_below ln"]
  by (auto simp: same_recv_def xbar_recvAtomic_def strip_def split: bind_splits)

text \<open>The packet of an eviction may come back with another flag, which nobody reads.\<close>

lemma evict_same:
  assumes "line_ok cfs xb v ln" "xb_pointOfCoherency xb" "own_copy i ln = Some b" "co_evictBlock blkSize (cfs i) b = Some wb"
  shows "doWritebacksAtomic blkSize cfs (without_filter xb) i [wb] (strip (set_copy i None ln)) =
    map_option strip (doWritebacksAtomic blkSize cfs xb i [wb] (set_copy i None ln))"
proof -
  note coh = line_okD(1) [OF assms(1)] and flt = line_okD(2) [OF assms(1)]
  have coh0: "coherent cfs v (strip ln)" and own0: "own_copy i (strip ln) = Some b" using coh assms(3) by simp_all
  obtain be where a: "doWritebacksAtomic blkSize cfs xb i [wb] (set_copy i None ln) = Some ((set_copy i None ln)\<lparr>ln_below := be\<rparr>)"
    "be_mem be = (if cp_dirty b then v else be_mem (ln_below ln))" "be_outstandingCMO be = []"
    using xbar_evict [OF coh flt assms(2,3), of blkSize] assms(4) by auto
  obtain be0 where c: "doWritebacksAtomic blkSize cfs (without_filter xb) i [wb] (set_copy i None (strip ln)) =
      Some ((set_copy i None (strip ln))\<lparr>ln_below := be0\<rparr>)"
    "be_mem be0 = (if cp_dirty b then v else be_mem (ln_below ln))" "be_outstandingCMO be0 = []"
    using xbar_evict [OF coh0 filter_ok_strip _ own0, of xb blkSize] assms(2,4) by auto
  have "be_filter be0 = None"
    using c(1) recv_keeps [of "without_filter xb" blkSize cfs i wb] by (fastforce split: bind_splits)
  then have "be0 = strip_below be" using a c by (intro strip_belowI) simp_all
  then have "strip ((set_copy i None ln)\<lparr>ln_below := be\<rparr>) = (strip (set_copy i None ln))\<lparr>ln_below := be0\<rparr>" by (simp add: strip_def)
  then show ?thesis using c(1) unfolding a(1) strip_simps by simp
qed

subsection \<open>The caches\<close>

lemma fill_same: "fill_and_satisfy blkSize cf i al ta clu p q (strip ln) = map_option strip_result (fill_and_satisfy blkSize cf i al ta clu p q ln)"
  by (auto simp: fill_and_satisfy_def strip_result_def Let_def split: bind_splits)

text \<open>The packet a miss sends, if it sends one.\<close>

lemma miss_same:
  assumes "\<not> isEviction (ap_cmd p)" "ap_cmd p \<noteq> WriteClean" "\<not> ap_uncacheable p"
    and "createMissPacket blkSize (cfs i) p (own_copy i ln) (needsWritable (ap_cmd p)) (isWholeLineWrite blkSize p) = Some bp"
    and "same_recv blkSize cfs xb i ln (case bp of None \<Rightarrow> p | Some q \<Rightarrow> q)"
  shows "handleAtomicReqMiss blkSize cfs (without_filter xb) i ta p (strip ln) =
    map_option strip_result (handleAtomicReqMiss blkSize cfs xb i ta p ln)"
proof (cases bp)
  case None
  then show ?thesis using assms unfolding same_recv_def
    by (cases "xbar_recvAtomic blkSize cfs xb i p ln") (auto simp: handleAtomicReqMiss_def)
next
  case (Some q)
  show ?thesis
  proof (cases "xbar_recvAtomic blkSize cfs xb i q ln")
    case None
    then show ?thesis using assms Some unfolding same_recv_def by (simp add: handleAtomicReqMiss_def)
  next
    case recv: (Some x)
    obtain q1 ln1 where x: "x = (q1, ln1)" by force
    have inv: "r\<lparr>mr_line := invalidate_own c i (strip l)\<rparr> = strip_result (r\<lparr>mr_line := invalidate_own c i l\<rparr>)" for r :: "'a miss_result" and c l
      by (simp add: strip_result_def)
    show ?thesis using assms Some recv x unfolding same_recv_def
      by (auto simp: handleAtomicReqMiss_def fill_same inv option.map_comp comp_def split: bind_splits)
  qed
qed

lemma miss_sends:
  assumes "cpu_request blkSize p" "i < length (ln_copies ln)" "\<And>d. own_copy i ln = Some d \<Longrightarrow> needsWritable (ap_cmd p) \<and> \<not> cp_writable d"
  shows "\<exists>c. createMissPacket blkSize (cfs i) p (own_copy i ln) (needsWritable (ap_cmd p)) (isWholeLineWrite blkSize p) =
      Some (Some (miss_packet blkSize c p)) \<and> bus_request i ln (miss_packet blkSize c p)"
proof -
  have cpu: "cpu_cmd (ap_cmd p)" "\<not> ap_uncacheable p" "\<not> ap_hasSharers p" "\<not> ap_cacheMaintenance p"
    using assms(1) by (auto simp: cpu_request_def flags_clear_def)
  note at = cpu_cmd_attribs [OF cpu(1)]
  have wl: "ap_cmd p \<noteq> WriteLineReq \<or> isWholeLineWrite blkSize p"
    using assms(1) by (auto simp: cpu_request_def isWholeLineWrite_def)
  have bus: "snoop_read_cmd c \<and> own_copy i ln = None \<or> snoop_inv_cmd c \<and> (c = ReadExReq \<longrightarrow> own_copy i ln = None) \<Longrightarrow>
      bus_request i ln (miss_packet blkSize c p)" for c
    using assms(2) cpu by (simp add: bus_request_def)
  obtain c where c: "miss_command (cfs i) p (own_copy i ln) (needsWritable (ap_cmd p)) (isWholeLineWrite blkSize p) = Some c"
    "snoop_read_cmd c \<and> own_copy i ln = None \<or> snoop_inv_cmd c \<and> (c = ReadExReq \<longrightarrow> own_copy i ln = None)"
    using assms(3) at wl
    by (cases "own_copy i ln"; cases "isWholeLineWrite blkSize p"; cases "needsWritable (ap_cmd p)"; cases "isLLSC (ap_cmd p)";
        cases "cf_isReadOnly (cfs i) \<or> cf_mostly_excl (cfs i)")
      (auto simp: miss_command_def c_assert_def snoop_read_cmd_def snoop_inv_cmd_def)
  then show ?thesis using bus [of c] cpu at by (auto simp: createMissPacket_def c_assert_def)
qed

lemma drop_temp_same:
  assumes "line_ok cfs xb v ln" "xb_pointOfCoherency xb"
  shows "drop_temp blkSize cfs (without_filter xb) i (strip ln) = map_option strip (drop_temp blkSize cfs xb i ln)"
proof (cases "own_copy i ln")
  case (Some b)
  then show ?thesis using evict_same [OF assms Some, of blkSize]
    by (cases "co_evictBlock blkSize (cfs i) b") (simp_all add: drop_temp_def)
qed (simp add: drop_temp_def)

lemma base_same:
  assumes "line_ok cfs xb v ln" "i < length (ln_copies ln)" "xb_pointOfCoherency xb" "cpu_request blkSize p" "replaces_line blkSize p"
    and "cf_isReadOnly (cfs i) \<longrightarrow> \<not> needsWritable (ap_cmd p)"
  shows "BaseCache_recvAtomic blkSize cfs (without_filter xb) i ta p (strip ln) =
    map_option strip_result (BaseCache_recvAtomic blkSize cfs xb i ta p ln)"
proof -
  have cpu: "cpu_cmd (ap_cmd p)" "\<not> ap_uncacheable p" using assms(4) by (simp_all add: cpu_request_def flags_clear_def)
  note at = cpu_cmd_attribs [OF cpu(1)]
  have clean: "clean_own blkSize q blk = Some (q, blk, [])" if "ap_cmd q = ap_cmd p" for q :: "'a apkt" and blk
    using that at(3) by (simp add: clean_own_def split: option.split)
  show ?thesis
  proof (cases "\<exists>d. own_copy i ln = Some d \<and> (needsWritable (ap_cmd p) \<longrightarrow> cp_writable d)")
    case True
    then obtain d where d: "own_copy i ln = Some d" "needsWritable (ap_cmd p) \<longrightarrow> cp_writable d" by blast
    obtain p1 b1 where "Cache_access blkSize (cfs i) (ta_alloc ta) p (own_copy i ln) =
        Some \<lparr>ar_satisfied = True, ar_pkt = p1, ar_blk = Some b1, ar_writebacks = [], ar_allocated = False\<rparr>" "ap_cmd p1 = ap_cmd p"
      using access_hit [OF assms(1) d(1) assms(4) d(2) assms(6)] by blast
    then show ?thesis using clean [of p1] by (auto simp: BaseCache_recvAtomic_def strip_result_def split: bind_splits)
  next
    case False
    have acc: "Cache_access blkSize (cfs i) (ta_alloc ta) p (own_copy i ln) =
      Some (if own_copy i ln = None \<and> ap_cmd p = StoreCondReq
          then \<lparr>ar_satisfied = True, ar_pkt = p\<lparr>ap_extraData := False\<rparr>, ar_blk = None, ar_writebacks = [], ar_allocated = False\<rparr>
          else \<lparr>ar_satisfied = False, ar_pkt = p, ar_blk = own_copy i ln, ar_writebacks = [], ar_allocated = False\<rparr>)"
      using access_miss [OF assms(4,6), of "own_copy i ln"] False coherent_copy [OF line_okD(1) [OF assms(1)], of i] by auto
    show ?thesis
    proof (cases "own_copy i ln = None \<and> ap_cmd p = StoreCondReq")
      case True
      then show ?thesis using acc clean [of "p\<lparr>ap_extraData := False\<rparr>"]
        by (auto simp: BaseCache_recvAtomic_def strip_result_def split: bind_splits)
    next
      case sc: False
      obtain r where r: "handleAtomicReqMiss blkSize cfs xb i ta p ln = Some r" "co_served cfs xb v (length (ln_copies ln)) p r"
        using miss_served [OF assms] False by blast
      obtain c where c: "createMissPacket blkSize (cfs i) p (own_copy i ln) (needsWritable (ap_cmd p)) (isWholeLineWrite blkSize p) =
          Some (Some (miss_packet blkSize c p))" "bus_request i ln (miss_packet blkSize c p)"
        using miss_sends [OF assms(4,2)] False by blast
      have "handleAtomicReqMiss blkSize cfs (without_filter xb) i ta p (strip ln) = Some (strip_result r)"
        using miss_same [where cfs = cfs and i = i, OF at(1,8) cpu(2) c(1), of xb ta] request_same [OF assms(1,3) c(2)] r(1) by simp
      moreover have "drop_temp blkSize cfs (without_filter xb) i (strip (mr_line r)) = map_option strip (drop_temp blkSize cfs xb i (mr_line r))"
        by (rule drop_temp_same [OF conjunct1 [OF r(2) [unfolded co_served_def]] assms(3)])
      ultimately show ?thesis using acc sc clean [of p] r(1)
        by (auto simp: BaseCache_recvAtomic_def strip_result_def split: bind_splits)
    qed
  qed
qed

lemma recv_same:
  assumes "line_ok cfs xb v ln" "i < length (ln_copies ln)" "xb_pointOfCoherency xb" "cpu_request blkSize p" "replaces_line blkSize p"
    and "cf_isReadOnly (cfs i) \<longrightarrow> \<not> needsWritable (ap_cmd p)"
  shows "Cache_recvAtomic blkSize cfs (without_filter xb) i ta p (strip ln) =
    map_option strip_result (Cache_recvAtomic blkSize cfs xb i ta p ln)"
proof -
  let ?p = "promoteWholeLineWrites blkSize p"
  have q: "cpu_request blkSize ?p" "replaces_line blkSize ?p" "needsWritable (ap_cmd ?p) = needsWritable (ap_cmd p)" "\<not> ap_cacheResponding ?p"
    using assms(4,5)
    by (auto simp: promoteWholeLineWrites_def cpu_request_def cpu_cmd_def flags_clear_def replaces_line_def isWholeLineWrite_def cmd_attribs)
  then show ?thesis using base_same [OF assms(1-3) q(1,2), of ta] assms(6) by (simp add: Cache_recvAtomic_def Let_def)
qed

text \<open>A clean operation: the write to the memory and the operation that follows it.\<close>

lemma clean_bus_same:
  assumes "coherent cfs v ln" "clean_request p" "xb_pointOfCoherency xb" "filter_ok xb L" "i < length (ln_copies L)"
    and "others i 0 (ln_copies L) = others i 0 (ln_copies ln)"
    and "be_outstandingCMO (ln_below L) = (if sat then [ap_id p] else [])" "sat \<longrightarrow> dirty_others i 0 (ln_copies ln) = []"
  shows "same_recv blkSize cfs xb i L (p\<lparr>ap_satisfied := sat\<rparr>)"
proof -
  let ?p = "p\<lparr>ap_satisfied := sat\<rparr>"
  have p: "snoop_clean_cmd (ap_cmd ?p)" "\<not> ap_uncacheable ?p" "ap_toPOC ?p" "\<not> ap_cacheResponding ?p" "ap_cacheMaintenance ?p"
    using assms(2) by (auto simp: clean_request_def flags_clear_def)
  have d: "length (dirty_others i 0 (ln_copies L)) \<le> 1" "length (dirty_others i 0 (ln_copies (strip L))) \<le> 1"
    using coherent_one_dirty [OF assms(1), of i] assms(6) by simp_all
  have c: "be_outstandingCMO (ln_below L) = (if ap_satisfied ?p then [ap_id ?p] else [])"
      "be_outstandingCMO (ln_below (strip L)) = (if ap_satisfied ?p then [ap_id ?p] else [])"
      "ap_satisfied ?p \<longrightarrow> dirty_others i 0 (ln_copies L) = []" "ap_satisfied ?p \<longrightarrow> dirty_others i 0 (ln_copies (strip L)) = []"
    using assms(6-8) by simp_all
  have poc: "xb_pointOfCoherency (without_filter xb)" and i: "i < length (ln_copies (strip L))" using assms(3,5) by simp_all
  obtain e where a: "xbar_snoop blkSize cfs xb i ?p L = Some (snooped (clean_copy (ap_cmd ?p)) i 0 (ln_copies L),
      after_clean (dirty_others i 0 (ln_copies L)) ?p, InvalidCmd,
      below_clean (dirty_others i 0 (ln_copies L)) ?p (ln_below L\<lparr>be_filter := e\<rparr>))"
    using snoop_clean [OF p(1-3) assms(3) p(4) d(1) assms(4,5) c(1,3)] by blast
  obtain e0 where b: "xbar_snoop blkSize cfs (without_filter xb) i ?p (strip L) = Some (snooped (clean_copy (ap_cmd ?p)) i 0 (ln_copies L),
      after_clean (dirty_others i 0 (ln_copies L)) ?p, InvalidCmd,
      below_clean (dirty_others i 0 (ln_copies L)) ?p (ln_below (strip L)\<lparr>be_filter := e0\<rparr>))"
    using snoop_clean [OF p(1-3) poc p(4) d(2) filter_ok_strip i c(2,4), of blkSize cfs, unfolded strip_simps(4)] by blast
  have "xbar_recvAtomic blkSize cfs xb i ?p L \<noteq> None"
    using xbar_clean [OF p(1-3) assms(3) p(4) d(1) assms(4,5) c(1,3) p(5), of blkSize cfs] by auto
  moreover have "ap_cmd ?p \<noteq> WriteClean" using p(1) by (auto simp: snoop_clean_cmd_def)
  ultimately show ?thesis
    by (intro same_recvI [OF a b]) (cases "dirty_others i 0 (ln_copies L)"; simp add: written_below_def)+
qed

lemma clean_own_writes:
  "clean_own blkSize p blk = Some (q, blk', ws) \<Longrightarrow> ws = [] \<or> (\<exists>w. ws = [w] \<and> ap_cmd w = WriteClean)"
  by (auto simp: clean_own_def co_writecleanBlk_def setWriteThrough_def setHasSharers_def new_packet_def Let_def
    split: option.splits bind_splits if_split_asm)

lemma clean_writes_same:
  assumes "ws = [] \<or> (\<exists>w. ws = [w] \<and> ap_cmd w = WriteClean)" "doWritebacksAtomic blkSize cfs xb i ws ln = Some L"
  shows "doWritebacksAtomic blkSize cfs (without_filter xb) i ws (strip ln) = Some (strip L)"
proof (cases ws)
  case (Cons w ws')
  then have w: "ws = [w]" "ap_cmd w = WriteClean" using assms(1) by auto
  moreover have "xbar_recvAtomic blkSize cfs xb i w ln \<noteq> None" using assms(2) w(1) by (auto split: bind_splits)
  ultimately show ?thesis using writeback_same [OF writeclean_same, of w blkSize cfs xb i ln] assms(2) by simp
qed (use assms(2) in simp)

lemma recv_clean_same:
  assumes "line_ok cfs xb v ln" "i < length (ln_copies ln)" "xb_pointOfCoherency xb" "clean_request p"
  shows "Cache_recvAtomic blkSize cfs (without_filter xb) i ta p (strip ln) =
    map_option strip_result (Cache_recvAtomic blkSize cfs xb i ta p ln)"
proof -
  note coh = line_okD(1) [OF assms(1)] and flt = line_okD(2) [OF assms(1)]
  have p: "isClean (ap_cmd p)" "isRequest (ap_cmd p)" "\<not> isWrite (ap_cmd p)" "\<not> isEviction (ap_cmd p)" "ap_cmd p \<noteq> WriteClean"
      "\<not> ap_uncacheable p" "ap_cacheMaintenance p" "\<not> ap_cacheResponding p" "promoteWholeLineWrites blkSize p = p"
    using assms(4) by (auto simp: clean_request_def snoop_clean_cmd_def flags_clear_def promoteWholeLineWrites_def cmd_attribs)
  obtain blk ws be sat where o: "clean_own blkSize p (own_copy i ln) = Some (p\<lparr>ap_satisfied := sat\<rparr>, blk, ws)"
      "doWritebacksAtomic blkSize cfs xb i ws (set_copy i blk ln) = Some ((set_copy i blk ln)\<lparr>ln_below := be\<rparr>)"
      "be_filter be = be_filter (ln_below ln)" "own_copy i ln = None \<longrightarrow> blk = None"
      "be_outstandingCMO be = (if sat then [ap_id p] else [])"
      "if sat then be_mem be = v \<and> dirty_others i 0 (ln_copies ln) = []
       else be = ln_below ln \<and> (\<forall>b. own_copy i ln = Some b \<longrightarrow> \<not> cp_dirty b)"
    using clean_own_ok [OF coh assms(2-4), of blkSize] by (elim exE conjE) (rule that, assumption+)
  let ?p = "p\<lparr>ap_satisfied := sat\<rparr>" and ?L = "(set_copy i blk ln)\<lparr>ln_below := be\<rparr>"
  have fltL: "filter_ok xb ?L"
    by (rule filter_okI [where S = "holders ln"])
      (use flt o(3,4) in \<open>auto simp: filter_ok_def holders_def own_set_copy split: if_split_asm\<close>)
  have same: "same_recv blkSize cfs xb i ?L ?p"
    by (rule clean_bus_same [OF coh assms(4,3) fltL]) (use assms(2) o(5,6) in \<open>auto simp: set_copy_def others_update split: if_split_asm\<close>)
  have miss: "handleAtomicReqMiss blkSize cfs (without_filter xb) i ta ?p (strip ?L) =
      map_option strip_result (handleAtomicReqMiss blkSize cfs xb i ta ?p ?L)"
    by (rule miss_same [where bp = None]) (use p same in \<open>simp_all add: createMissPacket_def c_assert_def\<close>)
  have temp: "\<not> mr_temp r" if "handleAtomicReqMiss blkSize cfs xb i ta ?p ?L = Some r" for r
    using that p by (auto simp: handleAtomicReqMiss_def createMissPacket_def c_assert_def split: bind_splits)
  have wr: "doWritebacksAtomic blkSize cfs (without_filter xb) i ws (strip (set_copy i blk ln)) = Some (strip ?L)"
    using clean_writes_same [OF clean_own_writes [OF o(1)] o(2)] .
  have acc: "Cache_access blkSize (cfs i) (ta_alloc ta) p blk =
      Some \<lparr>ar_satisfied = False, ar_pkt = p, ar_blk = blk, ar_writebacks = [], ar_allocated = False\<rparr>" for blk
    using p(2,3,6,7) by (simp add: Cache_access_def BaseCache_access_def c_assert_def)
  show ?thesis using p(8,9) acc o(1,2) wr miss temp
    by (cases "handleAtomicReqMiss blkSize cfs xb i ta ?p ?L")
      (simp_all add: Cache_recvAtomic_def BaseCache_recvAtomic_def strip_result_def Let_def split: bind_split)
qed

subsection \<open>The system\<close>

lemma evict_line_same:
  assumes "line_ok cfs xb v ln" "xb_pointOfCoherency xb"
  shows "evict_line blkSize cfs (without_filter xb) i (strip ln) = map_option strip (evict_line blkSize cfs xb i ln)"
proof (cases "own_copy i ln")
  case (Some b)
  then show ?thesis using evict_same [OF assms Some, of blkSize]
    by (cases "co_evictBlock blkSize (cfs i) b") (simp_all add: evict_line_def)
qed (simp add: evict_line_def)

lemma evict_victims_same:
  assumes "lines_ok cfs xb n V lns" "xb_pointOfCoherency xb" "distinct as" "list_all (\<lambda>a. own_copy i (lns a) \<noteq> None) as"
  shows "evict_victims blkSize cfs (without_filter xb) i as (\<lambda>a. strip (lns a)) =
    map_option (\<lambda>lns' a. strip (lns' a)) (evict_victims blkSize cfs xb i as lns)"
  using assms
proof (induction as arbitrary: lns)
  case (Cons a as)
  have ok: "line_ok cfs xb (V a) (lns a)" using Cons.prems(1) by (simp add: lines_ok_def)
  obtain ln where ln: "evict_line blkSize cfs xb i (lns a) = Some ln" "line_ok cfs xb (V a) ln" "length (ln_copies ln) = n"
    using evict_line_ok [of cfs xb "V a" "lns a" i blkSize] Cons.prems by (auto simp: lines_ok_def)
  define lns1 where "lns1 = lns(a := ln)"
  have "lines_ok cfs xb n V lns1" using lines_ok_update [OF Cons.prems(1) ln(2,3), of a] by (simp add: lns1_def)
  moreover have "list_all (\<lambda>b. own_copy i (lns1 b) \<noteq> None) as" using Cons.prems(3,4) by (auto simp: list_all_iff lns1_def)
  moreover have "(\<lambda>b. strip (lns b))(a := strip ln) = (\<lambda>b. strip (lns1 b))" by (auto simp: lns1_def)
  ultimately show ?case using Cons.IH [of lns1] Cons.prems(2,3) ln(1) evict_line_same [OF ok Cons.prems(2), of blkSize i]
    by (simp flip: lns1_def)
qed simp

lemma co_step_same:
  assumes "co_inv cfs xb n s" "co_env blkSize cfs n e s" "co_step blkSize cfs xb e s = Some s'"
  shows "co_step blkSize cfs (without_filter xb) e (strip_system s) = Some (strip_system s')"
proof -
  let ?p = "ev_pkt e" and ?a = "ev_addr e" and ?i = "ev_cache e" and ?V = "\<lambda>a. line_value (sy_line s a)"
  have lines: "lines_ok cfs xb n ?V (sy_line s)" and poc: "xb_pointOfCoherency xb" and ok: "line_ok cfs xb (?V ?a) (sy_line s ?a)"
    and i: "?i < length (ln_copies (sy_line s ?a))" and len: "length (ln_copies (sy_line s ?a)) = n"
    using assms(1,2) by (auto simp: co_inv_def lines_ok_def co_env_def)
  obtain r where r: "Cache_recvAtomic blkSize cfs xb ?i (ev_tags e) ?p (sy_line s ?a) = Some r"
    "Cache_recvAtomic blkSize cfs (without_filter xb) ?i (ev_tags e) ?p (strip (sy_line s ?a)) = Some (strip_result r)"
    "\<exists>v. line_ok cfs xb v (mr_line r) \<and> length (ln_copies (mr_line r)) = n"
  proof (cases "clean_request ?p")
    case True
    then show thesis using recv_clean_ok [OF ok i poc True, of blkSize "ev_tags e"] recv_clean_same [OF ok i poc True, of blkSize "ev_tags e"]
      len that by auto
  next
    case False
    then have "cpu_request blkSize ?p" "replaces_line blkSize ?p" "cf_isReadOnly (cfs ?i) \<longrightarrow> \<not> needsWritable (ap_cmd ?p)"
      using assms(2) by (auto simp: co_env_def)
    then show thesis using recv_ok [OF ok i poc, of blkSize ?p "ev_tags e"] recv_same [OF ok i poc, of blkSize ?p "ev_tags e"]
      len that by (auto simp: co_served_def)
  qed
  obtain v where v: "line_ok cfs xb v (mr_line r)" "length (ln_copies (mr_line r)) = n" using r(3) by blast
  define lns1 where "lns1 = (sy_line s)(?a := mr_line r)"
  have lines1: "lines_ok cfs xb n (?V(?a := v)) lns1" using lines_ok_update [OF lines v] by (simp add: lns1_def)
  have vic: "distinct (ev_victims e)" "list_all (\<lambda>b. own_copy ?i (lns1 b) \<noteq> None) (ev_victims e)"
    using assms(2) by (auto simp: co_env_def list_all_iff lns1_def)
  let ?vs = "if mr_allocated r then ev_victims e else []"
  obtain lns where l: "evict_victims blkSize cfs xb ?i ?vs lns1 = Some lns" "s' = \<lparr>sy_line = lns, sy_response = mr_pkt r\<rparr>"
    using assms(3) r(1) by (auto simp: co_step_def simp flip: lns1_def split: bind_splits)
  have "evict_victims blkSize cfs (without_filter xb) ?i ?vs (\<lambda>a. strip (lns1 a)) = Some (\<lambda>a. strip (lns a))"
    using evict_victims_same [OF lines1 poc vic, of blkSize] l(1) by (cases "mr_allocated r") simp_all
  moreover have "(\<lambda>a. strip (sy_line s a))(?a := strip (mr_line r)) = (\<lambda>a. strip (lns1 a))" by (auto simp: lns1_def)
  ultimately show ?thesis using r(2) l(2) by (simp add: co_step_def strip_system_def)
qed

text \<open>The system without a filter as the specification of the one with a filter.\<close>

interpretation filter_machine: refined_machine "co_step blkSize cfs xb" "co_env blkSize cfs n" "co_inv cfs xb n" strip_system
    "\<lambda>e t t'. co_step blkSize cfs (without_filter xb) e t = Some t'"
  for blkSize :: nat and cfs :: "nat \<Rightarrow> protocol_cfg" and xb :: xbar_cfg and n :: nat
  by unfold_locales (use co_step_same in blast)

lemma spec_run_function: "spec_run (\<lambda>e t t'. f e t = Some t') es t t' \<Longrightarrow> run f es t = Some t'"
  by (induction rule: spec_run.induct) auto

lemma strip_init [simp]: "strip_system (co_init n V r) = co_init n V r"
  by (simp add: strip_system_def strip_def strip_below_def co_init_def)

text \<open>
  C10: the snoop filter is transparent.  On every admissible sequence of requests from empty caches the
  system with a snoop filter, which snoops only the caches the filter names and none for an
  eviction, and the system without one, which snoops all of them, both succeed; the
  responses, the copies of every cache and the memory are the same.
\<close>

theorem snoop_filter_transparent:
  assumes "xb_pointOfCoherency xb" "xb_snoopFilter xb \<longrightarrow> n \<le> 256"
    and "admissible (co_step blkSize cfs xb) (co_env blkSize cfs n) es (co_init n V r)"
  shows "\<exists>s t. run (co_step blkSize cfs xb) es (co_init n V r) = Some s \<and>
    run (co_step blkSize cfs (xb\<lparr>xb_snoopFilter := False\<rparr>)) es (co_init n V r) = Some t \<and>
    sy_response t = sy_response s \<and>
    (\<forall>a. ln_copies (sy_line t a) = ln_copies (sy_line s a) \<and>
         be_mem (ln_below (sy_line t a)) = be_mem (ln_below (sy_line s a)))"
proof -
  obtain s where s: "run (co_step blkSize cfs xb) es (co_init n V r) = Some s"
    "spec_run (\<lambda>e t t'. co_step blkSize cfs (without_filter xb) e t = Some t') es (strip_system (co_init n V r)) (strip_system s)"
    using filter_machine.run_refines [OF co_init_ok(1) [OF assms(1,2)] assms(3)] by blast
  have "run (co_step blkSize cfs (without_filter xb)) es (co_init n V r) = Some (strip_system s)"
    using spec_run_function [OF s(2)] by simp
  then show ?thesis using s(1) by (simp add: without_filter_def strip_system_def)
qed

theorem snoop_filter_transparent_witness:
  "\<exists>s t. run (co_step 64 ex_caches ex_xbar) [ex_event 0 0 WriteReq 8 Not, ex_event 1 1 ReadReq 8 id, ex_event 1 1 SwapReq 8 Not]
      (co_init 2 (\<lambda>_. False) (new_packet InvalidCmd 0 0 False)) = Some s \<and>
    run (co_step 64 ex_caches (ex_xbar\<lparr>xb_snoopFilter := False\<rparr>))
      [ex_event 0 0 WriteReq 8 Not, ex_event 1 1 ReadReq 8 id, ex_event 1 1 SwapReq 8 Not]
      (co_init 2 (\<lambda>_. False) (new_packet InvalidCmd 0 0 False)) = Some t \<and>
    sy_response t = sy_response s \<and> ln_copies (sy_line t 0) = ln_copies (sy_line s 0)"
proof -
  have ex: "xb_pointOfCoherency ex_xbar" "xb_snoopFilter ex_xbar \<longrightarrow> (2 :: nat) \<le> 256" by (simp_all add: ex_xbar_def)
  have adm: "admissible (co_step 64 ex_caches ex_xbar) (co_env 64 ex_caches 2)
      [ex_event 0 0 WriteReq 8 Not, ex_event 1 1 ReadReq 8 id, ex_event 1 1 SwapReq 8 Not]
      (co_init 2 (\<lambda>_. False) (new_packet InvalidCmd 0 0 False))"
    by code_simp
  show ?thesis using snoop_filter_transparent [OF ex adm] by blast
qed

text \<open>
  C11: the filter knows every copy.  In every reachable state of a system with a snoop filter, a block
  that some cache holds has an entry in the filter, the bit of that cache is set among the
  holders, and no request is recorded as outstanding.
\<close>

theorem filter_knows_holders:
  assumes "xb_pointOfCoherency xb" "xb_snoopFilter xb" "n \<le> 256"
    and "admissible (co_step blkSize cfs xb) (co_env blkSize cfs n) es (co_init n V r)"
    and "run (co_step blkSize cfs xb) es (co_init n V r) = Some s" "own_copy k (sy_line s a) \<noteq> None"
  shows "\<exists>x. be_filter (ln_below (sy_line s a)) = Some x \<and> bit (si_holder x) k \<and> si_requested x = 0"
proof -
  have "co_inv cfs xb n s" using co_machine.run_inv [OF co_init_ok(1) assms(4,5)] assms(1-3) by simp
  then have "covers (be_filter (ln_below (sy_line s a))) (holders (sy_line s a))"
    using assms(2) by (simp add: co_inv_def line_ok_def filter_ok_def)
  then show ?thesis using assms(6) by (auto simp: covers_def holders_def split: option.splits)
qed

theorem filter_knows_holders_witness:
  "\<exists>s x. run (co_step 64 ex_caches ex_xbar) [ex_event 0 0 WriteReq 8 Not, ex_event 1 1 ReadReq 8 id]
      (co_init 2 (\<lambda>_. False) (new_packet InvalidCmd 0 0 False)) = Some s \<and>
    be_filter (ln_below (sy_line s 0)) = Some x \<and> bit (si_holder x) 1"
proof -
  let ?es = "[ex_event 0 0 WriteReq 8 Not, ex_event 1 1 ReadReq 8 id]"
    and ?s = "co_init 2 (\<lambda>_. False) (new_packet InvalidCmd 0 0 False)"
  have ex: "xb_pointOfCoherency ex_xbar" "xb_snoopFilter ex_xbar" "(2 :: nat) \<le> 256" by (simp_all add: ex_xbar_def)
  have adm: "admissible (co_step 64 ex_caches ex_xbar) (co_env 64 ex_caches 2) ?es ?s" by code_simp
  have "map_option (\<lambda>s. own_copy 1 (sy_line s 0) \<noteq> None) (run (co_step 64 ex_caches ex_xbar) ?es ?s) = Some True"
    by code_simp
  then obtain s where s: "run (co_step 64 ex_caches ex_xbar) ?es ?s = Some s" "own_copy 1 (sy_line s 0) \<noteq> None" by blast
  show ?thesis using filter_knows_holders [OF ex adm s] s(1) by blast
qed

end
