(* ===== verification/Spec2Isabelle.thy ===== *)
theory Spec2Isabelle
  imports EIP_System Prefetch_Multi Repl_Recency Repl_RRIP Tree_PLRU Repl_Emissary Dueling Base_Cache Cache_Queue Filter_Equivalence
begin

text \<open>
  A verification of the entangling instruction prefetcher (EIP) in gem5, of the prefetch queue it
  feeds, and of the cache it works for: tags, indexing, replacement, blocks, allocation and eviction.

  \<^bold>\<open>The program.\<close>  The repository adds EIP to the simulator gem5.  An instruction cache
  (\<open>mem/cache/base.cc\<close>, \<open>mem/cache/cache.cc\<close>) keeps its blocks in a tag store (\<open>mem/cache/tags\<close>), which maps an
  address to the ways of a set (\<open>tags/indexing_policies\<close>) and asks a replacement policy
  (\<open>mem/cache/replacement_policies\<close>) for a victim.  The cache tells its prefetcher about accesses, fills,
  invalidations and squashes through probes (\<open>prefetch/base.cc\<close>).  EIP (\<open>prefetch/eip.hh\<close>, \<open>prefetch/eip.cc\<close>)
  keeps a history of basic blocks, measures the latency of misses, and entangles a missing line
  with an earlier one that is timely; on an access to a source it proposes the
  destinations.  The proposals pass through a priority queue with translation and filters
  (\<open>prefetch/queued.cc\<close>), from which the cache takes the packets it sends.

  \<^bold>\<open>Conventions\<close> (\<open>Gem5_Prelude\<close>).  Integers that can wrap are words of their width; counters of
  statistics are unbounded.  A failed assertion, \<open>panic\<close>, \<open>fatal\<close> or access out of range is \<open>None\<close>, and every
  state change is explicit.  A loop is a structural recursion, \<open>find_index\<close>, a \<open>fold\<close>, or a
  function with a termination proof: there is no fuel.  The simulated time, random numbers, the translation buffer and the
  queries of the cache are arguments.

  \<^bold>\<open>The prefetcher.\<close>
  \<^item> \<open>EIP_Format\<close>: latencies and compressed destinations of \<open>eip.hh\<close>; compression is undone exactly for the destinations a format
    admits, and the chosen format is the tightest.
  \<^item> \<open>EIP_History\<close>: the ring of basic blocks; search, merge, choice of a timely source, squash.
  \<^item> \<open>Tag_Table\<close>: the locale of tables looked up by set and tag.  \<open>EIP_Timing\<close>: the two timing tables, which refine
    the sets of outstanding and of resident lines.
  \<^item> \<open>EIP_Entangled\<close>: the entangled table; insertion and lookup, confidences, eviction, relocation of sources.
  \<^item> \<open>EIP\<close>: the handlers of \<open>eip.cc\<close>.  No assertion fails on any admissible sequence of calls, and the
    timing tables mirror the cache.
  \<^item> \<open>Prefetch_Base\<close>, \<open>Queued\<close>: base class and queue; both queues stay bounded and free of duplicates,
    equal priorities are served in order, demand accesses remove queued prefetches.
  \<^item> \<open>Prefetch_Multi\<close>: the tagged prefetcher, a second client of the queue, and several prefetchers in one cache, which have a packet
    exactly when their common ready time has come.
  \<^item> \<open>EIP_System\<close>: EIP, its queue and the issue of prefetches by the cache (\<open>getNextQueueEntry\<close>) together.

  \<^bold>\<open>The cache.\<close>
  \<^item> \<open>Sat_Counter\<close>: saturating counters (\<open>base/sat_counter.hh\<close>).
  \<^item> \<open>Repl_Policy\<close>: the interface of the policies as the locale \<open>replacement_policy\<close>, with \<open>entry_policy\<close> for policies
    with separate data per entry.  \<open>Repl_Recency\<close>: LRU, BIP, SBIP, weighted LRU, MRU, FIFO, second chance,
    LFU, random.  \<open>Repl_RRIP\<close>: BRRIP and SHiP.  \<open>Tree_PLRU\<close>: tree pseudo-LRU.
    \<open>Repl_Emissary\<close>: the EMISSARY policy.  \<open>Dueling\<close>: set dueling, which makes a policy of two others (the locale
    \<open>dueling_pair\<close>), interpreted for DRRIP.  Each is an interpretation of the interface, so any sequence of calls
    on it is safe, and has a characterisation of its victim.
  \<^item> \<open>Cache_Blk\<close>: blocks, their life and their load locks; a store conditional is exclusive.
  \<^item> \<open>Indexing\<close>: bit fields, set associative and skewed associative policies; addresses can be regenerated
    from tag and position, since deskewing inverts skewing.
  \<^item> \<open>Set_Assoc\<close>: \<open>BaseTags\<close> and \<open>BaseSetAssoc\<close>, a client of the replacement policies through the locale \<open>tags_policy\<close>,
    interpreted for LRU and SBIP.  No address is cached twice, and the statistics count the valid blocks.
  \<^item> \<open>Base_Cache\<close>: allocation after a miss, eviction, write back, invalidation and its notification.
  \<^item> \<open>Mem_Cmd\<close>: the commands of packets with their attributes (\<open>mem/packet.hh\<close>); the table is well typed.
  \<^item> \<open>Mshr\<close>: miss status holding registers with their targets (\<open>mem/cache/mshr.cc\<close>); a register is a queue of requests, none of
    which is lost or overtaken.  \<open>Cache_Queue\<close>: the queue template, the miss queue and the write queue, and the choice
    of the next packet.  No assertion fails, misses drain, and a miss does not overtake a write of its block.

  \<^bold>\<open>The memory system in atomic mode.\<close>
  \<^item> \<open>Packets\<close>: packets as the caches and the crossbar see them (\<open>mem/packet.hh\<close>).  \<open>Snoop_Filter\<close>: the entry of a block in the snoop
    filter (\<open>mem/snoop_filter.cc\<close>) and the operations on it; each keeps the holders covered.
  \<^item> \<open>Atomic_Protocol\<close>: first level caches (\<open>mem/cache/cache.cc\<close> and the atomic paths of \<open>base.cc\<close>), the coherent crossbar
    (\<open>mem/coherent_xbar.cc\<close>) and the memory (\<open>mem/abstract_mem.cc\<close>), with the state kept by block.
  \<^item> \<open>Snoops\<close>: what each kind of snoop does to the copies of a block and to the packet, and the invariant of a line.
  \<^item> \<open>Coherence\<close>: the caches implement one memory, a writer is alone with its block, clean operations reach the memory;
    and two inputs on which values or reservations are wrong.  All of it with or without a snoop filter.
  \<^item> \<open>Filter_Equivalence\<close>: the filter records every holder, and the system with a filter behaves as the one that snoops every cache.

  \<open>Safe_Machine\<close> has the shape shared by the safety results: a step function that may fail, what the
  environment promises at an event, and an invariant; \<open>safe_machine\<close> and \<open>refined_machine\<close> lift one step to sequences.

  \<^bold>\<open>Assumptions.\<close>  The environment keeps to: an access is a hit exactly for lines EIP holds as resident;
  misses and prefetches are sent only while an MSHR is free; fills are of outstanding lines; line
  number 1, which EIP uses as a mark, is not accessed.  Indexing assumes that the sets of one way span at most
  4 GiB, and a read-only cache writes back clean blocks.  The eight-bit counters of EMISSARY bound its sets to 255 ways.
  The coherence results are for a crossbar that is the point of coherency, cacheable requests, and whole-line writes
  without a mask; the temporary block is written back before the next request.  A snoop filter has at most 256 caches above it,
  as its constructor demands.

  \<^bold>\<open>Not modelled.\<close>  Text output and derived statistics; the bytes of blocks (their contents are an abstract value, and a write is
  a function on it); floating-point comparisons are parameters (the accuracy of the throttle, the insertion threshold of
  SHiP), and the cost of a miss, a floating-point sum, is left out of the registers.  The local variable \<open>l1i_current_cycle\<close> of
  \<open>eip.hh\<close> is a function of the time.  Left out are the timing of requests, responses and snoops between ports, functional
  accesses, caches of higher levels, other tag stores, OPT and MLP-LIN policies, other
  prefetchers, compression, memory controllers, processors, the event queue and the configuration scripts:
  they are the environment here, and their calls are arbitrary sequences of events.
\<close>

end
